(* ===== verification/Monix_Prelude.thy ===== *)
theory Monix_Prelude
  imports Main "HOL-Library.Word"
begin

unbundle bit_operations_syntax

section \<open>Shared types, outcomes and lemmas\<close>

text \<open>
  This theory holds what every component of the development shares: the names of the
  machine types of \<^verbatim>\<open>libkern/tinylibc/stdint.h\<close>, \<^verbatim>\<open>kern/vm/vm_types.h\<close> and
  \<^verbatim>\<open>libkern/types.h\<close>, the outcomes a kernel routine can have, the sequencing of fallible
  routines, and the generic facts on lists and words the component proofs use.
\<close>

subsection \<open>Machine types\<close>

type_synonym u8 = "8 word"
type_synonym u16 = "16 word"
type_synonym u32 = "32 word"
type_synonym u64 = "64 word"

text \<open>\<^verbatim>\<open>int\<close> and \<^verbatim>\<open>integer_t\<close>: 32 bits, read with \<^const>\<open>sint\<close>.\<close>

type_synonym i32 = "32 word"

text \<open>\<^verbatim>\<open>vm_address_t\<close>, \<^verbatim>\<open>vm_size_t\<close>, \<^verbatim>\<open>phys_addr_t\<close> and every C pointer.\<close>

type_synonym addr = "64 word"

abbreviation NULL :: addr where
  "NULL \<equiv> 0"

subsection \<open>Outcomes\<close>

text \<open>
  A routine of the kernel either returns or it does not. It does not return when it calls
  \<^verbatim>\<open>panic\<close> (which ends in \<^verbatim>\<open>cpu_halt\<close>, a branch to itself), when an \<^verbatim>\<open>assert\<close> fails
  (which panics), or when one of its loops never ends. \<open>Undefined\<close> marks the executions in
  which the C source reads a variable it never wrote, so that no outcome can be predicted.
\<close>

datatype error = Panic string | AssertFailed string | Diverges | Undefined string

type_synonym 'a outcome = "error + 'a"

definition andthen :: "'a outcome \<Rightarrow> ('a \<Rightarrow> 'b outcome) \<Rightarrow> 'b outcome" where
  "andthen m f = (case m of Inl e \<Rightarrow> Inl e | Inr x \<Rightarrow> f x)"

text \<open>A loop defined by \<^theory_text>\<open>partial_function (option)\<close> that has no result never ends.\<close>

definition terminates :: "'a option \<Rightarrow> 'a outcome" where
  "terminates r = (case r of None \<Rightarrow> Inl Diverges | Some x \<Rightarrow> Inr x)"

definition returns :: "'a outcome \<Rightarrow> bool" where
  "returns m \<longleftrightarrow> (\<exists>x. m = Inr x)"

lemma andthen_simps [simp]:
  "andthen (Inl e) f = Inl e"
  "andthen (Inr x) f = f x"
  by (simp_all add: andthen_def)

lemma andthen_assoc: "andthen (andthen m f) g = andthen m (\<lambda>x. andthen (f x) g)"
  by (simp add: andthen_def split: sum.splits)

lemma andthen_eq_Inr [simp]: "andthen m f = Inr y \<longleftrightarrow> (\<exists>x. m = Inr x \<and> f x = Inr y)"
  by (simp add: andthen_def split: sum.splits)

lemma terminates_simps [simp]:
  "terminates None = Inl Diverges"
  "terminates (Some x) = Inr x"
  by (simp_all add: terminates_def)

lemma terminates_eq_Inr [simp]: "terminates r = Inr x \<longleftrightarrow> r = Some x"
  by (simp add: terminates_def split: option.splits)

subsection \<open>Collections of rewrite rules\<close>

named_theorems list_head_simps \<open>effect of one write to a list node\<close>
named_theorems frame_simps \<open>state components an operation leaves alone\<close>
named_theorems layout_simps \<open>sizes and field offsets of the C structures\<close>

subsection \<open>Lists\<close>

lemma last_Cons_append: "last (x # xs @ [y]) = y"
  by simp

lemma distinct_remove1_split:
  "distinct (xs @ x # ys) \<Longrightarrow> remove1 x (xs @ x # ys) = xs @ ys"
  by (induction xs) auto

lemma in_set_splitE:
  assumes "x \<in> set xs"
  obtains us vs where "xs = us @ x # vs"
  using assms by (auto simp: in_set_conv_decomp)

subsection \<open>Words\<close>

text \<open>An array of \<open>n\<close> objects of \<open>k\<close> bytes that fits in the address space has distinct slots.\<close>

lemma array_slot_inj:
  fixes base :: addr
  assumes "i * k < 2 ^ 64" "j * k < 2 ^ 64" "0 < k"
    and "base + word_of_nat (i * k) = base + word_of_nat (j * k)"
  shows "i = j"
proof -
  from assms(4) have "(word_of_nat (i * k) :: addr) = word_of_nat (j * k)" by simp
  then have "i * k = j * k"
    using assms(1,2) by (simp add: word_of_nat_eq_iff take_bit_nat_eq_self del: of_nat_mult)
  with assms(3) show ?thesis by simp
qed

lemma unat_add_no_wrap:
  fixes a b :: "'a::len word"
  assumes "unat a + unat b < 2 ^ LENGTH('a)"
  shows "unat (a + b) = unat a + unat b"
  using assms by (simp add: unat_word_ariths)

lemma unat_of_nat_no_wrap:
  "n < 2 ^ LENGTH('a::len) \<Longrightarrow> unat (word_of_nat n :: 'a word) = n"
  by (simp add: unat_of_nat take_bit_nat_eq_self)

text \<open>Small numbers survive the conversions between 32 and 64 bits.\<close>

lemma ucast_word_of_nat_32 [simp]: "ucast (word_of_nat n :: u64) = (word_of_nat n :: u32)"
  by (rule bit_word_eqI) (simp add: bit_simps)

lemma sint_of_nat_32: "n < 2 ^ 31 \<Longrightarrow> sint (word_of_nat n :: i32) = int n"
  by (simp add: signed_of_nat signed_take_bit_int_eq_self)

lemma scast_of_nat_32: "n < 2 ^ 31 \<Longrightarrow> scast (word_of_nat n :: i32) = (word_of_nat n :: u64)"
  using sint_of_nat_32 [of n] by (simp add: scast_eq)

lemma word_eq_of_nat: "unat w = n \<Longrightarrow> w = word_of_nat n"
  by auto

end
