(* ===== verification/Mmio.thy ===== *)
theory Mmio
  imports Monix_Prelude
begin

section \<open>Memory-mapped devices\<close>

text \<open>
  The drivers overlay a C structure on a device's register frame and read and write its members.
  This theory computes the offsets the C rules give to the members of such a structure, so that
  each driver's frame is the member list of its header, and models the accesses: a device answers
  a read as a function of everything done to it before, and a write is recorded. A loop that
  waits for a bit of a register may never end, so polling has no result when the bit stays set.
\<close>

subsection \<open>Register frames\<close>

text \<open>A member: name, size of an element, number of elements (1 for a scalar).\<close>

type_synonym member = "string \<times> nat \<times> nat"

definition align_up :: "nat \<Rightarrow> nat \<Rightarrow> nat" where
  "align_up n k = (n + k - 1) div k * k"

text \<open>Every member starts at the next multiple of its element size.\<close>

fun layout :: "nat \<Rightarrow> member list \<Rightarrow> (string \<times> nat) list" where
  "layout off [] = []"
| "layout off ((f, k, n) # ms) = (f, align_up off k) # layout (align_up off k + k * n) ms"

fun frame_end :: "nat \<Rightarrow> member list \<Rightarrow> nat" where
  "frame_end off [] = off"
| "frame_end off ((g, k, n) # ms) = frame_end (align_up off k + k * n) ms"

text \<open>The address of a member of the frame at \<open>base\<close>.\<close>

definition reg :: "member list \<Rightarrow> addr \<Rightarrow> string \<Rightarrow> addr" where
  "reg ms base f = base + word_of_nat (the (map_of (layout 0 ms) f))"

text \<open>The members that are registers: padding is named \<open>reserved\<close>.\<close>

definition registers :: "member list \<Rightarrow> (string \<times> nat) list" where
  "registers ms = filter (\<lambda>(f, a). take 8 f \<noteq> ''reserved'') (layout 0 ms)"

subsection \<open>Accesses\<close>

record io =
  io_writes :: "(addr \<times> u32) list"
  io_reads :: nat

text \<open>What a device answers to a read at an address after a history of accesses.\<close>

type_synonym device = "addr \<Rightarrow> io \<Rightarrow> u32"

definition mmio_write :: "addr \<Rightarrow> u32 \<Rightarrow> io \<Rightarrow> io" where
  "mmio_write a v s = s\<lparr>io_writes := io_writes s @ [(a, v)]\<rparr>"

definition mmio_read :: "device \<Rightarrow> addr \<Rightarrow> io \<Rightarrow> u32 \<times> io" where
  "mmio_read dev a s = (dev a s, s\<lparr>io_reads := Suc (io_reads s)\<rparr>)"

text \<open>\<^verbatim>\<open>while (mmio_read (a) & mask) {}\<close>\<close>

partial_function (option) mmio_poll :: "device \<Rightarrow> addr \<Rightarrow> u32 \<Rightarrow> io \<Rightarrow> io option" where
  "mmio_poll dev a bits s =
     (case mmio_read dev a s of (v, s') \<Rightarrow>
        if v AND bits \<noteq> 0 then mmio_poll dev a bits s' else Some s')"

definition io_after :: "nat \<Rightarrow> io \<Rightarrow> io" where
  "io_after k s = s\<lparr>io_reads := io_reads s + k\<rparr>"

text \<open>The device clears the bits of \<open>bits\<close> after finitely many reads, whatever happened before.\<close>

definition clears :: "device \<Rightarrow> addr \<Rightarrow> u32 \<Rightarrow> bool" where
  "clears dev a bits \<longleftrightarrow> (\<forall>s. \<exists>k. dev a (io_after k s) AND bits = 0)"

subsection \<open>Lemmas\<close>

lemma io_after_simps [simp]:
  "io_after 0 s = s"
  "io_after j (io_after k s) = io_after (k + j) s"
  "io_writes (io_after k s) = io_writes s"
  by (simp_all add: io_after_def ac_simps)

lemma mmio_read_eq: "mmio_read dev a s = (dev a s, io_after 1 s)"
  by (simp add: mmio_read_def io_after_def)

lemma mmio_write_writes [simp]: "io_writes (mmio_write a v s) = io_writes s @ [(a, v)]"
  by (simp add: mmio_write_def)

lemma mmio_poll_finishes:
  assumes "dev a (io_after k s) AND bits = 0"
  obtains n where "n \<le> k" "mmio_poll dev a bits s = Some (io_after (Suc n) s)"
    "dev a (io_after n s) AND bits = 0"
  using assms
proof (induction k arbitrary: s thesis)
  case 0
  then show ?case by (simp add: mmio_poll.simps [of dev a bits s] mmio_read_eq)
next
  case (Suc k)
  show ?case
  proof (cases "dev a s AND bits = 0")
    case True
    then show ?thesis
      by (intro Suc.prems(1) [of 0]) (simp_all add: mmio_poll.simps [of dev a bits s] mmio_read_eq)
  next
    case False
    from Suc.prems(2) have "dev a (io_after k (io_after 1 s)) AND bits = 0" by simp
    from Suc.IH [OF _ this] obtain n where "n \<le> k"
      "mmio_poll dev a bits (io_after 1 s) = Some (io_after (Suc n) (io_after 1 s))"
      "dev a (io_after n (io_after 1 s)) AND bits = 0" by metis
    with False show ?thesis
      by (intro Suc.prems(1) [of "Suc n"]) (simp_all add: mmio_poll.simps [of dev a bits s] mmio_read_eq)
  qed
qed

lemma mmio_poll_clears:
  assumes "clears dev a bits"
  obtains n where "mmio_poll dev a bits s = Some (io_after n s)"
  using assms mmio_poll_finishes unfolding clears_def by metis

text \<open>A bit that is never cleared keeps the loop running for ever.\<close>

lemma mmio_poll_stuck:
  assumes "\<And>k. dev a (io_after k s) AND bits \<noteq> 0"
  shows "mmio_poll dev a bits s = None"
proof (cases "mmio_poll dev a bits s")
  case (Some s')
  then have "\<exists>k. dev a (io_after k s) AND bits = 0"
  proof (rule mmio_poll.raw_induct [of "\<lambda>dev a bits s s'. \<exists>k. dev a (io_after k s) AND bits = 0", rotated])
    fix p dev a bits s s'
    assume p: "\<And>dev a bits s s'. p dev a bits s = Some s' \<Longrightarrow> \<exists>k. dev a (io_after k s) AND bits = 0"
      and "(case mmio_read dev a s of (v, s') \<Rightarrow> if v AND bits \<noteq> 0 then p dev a bits s' else Some s') = Some s'"
    then have "dev a (io_after 0 s) AND bits = 0 \<or> p dev a bits (io_after 1 s) = Some s'"
      by (simp add: mmio_read_eq split: if_splits)
    with p [of dev a bits "io_after 1 s" s'] have
      "dev a (io_after 0 s) AND bits = 0 \<or> (\<exists>k. dev a (io_after k (io_after 1 s)) AND bits = 0)" by blast
    then show "\<exists>k. dev a (io_after k s) AND bits = 0" by (metis io_after_simps(2))
  qed
  with assms show ?thesis by blast
qed

end
