(* ===== verification/Pl011.thy ===== *)
theory Pl011
  imports Mmio
begin

section \<open>The PL011 serial port\<close>

text \<open>
  \<^verbatim>\<open>drivers/pl011/pl011.c\<close>: the register frame, initialisation, and sending and receiving a
  character. Sending waits while the transmit fifo is full and receiving while the receive fifo
  is empty, so both may fail to return; the results are options. The interface the console builds
  on, a sink that takes characters in order, is the locale \<open>char_sink\<close>, which the driver's
  \<^verbatim>\<open>pl011_putc\<close> is proved to provide.
\<close>

subsection \<open>State and registers\<close>

definition pl011_regs :: "member list" where
  "pl011_regs = [(''dr'', 4, 1), (''ecr'', 4, 1), (''rs1'', 4, 1), (''rs2'', 4, 1), (''rs3'', 4, 1),
     (''rs4'', 4, 1), (''fr'', 4, 1), (''rs5'', 4, 1), (''ilpr'', 4, 1), (''ibrd'', 4, 1),
     (''fbrd'', 4, 1), (''lcr_h'', 4, 1), (''cr'', 4, 1), (''ifls'', 4, 1), (''imsc'', 4, 1)]"

record uart =
  pl011_base :: u64
  pl011_baud :: u64
  pl011_clock :: u64
  uart_io :: io

definition uart_write :: "string \<Rightarrow> u32 \<Rightarrow> 'a uart_scheme \<Rightarrow> 'a uart_scheme" where
  "uart_write f v u = u\<lparr>uart_io := mmio_write (reg pl011_regs (pl011_base u) f) v (uart_io u)\<rparr>"

subsection \<open>Operations\<close>

definition pl011_putc :: "device \<Rightarrow> u8 \<Rightarrow> 'a uart_scheme \<Rightarrow> 'a uart_scheme option" where
  "pl011_putc dev c u =
     (case mmio_poll dev (reg pl011_regs (pl011_base u) ''fr'') 0x20 (uart_io u) of
        None \<Rightarrow> None
      | Some s \<Rightarrow> Some (uart_write ''dr'' (ucast c) (u\<lparr>uart_io := s\<rparr>)))"

text \<open>The string is the bytes before its terminator.\<close>

fun pl011_puts :: "device \<Rightarrow> u8 list \<Rightarrow> 'a uart_scheme \<Rightarrow> 'a uart_scheme option" where
  "pl011_puts dev [] u = Some u"
| "pl011_puts dev (c # cs) u =
     (case pl011_putc dev c u of None \<Rightarrow> None | Some u' \<Rightarrow> pl011_puts dev cs u')"

definition pl011_getc :: "device \<Rightarrow> 'a uart_scheme \<Rightarrow> (u32 \<times> 'a uart_scheme) option" where
  "pl011_getc dev u =
     (case mmio_poll dev (reg pl011_regs (pl011_base u) ''fr'') 0x10 (uart_io u) of
        None \<Rightarrow> None
      | Some s \<Rightarrow> (case mmio_read dev (reg pl011_regs (pl011_base u) ''dr'') s of
          (v, s') \<Rightarrow> Some (v, u\<lparr>uart_io := s'\<rparr>)))"

abbreviation SERIAL_PL011_LCRH_WLEN_8 :: u32 where "SERIAL_PL011_LCRH_WLEN_8 \<equiv> push_bit 5 3"
abbreviation SERIAL_PL011_IMSC_RXIM :: u32 where "SERIAL_PL011_IMSC_RXIM \<equiv> push_bit 4 1"
abbreviation SERIAL_PL011_IMSC_RTIM :: u32 where "SERIAL_PL011_IMSC_RTIM \<equiv> push_bit 6 1"
abbreviation SERIAL_PL011_CR_UARTEN :: u32 where "SERIAL_PL011_CR_UARTEN \<equiv> push_bit 0 1"
abbreviation SERIAL_PL011_CR_TXE :: u32 where "SERIAL_PL011_CR_TXE \<equiv> push_bit 8 1"
abbreviation SERIAL_PL011_CR_RXE :: u32 where "SERIAL_PL011_CR_RXE \<equiv> push_bit 9 1"

definition pl011_init :: "u64 \<Rightarrow> u64 \<Rightarrow> u64 \<Rightarrow> 'a uart_scheme \<Rightarrow> 'a uart_scheme" where
  "pl011_init base baud clock u =
     (let u = u\<lparr>pl011_base := base, pl011_baud := baud, pl011_clock := clock\<rparr>;
          u = uart_write ''cr'' 0 u;
          divider = (ucast ((pl011_clock u * 4) div pl011_baud u) :: u32);
          u = uart_write ''ibrd'' (drop_bit 6 divider) u;
          u = uart_write ''fbrd'' (divider AND 0x3f) u;
          u = uart_write ''lcr_h'' SERIAL_PL011_LCRH_WLEN_8 u;
          u = uart_write ''imsc'' (SERIAL_PL011_IMSC_RXIM OR SERIAL_PL011_IMSC_RTIM) u
      in uart_write ''cr'' (SERIAL_PL011_CR_UARTEN OR SERIAL_PL011_CR_TXE OR SERIAL_PL011_CR_RXE) u)"

subsection \<open>The interface: a sink of characters\<close>

locale char_sink =
  fixes putc :: "'c \<Rightarrow> 's \<Rightarrow> 's option"
    and out :: "'s \<Rightarrow> 'c list"
    and same :: "'s \<Rightarrow> 's \<Rightarrow> bool"
    and live :: "'s \<Rightarrow> bool"
  assumes putc_out: "live s \<Longrightarrow> \<exists>s'. putc c s = Some s' \<and> out s' = out s @ [c] \<and> live s' \<and> same s s'"
    and same_refl: "same s s"
    and same_trans: "same s t \<Longrightarrow> same t u \<Longrightarrow> same s u"
begin

text \<open>\<open>s'\<close> is \<open>s\<close> after the characters \<open>cs\<close> and nothing else.\<close>

definition sent :: "'s \<Rightarrow> 'c list \<Rightarrow> 's \<Rightarrow> bool" where
  "sent s cs s' \<longleftrightarrow> out s' = out s @ cs \<and> live s' \<and> same s s'"

lemma sent_nil [simp]: "live s \<Longrightarrow> sent s [] s"
  by (simp add: sent_def same_refl)

lemma sent_live: "sent s cs s' \<Longrightarrow> live s'"
  by (simp add: sent_def)

lemma sent_trans: "sent s cs t \<Longrightarrow> sent t ds u \<Longrightarrow> sent s (cs @ ds) u"
  by (auto simp: sent_def intro: same_trans)

lemma putc_sent:
  assumes "live s"
  obtains s' where "putc c s = Some s'" "sent s [c] s'"
  using putc_out [OF assms] by (auto simp: sent_def)

lemma putc_sent_append:
  assumes "sent s cs t"
  obtains u where "putc c t = Some u" "sent s (cs @ [c]) u"
  using putc_sent [OF sent_live [OF assms]] sent_trans [OF assms] by metis

end

text \<open>The characters written to the data register, in order.\<close>

definition uart_out :: "'a uart_scheme \<Rightarrow> u8 list" where
  "uart_out u = map (ucast \<circ> snd) (filter (\<lambda>w. fst w = reg pl011_regs (pl011_base u) ''dr'') (io_writes (uart_io u)))"

text \<open>The transmit fifo drains.\<close>

definition uart_drains :: "device \<Rightarrow> 'a uart_scheme \<Rightarrow> bool" where
  "uart_drains dev u \<longleftrightarrow> clears dev (reg pl011_regs (pl011_base u) ''fr'') 0x20"

definition uart_same :: "'a uart_scheme \<Rightarrow> 'a uart_scheme \<Rightarrow> bool" where
  "uart_same u u' \<longleftrightarrow> pl011_base u' = pl011_base u \<and> pl011_baud u' = pl011_baud u \<and>
     pl011_clock u' = pl011_clock u \<and> uart.more u' = uart.more u"

lemma pl011_regs_offsets:
  "reg pl011_regs b ''dr'' = b" "reg pl011_regs b ''fr'' = b + 24"
  "reg pl011_regs b ''ibrd'' = b + 36" "reg pl011_regs b ''fbrd'' = b + 40"
  "reg pl011_regs b ''lcr_h'' = b + 44" "reg pl011_regs b ''cr'' = b + 48"
  "reg pl011_regs b ''imsc'' = b + 56"
  by (simp_all add: reg_def pl011_regs_def align_up_def)

lemma ucast_char [simp]: "(ucast (ucast (c :: u8) :: u32) :: u8) = c"
  by (rule bit_word_eqI) (simp add: bit_simps)

interpretation uart: char_sink "pl011_putc dev" uart_out uart_same "uart_drains dev" for dev :: device
proof
  fix s :: "'a uart_scheme" and c
  assume "uart_drains dev s"
  then obtain n where
    "mmio_poll dev (reg pl011_regs (pl011_base s) ''fr'') 0x20 (uart_io s) = Some (io_after n (uart_io s))"
    using mmio_poll_clears unfolding uart_drains_def by metis
  with \<open>uart_drains dev s\<close>
  show "\<exists>s'. pl011_putc dev c s = Some s' \<and> uart_out s' = uart_out s @ [c] \<and> uart_drains dev s' \<and> uart_same s s'"
    by (simp add: pl011_putc_def uart_write_def uart_out_def uart_drains_def uart_same_def
      ucast_char)
qed (simp_all add: uart_same_def)

lemma pl011_puts_sent:
  assumes "uart_drains dev u"
  obtains u' where "pl011_puts dev cs u = Some u'" "uart.sent dev u cs u'"
  using assms
proof (induction cs arbitrary: u thesis)
  case Nil
  then show ?case by simp
next
  case (Cons c cs)
  from uart.putc_sent [OF Cons.prems(2)] obtain v where
    v: "pl011_putc dev c u = Some v" "uart.sent dev u [c] v" .
  from Cons.IH [OF _ uart.sent_live [OF v(2)]] obtain u' where
    "pl011_puts dev cs v = Some u'" "uart.sent dev v cs u'" .
  with v uart.sent_trans [OF v(2)] show ?case by (intro Cons.prems(1)) auto
qed

end
