(* ===== verification/Tiny_String.thy ===== *)
theory Tiny_String
  imports Monix_Prelude
begin

section \<open>The C library's memory and string routines (libkern/tinylibc/string)\<close>

text \<open>
  Memory is a function from addresses to bytes. A routine whose loop is bounded by a count
  recurses on it; one that runs until it meets a zero byte is a partial function. Words are
  little-endian, and a word access reads or writes its eight bytes at once, which matters where
  source and destination overlap. Results of type \<^verbatim>\<open>int\<close> are integers, and a returned pointer is
  its address, 0 for \<^verbatim>\<open>NULL\<close>.
\<close>

unbundle bit_operations_syntax

type_synonym mem = "u64 \<Rightarrow> u8"

subsection \<open>Memory\<close>

definition aligned8 :: "u64 \<Rightarrow> bool" where
  "aligned8 a \<longleftrightarrow> a AND 7 = 0"

fun copy_bytes :: "nat \<Rightarrow> u64 \<Rightarrow> u64 \<Rightarrow> mem \<Rightarrow> mem" where
  "copy_bytes 0 d8 s8 m = m"
| "copy_bytes (Suc n) d8 s8 m = copy_bytes n (d8 + 1) (s8 + 1) (m(d8 := m s8))"

definition copy_word :: "u64 \<Rightarrow> u64 \<Rightarrow> mem \<Rightarrow> mem" where
  "copy_word dl sl m = (\<lambda>a. if a - dl < 8 then m (sl + (a - dl)) else m a)"

fun copy_words :: "nat \<Rightarrow> u64 \<Rightarrow> u64 \<Rightarrow> mem \<Rightarrow> mem" where
  "copy_words 0 dl sl m = m"
| "copy_words (Suc n) dl sl m = copy_words n (dl + 8) (sl + 8) (copy_word dl sl m)"

definition memcpy :: "u64 \<Rightarrow> u64 \<Rightarrow> u64 \<Rightarrow> mem \<Rightarrow> mem" where
  "memcpy dest src count m =
     (if src = dest then m
      else if (dest OR src) AND 7 = 0
      then let w = unat count div 8
           in copy_bytes (unat count mod 8) (dest + 8 * word_of_nat w) (src + 8 * word_of_nat w)
                (copy_words w dest src m)
      else copy_bytes (unat count) dest src m)"

text \<open>The backward loop of \<^verbatim>\<open>memmove\<close>: \<open>tmp\<close> and \<open>s\<close> point behind the next byte.\<close>

fun copy_bytes_down :: "nat \<Rightarrow> u64 \<Rightarrow> u64 \<Rightarrow> mem \<Rightarrow> mem" where
  "copy_bytes_down 0 tmp s m = m"
| "copy_bytes_down (Suc n) tmp s m = copy_bytes_down n (tmp - 1) (s - 1) (m(tmp - 1 := m (s - 1)))"

definition memmove :: "u64 \<Rightarrow> u64 \<Rightarrow> u64 \<Rightarrow> mem \<Rightarrow> mem" where
  "memmove dest src count m =
     (if dest \<le> src \<or> src + count \<le> dest then memcpy dest src count m
      else copy_bytes_down (unat count) (dest + count) (src + count) m)"

text \<open>
  The word \<^verbatim>\<open>memset\<close> builds: eight times, shift by 0 bits and or in the low byte of \<^verbatim>\<open>c\<close>.
\<close>

definition memset_word :: "i32 \<Rightarrow> u64" where
  "memset_word c = ((\<lambda>cl. push_bit 0 cl OR (ucast (c AND 0xff))) ^^ 8) 0"

definition store_word :: "u64 \<Rightarrow> u64 \<Rightarrow> mem \<Rightarrow> mem" where
  "store_word a w m = (\<lambda>b. if b - a < 8 then ucast (drop_bit (8 * unat (b - a)) w) else m b)"

fun set_words :: "nat \<Rightarrow> u64 \<Rightarrow> u64 \<Rightarrow> mem \<Rightarrow> mem" where
  "set_words 0 sl cl m = m"
| "set_words (Suc n) sl cl m = set_words n (sl + 8) cl (store_word sl cl m)"

fun set_bytes :: "nat \<Rightarrow> u64 \<Rightarrow> u8 \<Rightarrow> mem \<Rightarrow> mem" where
  "set_bytes 0 s8 c m = m"
| "set_bytes (Suc n) s8 c m = set_bytes n (s8 + 1) c (m(s8 := c))"

definition memset :: "u64 \<Rightarrow> i32 \<Rightarrow> u64 \<Rightarrow> mem \<Rightarrow> mem" where
  "memset s c count m =
     (if aligned8 s
      then let w = unat count div 8
           in set_bytes (unat count mod 8) (s + 8 * word_of_nat w) (ucast c) (set_words w s (memset_word c) m)
      else set_bytes (unat count) s (ucast c) m)"

fun memchr :: "u64 \<Rightarrow> u8 \<Rightarrow> nat \<Rightarrow> mem \<Rightarrow> u64" where
  "memchr p c 0 m = 0"
| "memchr p c (Suc n) m = (if c = m p then p else memchr (p + 1) c n m)"

fun memcmp :: "u64 \<Rightarrow> u64 \<Rightarrow> nat \<Rightarrow> mem \<Rightarrow> int" where
  "memcmp cs ct 0 m = 0"
| "memcmp cs ct (Suc n) m =
     (let res = uint (m cs) - uint (m ct) in if res \<noteq> 0 then res else memcmp (cs + 1) (ct + 1) n m)"

subsection \<open>Strings\<close>

partial_function (option) strlen_loop :: "u64 \<Rightarrow> mem \<Rightarrow> u64 option" where
  "strlen_loop s m = (if m s = 0 then Some s else strlen_loop (s + 1) m)"

definition strlen :: "u64 \<Rightarrow> mem \<Rightarrow> u64 option" where
  "strlen str m = (case strlen_loop str m of None \<Rightarrow> None | Some s \<Rightarrow> Some (s - str))"

text \<open>
  \<^verbatim>\<open>strnlen\<close> as the compiler parses it: the \<^verbatim>\<open>return\<close> is the body of the loop, so it returns in the
  first round, and otherwise runs off the end of the function without a value.
\<close>

definition strnlen :: "u64 \<Rightarrow> u64 \<Rightarrow> mem \<Rightarrow> u64 outcome" where
  "strnlen s count m =
     (if count \<noteq> 0 \<and> m s \<noteq> 0 then Inr (s - s) else Inl (Undefined ''strnlen: no value returned''))"

partial_function (option) strchr :: "u64 \<Rightarrow> u8 \<Rightarrow> mem \<Rightarrow> u64 option" where
  "strchr s c m = (if m s = c then Some s else if m s = 0 then Some 0 else strchr (s + 1) c m)"

partial_function (option) strrchr_loop :: "u64 \<Rightarrow> u64 \<Rightarrow> u8 \<Rightarrow> mem \<Rightarrow> u64 option" where
  "strrchr_loop p s c m =
     (if m p = c then Some p else if s \<le> p - 1 then strrchr_loop (p - 1) s c m else Some 0)"

definition strrchr :: "u64 \<Rightarrow> u8 \<Rightarrow> mem \<Rightarrow> u64 option" where
  "strrchr s c m = (case strlen s m of None \<Rightarrow> None | Some n \<Rightarrow> strrchr_loop (s + n) s c m)"

partial_function (option) strcmp :: "u64 \<Rightarrow> u64 \<Rightarrow> mem \<Rightarrow> int option" where
  "strcmp cs ct m =
     (let a = m cs; b = m ct; ret = uint a - uint b
      in if ret \<noteq> 0 \<or> b = 0 then Some ret else strcmp (cs + 1) (ct + 1) m)"

fun strncmp :: "u64 \<Rightarrow> u64 \<Rightarrow> nat \<Rightarrow> mem \<Rightarrow> int" where
  "strncmp s1 s2 0 m = 0"
| "strncmp s1 s2 (Suc n) m =
     (if m s1 \<noteq> m s2 then uint (m s1) - uint (m s2)
      else if m s1 = 0 then 0 else strncmp (s1 + 1) (s2 + 1) n m)"

definition strlcpy :: "u64 \<Rightarrow> u64 \<Rightarrow> u64 \<Rightarrow> mem \<Rightarrow> (u64 \<times> mem) option" where
  "strlcpy dest src sz m =
     (if sz = 0 then Some (0, m)
      else case strlen src m of
        None \<Rightarrow> None
      | Some srclen \<Rightarrow>
          let len = (if sz \<le> srclen then sz - 1 else srclen)
          in Some (len, (memcpy dest src len m)(dest + len := 0)))"

subsection \<open>Strings in memory\<close>

text \<open>\<open>xs\<close> is at \<open>a\<close>, followed by a zero byte, and contains none.\<close>

fun cstring :: "mem \<Rightarrow> u64 \<Rightarrow> u8 list \<Rightarrow> bool" where
  "cstring m a [] \<longleftrightarrow> m a = 0"
| "cstring m a (x # xs) \<longleftrightarrow> m a = x \<and> x \<noteq> 0 \<and> cstring m (a + 1) xs"

lemma strlen_loop_cstring: "cstring m a xs \<Longrightarrow> strlen_loop a m = Some (a + word_of_nat (length xs))"
proof (induction xs arbitrary: a)
  case Nil
  then show ?case by (subst strlen_loop.simps) simp
next
  case (Cons x xs)
  then show ?case by (subst strlen_loop.simps) (auto simp: algebra_simps)
qed

lemma strlen_cstring: "cstring m a xs \<Longrightarrow> strlen a m = Some (word_of_nat (length xs))"
  by (simp add: strlen_def strlen_loop_cstring)

text \<open>\<^verbatim>\<open>strcmp\<close> orders strings by their first difference, the end of a string counting as a zero.\<close>

fun str_order :: "u8 list \<Rightarrow> u8 list \<Rightarrow> int" where
  "str_order [] [] = 0"
| "str_order [] (y # ys) = - uint y"
| "str_order (x # xs) [] = uint x"
| "str_order (x # xs) (y # ys) = (if x = y then str_order xs ys else uint x - uint y)"

lemma strcmp_cstring: "cstring m a xs \<Longrightarrow> cstring m b ys \<Longrightarrow> strcmp a b m = Some (str_order xs ys)"
proof (induction xs ys arbitrary: a b rule: str_order.induct)
  case 1
  then show ?case by (subst strcmp.simps) (simp add: Let_def)
next
  case (2 y ys)
  then show ?case by (subst strcmp.simps) (auto simp: Let_def word_uint_eq_iff)
next
  case (3 x xs)
  then show ?case by (subst strcmp.simps) (simp add: Let_def)
next
  case (4 x xs y ys)
  then show ?case by (subst strcmp.simps) (auto simp: Let_def word_uint_eq_iff)
qed

lemma str_order_zero: "0 \<notin> set xs \<Longrightarrow> 0 \<notin> set ys \<Longrightarrow> str_order xs ys = 0 \<longleftrightarrow> xs = ys"
  by (induction xs ys rule: str_order.induct) (auto simp: word_uint_eq_iff)

lemma cstring_nonzero: "cstring m a xs \<Longrightarrow> 0 \<notin> set xs"
  by (induction xs arbitrary: a) auto


subsection \<open>Copying\<close>

text \<open>The memory after \<open>n\<close> bytes from \<open>s\<close> were copied to \<open>d\<close>, all read before any was written.\<close>

definition copied :: "nat \<Rightarrow> u64 \<Rightarrow> u64 \<Rightarrow> mem \<Rightarrow> mem" where
  "copied n d s m = (\<lambda>a. if unat (a - d) < n then m (s + (a - d)) else m a)"

text \<open>
  Copying upwards is right when no source byte is overwritten before it is read: for every byte
  \<open>j\<close> of the destination, \<open>d + j\<close> is not a source byte \<open>s + i\<close> with \<open>j < i\<close>.
\<close>

definition forward_ok :: "nat \<Rightarrow> u64 \<Rightarrow> u64 \<Rightarrow> bool" where
  "forward_ok n d s \<longleftrightarrow> (\<forall>i<n. \<forall>j<i. d + word_of_nat j \<noteq> s + word_of_nat i)"

lemma copied_add:
  assumes fwd: "forward_ok (k + n) d s" and fit: "k + n \<le> 2 ^ 64" and k: "k < 2 ^ 64"
  shows "copied n (d + word_of_nat k) (s + word_of_nat k) (copied k d s m) = copied (k + n) d s m"
proof
  fix a
  let ?x = "unat (a - d)" and ?k = "word_of_nat k :: u64"
  have uk: "unat ?k = k" using k by (simp add: unat_of_nat_no_wrap)
  have shift: "a - (d + ?k) = a - d - ?k" by simp
  show "copied n (d + ?k) (s + ?k) (copied k d s m) a = copied (k + n) d s m a"
  proof (cases "?x < k")
    case True
    then have "unat (?k - (a - d)) = k - ?x" using uk by (simp add: unat_sub word_le_nat_alt)
    then have "unat (- (a - d - ?k)) = k - ?x" by simp
    moreover have "n + unat (- w) \<le> 2 ^ 64 \<Longrightarrow> w \<noteq> 0 \<Longrightarrow> \<not> unat w < n" for w :: u64
    proof
      assume w: "n + unat (- w) \<le> 2 ^ 64" "w \<noteq> 0" "unat w < n"
      then have "unat (w + - w) = unat w + unat (- w)" by (intro unat_add_no_wrap) simp
      with w(2) show False by (simp add: unat_eq_zero)
    qed
    moreover have "a - d - ?k \<noteq> 0" using True uk by auto
    ultimately have "\<not> unat (a - d - ?k) < n" using fit True by simp
    then show ?thesis unfolding copied_def shift using True by simp
  next
    case False
    then have x: "unat (a - d - ?k) = ?x - k" using uk by (simp add: unat_sub word_le_nat_alt)
    have src: "s + ?k + (a - d - ?k) = s + (a - d)" by simp
    have "\<not> unat (s + (a - d) - d) < k" if "?x < k + n"
    proof
      let ?j = "unat (s + (a - d) - d)"
      assume "?j < k"
      then have "?j < ?x" using False by linarith
      then have "d + word_of_nat ?j \<noteq> s + word_of_nat ?x"
        by (rule fwd [unfolded forward_ok_def, rule_format, OF that])
      then show False by simp
    qed
    then show ?thesis unfolding copied_def shift src x using False by auto
  qed
qed

lemma forward_ok_shift:
  assumes "forward_ok (k + n) d s"
  shows "forward_ok k d s" "forward_ok n (d + word_of_nat k) (s + word_of_nat k)"
proof -
  show "forward_ok k d s" using assms by (simp add: forward_ok_def)
  have "d + word_of_nat k + word_of_nat j \<noteq> s + word_of_nat k + word_of_nat i" if "i < n" "j < i" for i j
    using assms [unfolded forward_ok_def, rule_format, of "k + i" "k + j"] that by (simp add: add.assoc)
  then show "forward_ok n (d + word_of_nat k) (s + word_of_nat k)" by (simp add: forward_ok_def)
qed

lemma copy_bytes_copied:
  assumes "forward_ok n d s" "n \<le> 2 ^ 64"
  shows "copy_bytes n d s m = copied n d s m"
  using assms
proof (induction n arbitrary: d s m)
  case 0
  then show ?case by (simp add: copied_def)
next
  case (Suc n)
  have f: "forward_ok (1 + n) d s" using Suc.prems(1) by simp
  have "m(d := m s) = copied 1 d s m" by (auto simp: copied_def unat_eq_zero)
  then have "copy_bytes (Suc n) d s m = copied n (d + 1) (s + 1) (copied 1 d s m)"
    using forward_ok_shift(2) [OF f] Suc by simp
  also have "\<dots> = copied (Suc n) d s m" using copied_add [OF f] Suc.prems(2) by simp
  finally show ?case .
qed

lemma copy_words_copied:
  assumes "forward_ok (8 * n) d s" "8 * n \<le> 2 ^ 64"
  shows "copy_words n d s m = copied (8 * n) d s m"
  using assms
proof (induction n arbitrary: d s m)
  case 0
  then show ?case by (simp add: copied_def)
next
  case (Suc n)
  have f: "forward_ok (8 + 8 * n) d s" using Suc.prems(1) by (simp add: add.commute)
  have "copy_word d s m = copied 8 d s m" by (simp add: copy_word_def copied_def word_less_nat_alt fun_eq_iff)
  then have "copy_words (Suc n) d s m = copied (8 * n) (d + 8) (s + 8) (copied 8 d s m)"
    using forward_ok_shift(2) [OF f] Suc by simp
  also have "\<dots> = copied (8 * Suc n) d s m" using copied_add [OF f] Suc.prems(2) by (simp add: add.commute)
  finally show ?case .
qed

lemma memcpy_copied:
  assumes "forward_ok (unat count) dest src"
  shows "memcpy dest src count m = copied (unat count) dest src m"
proof -
  let ?w = "unat count div 8" and ?r = "unat count mod 8"
  have n: "unat count = 8 * ?w + ?r" by simp
  have lt: "unat count < 2 ^ 64" using unsigned_less [of count] by simp
  have f: "forward_ok (8 * ?w + ?r) dest src" using assms by simp
  have le: "8 * ?w + ?r \<le> 2 ^ 64" "8 * ?w < 2 ^ 64" "8 * ?w \<le> 2 ^ 64" "?r \<le> 2 ^ 64" "unat count \<le> 2 ^ 64"
    using lt n by linarith+
  have "copy_bytes ?r (dest + 8 * word_of_nat ?w) (src + 8 * word_of_nat ?w) (copy_words ?w dest src m)
      = copied ?r (dest + word_of_nat (8 * ?w)) (src + word_of_nat (8 * ?w)) (copied (8 * ?w) dest src m)"
    using forward_ok_shift [OF f] le copy_words_copied copy_bytes_copied by simp
  also have "\<dots> = copied (8 * ?w + ?r) dest src m" by (rule copied_add [OF f le(1,2)])
  finally have "copy_bytes ?r (dest + 8 * word_of_nat ?w) (src + 8 * word_of_nat ?w) (copy_words ?w dest src m)
      = copied (unat count) dest src m" using n by simp
  moreover have "copied (unat count) dest dest m = m" by (auto simp: copied_def)
  ultimately show ?thesis
    using copy_bytes_copied [OF assms le(5)] by (auto simp: memcpy_def Let_def)
qed

text \<open>Downwards, the destination must lie above the source.\<close>

lemma copy_bytes_down_copied:
  assumes "\<And>i j. i < j \<Longrightarrow> j < n \<Longrightarrow> s + word_of_nat i \<noteq> d + word_of_nat j" "n \<le> 2 ^ 64"
  shows "copy_bytes_down n (d + word_of_nat n) (s + word_of_nat n) m = copied n d s m"
  using assms
proof (induction n arbitrary: m)
  case 0
  then show ?case by (simp add: copied_def)
next
  case (Suc n)
  let ?n = "word_of_nat n :: u64"
  have un: "unat ?n = n" using Suc.prems(2) by (intro unat_of_nat_no_wrap) simp
  have "copy_bytes_down (Suc n) (d + word_of_nat (Suc n)) (s + word_of_nat (Suc n)) m
      = copied n d s (m(d + ?n := m (s + ?n)))"
    using Suc by (simp add: add.commute add.left_commute)
  also have "\<dots> = copied (Suc n) d s m"
  proof
    fix a
    have "a = d + ?n \<longleftrightarrow> unat (a - d) = n"
    proof
      assume "unat (a - d) = n"
      then have "a - d = ?n" by (rule word_eq_of_nat)
      then show "a = d + ?n" by (simp add: diff_eq_eq add.commute)
    qed (simp add: un)
    moreover have "s + (a - d) \<noteq> d + ?n" if "unat (a - d) < n"
      using Suc.prems(1) [of "unat (a - d)" n] that by simp
    ultimately show "copied n d s (m(d + ?n := m (s + ?n))) a = copied (Suc n) d s m a"
      by (auto simp: copied_def less_Suc_eq)
  qed
  finally show ?case .
qed

lemma unat_offset:
  fixes d :: u64
  assumes "unat d + j < 2 ^ 64"
  shows "unat (d + word_of_nat j) = unat d + j"
proof -
  have "unat (word_of_nat j :: u64) = j" using assms by (intro unat_of_nat_no_wrap) simp
  then show ?thesis using assms by (simp add: unat_add_no_wrap)
qed

lemma forward_ok_below:
  assumes "unat d \<le> unat s" "unat s + n \<le> 2 ^ 64"
  shows "forward_ok n d s"
  unfolding forward_ok_def
proof (intro allI impI)
  fix i j
  assume "i < n" "j < i"
  then have "unat (d + word_of_nat j) < unat (s + word_of_nat i)"
    using assms unat_offset [of d j] unat_offset [of s i] by simp
  then show "d + word_of_nat j \<noteq> s + word_of_nat i" by auto
qed

lemma forward_ok_above:
  assumes "unat s + n \<le> unat d" "unat d + n \<le> 2 ^ 64"
  shows "forward_ok n d s"
  unfolding forward_ok_def
proof (intro allI impI)
  fix i j
  assume "i < n" "j < i"
  then have "unat (s + word_of_nat i) < unat (d + word_of_nat j)"
    using assms unat_offset [of d j] unat_offset [of s i] by simp
  then show "d + word_of_nat j \<noteq> s + word_of_nat i" by auto
qed

text \<open>\<^verbatim>\<open>memmove\<close> copies whatever the overlap.\<close>

lemma memmove_copied:
  assumes "unat src + unat count < 2 ^ 64" "unat dest + unat count < 2 ^ 64"
  shows "memmove dest src count m = copied (unat count) dest src m"
proof -
  have e: "unat (src + count) = unat src + unat count" using assms(1) by (simp add: unat_add_no_wrap)
  consider (up) "unat dest \<le> unat src" | (apart) "unat src + unat count \<le> unat dest"
    | (down) "unat src < unat dest" "unat dest < unat src + unat count" by linarith
  then show ?thesis
  proof cases
    case up
    then show ?thesis using memcpy_copied [OF forward_ok_below] assms(1) by (simp add: memmove_def word_le_nat_alt)
  next
    case apart
    then show ?thesis using memcpy_copied [OF forward_ok_above] assms(2) e by (simp add: memmove_def word_le_nat_alt)
  next
    case down
    have "src + word_of_nat i \<noteq> dest + word_of_nat j" if "i < j" "j < unat count" for i j
    proof -
      have "unat (src + word_of_nat i) < unat (dest + word_of_nat j)"
        using that down(1) assms unat_offset [of src i] unat_offset [of dest j] by simp
      then show ?thesis by auto
    qed
    from copy_bytes_down_copied [of "unat count" src dest m, OF this] assms(1) down e
    show ?thesis by (simp add: memmove_def word_le_nat_alt)
  qed
qed

subsection \<open>Filling\<close>

lemma memset_word_eq: "memset_word c = ucast (c AND 0xff)"
  by (simp add: memset_word_def numeral_eq_Suc)

lemma set_bytes_at:
  assumes "n \<le> 2 ^ 64"
  shows "set_bytes n s c m a = (if unat (a - s) < n then c else m a)"
  using assms
proof (induction n arbitrary: s m)
  case 0
  then show ?case by simp
next
  case (Suc n)
  show ?case
  proof (cases "a = s")
    case True
    have "unat (s - (s + 1)) = 2 ^ 64 - 1" by (simp add: unsigned_minus_1_eq_mask mask_eq_exp_minus_1)
    with True Suc show ?thesis by simp
  next
    case False
    then have nz: "unat (a - s) \<noteq> 0" by (simp add: unat_eq_zero)
    then have "(1 :: u64) \<le> a - s" by (simp add: word_le_nat_alt)
    then have "unat (a - (s + 1)) = unat (a - s) - 1" using unat_sub [of 1 "a - s"] by (simp add: diff_diff_eq)
    with False nz Suc show ?thesis by auto
  qed
qed

lemma unat_u64_less: "unat (w :: u64) < 2 ^ 64"
proof -
  have "unat w < 2 ^ LENGTH(64)" by (rule unsigned_less)
  then show ?thesis by simp
qed

lemma unat_diff_offset:
  fixes a s :: u64
  assumes "k < 2 ^ 64"
  shows "unat (a - (s + word_of_nat k)) =
     (if k \<le> unat (a - s) then unat (a - s) - k else 2 ^ 64 + unat (a - s) - k)"
proof -
  have k: "unat (word_of_nat k :: u64) = k" by (rule unat_of_nat_no_wrap) (use assms in simp)
  have d: "a - (s + word_of_nat k) = (a - s) - word_of_nat k" by (simp add: diff_diff_eq)
  show ?thesis
  proof (cases "k \<le> unat (a - s)")
    case True
    then have "(word_of_nat k :: u64) \<le> a - s" by (simp add: word_le_nat_alt k)
    from unat_sub [OF this] True show ?thesis by (simp only: d k if_True)
  next
    case False
    have "(a - s) - word_of_nat k = word_of_nat (2 ^ 64 + unat (a - s) - k)"
      using False assms by (simp add: of_nat_diff)
    moreover have "unat (word_of_nat (2 ^ 64 + unat (a - s) - k) :: u64) = 2 ^ 64 + unat (a - s) - k"
      by (rule unat_of_nat_no_wrap) (use False in simp)
    ultimately show ?thesis using False by (simp only: d if_False)
  qed
qed

lemma set_words_at:
  assumes "8 * n \<le> 2 ^ 64"
  shows "set_words n s cl m a =
     (if unat (a - s) < 8 * n then ucast (drop_bit (8 * (unat (a - s) mod 8)) cl) else m a)"
  using assms
proof (induction n arbitrary: s m)
  case 0
  then show ?case by simp
next
  case (Suc n)
  have u: "unat (a - (s + 8)) = (if 8 \<le> unat (a - s) then unat (a - s) - 8 else 2 ^ 64 + unat (a - s) - 8)"
    using unat_diff_offset [of 8 a s] by simp
  have lt: "a - s < 8 \<longleftrightarrow> unat (a - s) < 8" by (simp add: word_less_nat_alt)
  show ?case
  proof (cases "unat (a - s) < 8")
    case True
    then have "\<not> unat (a - (s + 8)) < 8 * n" using u Suc.prems by simp
    with True Suc show ?thesis by (simp add: store_word_def lt)
  next
    case False
    then have "unat (a - (s + 8)) = unat (a - s) - 8" using u by simp
    moreover have "(unat (a - s) - 8) mod 8 = unat (a - s) mod 8" using False by (simp add: le_mod_geq)
    ultimately show ?thesis using False Suc by (auto simp: store_word_def lt)
  qed
qed

lemma drop_byte:
  fixes c :: i32
  assumes "k < 8"
  shows "(ucast (drop_bit (8 * k) (ucast (c AND 0xff) :: u64)) :: u8) = (if k = 0 then ucast c else 0)"
proof (rule bit_word_eqI)
  fix n assume n: "n < LENGTH(8)"
  have "c AND 0xff = take_bit 8 c" by (simp add: take_bit_eq_mask mask_eq_exp_minus_1)
  then have f: "(ucast (c AND 0xff) :: u64) = ucast (take_bit 8 c)" by simp
  show "bit (ucast (drop_bit (8 * k) (ucast (c AND 0xff) :: u64)) :: u8) n =
        bit (if k = 0 then ucast c else 0 :: u8) n"
    using n assms unfolding f by (auto simp: bit_simps)
qed

lemma memset_at:
  "memset s c count m a =
     (if unat (a - s) < unat count
      then if aligned8 s \<and> unat (a - s) < unat count div 8 * 8 \<and> unat (a - s) mod 8 \<noteq> 0 then 0 else ucast c
      else m a)"
proof (cases "aligned8 s")
  case False
  have "unat count \<le> 2 ^ 64" using unat_u64_less [of count] by simp
  with False show ?thesis by (simp add: memset_def set_bytes_at)
next
  case True
  define w where "w = unat count div 8"
  have cnt: "unat count < 2 ^ 64" by (rule unat_u64_less)
  then have w: "8 * w < 2 ^ 64" "8 * w + unat count mod 8 = unat count" by (auto simp: w_def)
  have e: "s + 8 * word_of_nat w = s + word_of_nat (8 * w)" by simp
  have "set_words w s (memset_word c) m b = (if unat (b - s) < 8 * w
      then (if unat (b - s) mod 8 = 0 then ucast c else 0) else m b)" for b
    using set_words_at [of w s "memset_word c" m b] w(1) by (simp add: memset_word_eq drop_byte)
  moreover have "unat (a - (s + word_of_nat (8 * w))) < unat count mod 8 \<longleftrightarrow>
      8 * w \<le> unat (a - s) \<and> unat (a - s) < unat count"
    using unat_diff_offset [OF w(1), of a s] w cnt by auto
  moreover have "unat count mod 8 \<le> 2 ^ 64" using cnt by (simp add: order_trans [OF mod_less_eq_dividend])
  ultimately show ?thesis
    using True w by (auto simp: memset_def w_def [symmetric] Let_def set_bytes_at e simp del: of_nat_mult)
qed

lemma cstring_nth:
  "cstring m a xs \<longleftrightarrow> (\<forall>i<length xs. m (a + word_of_nat i) = xs ! i \<and> xs ! i \<noteq> 0) \<and> m (a + word_of_nat (length xs)) = 0"
proof (induction xs arbitrary: a)
  case (Cons x xs)
  have "(\<forall>i<length (x # xs). m (a + word_of_nat i) = (x # xs) ! i \<and> (x # xs) ! i \<noteq> 0) \<longleftrightarrow>
      m a = x \<and> x \<noteq> 0 \<and> (\<forall>i<length xs. m (a + 1 + word_of_nat i) = xs ! i \<and> xs ! i \<noteq> 0)"
    unfolding length_Cons All_less_Suc2 by (simp add: ac_simps)
  with Cons [of "a + 1"] show ?case by (simp add: ac_simps)
qed simp

lemma copied_at:
  assumes "i < 2 ^ 64"
  shows "copied n d s m (d + word_of_nat i) = (if i < n then m (s + word_of_nat i) else m (d + word_of_nat i))"
  using assms unat_of_nat_no_wrap [of i, where 'a = 64] by (simp add: copied_def)

lemma strlcpy_cstring:
  fixes sz dest src :: u64
  assumes "cstring m src xs" "sz \<noteq> 0" "length xs < 2 ^ 64"
  defines "n \<equiv> min (length xs) (unat sz - 1)"
  assumes "forward_ok n dest src"
  obtains m' where "strlcpy dest src sz m = Some (word_of_nat n, m')" "cstring m' dest (take n xs)"
    "\<And>a. n < unat (a - dest) \<Longrightarrow> m' a = m a"
proof -
  have n: "n < 2 ^ 64" "n \<le> length xs" using assms(3) by (auto simp: n_def)
  have un: "unat (word_of_nat n :: u64) = n" by (rule unat_of_nat_no_wrap) (use n in simp)
  have ul: "unat (word_of_nat (length xs) :: u64) = length xs"
    by (rule unat_of_nat_no_wrap) (use assms(3) in simp)
  have nz: "unat sz \<noteq> 0" using assms(2) by (simp add: unat_eq_zero)
  have "(if sz \<le> word_of_nat (length xs) then sz - 1 else word_of_nat (length xs)) = (word_of_nat n :: u64)"
  proof (cases "sz \<le> word_of_nat (length xs)")
    case True
    then have "unat sz \<le> length xs" by (simp add: word_le_nat_alt ul)
    moreover have "sz - 1 = word_of_nat (unat sz - 1)" using nz by (simp add: of_nat_diff)
    ultimately show ?thesis using True nz by (auto simp: n_def min_def)
  next
    case False
    then have "length xs < unat sz" by (simp add: word_le_nat_alt ul)
    then have "n = length xs" by (auto simp: n_def)
    with False show ?thesis by simp
  qed
  then have r: "strlcpy dest src sz m = Some (word_of_nat n, (copied n dest src m)(dest + word_of_nat n := 0))"
    using assms(2) memcpy_copied [of "word_of_nat n" dest src m] assms(5)
    by (simp add: strlcpy_def strlen_cstring [OF assms(1)] Let_def un)
  have ne: "word_of_nat i \<noteq> (word_of_nat n :: u64)" if "i < n" for i
  proof -
    have "unat (word_of_nat i :: u64) = i" by (rule unat_of_nat_no_wrap) (use that n(1) in simp)
    then show ?thesis using un that by auto
  qed
  have "cstring ((copied n dest src m)(dest + word_of_nat n := 0)) dest (take n xs)"
    using assms(1) n ne by (auto simp: cstring_nth copied_at min_def)
  moreover have "((copied n dest src m)(dest + word_of_nat n := 0)) a = m a" if "n < unat (a - dest)" for a
    using that un by (auto simp: copied_def)
  ultimately show thesis by (rule that [OF r])
qed

subsection \<open>Properties\<close>

text \<open>\<^verbatim>\<open>memmove\<close> copies correctly for every overlap of the two regions: the destination receives
  the original source bytes and nothing else changes, as long as neither region wraps around the
  address space.\<close>

theorem memmove_correct:
  fixes dest src count :: u64
  assumes "unat src + unat count < 2 ^ 64" "unat dest + unat count < 2 ^ 64"
  shows "memmove dest src count m a = (if unat (a - dest) < unat count then m (src + (a - dest)) else m a)"
  by (simp add: memmove_copied [OF assms] copied_def)

theorem memmove_correct_witness:
  "memmove 0x1003 0x1000 8 (\<lambda>a. ucast a) 0x1008 = 5"
  using memmove_correct [of "0x1000" 8 "0x1003" "\<lambda>a. ucast a" "0x1008"] by simp

text \<open>The exact effect of \<^verbatim>\<open>memset\<close>: bytes outside the region keep their value, and the region is
  filled with the value, except that in an eight-byte aligned region the words are built without
  shifting, so seven bytes of each whole word become zero. It is therefore correct for the value zero,
  the only one the kernel relies on, and for unaligned regions.\<close>

theorem memset_exact:
  "memset s c count m a =
     (if unat (a - s) < unat count
      then if aligned8 s \<and> unat (a - s) < unat count div 8 * 8 \<and> unat (a - s) mod 8 \<noteq> 0 then 0 else ucast c
      else m a)"
  by (rule memset_at)

text \<open>\<^verbatim>\<open>strcmp\<close> terminates on two strings, returns the difference of the first differing bytes, and so
  zero exactly for equal strings.\<close>

theorem strcmp_correct:
  assumes "cstring m a xs" "cstring m b ys"
  shows "strcmp a b m = Some (str_order xs ys) \<and> (strcmp a b m = Some 0 \<longleftrightarrow> xs = ys)"
  using strcmp_cstring [OF assms] str_order_zero [OF cstring_nonzero [OF assms(1)] cstring_nonzero [OF assms(2)]]
  by simp

definition sample_mem :: mem where
  "sample_mem = (\<lambda>_. 0)(0x10 := 97, 0x11 := 98, 0x12 := 99, 0x20 := 97, 0x21 := 98, 0x22 := 100)"

theorem strcmp_correct_witness: "strcmp 0x10 0x20 sample_mem = Some (- 1)"
  using strcmp_correct [of sample_mem "0x10" "[97, 98, 99]" "0x20" "[97, 98, 100]"] by (simp add: sample_mem_def)

text \<open>\<^verbatim>\<open>strlcpy\<close> always terminates the destination: it copies the source cut to one byte less than the
  buffer, returns the number of bytes copied, and writes nothing beyond the terminator.\<close>

theorem strlcpy_correct:
  fixes sz dest src :: u64
  assumes "cstring m src xs" "sz \<noteq> 0" "length xs < 2 ^ 64"
    and "n = min (length xs) (unat sz - 1)" "forward_ok n dest src"
  shows "\<exists>m'. strlcpy dest src sz m = Some (word_of_nat n, m') \<and> cstring m' dest (take n xs) \<and>
     (\<forall>a. n < unat (a - dest) \<longrightarrow> m' a = m a)"
proof -
  have "forward_ok (min (length xs) (unat sz - 1)) dest src" using assms(4,5) by simp
  from strlcpy_cstring [OF assms(1-3) this] show ?thesis unfolding assms(4) by blast
qed

theorem strlcpy_correct_witness:
  "\<exists>m'. strlcpy 0x30 0x10 3 sample_mem = Some (2, m') \<and> cstring m' 0x30 [97, 98]"
proof -
  have fwd: "forward_ok 2 (0x30 :: u64) 0x10" by (rule forward_ok_above) simp_all
  have c: "cstring sample_mem 0x10 [97, 98, 99]" by (simp add: sample_mem_def)
  have "\<exists>m'. strlcpy 0x30 0x10 3 sample_mem = Some (word_of_nat 2, m') \<and> cstring m' 0x30 (take 2 [97, 98, 99]) \<and>
      (\<forall>a. 2 < unat (a - 0x30) \<longrightarrow> m' a = sample_mem a)"
    by (rule strlcpy_correct [OF c _ _ _ fwd]) simp_all
  then obtain m' where "strlcpy 0x30 0x10 3 sample_mem = Some (word_of_nat 2, m')"
    "cstring m' 0x30 (take 2 [97, 98, 99])" by blast
  then show ?thesis by (intro exI [of _ m']) simp
qed

end
