(* ===== verification/Printk.thy ===== *)
theory Printk
  imports Pl011 Tiny_String
begin

section \<open>The console: printk\<close>

text \<open>
  \<^verbatim>\<open>kern/trace/printk.c\<close>: the log-level filter, the formatter and the number conversions. The
  formatter's local buffer is at an address \<open>buf\<close> of the byte memory, where the conversions
  write; a format is the bytes of a string literal, and the variable arguments are the 64-bit
  slots of an AArch64 \<^verbatim>\<open>va_list\<close>, of which \<^verbatim>\<open>va_arg (ap, unsigned int)\<close> reads the low half.
  The options word is a local the C code does not initialise: its first value is a parameter.
\<close>

abbreviation ch :: "char \<Rightarrow> u8" where "ch c \<equiv> of_char c"

abbreviation POPT_LONG :: u32 where "POPT_LONG \<equiv> push_bit 1 1"
abbreviation POPT_LONGLONG :: u32 where "POPT_LONGLONG \<equiv> push_bit 2 1"
abbreviation POPT_PADRIGHT :: u32 where "POPT_PADRIGHT \<equiv> push_bit 3 1"

abbreviation DEFAULTS_KERNEL_LOGLEVEL :: i32 where "DEFAULTS_KERNEL_LOGLEVEL \<equiv> 3"
abbreviation LOGLEVEL_DEFAULT :: i32 where "LOGLEVEL_DEFAULT \<equiv> 0"
abbreviation PK_FLAGS_CONT :: i32 where "PK_FLAGS_CONT \<equiv> 1"
abbreviation DEFAULTS_KERNEL_VM_PERIPH_BASE :: u64 where "DEFAULTS_KERNEL_VM_PERIPH_BASE \<equiv> 0xffffffff10000000"
abbreviation DEFAULTS_KERNEL_DEBUG_UART_BAUD :: u64 where "DEFAULTS_KERNEL_DEBUG_UART_BAUD \<equiv> 115200"
abbreviation DEFAULTS_KERNEL_DEBUG_UART_CLK :: u64 where "DEFAULTS_KERNEL_DEBUG_UART_CLK \<equiv> 0x16e3600"

record console = uart +
  console_initialised :: bool

subsection \<open>Number conversion\<close>

text \<open>Position \<open>pos\<close> of the buffer is address \<open>buf + pos\<close>; both loops fill it downwards.\<close>

definition buf_at :: "u64 \<Rightarrow> int \<Rightarrow> u64" where
  "buf_at buf pos = buf + word_of_int pos"

function llstr_loop :: "u64 \<Rightarrow> u64 \<Rightarrow> int \<Rightarrow> mem \<Rightarrow> mem \<times> u64" where
  "llstr_loop buf n pos m =
     (if 10 \<le> n
      then llstr_loop buf (n div 10) (pos - 1) (m(buf_at buf (pos - 1) := ucast (n mod 10) + ch CHR ''0''))
      else (m(buf_at buf (pos - 1) := ucast n + ch CHR ''0''), buf_at buf (pos - 1)))"
  by pat_completeness auto
termination
  by (relation "measure (\<lambda>(buf, n, pos, m). unat n)")
    (auto simp: unat_div word_le_nat_alt)

definition llstr :: "u64 \<Rightarrow> u64 \<Rightarrow> int \<Rightarrow> mem \<Rightarrow> mem \<times> u64" where
  "llstr buf n len m = llstr_loop buf n (len - 1) (m(buf_at buf (len - 1) := 0))"

definition hextable :: "u8 list" where
  "hextable = map of_char ''0123456789abcdef''"

function llhex_loop :: "u64 \<Rightarrow> u64 \<Rightarrow> int \<Rightarrow> mem \<Rightarrow> mem \<times> u64" where
  "llhex_loop buf u pos m =
     (let m' = m(buf_at buf (pos - 1) := hextable ! unat (u mod 16))
      in if u div 16 \<noteq> 0 then llhex_loop buf (u div 16) (pos - 1) m' else (m', buf_at buf (pos - 1)))"
  by pat_completeness auto
termination
  by (relation "measure (\<lambda>(buf, n, pos, m). unat n)")
    (auto simp: unat_div unat_eq_zero word_unat_eq_iff)

definition llhex :: "u64 \<Rightarrow> u64 \<Rightarrow> int \<Rightarrow> mem \<Rightarrow> mem \<times> u64" where
  "llhex buf u len m = llhex_loop buf u (len - 1) (m(buf_at buf (len - 1) := 0))"

declare llstr_loop.simps [simp del] llhex_loop.simps [simp del]

subsection \<open>Output\<close>

definition console_emit_stdout :: "device \<Rightarrow> u8 \<Rightarrow> console \<Rightarrow> console option" where
  "console_emit_stdout dev c s = (if c \<noteq> 0 then pl011_putc dev c s else Some s)"

text \<open>\<^verbatim>\<open>while (width-- > 0) __console_emit_stdout (c)\<close>: the loop runs \<open>width\<close> times.\<close>

fun emit_pad :: "device \<Rightarrow> u8 \<Rightarrow> nat \<Rightarrow> console \<Rightarrow> console option" where
  "emit_pad dev c 0 s = Some s"
| "emit_pad dev c (Suc n) s =
     (case console_emit_stdout dev c s of None \<Rightarrow> None | Some s' \<Rightarrow> emit_pad dev c n s')"

partial_function (option) emit_str :: "device \<Rightarrow> mem \<Rightarrow> u64 \<Rightarrow> console \<Rightarrow> console option" where
  "emit_str dev m str s =
     (if m str = 0 then Some s
      else case console_emit_stdout dev (m str) s of
        None \<Rightarrow> None | Some s' \<Rightarrow> emit_str dev m (str + 1) s')"

text \<open>The label \<^verbatim>\<open>output\<close>.\<close>

definition emit_output :: "device \<Rightarrow> mem \<Rightarrow> u32 \<Rightarrow> i32 \<Rightarrow> u64 \<Rightarrow> console \<Rightarrow> console option" where
  "emit_output dev m opts width str s =
     (case strlen str m of
        None \<Rightarrow> None
      | Some n \<Rightarrow>
          let w = nat (sint (width - ucast n)) in
          case (if opts AND POPT_PADRIGHT = 0 then emit_pad dev (ch CHR ''0'') w s else Some s) of
            None \<Rightarrow> None
          | Some s1 \<Rightarrow>
             (case emit_str dev m str s1 of
                None \<Rightarrow> None
              | Some s2 \<Rightarrow>
                  if opts AND POPT_PADRIGHT \<noteq> 0 then emit_pad dev (ch CHR '' '') w s2 else Some s2))"

text \<open>The cases of the \<^verbatim>\<open>switch\<close>; a character with no case falls through it.\<close>

datatype directive = Digit | Percent | Padright | Character | Long | Decimal | Hexadecimal | String | Other

definition directive_of :: "u8 \<Rightarrow> directive" where
  "directive_of c =
     (if ch CHR ''0'' \<le> c \<and> c \<le> ch CHR ''9'' then Digit
      else if c = ch CHR ''%'' then Percent
      else if c = ch CHR ''-'' then Padright
      else if c = ch CHR ''c'' then Character
      else if c = ch CHR ''l'' then Long
      else if c = ch CHR ''i'' \<or> c = ch CHR ''d'' then Decimal
      else if c = ch CHR ''p'' \<or> c = ch CHR ''x'' then Hexadecimal
      else if c = ch CHR ''s'' then String
      else Other)"

definition no_arg :: error where
  "no_arg = Undefined ''va_arg: no argument left''"

text \<open>
  \<open>emits_text\<close> is the loop over ordinary characters and \<open>emits_next\<close> the label \<^verbatim>\<open>next\<close> inside a
  directive. The result is the value the function returns, the memory and the console.
\<close>

fun emits_text :: "device \<Rightarrow> u64 \<Rightarrow> u8 list \<Rightarrow> u64 list \<Rightarrow> u32 \<Rightarrow> i32 \<Rightarrow> mem \<Rightarrow> console
    \<Rightarrow> (i32 \<times> mem \<times> console) outcome"
and emits_next :: "device \<Rightarrow> u64 \<Rightarrow> u8 list \<Rightarrow> u64 list \<Rightarrow> u32 \<Rightarrow> i32 \<Rightarrow> mem \<Rightarrow> console
    \<Rightarrow> (i32 \<times> mem \<times> console) outcome" where
  "emits_text dev buf [] ap opts width m s = Inr (width, m, s)"
| "emits_text dev buf (c # fmt) ap opts width m s =
     (if c = 0 then Inr (width, m, s)
      else if c = ch CHR ''%'' then emits_next dev buf fmt ap opts width m s
      else andthen (terminates (console_emit_stdout dev c s)) (emits_text dev buf fmt ap opts width m))"
| "emits_next dev buf [] ap opts width m s = Inr (width, m, s)"
| "emits_next dev buf (c # fmt) ap opts width m s =
     (if c = 0 then Inr (width, m, s)
      else case directive_of c of
        Digit \<Rightarrow> emits_next dev buf fmt ap opts (width * 10 + ucast c - ucast (ch CHR ''0'')) m s
      | Percent \<Rightarrow> andthen (terminates (console_emit_stdout dev (ch CHR ''%'') s))
          (emits_text dev buf fmt ap opts width m)
      | Padright \<Rightarrow> emits_next dev buf fmt ap (opts OR POPT_PADRIGHT) width m s
      | Character \<Rightarrow> (case ap of
            [] \<Rightarrow> Inl no_arg
          | a # ap \<Rightarrow> andthen (terminates (console_emit_stdout dev (ucast (ucast a :: u32)) s))
              (emits_text dev buf fmt ap opts width m))
      | Long \<Rightarrow> emits_next dev buf fmt ap
          ((if opts AND POPT_LONG \<noteq> 0 then opts OR POPT_LONGLONG else opts) OR POPT_LONG) width m s
      | Decimal \<Rightarrow> (case ap of
            [] \<Rightarrow> Inl no_arg
          | a # ap \<Rightarrow> (case llstr buf (ucast (ucast a :: u32)) 64 m of (m, str) \<Rightarrow>
              andthen (terminates (emit_output dev m opts width str s)) (emits_text dev buf fmt ap opts 0 m)))
      | Hexadecimal \<Rightarrow> (case ap of
            [] \<Rightarrow> Inl no_arg
          | a # ap \<Rightarrow> (case llhex buf a 64 m of (m, str) \<Rightarrow>
              andthen (terminates (emit_output dev m opts width str s)) (emits_text dev buf fmt ap opts 0 m)))
      | String \<Rightarrow> (case ap of
            [] \<Rightarrow> Inl no_arg
          | a # ap \<Rightarrow> andthen (terminates (emit_output dev m opts width a s))
              (emits_text dev buf fmt ap opts 0 m))
      | Other \<Rightarrow> emits_text dev buf fmt ap opts width m s)"

definition console_emits :: "device \<Rightarrow> u64 \<Rightarrow> u32 \<Rightarrow> u8 list \<Rightarrow> u64 list \<Rightarrow> mem \<Rightarrow> console
    \<Rightarrow> (i32 \<times> mem \<times> console) outcome" where
  "console_emits dev buf opts fmt ap m s =
     (if \<not> console_initialised s then Inr (- 1, m, s) else emits_text dev buf fmt ap opts 0 m s)"

subsection \<open>The printk interface\<close>

text \<open>Both branches on the flags call the formatter.\<close>

definition vprintk_level :: "device \<Rightarrow> u64 \<Rightarrow> u32 \<Rightarrow> i32 \<Rightarrow> i32 \<Rightarrow> u8 list \<Rightarrow> u64 list \<Rightarrow> mem \<Rightarrow> console
    \<Rightarrow> (i32 \<times> mem \<times> console) outcome" where
  "vprintk_level dev buf opts level flags fmt args m s =
     (if sint DEFAULTS_KERNEL_LOGLEVEL < sint level then Inr (0, m, s)
      else if flags AND PK_FLAGS_CONT \<noteq> 0 then console_emits dev buf opts fmt args m s
      else console_emits dev buf opts fmt args m s)"

definition printk :: "device \<Rightarrow> u64 \<Rightarrow> u32 \<Rightarrow> i32 \<Rightarrow> i32 \<Rightarrow> u8 list \<Rightarrow> u64 list \<Rightarrow> mem \<Rightarrow> console
    \<Rightarrow> (i32 \<times> mem \<times> console) outcome" where
  "printk dev buf opts level flags fmt args m s = vprintk_level dev buf opts level flags fmt args m s"

definition vprintk :: "device \<Rightarrow> u64 \<Rightarrow> u32 \<Rightarrow> u8 list \<Rightarrow> u64 list \<Rightarrow> mem \<Rightarrow> console
    \<Rightarrow> (i32 \<times> mem \<times> console) outcome" where
  "vprintk dev buf opts fmt args m s = vprintk_level dev buf opts LOGLEVEL_DEFAULT 0 fmt args m s"

definition console_setup :: "device \<Rightarrow> console \<Rightarrow> console option" where
  "console_setup dev s =
     (let s = pl011_init DEFAULTS_KERNEL_VM_PERIPH_BASE DEFAULTS_KERNEL_DEBUG_UART_BAUD
                DEFAULTS_KERNEL_DEBUG_UART_CLK s
      in case pl011_puts dev [0x0a] s of
           None \<Rightarrow> None | Some s' \<Rightarrow> Some (s'\<lparr>console_initialised := True\<rparr>))"

subsection \<open>Digits\<close>

function digits :: "nat \<Rightarrow> nat \<Rightarrow> nat list" where
  "digits b n = (if n < b \<or> b < 2 then [n] else digits b (n div b) @ [n mod b])"
  by pat_completeness auto
termination
  by (relation "measure snd") auto

declare digits.simps [simp del]

text \<open>The number a list of digits in base \<open>b\<close> denotes.\<close>

definition digits_value :: "nat \<Rightarrow> nat list \<Rightarrow> nat" where
  "digits_value b ds = foldl (\<lambda>v d. v * b + d) 0 ds"

lemma digits_value_snoc [simp]: "digits_value b (ds @ [d]) = digits_value b ds * b + d"
  by (simp add: digits_value_def)

lemma digits_value_digits: "digits_value b (digits b n) = n"
proof (induction b n rule: digits.induct)
  case (1 b n)
  then show ?case
    by (subst digits.simps) (auto simp: digits_value_def [of _ "[_]"] simp del: digits_value_snoc, simp)
qed

lemma digits_less: "2 \<le> b \<Longrightarrow> d \<in> set (digits b n) \<Longrightarrow> d < b"
proof (induction b n rule: digits.induct)
  case (1 b n)
  then show ?case by (auto simp: digits.simps [of b n] split: if_splits)
qed

lemma digits_nonempty [simp]: "digits b n \<noteq> []"
  by (subst digits.simps) simp

lemma digits_length:
  "2 \<le> b \<Longrightarrow> n < b ^ Suc k \<Longrightarrow> length (digits b n) \<le> Suc k"
proof (induction k arbitrary: n)
  case 0
  then show ?case by (simp add: digits.simps [of b n])
next
  case (Suc k)
  from Suc.prems have "n div b < b ^ Suc k" by (simp add: less_mult_imp_div_less mult.commute)
  with Suc show ?case by (simp add: digits.simps [of b n])
qed

text \<open>No leading zero, but for zero itself.\<close>

lemma digits_hd: "2 \<le> b \<Longrightarrow> n \<noteq> 0 \<Longrightarrow> hd (digits b n) \<noteq> 0"
proof (induction b n rule: digits.induct)
  case (1 b n)
  show ?case
  proof (cases "n < b")
    case False
    with 1 have "n div b \<noteq> 0" by (auto simp: div_eq_0_iff)
    with False 1 show ?thesis by (subst digits.simps) simp
  qed (use 1 in \<open>simp add: digits.simps [of b n]\<close>)
qed

definition decimal :: "nat \<Rightarrow> u8 list" where
  "decimal n = map (\<lambda>d. word_of_nat d + ch CHR ''0'') (digits 10 n)"

definition hexadecimal :: "nat \<Rightarrow> u8 list" where
  "hexadecimal n = map (\<lambda>d. hextable ! d) (digits 16 n)"

subsection \<open>Bytes stored in memory\<close>

definition put_bytes :: "u64 \<Rightarrow> u8 list \<Rightarrow> mem \<Rightarrow> mem" where
  "put_bytes a xs m = (\<lambda>b. if unat (b - a) < length xs then xs ! unat (b - a) else m b)"

lemma put_bytes_snoc:
  assumes "length xs < 2 ^ 64"
  shows "put_bytes a xs (m(a + word_of_nat (length xs) := x)) = put_bytes a (xs @ [x]) m"
proof
  fix b
  have "unat (word_of_nat (length xs) :: u64) = length xs"
    using assms by (intro unat_of_nat_no_wrap) simp
  moreover have "b = a + word_of_nat (length xs) \<longleftrightarrow> b - a = word_of_nat (length xs)"
    by (metis add_diff_cancel_left' diff_add_cancel add.commute)
  ultimately have "b = a + word_of_nat (length xs) \<longleftrightarrow> unat (b - a) = length xs"
    by (simp add: word_unat_eq_iff)
  then show "put_bytes a xs (m(a + word_of_nat (length xs) := x)) b = put_bytes a (xs @ [x]) m b"
    by (auto simp: put_bytes_def nth_append)
qed

lemma put_bytes_cstring:
  assumes "length xs < 2 ^ 64" "0 \<notin> set xs" "m (a + word_of_nat (length xs)) = 0"
  shows "cstring (put_bytes a xs m) a xs"
proof -
  have "put_bytes a xs m (a + word_of_nat i) = (if i < length xs then xs ! i else m (a + word_of_nat i))"
    if "i \<le> length xs" for i
    using that assms(1) unat_of_nat_no_wrap [where 'a = 64, of i] by (simp add: put_bytes_def)
  with assms(2,3) show ?thesis by (auto simp: cstring_nth dest: nth_mem)
qed

lemma put_bytes_single: "put_bytes a [x] m = m(a := x)"
proof -
  have "put_bytes a [] m' = m'" for m' by (simp add: put_bytes_def)
  with put_bytes_snoc [of "[]" a m x] show ?thesis by simp
qed

lemma put_bytes_outside: "length xs \<le> unat (b - a) \<Longrightarrow> put_bytes a xs m b = m b"
  by (simp add: put_bytes_def)

subsection \<open>Correctness of the conversions\<close>

lemma buf_at_shift: "buf_at buf (pos - int k) + word_of_nat k = buf_at buf pos"
  by (simp add: buf_at_def)

lemma decimal_step:
  "decimal n = (if n < 10 then [word_of_nat n + ch CHR ''0''] else decimal (n div 10) @ [word_of_nat (n mod 10) + ch CHR ''0''])"
  unfolding decimal_def by (subst digits.simps) simp

lemma hexadecimal_step:
  "hexadecimal n = (if n < 16 then [hextable ! n] else hexadecimal (n div 16) @ [hextable ! (n mod 16)])"
  unfolding hexadecimal_def by (subst digits.simps) simp

lemma decimal_length: "length (decimal (unat (n :: u64))) \<le> 20"
  unfolding decimal_def using digits_length [of 10 "unat n" 19] unat_u64_less [of n] by simp

lemma hexadecimal_length: "length (hexadecimal (unat (n :: u64))) \<le> 16"
  unfolding hexadecimal_def using digits_length [of 16 "unat n" 15] unat_u64_less [of n] by simp

lemma put_bytes_snoc_at:
  assumes "length xs < 2 ^ 64"
  shows "put_bytes (buf_at buf (pos - int (length xs))) xs (m(buf_at buf pos := x)) =
     put_bytes (buf_at buf (pos - int (length xs))) (xs @ [x]) m"
  using put_bytes_snoc [OF assms, of "buf_at buf (pos - int (length xs))" m x]
  by (simp only: buf_at_shift)

lemma llstr_loop_eq:
  "llstr_loop buf n pos m =
     (let xs = decimal (unat n); a = buf_at buf (pos - int (length xs)) in (put_bytes a xs m, a))"
proof (induction buf n pos m rule: llstr_loop.induct)
  case (1 buf n pos m)
  show ?case
  proof (cases "10 \<le> n")
    case True
    define xs where "xs = decimal (unat (n div 10))"
    define x where "x = ucast (n mod 10) + ch CHR ''0''"
    have "unat n div 10 = unat (n div 10)" "unat n mod 10 = unat (n mod 10)"
      by (simp_all add: unat_div unat_mod)
    with decimal_step [of "unat n"] True have dec: "decimal (unat n) = xs @ [x]"
      by (simp add: xs_def x_def word_le_nat_alt del: of_nat_mod)
    have "length xs < 2 ^ 64" using decimal_length [of "n div 10"] by (simp add: xs_def)
    note snoc = put_bytes_snoc_at [OF this]
    have "llstr_loop buf n pos m = llstr_loop buf (n div 10) (pos - 1) (m(buf_at buf (pos - 1) := x))"
      using True by (subst llstr_loop.simps) (simp add: x_def)
    also have "\<dots> = (let a = buf_at buf (pos - 1 - int (length xs)) in
        (put_bytes a xs (m(buf_at buf (pos - 1) := x)), a))"
      using 1 [OF True] by (simp only: xs_def x_def Let_def)
    finally show ?thesis by (simp only: snoc dec Let_def length_append list.size)
      (simp add: algebra_simps)
  next
    case False
    then show ?thesis
      by (subst llstr_loop.simps)
        (simp add: decimal_step [of "unat n"] word_le_nat_alt Let_def put_bytes_single)
  qed
qed

lemma llhex_loop_eq:
  "llhex_loop buf n pos m =
     (let xs = hexadecimal (unat n); a = buf_at buf (pos - int (length xs)) in (put_bytes a xs m, a))"
proof (induction buf n pos m rule: llhex_loop.induct)
  case (1 buf n pos m)
  have divmod: "unat n div 16 = unat (n div 16)" "unat n mod 16 = unat (n mod 16)"
    by (simp_all add: unat_div unat_mod)
  define x where "x = hextable ! unat (n mod 16)"
  show ?case
  proof (cases "n div 16 = 0")
    case False
    define xs where "xs = hexadecimal (unat (n div 16))"
    from False have "\<not> unat n < 16" by (simp add: word_unat_eq_iff unat_div div_eq_0_iff)
    with hexadecimal_step [of "unat n"] have hex: "hexadecimal (unat n) = xs @ [x]"
      by (simp add: xs_def x_def divmod)
    have "length xs < 2 ^ 64" using hexadecimal_length [of "n div 16"] by (simp add: xs_def)
    note snoc = put_bytes_snoc_at [OF this]
    have "llhex_loop buf n pos m = llhex_loop buf (n div 16) (pos - 1) (m(buf_at buf (pos - 1) := x))"
      using False by (subst llhex_loop.simps) (simp add: x_def)
    also have "\<dots> = (let a = buf_at buf (pos - 1 - int (length xs)) in
        (put_bytes a xs (m(buf_at buf (pos - 1) := x)), a))"
      using 1 [OF refl False] by (simp only: xs_def x_def Let_def)
    finally show ?thesis by (simp only: snoc hex Let_def length_append list.size)
      (simp add: algebra_simps)
  next
    case True
    then have "unat n < 16" by (simp add: word_unat_eq_iff unat_div div_eq_0_iff)
    with hexadecimal_step [of "unat n"] have hex: "hexadecimal (unat n) = [x]"
      using divmod(2) by (simp add: x_def)
    have "llhex_loop buf n pos m = (m(buf_at buf (pos - 1) := x), buf_at buf (pos - 1))"
      using True by (subst llhex_loop.simps) (simp add: x_def)
    with hex show ?thesis by (simp add: put_bytes_single Let_def)
  qed
qed

text \<open>Memory outside the 64 bytes of the buffer.\<close>

definition off_buf :: "u64 \<Rightarrow> u64 \<Rightarrow> bool" where
  "off_buf buf a \<longleftrightarrow> 64 \<le> unat (a - buf)"

lemma buffered_string:
  fixes m :: mem
  assumes xs: "length xs \<le> 63" "0 \<notin> set xs"
    and a: "a = buf_at buf (63 - int (length xs))"
  defines "m' \<equiv> put_bytes a xs (m(buf_at buf 63 := 0))"
  shows "cstring m' a xs" and "\<And>b. off_buf buf b \<Longrightarrow> m' b = m b"
proof -
  have "a + word_of_nat (length xs) = buf_at buf 63" by (simp add: a buf_at_shift)
  with xs show "cstring m' a xs"
    unfolding m'_def by (intro put_bytes_cstring) (auto intro: le_less_trans)
  fix b assume b: "off_buf buf b"
  have a': "a = buf + word_of_nat (63 - length xs)"
    using xs by (simp add: a buf_at_def of_nat_diff)
  have "63 - length xs < (2 :: nat) ^ 64" by (rule le_less_trans [of _ 63]) simp_all
  from unat_diff_offset [OF this, of b buf] b xs have "length xs \<le> unat (b - a)"
    by (simp add: off_buf_def a' del: of_nat_diff) linarith
  moreover from b have "b \<noteq> buf_at buf 63" by (auto simp: off_buf_def buf_at_def)
  ultimately show "m' b = m b" by (simp add: m'_def put_bytes_outside)
qed

lemma hextable_nonzero: "d < 16 \<Longrightarrow> hextable ! d \<noteq> 0"
proof -
  have "\<forall>x\<in>set hextable. x \<noteq> 0" by (simp add: hextable_def)
  moreover have "length hextable = 16" by (simp add: hextable_def)
  ultimately show "d < 16 \<Longrightarrow> hextable ! d \<noteq> 0" by simp
qed

lemma hexadecimal_nonzero: "0 \<notin> set (hexadecimal n)"
proof -
  have "hextable ! d \<noteq> 0" if "d \<in> set (digits 16 n)" for d
    using digits_less [of 16 d n] that by (intro hextable_nonzero) simp
  then show ?thesis by (auto simp: hexadecimal_def)
qed

lemma decimal_char:
  assumes "d < 10"
  shows "unat (word_of_nat d + ch CHR ''0'') = d + 48"
  using assms unat_of_nat_no_wrap [where 'a = 8, of "d + 48"] by simp

lemma decimal_nonzero: "0 \<notin> set (decimal n)"
proof -
  have "word_of_nat d + ch CHR ''0'' \<noteq> 0" if "d \<in> set (digits 10 n)" for d
    using decimal_char [of d] digits_less [of 10 d n] that by auto
  then show ?thesis by (auto simp: decimal_def)
qed

lemma llstr_correct:
  assumes "llstr buf n 64 m = (m', str)"
  shows "cstring m' str (decimal (unat n))" "off_buf buf b \<Longrightarrow> m' b = m b"
proof -
  have len: "length (decimal (unat n)) \<le> 63" using decimal_length [of n] by simp
  from assms have "str = buf_at buf (63 - int (length (decimal (unat n))))"
    "m' = put_bytes str (decimal (unat n)) (m(buf_at buf 63 := 0))"
    by (auto simp: llstr_def llstr_loop_eq Let_def)
  with buffered_string [OF len decimal_nonzero this(1), where m = m]
  show "cstring m' str (decimal (unat n))" "off_buf buf b \<Longrightarrow> m' b = m b" by simp_all
qed

lemma llhex_correct:
  assumes "llhex buf n 64 m = (m', str)"
  shows "cstring m' str (hexadecimal (unat n))" "off_buf buf b \<Longrightarrow> m' b = m b"
proof -
  have len: "length (hexadecimal (unat n)) \<le> 63" using hexadecimal_length [of n] by simp
  from assms have "str = buf_at buf (63 - int (length (hexadecimal (unat n))))"
    "m' = put_bytes str (hexadecimal (unat n)) (m(buf_at buf 63 := 0))"
    by (auto simp: llhex_def llhex_loop_eq Let_def)
  with buffered_string [OF len hexadecimal_nonzero this(1), where m = m]
  show "cstring m' str (hexadecimal (unat n))" "off_buf buf b \<Longrightarrow> m' b = m b" by simp_all
qed

subsection \<open>Correctness of the output\<close>

abbreviation visible :: "u8 \<Rightarrow> u8 list" where
  "visible c \<equiv> (if c = 0 then [] else [c])"

lemma emit_stdout_sent:
  assumes "uart_drains dev s"
  obtains s' where "console_emit_stdout dev c s = Some s'" "uart.sent dev s (visible c) s'"
  using assms uart.putc_sent [OF assms, of c] by (cases "c = 0") (auto simp: console_emit_stdout_def)

lemma emit_pad_sent:
  assumes "uart_drains dev s" "c \<noteq> 0"
  obtains s' where "emit_pad dev c n s = Some s'" "uart.sent dev s (replicate n c) s'"
  using assms(1)
proof (induction n arbitrary: s thesis)
  case 0
  then show ?case by simp
next
  case (Suc n)
  from emit_stdout_sent [OF Suc.prems(2), of c] assms(2) obtain t where
    t: "console_emit_stdout dev c s = Some t" "uart.sent dev s [c] t" by auto
  from Suc.IH [OF _ uart.sent_live [OF t(2)]] obtain s' where
    "emit_pad dev c n t = Some s'" "uart.sent dev t (replicate n c) s'" .
  with t uart.sent_trans [OF t(2)] show ?case by (intro Suc.prems(1)) auto
qed

lemma emit_str_sent:
  assumes "uart_drains dev s" "cstring m p xs"
  obtains s' where "emit_str dev m p s = Some s'" "uart.sent dev s xs s'"
  using assms
proof (induction xs arbitrary: p s thesis)
  case Nil
  then show ?case by (simp add: emit_str.simps [of dev m p s])
next
  case (Cons x xs)
  from emit_stdout_sent [OF Cons.prems(2), of x] Cons.prems(3) obtain t where
    t: "console_emit_stdout dev x s = Some t" "uart.sent dev s [x] t" by auto
  from Cons.IH [OF _ uart.sent_live [OF t(2)], of "p + 1"] Cons.prems(3) obtain s' where
    "emit_str dev m (p + 1) t = Some s'" "uart.sent dev t xs s'" by auto
  with t Cons.prems(3) uart.sent_trans [OF t(2)] show ?case
    by (intro Cons.prems(1)) (auto simp: emit_str.simps [of dev m p s])
qed

text \<open>A field of \<open>width\<close> columns: zeros on the left, or blanks on the right.\<close>

definition padded :: "u32 \<Rightarrow> i32 \<Rightarrow> u8 list \<Rightarrow> u8 list" where
  "padded opts width xs =
     (let w = nat (sint (width - word_of_nat (length xs)))
      in if opts AND POPT_PADRIGHT = 0 then replicate w (ch CHR ''0'') @ xs
         else xs @ replicate w (ch CHR '' ''))"

lemma emit_output_sent:
  assumes "uart_drains dev s" "cstring m p xs"
  obtains s' where "emit_output dev m opts width p s = Some s'" "uart.sent dev s (padded opts width xs) s'"
proof -
  define w where "w = nat (sint (width - word_of_nat (length xs) :: i32))"
  show ?thesis
  proof (cases "opts AND POPT_PADRIGHT = 0")
    case True
    from emit_pad_sent [OF assms(1), of "ch CHR ''0''" w] obtain t where
      t: "emit_pad dev (ch CHR ''0'') w s = Some t" "uart.sent dev s (replicate w (ch CHR ''0'')) t" by auto
    from emit_str_sent [OF uart.sent_live [OF t(2)] assms(2)] obtain u where
      "emit_str dev m p t = Some u" "uart.sent dev t xs u" .
    with t True uart.sent_trans [OF t(2)] that [of u] show ?thesis
      by (simp add: emit_output_def strlen_cstring [OF assms(2)] padded_def w_def)
  next
    case False
    from emit_str_sent [OF assms] obtain t where
      t: "emit_str dev m p s = Some t" "uart.sent dev s xs t" .
    from emit_pad_sent [OF uart.sent_live [OF t(2)], of "ch CHR '' ''" w] obtain u where
      "emit_pad dev (ch CHR '' '') w t = Some u" "uart.sent dev t (replicate w (ch CHR '' '')) u" by auto
    with t False uart.sent_trans [OF t(2)] that [of u] show ?thesis
      by (simp add: emit_output_def strlen_cstring [OF assms(2)] padded_def w_def)
  qed
qed

subsection \<open>The specification of a format\<close>

text \<open>
  What a format prints, as a list of characters: \<open>strs\<close> gives the string at a pointer. There is no
  value when an argument is missing or a string pointer is not one of \<open>strs\<close>.
\<close>

fun render_text :: "(u64 \<Rightarrow> u8 list option) \<Rightarrow> u8 list \<Rightarrow> u64 list \<Rightarrow> u32 \<Rightarrow> i32 \<Rightarrow> (i32 \<times> u8 list) option"
and render_next :: "(u64 \<Rightarrow> u8 list option) \<Rightarrow> u8 list \<Rightarrow> u64 list \<Rightarrow> u32 \<Rightarrow> i32 \<Rightarrow> (i32 \<times> u8 list) option" where
  "render_text strs [] ap opts width = Some (width, [])"
| "render_text strs (c # fmt) ap opts width =
     (if c = 0 then Some (width, [])
      else if c = ch CHR ''%'' then render_next strs fmt ap opts width
      else map_option (map_prod id ((@) [c])) (render_text strs fmt ap opts width))"
| "render_next strs [] ap opts width = Some (width, [])"
| "render_next strs (c # fmt) ap opts width =
     (if c = 0 then Some (width, [])
      else case (directive_of c, ap) of
        (Digit, _) \<Rightarrow> render_next strs fmt ap opts (width * 10 + ucast c - ucast (ch CHR ''0''))
      | (Padright, _) \<Rightarrow> render_next strs fmt ap (opts OR POPT_PADRIGHT) width
      | (Long, _) \<Rightarrow> render_next strs fmt ap
          ((if opts AND POPT_LONG \<noteq> 0 then opts OR POPT_LONGLONG else opts) OR POPT_LONG) width
      | (Percent, _) \<Rightarrow> map_option (map_prod id ((@) [ch CHR ''%''])) (render_text strs fmt ap opts width)
      | (Other, _) \<Rightarrow> render_text strs fmt ap opts width
      | (_, []) \<Rightarrow> None
      | (Character, a # ap) \<Rightarrow>
          map_option (map_prod id ((@) (visible (ucast (ucast a :: u32))))) (render_text strs fmt ap opts width)
      | (Decimal, a # ap) \<Rightarrow>
          map_option (map_prod id ((@) (padded opts width (decimal (unat (ucast a :: u32))))))
            (render_text strs fmt ap opts 0)
      | (Hexadecimal, a # ap) \<Rightarrow>
          map_option (map_prod id ((@) (padded opts width (hexadecimal (unat a)))))
            (render_text strs fmt ap opts 0)
      | (String, a # ap) \<Rightarrow> (case strs a of
            None \<Rightarrow> None
          | Some xs \<Rightarrow> map_option (map_prod id ((@) (padded opts width xs))) (render_text strs fmt ap opts 0)))"

text \<open>The strings are in memory and away from the formatter's buffer.\<close>

definition strings_at :: "(u64 \<Rightarrow> u8 list option) \<Rightarrow> u64 \<Rightarrow> mem \<Rightarrow> bool" where
  "strings_at strs buf m \<longleftrightarrow> (\<forall>p xs. strs p = Some xs \<longrightarrow>
     cstring m p xs \<and> (\<forall>i\<le>length xs. off_buf buf (p + word_of_nat i)))"

lemma strings_at_cong:
  assumes "strings_at strs buf m" "\<And>b. off_buf buf b \<Longrightarrow> m' b = m b"
  shows "strings_at strs buf m'"
  using assms unfolding strings_at_def cstring_nth by (metis less_imp_le_nat order_refl)

text \<open>The outcome \<open>r\<close> is the rendered text, and memory changed in the buffer only.\<close>

definition prints :: "device \<Rightarrow> u64 \<Rightarrow> mem \<Rightarrow> console \<Rightarrow> i32 \<times> u8 list \<Rightarrow> (i32 \<times> mem \<times> console) outcome \<Rightarrow> bool" where
  "prints dev buf m s wo r \<longleftrightarrow> (\<exists>m' s'. r = Inr (fst wo, m', s') \<and> uart.sent dev s (snd wo) s' \<and>
     (\<forall>b. off_buf buf b \<longrightarrow> m' b = m b))"

lemma prints_nil [intro]: "uart_drains dev s \<Longrightarrow> prints dev buf m s (w, []) (Inr (w, m, s))"
  by (simp add: prints_def)

lemma prints_then:
  assumes "e = Some t" "uart.sent dev s xs t" "prints dev buf m' t wo (f t)"
    and "\<And>b. off_buf buf b \<Longrightarrow> m' b = m b"
  shows "prints dev buf m s (map_prod id ((@) xs) wo) (andthen (terminates e) f)"
  using assms uart.sent_trans [OF assms(2)] unfolding prints_def by fastforce

text \<open>One directive that prints \<open>xs\<close> and goes on with the rest of the format.\<close>

lemma unat_ucast_32_64: "unat (ucast (w :: u32) :: u64) = unat w"
proof -
  have "unat w < 2 ^ LENGTH(32)" by (rule unsigned_less)
  then have "take_bit 64 (unat w) = unat w" by (intro take_bit_nat_eq_self) simp
  then show ?thesis by (simp add: unsigned_ucast_eq)
qed

definition text_ok :: "device \<Rightarrow> u64 \<Rightarrow> (u64 \<Rightarrow> u8 list option) \<Rightarrow> u8 list \<Rightarrow> bool" where
  "text_ok dev buf strs fmt \<longleftrightarrow> (\<forall>ap opts width m s wo. strings_at strs buf m \<longrightarrow> uart_drains dev s \<longrightarrow>
     render_text strs fmt ap opts width = Some wo \<longrightarrow>
     prints dev buf m s wo (emits_text dev buf fmt ap opts width m s))"

lemma emits_then:
  assumes ok: "text_ok dev buf strs fmt" "strings_at strs buf m"
    and e: "e = Some t" "uart.sent dev s xs t"
    and m': "\<And>b. off_buf buf b \<Longrightarrow> m' b = m b"
    and wo: "map_option (map_prod id ((@) xs)) (render_text strs fmt ap opts width) = Some wo"
  shows "prints dev buf m s wo (andthen (terminates e) (emits_text dev buf fmt ap opts width m'))"
proof -
  from wo obtain wo' where
    wo': "render_text strs fmt ap opts width = Some wo'" "wo = map_prod id ((@) xs) wo'" by auto
  have "strings_at strs buf m'" using ok(2) m' by (rule strings_at_cong)
  with ok(1) wo'(1) uart.sent_live [OF e(2)]
  have rest: "prints dev buf m' t wo' (emits_text dev buf fmt ap opts width m' t)"
    unfolding text_ok_def by blast
  show ?thesis
    unfolding wo'(2) by (rule prints_then [where f = "emits_text dev buf fmt ap opts width m'", OF e rest m'])
qed

lemma emits_prints:
  assumes "strings_at strs buf m" "uart_drains dev s"
  shows "render_text strs fmt ap opts width = Some wo \<Longrightarrow>
      prints dev buf m s wo (emits_text dev buf fmt ap opts width m s)"
    and "render_next strs fmt ap opts width = Some wo \<Longrightarrow>
      prints dev buf m s wo (emits_next dev buf fmt ap opts width m s)"
  using assms
proof (induction fmt arbitrary: ap opts width m s wo)
  case Nil
  { case 1 then show ?case by auto }
  { case 2 then show ?case by auto }
next
  case (Cons c fmt)
  from Cons.IH(1) have ok: "text_ok dev buf strs fmt" by (simp add: text_ok_def)
  note step = emits_then [OF ok]
  { case 1
    show ?case
    proof (cases "c = 0 \<or> c = ch CHR ''%''")
      case True
      with 1 Cons.IH(2) show ?thesis by (auto split: if_splits)
    next
      case False
      from emit_stdout_sent [OF 1(3), of c] obtain t where
        "console_emit_stdout dev c s = Some t" "uart.sent dev s (visible c) t" .
      from step [OF 1(2) this refl] 1(1) False show ?thesis by simp
    qed }
  { case 2
    note sent = emit_stdout_sent [OF 2(3)] and out = emit_output_sent [OF 2(3)]
    show ?case
    proof (cases "c = 0")
      case True
      with 2 show ?thesis by auto
    next
      case False
      show ?thesis
      proof (cases "directive_of c")
        case Percent
        from sent obtain t where "console_emit_stdout dev (ch CHR ''%'') s = Some t"
          "uart.sent dev s (visible (ch CHR ''%'')) t" .
        from step [OF 2(2) this refl] 2(1) Percent False show ?thesis by simp
      next
        case Character
        with 2 False obtain a ap' where ap: "ap = a # ap'" by (cases ap) auto
        from sent obtain t where "console_emit_stdout dev (ucast (ucast a :: u32)) s = Some t"
          "uart.sent dev s (visible (ucast (ucast a :: u32))) t" .
        from step [OF 2(2) this refl] 2(1) Character False show ?thesis by (simp add: ap)
      next
        case Decimal
        with 2 False obtain a ap' where ap: "ap = a # ap'" by (cases ap) auto
        obtain m' str where ll: "llstr buf (ucast (ucast a :: u32)) 64 m = (m', str)" by (rule prod.exhaust)
        from out [OF llstr_correct(1) [OF ll, unfolded unat_ucast_32_64]] obtain t where
          "emit_output dev m' opts width str s = Some t"
          "uart.sent dev s (padded opts width (decimal (unat (ucast a :: u32)))) t" by auto
        from step [OF 2(2) this llstr_correct(2) [OF ll]] 2(1) Decimal False show ?thesis
          by (simp add: ap ll)
      next
        case Hexadecimal
        with 2 False obtain a ap' where ap: "ap = a # ap'" by (cases ap) auto
        obtain m' str where ll: "llhex buf a 64 m = (m', str)" by (rule prod.exhaust)
        from out [OF llhex_correct(1) [OF ll]] obtain t where
          "emit_output dev m' opts width str s = Some t"
          "uart.sent dev s (padded opts width (hexadecimal (unat a))) t" by auto
        from step [OF 2(2) this llhex_correct(2) [OF ll]] 2(1) Hexadecimal False show ?thesis
          by (simp add: ap ll)
      next
        case String
        with 2 False obtain a ap' where ap: "ap = a # ap'" by (cases ap) auto
        with 2 String False obtain xs where xs: "strs a = Some xs" by (cases "strs a") auto
        with 2(2) have "cstring m a xs" by (simp add: strings_at_def)
        from out [OF this] obtain t where "emit_output dev m opts width a s = Some t"
          "uart.sent dev s (padded opts width xs) t" .
        from step [OF 2(2) this refl] 2(1) String False show ?thesis by (simp add: ap xs)
      qed (use 2 False Cons.IH in auto)
    qed }
qed

lemma printk_prints:
  assumes "sint level \<le> 3" "console_initialised s" "uart_drains dev s" "strings_at strs buf m"
    and "render_text strs fmt args opts 0 = Some (w, out)"
  obtains m' s' where "printk dev buf opts level flags fmt args m s = Inr (w, m', s')"
    "uart_out s' = uart_out s @ out" "console_initialised s'" "uart_drains dev s'"
    "\<forall>b. off_buf buf b \<longrightarrow> m' b = m b"
proof -
  have level: "\<not> sint DEFAULTS_KERNEL_LOGLEVEL < sint level" using assms(1) by simp
  from emits_prints(1) [OF assms(4,3,5)] obtain m' s' where
    r: "emits_text dev buf fmt args opts 0 m s = Inr (w, m', s')" "uart.sent dev s out s'"
      "\<forall>b. off_buf buf b \<longrightarrow> m' b = m b" by (auto simp: prints_def)
  then have "uart.more s' = uart.more s" "uart_out s' = uart_out s @ out" "uart_drains dev s'"
    by (simp_all add: uart.sent_def uart_same_def)
  then have "console_initialised s'" using assms(2) by (cases s; cases s') (simp add: uart.defs)
  with r that [of m' s'] level assms(2) \<open>uart_out s' = uart_out s @ out\<close> \<open>uart_drains dev s'\<close> show thesis
    by (simp add: printk_def vprintk_level_def console_emits_def)
qed

subsection \<open>Properties\<close>

lemma digits_word:
  fixes n :: u64
  assumes "2 \<le> b"
  shows "hd (digits b (unat n)) = 0 \<longleftrightarrow> n = 0" "set (digits b (unat n)) \<subseteq> {..<b}"
proof -
  show "set (digits b (unat n)) \<subseteq> {..<b}" using digits_less [OF assms] by blast
  show "hd (digits b (unat n)) = 0 \<longleftrightarrow> n = 0"
    using digits_hd [OF assms, of "unat n"] assms by (cases "n = 0") (simp_all add: digits.simps [of b 0] unat_eq_zero)
qed

text \<open>\<^verbatim>\<open>llstr\<close> and \<^verbatim>\<open>llhex\<close> round trip for every 64-bit number: each leaves in its 64-byte buffer a
  terminated string of the number's digits, returns the string's address, and writes nothing outside
  the buffer; the digits are below the base, have no leading zero unless the number is zero, and
  read back as the number.
\<close>

theorem number_conversion:
  fixes n :: u64
  shows "(\<exists>ds m' str. llstr buf n 64 m = (m', str) \<and>
      cstring m' str (map (\<lambda>d. word_of_nat d + ch CHR ''0'') ds) \<and> set ds \<subseteq> {..<10} \<and>
      length ds \<le> 20 \<and> (hd ds = 0 \<longleftrightarrow> n = 0) \<and> digits_value 10 ds = unat n \<and>
      {b. m' b \<noteq> m b} \<subseteq> {b. unat (b - buf) < 64}) \<and>
    (\<exists>ds m' str. llhex buf n 64 m = (m', str) \<and>
      cstring m' str (map (\<lambda>d. hextable ! d) ds) \<and> set ds \<subseteq> {..<16} \<and>
      length ds \<le> 16 \<and> (hd ds = 0 \<longleftrightarrow> n = 0) \<and> digits_value 16 ds = unat n \<and>
      {b. m' b \<noteq> m b} \<subseteq> {b. unat (b - buf) < 64})"
proof
  obtain m' str where ll: "llstr buf n 64 m = (m', str)" by (rule prod.exhaust)
  with llstr_correct [OF ll] decimal_length [of n] digits_word [of 10 n] digits_value_digits [of 10 "unat n"]
  show "\<exists>ds m' str. llstr buf n 64 m = (m', str) \<and>
      cstring m' str (map (\<lambda>d. word_of_nat d + ch CHR ''0'') ds) \<and> set ds \<subseteq> {..<10} \<and>
      length ds \<le> 20 \<and> (hd ds = 0 \<longleftrightarrow> n = 0) \<and> digits_value 10 ds = unat n \<and>
      {b. m' b \<noteq> m b} \<subseteq> {b. unat (b - buf) < 64}"
    by (intro exI [of _ "digits 10 (unat n)"] exI [of _ m'] exI [of _ str])
      (auto simp: decimal_def off_buf_def not_less [symmetric])
next
  obtain m' str where ll: "llhex buf n 64 m = (m', str)" by (rule prod.exhaust)
  with llhex_correct [OF ll] hexadecimal_length [of n] digits_word [of 16 n] digits_value_digits [of 16 "unat n"]
  show "\<exists>ds m' str. llhex buf n 64 m = (m', str) \<and>
      cstring m' str (map (\<lambda>d. hextable ! d) ds) \<and> set ds \<subseteq> {..<16} \<and>
      length ds \<le> 16 \<and> (hd ds = 0 \<longleftrightarrow> n = 0) \<and> digits_value 16 ds = unat n \<and>
      {b. m' b \<noteq> m b} \<subseteq> {b. unat (b - buf) < 64}"
    by (intro exI [of _ "digits 16 (unat n)"] exI [of _ m'] exI [of _ str])
      (auto simp: hexadecimal_def off_buf_def not_less [symmetric])
qed


definition sample_console :: console where
  "sample_console = \<lparr>pl011_base = 0xffffffff10000000, pl011_baud = 115200, pl011_clock = 0x16e3600,
     uart_io = \<lparr>io_writes = [], io_reads = 0\<rparr>, console_initialised = True\<rparr>"


end
