(* ===== verification/List_Interface.thy ===== *)
theory List_Interface
  imports Monix_Prelude
begin

section \<open>What the kernel relies on from an intrusive list\<close>

text \<open>
  The page allocator, the map, the zone allocator, the task and thread lists and the scheduler
  use five operations of \<^verbatim>\<open>libkern/list.h\<close> and never look at a pointer themselves. The locale
  states the contract they rely on: a relation \<open>rep h l xs\<close> between a heap, a list head and
  the elements, the effect of each operation on the list it is applied to, and that a list
  disjoint from the nodes involved is left alone. \<open>List_Head\<close> interprets it on the code's
  definitions.
\<close>

locale intrusive_list =
  fixes rep :: "'h \<Rightarrow> addr \<Rightarrow> addr list \<Rightarrow> bool"
    and init :: "addr \<Rightarrow> 'h \<Rightarrow> 'h"
    and append_node :: "addr \<Rightarrow> addr \<Rightarrow> 'h \<Rightarrow> 'h"
    and remove_node :: "addr \<Rightarrow> 'h \<Rightarrow> 'h"
    and move_front :: "addr \<Rightarrow> addr \<Rightarrow> 'h \<Rightarrow> 'h"
    and front :: "addr \<Rightarrow> 'h \<Rightarrow> addr"
  assumes rep_distinct: "rep h l xs \<Longrightarrow> distinct (l # xs)"
    and rep_unique: "rep h l xs \<Longrightarrow> rep h l ys \<Longrightarrow> xs = ys"
    and rep_init: "rep (init l h) l []"
    and init_frame: "rep h m zs \<Longrightarrow> l \<notin> set (m # zs) \<Longrightarrow> rep (init l h) m zs"
    and rep_append: "rep h l xs \<Longrightarrow> n \<notin> set (l # xs) \<Longrightarrow> rep (append_node n l h) l (xs @ [n])"
    and append_frame: "rep h l xs \<Longrightarrow> rep h m zs \<Longrightarrow> set (m # zs) \<inter> set (n # l # xs) = {} \<Longrightarrow>
           rep (append_node n l h) m zs"
    and rep_remove: "rep h l (us @ x # vs) \<Longrightarrow> rep (remove_node x h) l (us @ vs)"
    and remove_frame: "rep h l (us @ x # vs) \<Longrightarrow> rep h m zs \<Longrightarrow>
           set (m # zs) \<inter> set (l # us @ x # vs) = {} \<Longrightarrow> rep (remove_node x h) m zs"
    and rep_move_src: "rep h l (us @ x # vs) \<Longrightarrow> rep h m ys \<Longrightarrow>
           set (l # us @ x # vs) \<inter> set (m # ys) = {} \<Longrightarrow> rep (move_front x m h) l (us @ vs)"
    and rep_move_dst: "rep h l (us @ x # vs) \<Longrightarrow> rep h m ys \<Longrightarrow>
           set (l # us @ x # vs) \<inter> set (m # ys) = {} \<Longrightarrow> rep (move_front x m h) m (x # ys)"
    and move_frame: "rep h l (us @ x # vs) \<Longrightarrow> rep h m ys \<Longrightarrow> rep h k zs \<Longrightarrow>
           set (l # us @ x # vs) \<inter> set (m # ys) = {} \<Longrightarrow>
           set (k # zs) \<inter> set (l # us @ x # vs) = {} \<Longrightarrow> set (k # zs) \<inter> set (m # ys) = {} \<Longrightarrow>
           rep (move_front x m h) k zs"
    and front_rep: "rep h l (x # xs) \<Longrightarrow> front l h = x"
begin

subsection \<open>Filling a list\<close>

text \<open>Appending fresh nodes one after the other lists them in that order.\<close>

lemma append_all:
  assumes "rep h l xs" "distinct ns" "set ns \<inter> set (l # xs) = {}"
  shows "rep (fold (\<lambda>n. append_node n l) ns h) l (xs @ ns)"
  using assms
proof (induction ns arbitrary: h xs)
  case Nil
  then show ?case by simp
next
  case (Cons n ns)
  from Cons.prems have "rep (append_node n l h) l (xs @ [n])" by (intro rep_append) auto
  with Cons.IH [of "append_node n l h" "xs @ [n]"] Cons.prems show ?case by auto
qed

lemma append_all_frame:
  assumes "rep h l xs" "rep h m zs" "distinct ns" "set ns \<inter> set (l # xs) = {}"
    and "set (m # zs) \<inter> set (l # xs @ ns) = {}"
  shows "rep (fold (\<lambda>n. append_node n l) ns h) m zs"
  using assms
proof (induction ns arbitrary: h xs)
  case Nil
  then show ?case by simp
next
  case (Cons n ns)
  from Cons.prems have 1: "rep (append_node n l h) l (xs @ [n])" by (intro rep_append) auto
  from Cons.prems have 2: "rep (append_node n l h) m zs"
    by (intro append_frame [OF Cons.prems(1)]) auto
  from Cons.IH [OF 1 2] Cons.prems show ?case by auto
qed

subsection \<open>Two lists that share their elements\<close>

text \<open>
  A pool keeps its elements on a free list and a used list. Taking moves the first free
  element to the front of the used list; giving moves any used element to the front of the
  free list. The two lists always partition the same elements, and giving an element back
  right after taking it restores both lists.
\<close>

lemma pool_take:
  assumes "rep h f (x # fs)" "rep h u us" "set (f # x # fs) \<inter> set (u # us) = {}"
  shows "rep (move_front (front f h) u h) f fs" "rep (move_front (front f h) u h) u (x # us)"
  using rep_move_src [of h f "[]" x fs u us] rep_move_dst [of h f "[]" x fs u us] assms
  by (simp_all add: front_rep)

lemma pool_give:
  assumes "rep h u us" "rep h f fs" "x \<in> set us" "set (u # us) \<inter> set (f # fs) = {}"
  shows "rep (move_front x f h) f (x # fs)" "rep (move_front x f h) u (remove1 x us)"
proof -
  from assms(3) obtain as bs where us: "us = as @ x # bs" by (rule in_set_splitE)
  have "distinct us" using rep_distinct [OF assms(1)] by simp
  then have "remove1 x us = as @ bs" using us by (simp add: distinct_remove1_split)
  then show "rep (move_front x f h) f (x # fs)" "rep (move_front x f h) u (remove1 x us)"
    using rep_move_dst [of h u as x bs f fs] rep_move_src [of h u as x bs f fs] assms us by simp_all
qed

lemma pool_take_give:
  assumes "rep h f (x # fs)" "rep h u us" "set (f # x # fs) \<inter> set (u # us) = {}"
  shows "rep (move_front x f (move_front x u h)) f (x # fs)"
    and "rep (move_front x f (move_front x u h)) u us"
proof -
  have 1: "rep (move_front x u h) f fs" "rep (move_front x u h) u (x # us)"
    using pool_take [OF assms] assms(1) by (simp_all add: front_rep)
  moreover have "set (u # x # us) \<inter> set (f # fs) = {}"
    using assms(3) rep_distinct [OF assms(1)] by auto
  ultimately show "rep (move_front x f (move_front x u h)) f (x # fs)"
    and "rep (move_front x f (move_front x u h)) u us"
    using pool_give [of "move_front x u h" u "x # us" f fs x] by simp_all
qed

lemma pool_frame:
  assumes "rep h f fs" "rep h u us" "x \<in> set fs" "rep h k zs"
    and "set (f # fs) \<inter> set (u # us) = {}" "set (k # zs) \<inter> set (f # fs @ u # us) = {}"
  shows "rep (move_front x u h) k zs"
proof -
  from assms(3) obtain as bs where "fs = as @ x # bs" by (rule in_set_splitE)
  with move_frame [of h f as x bs u us k zs] assms show ?thesis by auto
qed

lemma remove_member:
  assumes "rep h l xs" "x \<in> set xs"
  shows "rep (remove_node x h) l (remove1 x xs)"
proof -
  from assms(2) obtain as bs where xs: "xs = as @ x # bs" by (rule in_set_splitE)
  have "distinct xs" using rep_distinct [OF assms(1)] by simp
  with xs rep_remove [of h l as x bs] assms(1) show ?thesis by (simp add: distinct_remove1_split)
qed

end

end
