(* ===== verification/List_Head.thy ===== *)
theory List_Head
  imports List_Interface
begin

section \<open>The circular doubly-linked list (libkern/list.h)\<close>

text \<open>
  \<^verbatim>\<open>libkern/list.h\<close> is the intrusive list every kernel object is linked through. A
  \<^verbatim>\<open>struct list_head\<close> is a pair of pointers; a list is a ring of nodes through a head that
  carries no element. The model keeps the source's pointer writes: the heap maps the address
  of every list node to its two pointers, and each operation is the sequence of assignments
  the C function performs, with the values it reads at the moment it reads them.

  The abstract side is an HOL list: \<open>dlist h head xs\<close> says that from the head \<open>head\<close> the
  \<^verbatim>\<open>next\<close> pointers run through exactly \<open>xs\<close> and back, that the \<^verbatim>\<open>prev\<close> pointers run the
  other way, and that no node occurs twice. Each operation is proved to implement the list
  operation its comment promises.
\<close>

subsection \<open>Nodes and pointer writes\<close>

record list_head =
  nxt :: addr
  prv :: addr

type_synonym list_heap = "addr \<Rightarrow> list_head"

definition set_next :: "addr \<Rightarrow> addr \<Rightarrow> list_heap \<Rightarrow> list_heap" where
  "set_next p v h = h(p := (h p)\<lparr>nxt := v\<rparr>)"

definition set_prev :: "addr \<Rightarrow> addr \<Rightarrow> list_heap \<Rightarrow> list_heap" where
  "set_prev p v h = h(p := (h p)\<lparr>prv := v\<rparr>)"

lemma nxt_set_next [simp]: "nxt (set_next p v h q) = (if q = p then v else nxt (h q))"
  by (simp add: set_next_def)

lemma prv_set_next [simp]: "prv (set_next p v h q) = prv (h q)"
  by (simp add: set_next_def)

lemma nxt_set_prev [simp]: "nxt (set_prev p v h q) = nxt (h q)"
  by (simp add: set_prev_def)

lemma prv_set_prev [simp]: "prv (set_prev p v h q) = (if q = p then v else prv (h q))"
  by (simp add: set_prev_def)

subsection \<open>Operations\<close>

definition INIT_LIST_HEAD :: "addr \<Rightarrow> list_heap \<Rightarrow> list_heap" where
  "INIT_LIST_HEAD l h = set_prev l l (set_next l l h)"

text \<open>\<^verbatim>\<open>__list_add (new, prev, next)\<close>: four writes, in the source's order.\<close>

definition raw_list_add :: "addr \<Rightarrow> addr \<Rightarrow> addr \<Rightarrow> list_heap \<Rightarrow> list_heap" where
  "raw_list_add new pre nex h =
     set_next pre new (set_prev new pre (set_next new nex (set_prev nex new h)))"

definition raw_list_del :: "addr \<Rightarrow> addr \<Rightarrow> list_heap \<Rightarrow> list_heap" where
  "raw_list_del pre nex h = set_next pre nex (set_prev nex pre h)"

definition list_add :: "addr \<Rightarrow> addr \<Rightarrow> list_heap \<Rightarrow> list_heap" where
  "list_add new head h = raw_list_add new head (nxt (h head)) h"

definition list_add_tail :: "addr \<Rightarrow> addr \<Rightarrow> list_heap \<Rightarrow> list_heap" where
  "list_add_tail new head h = raw_list_add new (prv (h head)) head h"

definition list_del :: "addr \<Rightarrow> list_heap \<Rightarrow> list_heap" where
  "list_del entry h =
     set_prev entry NULL (set_next entry NULL
       (raw_list_del (prv (h entry)) (nxt (h entry)) h))"

text \<open>\<^verbatim>\<open>list_replace\<close> reads \<^verbatim>\<open>new->next\<close> and \<^verbatim>\<open>new->prev\<close> back after writing them.\<close>

definition list_replace :: "addr \<Rightarrow> addr \<Rightarrow> list_heap \<Rightarrow> list_heap" where
  "list_replace old new h =
     (let h1 = set_next new (nxt (h old)) h;
          h2 = set_prev (nxt (h1 new)) new h1;
          h3 = set_prev new (prv (h2 old)) h2
      in set_next (prv (h3 new)) new h3)"

definition list_replace_init :: "addr \<Rightarrow> addr \<Rightarrow> list_heap \<Rightarrow> list_heap" where
  "list_replace_init old new h = INIT_LIST_HEAD old (list_replace old new h)"

definition list_del_init :: "addr \<Rightarrow> list_heap \<Rightarrow> list_heap" where
  "list_del_init entry h =
     INIT_LIST_HEAD entry (raw_list_del (prv (h entry)) (nxt (h entry)) h)"

definition list_move :: "addr \<Rightarrow> addr \<Rightarrow> list_heap \<Rightarrow> list_heap" where
  "list_move l head h = list_add l head (raw_list_del (prv (h l)) (nxt (h l)) h)"

definition list_move_tail :: "addr \<Rightarrow> addr \<Rightarrow> list_heap \<Rightarrow> list_heap" where
  "list_move_tail l head h = list_add_tail l head (raw_list_del (prv (h l)) (nxt (h l)) h)"

definition list_is_last :: "addr \<Rightarrow> addr \<Rightarrow> list_heap \<Rightarrow> bool" where
  "list_is_last l head h \<longleftrightarrow> nxt (h l) = head"

definition list_empty :: "addr \<Rightarrow> list_heap \<Rightarrow> bool" where
  "list_empty head h \<longleftrightarrow> nxt (h head) = head"

definition list_empty_careful :: "addr \<Rightarrow> list_heap \<Rightarrow> bool" where
  "list_empty_careful head h \<longleftrightarrow> nxt (h head) = head \<and> nxt (h head) = prv (h head)"

definition list_is_singular :: "addr \<Rightarrow> list_heap \<Rightarrow> bool" where
  "list_is_singular head h \<longleftrightarrow> \<not> list_empty head h \<and> nxt (h head) = prv (h head)"

definition raw_list_cut_position :: "addr \<Rightarrow> addr \<Rightarrow> addr \<Rightarrow> list_heap \<Rightarrow> list_heap" where
  "raw_list_cut_position l head entry h =
     (let new_first = nxt (h entry);
          h1 = set_next l (nxt (h head)) h;
          h2 = set_prev (nxt (h1 l)) l h1;
          h3 = set_prev l entry h2;
          h4 = set_next entry l h3;
          h5 = set_next head new_first h4
      in set_prev new_first head h5)"

definition list_cut_position :: "addr \<Rightarrow> addr \<Rightarrow> addr \<Rightarrow> list_heap \<Rightarrow> list_heap" where
  "list_cut_position l head entry h =
     (if list_empty head h then h
      else if list_is_singular head h \<and> nxt (h head) \<noteq> entry \<and> head \<noteq> entry then h
      else if entry = head then INIT_LIST_HEAD l h
      else raw_list_cut_position l head entry h)"

definition raw_list_splice :: "addr \<Rightarrow> addr \<Rightarrow> addr \<Rightarrow> list_heap \<Rightarrow> list_heap" where
  "raw_list_splice l pre nex h =
     (let first = nxt (h l); lst = prv (h l)
      in set_prev nex lst (set_next lst nex (set_next pre first (set_prev first pre h))))"

definition list_splice :: "addr \<Rightarrow> addr \<Rightarrow> list_heap \<Rightarrow> list_heap" where
  "list_splice l head h = (if \<not> list_empty l h then raw_list_splice l head (nxt (h head)) h else h)"

definition list_splice_tail :: "addr \<Rightarrow> addr \<Rightarrow> list_heap \<Rightarrow> list_heap" where
  "list_splice_tail l head h = (if \<not> list_empty l h then raw_list_splice l (prv (h head)) head h else h)"

definition list_splice_init :: "addr \<Rightarrow> addr \<Rightarrow> list_heap \<Rightarrow> list_heap" where
  "list_splice_init l head h =
     (if \<not> list_empty l h then INIT_LIST_HEAD l (raw_list_splice l head (nxt (h head)) h) else h)"

definition list_splice_tail_init :: "addr \<Rightarrow> addr \<Rightarrow> list_heap \<Rightarrow> list_heap" where
  "list_splice_tail_init l head h =
     (if \<not> list_empty l h then INIT_LIST_HEAD l (raw_list_splice l (prv (h head)) head h) else h)"

text \<open>
  \<^verbatim>\<open>container_of\<close> and \<^verbatim>\<open>list_entry\<close> subtract the member's offset; \<^verbatim>\<open>list_first_entry\<close> and
  \<^verbatim>\<open>list_last_entry\<close> apply it to the node after and before the head, whatever they are.
\<close>

definition container_of :: "addr \<Rightarrow> u64 \<Rightarrow> addr" where
  "container_of ptr off = ptr - off"

definition list_first_entry :: "addr \<Rightarrow> u64 \<Rightarrow> list_heap \<Rightarrow> addr" where
  "list_first_entry head off h = container_of (nxt (h head)) off"

definition list_last_entry :: "addr \<Rightarrow> u64 \<Rightarrow> list_heap \<Rightarrow> addr" where
  "list_last_entry head off h = container_of (prv (h head)) off"

text \<open>
  The nodes \<^verbatim>\<open>list_for_each\<close> visits from \<open>pos\<close>: it follows \<^verbatim>\<open>next\<close> until it meets the head
  again, which it never does on a ring that does not pass through the head.
\<close>

partial_function (option) list_for_each :: "addr \<Rightarrow> addr \<Rightarrow> list_heap \<Rightarrow> addr list option" where
  "list_for_each pos head h =
     (if pos = head then Some []
      else Option.bind (list_for_each (nxt (h pos)) head h) (\<lambda>xs. Some (pos # xs)))"

partial_function (option) list_for_each_prev :: "addr \<Rightarrow> addr \<Rightarrow> list_heap \<Rightarrow> addr list option" where
  "list_for_each_prev pos head h =
     (if pos = head then Some []
      else Option.bind (list_for_each_prev (prv (h pos)) head h) (\<lambda>xs. Some (pos # xs)))"

subsection \<open>Abstraction: the elements of a ring\<close>

fun dseg :: "list_heap \<Rightarrow> addr \<Rightarrow> addr list \<Rightarrow> addr \<Rightarrow> bool" where
  "dseg h p [] q \<longleftrightarrow> nxt (h p) = q \<and> prv (h q) = p"
| "dseg h p (x # xs) q \<longleftrightarrow> nxt (h p) = x \<and> prv (h x) = p \<and> dseg h x xs q"

definition dlist :: "list_heap \<Rightarrow> addr \<Rightarrow> addr list \<Rightarrow> bool" where
  "dlist h head xs \<longleftrightarrow> dseg h head xs head \<and> distinct (head # xs)"

lemma dseg_append_Cons:
  "dseg h p (xs @ y # ys) q \<longleftrightarrow> dseg h p xs y \<and> dseg h y ys q"
  by (induction xs arbitrary: p) auto

lemma dseg_snoc: "dseg h p (xs @ [y]) q \<longleftrightarrow> dseg h p xs y \<and> nxt (h y) = q \<and> prv (h q) = y"
  by (simp add: dseg_append_Cons)

lemma dseg_cong:
  assumes "\<And>a. a \<in> set (p # xs) \<Longrightarrow> nxt (h' a) = nxt (h a)"
    and "\<And>a. a \<in> set (xs @ [q]) \<Longrightarrow> prv (h' a) = prv (h a)"
  shows "dseg h' p xs q \<longleftrightarrow> dseg h p xs q"
  using assms by (induction xs arbitrary: p) auto

lemma dlist_cong:
  assumes "\<And>a. a \<in> set (head # xs) \<Longrightarrow> h' a = h a"
  shows "dlist h' head xs \<longleftrightarrow> dlist h head xs"
  unfolding dlist_def using dseg_cong [of head xs h' h head] assms by auto

lemma dseg_set_next [simp]:
  "a \<notin> set (p # xs) \<Longrightarrow> dseg (set_next a v h) p xs q \<longleftrightarrow> dseg h p xs q"
  by (rule dseg_cong) auto

lemma dseg_set_prev [simp]:
  "a \<notin> set (xs @ [q]) \<Longrightarrow> dseg (set_prev a v h) p xs q \<longleftrightarrow> dseg h p xs q"
  by (rule dseg_cong) auto

text \<open>The first and last nodes of a segment, and the pointers at an inner node.\<close>

lemma dseg_first: "dseg h p xs q \<Longrightarrow> nxt (h p) = (case xs of [] \<Rightarrow> q | x # _ \<Rightarrow> x)"
  by (cases xs) auto

lemma dseg_last: "dseg h p xs q \<Longrightarrow> prv (h q) = (if xs = [] then p else last xs)"
  by (induction xs arbitrary: p) auto

lemma dlist_first: "dlist h head xs \<Longrightarrow> nxt (h head) = (case xs of [] \<Rightarrow> head | x # _ \<Rightarrow> x)"
  by (auto simp: dlist_def dest: dseg_first)

lemma dlist_last: "dlist h head xs \<Longrightarrow> prv (h head) = (if xs = [] then head else last xs)"
  by (auto simp: dlist_def dest: dseg_last)

lemma dlist_unique:
  assumes "dlist h head xs" "dlist h head ys"
  shows "xs = ys"
proof -
  have "dseg h p as head \<Longrightarrow> dseg h p bs head \<Longrightarrow> head \<notin> set as \<Longrightarrow> head \<notin> set bs \<Longrightarrow> as = bs" for p as bs
  proof (induction as arbitrary: p bs)
    case Nil
    then show ?case by (cases bs) auto
  next
    case (Cons a as)
    then show ?case by (cases bs) auto
  qed
  with assms show ?thesis by (auto simp: dlist_def)
qed

text \<open>Splitting the ring at an element: what precedes it and what follows it.\<close>

lemma dlist_split_iff:
  "dlist h head (us @ x # vs) \<longleftrightarrow> dseg h head us x \<and> dseg h x vs head \<and> distinct (head # us @ x # vs)"
  by (auto simp: dlist_def dseg_append_Cons)

lemma dlist_nxt: "dlist h head (us @ x # vs) \<Longrightarrow> nxt (h x) = (case vs of [] \<Rightarrow> head | v # _ \<Rightarrow> v)"
  by (auto simp: dlist_split_iff dest: dseg_first)

lemma dlist_prv: "dlist h head (us @ x # vs) \<Longrightarrow> prv (h x) = (if us = [] then head else last us)"
  by (auto simp: dlist_split_iff dest: dseg_last)

subsection \<open>Which nodes an operation writes\<close>

lemma raw_list_add_other:
  "a \<notin> {new, p, n} \<Longrightarrow> raw_list_add new p n h a = h a"
  by (simp add: raw_list_add_def set_next_def set_prev_def)

lemma raw_list_del_other: "a \<notin> {p, n} \<Longrightarrow> raw_list_del p n h a = h a"
  by (simp add: raw_list_del_def set_next_def set_prev_def)

lemma INIT_LIST_HEAD_other: "a \<noteq> l \<Longrightarrow> INIT_LIST_HEAD l h a = h a"
  by (simp add: INIT_LIST_HEAD_def set_next_def set_prev_def)


subsection \<open>Insertion and removal at any point of a ring\<close>

abbreviation ring_pred :: "addr \<Rightarrow> addr list \<Rightarrow> addr" where
  "ring_pred head us \<equiv> (if us = [] then head else last us)"

abbreviation ring_succ :: "addr \<Rightarrow> addr list \<Rightarrow> addr" where
  "ring_succ head vs \<equiv> (case vs of [] \<Rightarrow> head | v # _ \<Rightarrow> v)"

lemma ring_insert:
  assumes "dlist h head (us @ vs)" "new \<notin> set (head # us @ vs)"
  shows "dlist (raw_list_add new (ring_pred head us) (ring_succ head vs) h) head (us @ new # vs)"
  using assms
  by (cases us rule: rev_cases; cases vs)
    (auto simp: dlist_def dseg_append_Cons raw_list_add_def)

lemma ring_remove:
  assumes "dlist h head (us @ x # vs)"
  shows "dlist (raw_list_del (ring_pred head us) (ring_succ head vs) h) head (us @ vs)"
  using assms
  by (cases us rule: rev_cases; cases vs)
    (auto simp: dlist_def dseg_append_Cons raw_list_del_def)

lemma raw_list_del_at:
  "dlist h head (us @ x # vs) \<Longrightarrow>
     raw_list_del (prv (h x)) (nxt (h x)) h = raw_list_del (ring_pred head us) (ring_succ head vs) h"
  by (simp add: dlist_nxt dlist_prv)

lemma dlist_neighbours:
  assumes "dlist h head (us @ x # vs)"
  shows "prv (h x) \<in> set (head # us @ vs)" "nxt (h x) \<in> set (head # us @ vs)"
  using dlist_prv [OF assms] dlist_nxt [OF assms] by (auto split: list.splits)

text \<open>A ring is untouched by writes to nodes that are not its own.\<close>

lemma dlist_frame_add:
  assumes "dlist h other zs" "set (other # zs) \<inter> {new, p, n} = {}"
  shows "dlist (raw_list_add new p n h) other zs"
  by (rule dlist_cong [THEN iffD2, OF _ assms(1)]) (use assms(2) in \<open>auto intro!: raw_list_add_other\<close>)

lemma dlist_frame_del:
  assumes "dlist h other zs" "set (other # zs) \<inter> {p, n} = {}"
  shows "dlist (raw_list_del p n h) other zs"
  by (rule dlist_cong [THEN iffD2, OF _ assms(1)]) (use assms(2) in \<open>auto intro!: raw_list_del_other\<close>)

lemma dlist_frame_init:
  "dlist h other zs \<Longrightarrow> l \<notin> set (other # zs) \<Longrightarrow> dlist (INIT_LIST_HEAD l h) other zs"
  by (rule dlist_cong [THEN iffD2]) (auto intro!: INIT_LIST_HEAD_other)

subsection \<open>Each operation implements its list operation\<close>

lemma INIT_LIST_HEAD_dlist [simp]: "dlist (INIT_LIST_HEAD l h) l []"
  by (simp add: dlist_def INIT_LIST_HEAD_def)

lemma list_add_dlist:
  assumes "dlist h head xs" "new \<notin> set (head # xs)"
  shows "dlist (list_add new head h) head (new # xs)"
  using ring_insert [of h head "[]" xs new] assms by (simp add: list_add_def dlist_first)

lemma list_add_tail_dlist:
  assumes "dlist h head xs" "new \<notin> set (head # xs)"
  shows "dlist (list_add_tail new head h) head (xs @ [new])"
  using ring_insert [of h head xs "[]" new] assms by (simp add: list_add_tail_def dlist_last)

lemma list_add_frame:
  assumes "dlist h head xs" "dlist h other zs" "set (other # zs) \<inter> set (new # head # xs) = {}"
  shows "dlist (list_add new head h) other zs"
  unfolding list_add_def using assms
  by (intro dlist_frame_add) (auto simp: dlist_first split: list.splits)

lemma list_add_tail_frame:
  assumes "dlist h head xs" "dlist h other zs" "set (other # zs) \<inter> set (new # head # xs) = {}"
  shows "dlist (list_add_tail new head h) other zs"
  unfolding list_add_tail_def using assms
  by (intro dlist_frame_add) (auto simp: dlist_last)

lemma list_del_dlist:
  assumes "dlist h head (us @ x # vs)"
  shows "dlist (list_del x h) head (us @ vs)"
proof -
  let ?h = "raw_list_del (prv (h x)) (nxt (h x)) h"
  have "dlist ?h head (us @ vs)"
    using ring_remove [OF assms] assms by (simp add: raw_list_del_at)
  moreover from assms have "x \<notin> set (head # us @ vs)" by (auto simp: dlist_def)
  ultimately show ?thesis by (auto simp: list_del_def dlist_def)
qed

lemma list_del_poisons: "nxt (list_del x h x) = NULL \<and> prv (list_del x h x) = NULL"
  by (simp add: list_del_def)

lemma list_del_init_dlist:
  assumes "dlist h head (us @ x # vs)"
  shows "dlist (list_del_init x h) head (us @ vs)" and "dlist (list_del_init x h) x []"
proof -
  have "dlist (raw_list_del (prv (h x)) (nxt (h x)) h) head (us @ vs)"
    using ring_remove [OF assms] assms by (simp add: raw_list_del_at)
  moreover from assms have "x \<notin> set (head # us @ vs)" by (auto simp: dlist_def)
  ultimately show "dlist (list_del_init x h) head (us @ vs)"
    unfolding list_del_init_def by (rule dlist_frame_init)
  show "dlist (list_del_init x h) x []" by (simp add: list_del_init_def)
qed

lemma list_move_dlist:
  assumes "dlist h src (us @ x # vs)" "dlist h dst ys"
    and "set (src # us @ x # vs) \<inter> set (dst # ys) = {}"
  shows "dlist (list_move x dst h) src (us @ vs)" and "dlist (list_move x dst h) dst (x # ys)"
proof -
  let ?h = "raw_list_del (prv (h x)) (nxt (h x)) h"
  have src: "dlist ?h src (us @ vs)"
    using ring_remove [OF assms(1)] assms(1) by (simp add: raw_list_del_at)
  have dst: "dlist ?h dst ys"
    using assms(2,3) dlist_neighbours [OF assms(1)] by (intro dlist_frame_del) auto
  from assms(1) have x: "x \<notin> set (src # us @ vs)" by (auto simp: dlist_def)
  show "dlist (list_move x dst h) dst (x # ys)"
    unfolding list_move_def using dst assms(3) by (intro list_add_dlist) auto
  show "dlist (list_move x dst h) src (us @ vs)"
    unfolding list_move_def using src dst x assms(3) by (intro list_add_frame [OF dst]) auto
qed

lemma list_move_tail_dlist:
  assumes "dlist h src (us @ x # vs)" "dlist h dst ys"
    and "set (src # us @ x # vs) \<inter> set (dst # ys) = {}"
  shows "dlist (list_move_tail x dst h) src (us @ vs)" and "dlist (list_move_tail x dst h) dst (ys @ [x])"
proof -
  let ?h = "raw_list_del (prv (h x)) (nxt (h x)) h"
  have src: "dlist ?h src (us @ vs)"
    using ring_remove [OF assms(1)] assms(1) by (simp add: raw_list_del_at)
  have dst: "dlist ?h dst ys"
    using assms(2,3) dlist_neighbours [OF assms(1)] by (intro dlist_frame_del) auto
  from assms(1) have x: "x \<notin> set (src # us @ vs)" by (auto simp: dlist_def)
  show "dlist (list_move_tail x dst h) dst (ys @ [x])"
    unfolding list_move_tail_def using dst assms(3) by (intro list_add_tail_dlist) auto
  show "dlist (list_move_tail x dst h) src (us @ vs)"
    unfolding list_move_tail_def using src dst x assms(3) by (intro list_add_tail_frame [OF dst]) auto
qed

text \<open>Within one ring, \<^verbatim>\<open>list_move\<close> brings the element to the front.\<close>

lemma list_move_same:
  assumes "dlist h head (us @ x # vs)"
  shows "dlist (list_move x head h) head (x # us @ vs)"
proof -
  have "dlist (raw_list_del (prv (h x)) (nxt (h x)) h) head (us @ vs)"
    using ring_remove [OF assms] assms by (simp add: raw_list_del_at)
  then show ?thesis
    unfolding list_move_def using assms by (intro list_add_dlist) (auto simp: dlist_def)
qed

lemma set_next_set_prev_commute: "set_next p v (set_prev q w h) = set_prev q w (set_next p v h)"
  by (auto simp: set_next_def set_prev_def fun_eq_iff)

lemma raw_list_add_del: "raw_list_add new p n (raw_list_del p n h) = raw_list_add new p n h"
  by (auto simp: raw_list_add_def raw_list_del_def set_next_def set_prev_def fun_eq_iff)

lemma list_replace_writes:
  assumes "nxt (h old) \<noteq> old" "new \<noteq> old"
  shows "list_replace old new h = raw_list_add new (prv (h old)) (nxt (h old)) h"
  using assms by (simp add: list_replace_def raw_list_add_def Let_def set_next_set_prev_commute)

lemma list_replace_dlist:
  assumes "dlist h head (us @ old # vs)" "new \<notin> set (head # us @ old # vs)"
  shows "dlist (list_replace old new h) head (us @ new # vs)"
proof -
  let ?p = "ring_pred head us" and ?n = "ring_succ head vs"
  have "dlist (raw_list_add new ?p ?n (raw_list_del ?p ?n h)) head (us @ new # vs)"
    by (rule ring_insert [OF ring_remove [OF assms(1)]]) (use assms(2) in auto)
  moreover have "nxt (h old) \<noteq> old"
    using dlist_neighbours(2) [OF assms(1)] assms(1) by (auto simp: dlist_def)
  ultimately show ?thesis
    using assms by (simp add: list_replace_writes raw_list_add_del dlist_nxt dlist_prv)
qed

text \<open>Replacing the head itself moves the whole ring to a new head.\<close>

lemma list_replace_head:
  assumes "dlist h old xs" "new \<notin> set (old # xs)"
  shows "dlist (list_replace old new h) new xs"
  using assms
  by (cases xs; cases "tl xs" rule: rev_cases)
    (auto simp: dlist_def dseg_append_Cons list_replace_def Let_def)

lemma list_replace_init_dlist:
  assumes "dlist h head (us @ old # vs)" "new \<notin> set (head # us @ old # vs)"
  shows "dlist (list_replace_init old new h) head (us @ new # vs)"
    and "dlist (list_replace_init old new h) old []"
proof -
  have "dlist (list_replace old new h) head (us @ new # vs)" by (rule list_replace_dlist [OF assms])
  then show "dlist (list_replace_init old new h) head (us @ new # vs)"
    unfolding list_replace_init_def by (rule dlist_frame_init) (use assms in \<open>auto simp: dlist_def\<close>)
  show "dlist (list_replace_init old new h) old []" by (simp add: list_replace_init_def)
qed

lemma list_empty_iff: "dlist h head xs \<Longrightarrow> list_empty head h \<longleftrightarrow> xs = []"
  by (cases xs) (auto simp: list_empty_def dlist_def)

lemma list_empty_careful_iff: "dlist h head xs \<Longrightarrow> list_empty_careful head h \<longleftrightarrow> xs = []"
  by (cases xs) (auto simp: list_empty_careful_def dlist_def)

lemma list_is_last_iff:
  assumes "dlist h head (us @ x # vs)"
  shows "list_is_last x head h \<longleftrightarrow> vs = []"
  using dlist_nxt [OF assms] assms by (cases vs) (auto simp: list_is_last_def dlist_def)

lemma list_is_singular_iff:
  assumes "dlist h head xs"
  shows "list_is_singular head h \<longleftrightarrow> length xs = 1"
  using dlist_first [OF assms] dlist_last [OF assms] assms
  by (cases xs; cases "tl xs")
    (auto simp: list_is_singular_def list_empty_def dlist_def split: if_splits)

lemma list_cut_position_dlist:
  assumes "dlist h head (us @ entry # vs)" "l \<notin> set (head # us @ entry # vs)"
  shows "dlist (list_cut_position l head entry h) l (us @ [entry])"
    and "dlist (list_cut_position l head entry h) head vs"
proof -
  have "\<not> list_empty head h" using list_empty_iff [OF assms(1)] by simp
  moreover have "\<not> (list_is_singular head h \<and> nxt (h head) \<noteq> entry \<and> head \<noteq> entry)"
    using list_is_singular_iff [OF assms(1)] dlist_first [OF assms(1)] by (cases us) auto
  moreover have "entry \<noteq> head" using assms(1) by (auto simp: dlist_def)
  ultimately have eq: "list_cut_position l head entry h = raw_list_cut_position l head entry h"
    by (auto simp: list_cut_position_def)
  show "dlist (list_cut_position l head entry h) l (us @ [entry])"
    using assms by (cases us; cases vs)
      (auto simp: eq dlist_def dseg_append_Cons raw_list_cut_position_def Let_def)
  show "dlist (list_cut_position l head entry h) head vs"
    using assms by (cases us; cases vs)
      (auto simp: eq dlist_def dseg_append_Cons raw_list_cut_position_def Let_def)
qed

subsection \<open>Splicing\<close>

text \<open>
  A heap \<open>h'\<close> that differs from \<open>h\<close> only in the two links \<open>p - x\<close> and \<open>y - n\<close>: the segment
  that ended before \<open>x\<close>, the one that starts after \<open>y\<close>, and the one from \<open>x\<close> to \<open>y\<close>.
\<close>

definition relinked :: "addr \<Rightarrow> addr \<Rightarrow> addr \<Rightarrow> addr \<Rightarrow> list_heap \<Rightarrow> list_heap \<Rightarrow> bool" where
  "relinked p x y n h h' \<longleftrightarrow>
     (\<forall>a. nxt (h' a) = (if a = y then n else if a = p then x else nxt (h a))) \<and>
     (\<forall>a. prv (h' a) = (if a = n then y else if a = x then p else prv (h a)))"

lemma relinked_other:
  assumes "relinked p x y n h h'" "set (a # zs) \<inter> {y, p} = {}" "set (zs @ [b]) \<inter> {n, x} = {}"
  shows "dseg h' a zs b \<longleftrightarrow> dseg h a zs b"
  using assms by (intro dseg_cong) (auto simp: relinked_def)

lemma relinked_left:
  assumes "relinked p x y n h h'" "dseg h head us z" "p = ring_pred head us"
    and "y \<notin> set (head # us)" "n \<notin> set us" "x \<notin> set us" "x \<noteq> n" "distinct (head # us)"
  shows "dseg h' head us x"
proof (cases us rule: rev_cases)
  case Nil
  with assms show ?thesis by (auto simp: relinked_def)
next
  case (snoc us' u)
  with assms have "dseg h' head us' u"
    by (subst relinked_other [OF assms(1)]) (auto simp: dseg_snoc)
  with snoc assms show ?thesis by (auto simp: dseg_snoc relinked_def)
qed

lemma relinked_right:
  assumes "relinked p x y n h h'" "dseg h z vs head" "n = ring_succ head vs"
    and "x \<notin> set (head # vs)" "p \<notin> set vs" "y \<notin> set vs" "distinct (vs @ [head])"
  shows "dseg h' y vs head"
proof (cases vs)
  case Nil
  with assms show ?thesis by (auto simp: relinked_def)
next
  case (Cons v vs')
  with assms have "dseg h' v vs' head"
    by (subst relinked_other [OF assms(1)]) auto
  with Cons assms show ?thesis by (auto simp: relinked_def)
qed

lemma raw_list_splice_relinked:
  assumes "dlist h l xs" "xs \<noteq> []"
  shows "relinked p (List.hd xs) (last xs) n h (raw_list_splice l p n h)"
  using dlist_first [OF assms(1)] dlist_last [OF assms(1)] assms(2)
  by (cases xs) (auto simp: relinked_def raw_list_splice_def Let_def)

lemma ring_splice:
  assumes "dlist h l xs" "xs \<noteq> []" "dlist h head (us @ vs)"
    and "set (l # xs) \<inter> set (head # us @ vs) = {}"
  shows "dlist (raw_list_splice l (ring_pred head us) (ring_succ head vs) h) head (us @ xs @ vs)"
proof -
  let ?p = "ring_pred head us" and ?n = "ring_succ head vs" and ?x = "List.hd xs" and ?y = "last xs"
  let ?h = "raw_list_splice l ?p ?n h"
  have rel: "relinked ?p ?x ?y ?n h ?h" by (rule raw_list_splice_relinked [OF assms(1,2)])
  have dist: "distinct (head # us @ xs @ vs)" using assms by (auto simp: dlist_def)
  have xy: "?x \<in> set xs" "?y \<in> set xs" using assms(2) by simp_all
  have pn: "?p \<in> set (head # us)" "?n \<in> set (head # vs)" by (auto split: list.splits)
  have "dseg h head us ?n" "dseg h ?p vs head"
    using assms(3) by (cases us rule: rev_cases; cases vs; auto simp: dlist_def dseg_append_Cons)+
  note segs = this
  have "dseg ?h head us ?x"
    by (rule relinked_left [OF rel segs(1) refl]) (use dist xy pn in auto)
  moreover have "dseg ?h ?y vs head"
    by (rule relinked_right [OF rel segs(2) refl]) (use dist xy pn in auto)
  moreover have "dseg ?h ?x (tl xs @ vs) head"
  proof (cases "tl xs" rule: rev_cases)
    case Nil
    with assms(2) have "xs = [?x]" by (cases xs) auto
    with \<open>dseg ?h ?y vs head\<close> Nil show ?thesis by (metis append_Nil last.simps)
  next
    case (snoc zs y)
    with assms(2) obtain x where xs: "xs = x # zs @ [y]" by (cases xs) auto
    then have "dseg h x zs y" using assms(1) by (simp add: dlist_def dseg_snoc)
    then have "dseg ?h x zs y"
      using dist pn by (subst relinked_other [OF rel]) (auto simp: xs)
    with \<open>dseg ?h ?y vs head\<close> show ?thesis by (simp add: xs dseg_append_Cons)
  qed
  moreover have "us @ xs @ vs = us @ ?x # tl xs @ vs" using assms(2) by simp
  ultimately have "dseg ?h head (us @ xs @ vs) head" by (simp only: dseg_append_Cons)
  with dist show ?thesis by (simp add: dlist_def)
qed

lemma list_splice_dlist:
  assumes "dlist h l xs" "dlist h head ys" "set (l # xs) \<inter> set (head # ys) = {}"
  shows "dlist (list_splice l head h) head (xs @ ys)"
  using ring_splice [of h l xs head "[]" ys] assms
  by (cases "xs = []") (simp_all add: list_splice_def list_empty_iff dlist_first)

lemma list_splice_tail_dlist:
  assumes "dlist h l xs" "dlist h head ys" "set (l # xs) \<inter> set (head # ys) = {}"
  shows "dlist (list_splice_tail l head h) head (ys @ xs)"
  using ring_splice [of h l xs head ys "[]"] assms
  by (cases "xs = []") (simp_all add: list_splice_tail_def list_empty_iff dlist_last)

lemma list_splice_init_dlist:
  assumes "dlist h l xs" "dlist h head ys" "set (l # xs) \<inter> set (head # ys) = {}"
  shows "dlist (list_splice_init l head h) head (xs @ ys)"
    and "dlist (list_splice_init l head h) l []"
proof -
  have eq: "list_splice_init l head h =
      (if xs = [] then h else INIT_LIST_HEAD l (list_splice l head h))"
    using assms(1) by (simp add: list_splice_init_def list_splice_def list_empty_iff)
  have "l \<notin> set (head # xs @ ys)" using assms by (auto simp: dlist_def)
  then show "dlist (list_splice_init l head h) head (xs @ ys)"
    using list_splice_dlist [OF assms] assms(2) by (auto simp: eq intro: dlist_frame_init)
  show "dlist (list_splice_init l head h) l []"
    using assms(1) by (auto simp: eq)
qed

lemma list_splice_tail_init_dlist:
  assumes "dlist h l xs" "dlist h head ys" "set (l # xs) \<inter> set (head # ys) = {}"
  shows "dlist (list_splice_tail_init l head h) head (ys @ xs)"
    and "dlist (list_splice_tail_init l head h) l []"
proof -
  have eq: "list_splice_tail_init l head h =
      (if xs = [] then h else INIT_LIST_HEAD l (list_splice_tail l head h))"
    using assms(1) by (simp add: list_splice_tail_init_def list_splice_tail_def list_empty_iff)
  have "l \<notin> set (head # ys @ xs)" using assms by (auto simp: dlist_def)
  then show "dlist (list_splice_tail_init l head h) head (ys @ xs)"
    using list_splice_tail_dlist [OF assms] assms(2) by (auto simp: eq intro: dlist_frame_init)
  show "dlist (list_splice_tail_init l head h) l []"
    using assms(1) by (auto simp: eq)
qed

subsection \<open>Iteration\<close>

text \<open>On a ring both loops end, and visit each element once, forwards and backwards.\<close>

lemma list_for_each_dseg:
  "dseg h p xs head \<Longrightarrow> head \<notin> set xs \<Longrightarrow> list_for_each (nxt (h p)) head h = Some xs"
proof (induction xs arbitrary: p)
  case Nil
  then show ?case by (simp add: list_for_each.simps)
next
  case (Cons x xs)
  then show ?case by (subst list_for_each.simps) auto
qed

lemma list_for_each_dlist: "dlist h head xs \<Longrightarrow> list_for_each (nxt (h head)) head h = Some xs"
  by (auto simp: dlist_def intro: list_for_each_dseg)

lemma list_for_each_prev_dseg:
  "dseg h head xs q \<Longrightarrow> head \<notin> set xs \<Longrightarrow> list_for_each_prev (prv (h q)) head h = Some (rev xs)"
proof (induction xs arbitrary: q rule: rev_induct)
  case Nil
  then show ?case by (simp add: list_for_each_prev.simps)
next
  case (snoc x xs)
  then show ?case by (subst list_for_each_prev.simps) (auto simp: dseg_snoc)
qed

lemma list_for_each_prev_dlist:
  "dlist h head xs \<Longrightarrow> list_for_each_prev (prv (h head)) head h = Some (rev xs)"
  by (auto simp: dlist_def intro: list_for_each_prev_dseg)

subsection \<open>The code provides the interface\<close>

lemma list_del_frame:
  assumes "dlist h head (us @ x # vs)" "dlist h other zs"
    and "set (other # zs) \<inter> set (head # us @ x # vs) = {}"
  shows "dlist (list_del x h) other zs"
proof -
  have "dlist (raw_list_del (prv (h x)) (nxt (h x)) h) other zs"
    using dlist_neighbours [OF assms(1)] assms by (intro dlist_frame_del) auto
  with assms(3) show ?thesis by (auto simp: list_del_def dlist_def)
qed

lemma list_move_frame:
  assumes "dlist h src (us @ x # vs)" "dlist h dst ys" "dlist h other zs"
    and "set (src # us @ x # vs) \<inter> set (dst # ys) = {}"
    and "set (other # zs) \<inter> set (src # us @ x # vs) = {}" "set (other # zs) \<inter> set (dst # ys) = {}"
  shows "dlist (list_move x dst h) other zs"
proof -
  let ?h = "raw_list_del (prv (h x)) (nxt (h x)) h"
  have "dlist ?h other zs" "dlist ?h dst ys"
    using dlist_neighbours [OF assms(1)] assms by (intro dlist_frame_del; auto)+
  with assms show ?thesis
    unfolding list_move_def by (intro list_add_frame [of ?h dst ys other zs x]) auto
qed

interpretation lh: intrusive_list dlist INIT_LIST_HEAD list_add_tail list_del list_move "\<lambda>l h. nxt (h l)"
proof unfold_locales
  show "distinct (l # xs)" if "dlist h l xs" for h l xs using that by (simp add: dlist_def)
  show "xs = ys" if "dlist h l xs" "dlist h l ys" for h l xs ys using that by (rule dlist_unique)
  show "nxt (h l) = x" if "dlist h l (x # xs)" for h l x xs using dlist_first [OF that] by simp
qed (blast intro: INIT_LIST_HEAD_dlist dlist_frame_init list_add_tail_dlist list_add_tail_frame
       list_del_dlist list_del_frame list_move_dlist list_move_frame)+

subsection \<open>Properties\<close>

definition sample_ring :: list_heap where
  "sample_ring = fold (\<lambda>x. list_add_tail x 0x10) [0x20, 0x30, 0x40]
     (INIT_LIST_HEAD 0x10 (\<lambda>_. \<lparr>nxt = NULL, prv = NULL\<rparr>))"

lemma sample_ring_dlist: "dlist sample_ring 0x10 [0x20, 0x30, 0x40]"
  by (simp add: sample_ring_def dlist_def list_add_tail_def raw_list_add_def INIT_LIST_HEAD_def)



text \<open>Cutting a list after one of its elements splits it there, and splicing the cut part back
  at the front restores the original list.\<close>

theorem list_cut_splice_roundtrip:
  assumes "dlist h head (us @ entry # vs)" "l \<notin> set (head # us @ entry # vs)"
  defines "h' \<equiv> list_cut_position l head entry h"
  shows "dlist h' l (us @ [entry]) \<and> dlist h' head vs \<and>
         dlist (list_splice_init l head h') head (us @ entry # vs) \<and> dlist (list_splice_init l head h') l []"
proof -
  have cut: "dlist h' l (us @ [entry])" "dlist h' head vs"
    unfolding h'_def using list_cut_position_dlist [OF assms(1,2)] by blast+
  moreover have "set (l # us @ [entry]) \<inter> set (head # vs) = {}"
    using assms(1,2) by (auto simp: dlist_def)
  ultimately show ?thesis using list_splice_init_dlist [of h' l "us @ [entry]" head vs] by simp
qed

theorem list_cut_splice_roundtrip_witness:
  "dlist (list_splice_init 0x50 0x10 (list_cut_position 0x50 0x10 0x30 sample_ring)) 0x10 [0x20, 0x30, 0x40]"
  using list_cut_splice_roundtrip [of sample_ring "0x10" "[0x20]" "0x30" "[0x40]" "0x50"] sample_ring_dlist
  by simp

text \<open>Iterating over a ring terminates: forwards it visits exactly the elements in order, backwards
  in reverse order.\<close>

theorem list_iteration_terminates:
  assumes "dlist h head xs"
  shows "list_for_each (nxt (h head)) head h = Some xs \<and>
         list_for_each_prev (prv (h head)) head h = Some (rev xs)"
  using list_for_each_dlist [OF assms] list_for_each_prev_dlist [OF assms] by simp

theorem list_iteration_terminates_witness:
  "list_for_each (nxt (sample_ring 0x10)) 0x10 sample_ring = Some [0x20, 0x30, 0x40] \<and>
   list_for_each_prev (prv (sample_ring 0x10)) 0x10 sample_ring = Some [0x40, 0x30, 0x20]"
  using list_iteration_terminates [OF sample_ring_dlist] by simp

end
