(* ===== verification/Kernel_State.thy ===== *)
theory Kernel_State
  imports List_Head
begin

section \<open>The kernel's objects and global state\<close>

text \<open>
  The structures the kernel's headers declare, the heap they live in and the global variables
  of its C files.

  Memory is modelled by one store per C structure type, keyed by the object's address, and one
  store for the 64-bit cells of page tables and guard pages. Two objects of different types
  never share an address range, which is how the C type system sees them; where the code
  reinterprets one structure as another (the page table argument of \<^verbatim>\<open>vm_map_alloc\<close>) the model
  computes the same address and accesses the cell store there. The list nodes embedded in
  structures live in the list heap at the object's address plus the member's offset, so
  \<^verbatim>\<open>container_of\<close> is the subtraction the macro performs. Names are HOL strings.
\<close>

subsection \<open>Layout constants\<close>

abbreviation VM_PAGE_SIZE :: u64 where "VM_PAGE_SIZE \<equiv> 4096"

abbreviation SIZEOF_VM_PAGE :: u64 where "SIZEOF_VM_PAGE \<equiv> 40"
abbreviation OFF_PAGE_SIBLINGS :: u64 where "OFF_PAGE_SIBLINGS \<equiv> 8"

abbreviation SIZEOF_PMAP :: u64 where "SIZEOF_PMAP \<equiv> 40"

abbreviation SIZEOF_VM_MAP :: u64 where "SIZEOF_VM_MAP \<equiv> 64"
abbreviation OFF_MAP_PMAP :: u64 where "OFF_MAP_PMAP \<equiv> 8"
abbreviation OFF_MAP_ENTRIES :: u64 where "OFF_MAP_ENTRIES \<equiv> 48"

abbreviation SIZEOF_MAP_ENTRY :: u64 where "SIZEOF_MAP_ENTRY \<equiv> 40"
abbreviation OFF_ENTRY_SIBLINGS :: u64 where "OFF_ENTRY_SIBLINGS \<equiv> 24"

abbreviation SIZEOF_ZONE :: u64 where "SIZEOF_ZONE \<equiv> 96"
abbreviation OFF_ZONE_FREE :: u64 where "OFF_ZONE_FREE \<equiv> 40"
abbreviation OFF_ZONE_USED :: u64 where "OFF_ZONE_USED \<equiv> 56"
abbreviation SIZEOF_ZONE_META :: u64 where "SIZEOF_ZONE_META \<equiv> 16"

abbreviation SIZEOF_STACK :: u64 where "SIZEOF_STACK \<equiv> 24"
abbreviation OFF_STACK_SIBLINGS :: u64 where "OFF_STACK_SIBLINGS \<equiv> 8"

abbreviation SIZEOF_TASK :: u64 where "SIZEOF_TASK \<equiv> 112"
abbreviation OFF_TASK_TASKS :: u64 where "OFF_TASK_TASKS \<equiv> 40"
abbreviation OFF_TASK_THREADS :: u64 where "OFF_TASK_THREADS \<equiv> 56"

abbreviation SIZEOF_THREAD :: u64 where "SIZEOF_THREAD \<equiv> 288"
abbreviation OFF_THREAD_SIBLINGS :: u64 where "OFF_THREAD_SIBLINGS \<equiv> 136"
abbreviation OFF_THREAD_THREADS :: u64 where "OFF_THREAD_THREADS \<equiv> 152"

abbreviation SIZEOF_PROCESSOR :: u64 where "SIZEOF_PROCESSOR \<equiv> 56"
abbreviation OFF_PROC_LIST :: u64 where "OFF_PROC_LIST \<equiv> 40"

subsection \<open>Structures\<close>

text \<open>\<^verbatim>\<open>struct vm_page\<close>: \<open>pg_alloc\<close> is \<^verbatim>\<open>state == VM_PAGE_STATE_ALLOC\<close>.\<close>

record vm_page =
  pg_paddr :: u64
  pg_idx :: u64
  pg_alloc :: bool
  pg_mapped :: bool

record vm_map =
  map_timestamp :: u64
  map_pmap :: addr
  map_min :: addr
  map_max :: addr
  map_size :: u64
  map_lock :: bool
  map_nentries :: u32

record vm_map_entry =
  ent_base :: addr
  ent_size :: u64
  ent_guard_page :: bool
  ent_kernel_code :: bool

text \<open>\<^verbatim>\<open>struct zone\<close>: \<open>z_used\<close> is \<^verbatim>\<open>state == ZONE_STATE_USED\<close>.\<close>

record zone =
  z_count :: i32
  z_count_free :: i32
  z_size :: u64
  z_max_size :: u64
  z_elem_size :: u64
  z_page_count :: i32
  z_index :: i32
  z_name :: string
  z_used :: bool

record task =
  tk_pid :: i32
  tk_state :: i32
  tk_name :: string
  tk_map :: addr
  tk_current_time :: u64
  tk_total_time :: u64
  tk_priority :: i32
  tk_preempt :: i32
  tk_ref_count :: i32

text \<open>\<^verbatim>\<open>struct arm64_cpu_context\<close>: x19 to x28 as a function of the register number.\<close>

record cpu_context =
  ctx_x :: "nat \<Rightarrow> u64"
  ctx_fp :: u64
  ctx_lr :: u64
  ctx_sp :: u64

record exception_frame =
  fr_regs :: "nat \<Rightarrow> u64"
  fr_fp :: u64
  fr_lr :: u64
  fr_sp :: u64
  fr_far :: u64
  fr_esr :: u64
  fr_elr :: u64

record thread =
  th_context :: cpu_context
  th_stack_base :: addr
  th_stack :: addr
  th_thread_id :: i32
  th_task :: addr
  th_entry :: addr
  th_args :: addr
  th_preempt :: i32
  th_active :: bool
  th_ref_count :: i32
  th_current_time :: u64
  th_total_time :: u64
  th_name :: string

record processor =
  pr_active_thread :: addr
  pr_next_thread :: addr
  pr_idle_thread :: addr
  pr_priority :: i32
  pr_cpu_id :: i32
  pr_state :: i32

record cpu_data =
  cpu_num :: i32
  cpu_type :: i32
  cpu_flags :: u32
  cpu_processor :: addr
  cpu_excepstack_top :: addr
  cpu_intstack_top :: addr
  cpu_interrupt_source :: u32
  cpu_interrupt_state :: u32
  cpu_interrupt_handler :: addr
  cpu_reset_handler :: addr
  cpu_active_thread :: addr
  cpu_active_stack :: addr
  cpu_tpidr_el0 :: u64

subsection \<open>All-zero objects\<close>

definition zero_vm_page :: vm_page where
  "zero_vm_page = \<lparr>pg_paddr = 0, pg_idx = 0, pg_alloc = False, pg_mapped = False\<rparr>"

definition zero_vm_map :: vm_map where
  "zero_vm_map = \<lparr>map_timestamp = 0, map_pmap = 0, map_min = 0, map_max = 0, map_size = 0,
     map_lock = False, map_nentries = 0\<rparr>"

definition zero_vm_map_entry :: vm_map_entry where
  "zero_vm_map_entry =
     \<lparr>ent_base = 0, ent_size = 0, ent_guard_page = False, ent_kernel_code = False\<rparr>"

definition zero_zone :: zone where
  "zero_zone = \<lparr>z_count = 0, z_count_free = 0, z_size = 0, z_max_size = 0, z_elem_size = 0,
     z_page_count = 0, z_index = 0, z_name = [], z_used = False\<rparr>"

definition zero_task :: task where
  "zero_task = \<lparr>tk_pid = 0, tk_state = 0, tk_name = [], tk_map = 0, tk_current_time = 0,
     tk_total_time = 0, tk_priority = 0, tk_preempt = 0, tk_ref_count = 0\<rparr>"

definition zero_context :: cpu_context where
  "zero_context = \<lparr>ctx_x = (\<lambda>_. 0), ctx_fp = 0, ctx_lr = 0, ctx_sp = 0\<rparr>"

definition zero_thread :: thread where
  "zero_thread = \<lparr>th_context = zero_context, th_stack_base = 0, th_stack = 0, th_thread_id = 0,
     th_task = 0, th_entry = 0, th_args = 0, th_preempt = 0, th_active = False, th_ref_count = 0,
     th_current_time = 0, th_total_time = 0, th_name = []\<rparr>"

definition zero_processor :: processor where
  "zero_processor = \<lparr>pr_active_thread = 0, pr_next_thread = 0, pr_idle_thread = 0,
     pr_priority = 0, pr_cpu_id = 0, pr_state = 0\<rparr>"

definition zero_cpu_data :: cpu_data where
  "zero_cpu_data = \<lparr>cpu_num = 0, cpu_type = 0, cpu_flags = 0, cpu_processor = 0,
     cpu_excepstack_top = 0, cpu_intstack_top = 0, cpu_interrupt_source = 0,
     cpu_interrupt_state = 0, cpu_interrupt_handler = 0, cpu_reset_handler = 0,
     cpu_active_thread = 0, cpu_active_stack = 0, cpu_tpidr_el0 = 0\<rparr>"

definition null_node :: list_head where
  "null_node = \<lparr>nxt = NULL, prv = NULL\<rparr>"

subsection \<open>The heap\<close>

record kheap =
  lists :: list_heap
  cells :: "addr \<Rightarrow> u64"
  pages :: "addr \<Rightarrow> vm_page"
  vm_maps :: "addr \<Rightarrow> vm_map"
  map_entries :: "addr \<Rightarrow> vm_map_entry"
  zones :: "addr \<Rightarrow> zone"
  stack_objs :: "addr \<Rightarrow> addr"
  task_objs :: "addr \<Rightarrow> task"
  thread_objs :: "addr \<Rightarrow> thread"
  proc_objs :: "addr \<Rightarrow> processor"

text \<open>The objects in the \<open>n\<close> bytes from \<open>a\<close> are those at distance less than \<open>n\<close>.\<close>

definition in_bytes :: "addr \<Rightarrow> addr \<Rightarrow> u64 \<Rightarrow> bool" where
  "in_bytes p a n \<longleftrightarrow> p - a < n"

definition zero_in :: "addr \<Rightarrow> u64 \<Rightarrow> 'a \<Rightarrow> (addr \<Rightarrow> 'a) \<Rightarrow> addr \<Rightarrow> 'a" where
  "zero_in a n z f = (\<lambda>p. if in_bytes p a n then z else f p)"

text \<open>\<^verbatim>\<open>memset (addr, 0, n)\<close>, as every object in the range sees it.\<close>

definition memset_zero :: "addr \<Rightarrow> u64 \<Rightarrow> ('a kheap_scheme) \<Rightarrow> ('a kheap_scheme)" where
  "memset_zero a n s = s\<lparr>
     lists := zero_in a n null_node (lists s),
     cells := zero_in a n 0 (cells s),
     pages := zero_in a n zero_vm_page (pages s),
     vm_maps := zero_in a n zero_vm_map (vm_maps s),
     map_entries := zero_in a n zero_vm_map_entry (map_entries s),
     zones := zero_in a n zero_zone (zones s),
     stack_objs := zero_in a n 0 (stack_objs s),
     task_objs := zero_in a n zero_task (task_objs s),
     thread_objs := zero_in a n zero_thread (thread_objs s),
     proc_objs := zero_in a n zero_processor (proc_objs s)\<rparr>"

subsection \<open>Global variables\<close>

record topology_cpu =
  tc_phys_id :: u32
  tc_cpu_id :: u32
  tc_cluster_id :: u32

record topology_cluster =
  tcl_cluster_id :: u32
  tcl_num_cpus :: u32

text \<open>The arrays are those of \<^verbatim>\<open>machine.c\<close>; the pointers to boot cpu and cluster are indices into them.\<close>

record topology_info =
  ti_num_cpus :: u32
  ti_num_clusters :: u32
  ti_max_cpu_id :: u32
  ti_max_cluster_id :: u32
  ti_cpus :: "topology_cpu list"
  ti_clusters :: "topology_cluster list"
  ti_boot_cpu :: "nat option"
  ti_boot_cluster :: "nat option"

record kstate = kheap +
  vm_page_region_upper_bound :: addr
  vm_page_region_cursor :: addr
  vm_page_region_size :: u64
  vm_page_region :: addr
  vm_page_idx :: u64
  memory_virt_base :: addr
  memory_phys_base :: u64
  memory_phys_size :: u64
  kernel_phys_base :: u64
  kernel_phys_size :: u64
  kernel_virt_base :: addr
  ptregion_initialised :: bool
  ptregion_phys_base :: u64
  pagetables_region_cursor :: addr
  kernel_tte :: addr
  kernel_ttep :: u64
  invalid_tte :: addr
  invalid_ttep :: u64
  ttbr0_el1 :: u64
  ttbr1_el1 :: u64
  num_zones_used :: u32
  cpu_data_entries :: "i32 \<Rightarrow> cpu_data"
  boot_cpu_data :: cpu_data
  cpu_count :: i32
  processor_count :: i32
  primary_processor :: addr
  processor_zone :: addr
  kernel_task :: addr
  task_pid :: i32
  task_zone :: addr
  current_task :: addr
  thread_zone :: addr
  thread_id_max :: i32
  stack_zone :: addr
  irq_masked :: bool
  topology :: topology_info

subsection \<open>The environment\<close>

text \<open>
  What the C code is linked against and does not contain: the address translation of the MMU
  (\<^verbatim>\<open>mmu_translate_kvtop\<close>, an \<^verbatim>\<open>AT S1E1R\<close> instruction), the addresses the linker gives to
  global objects and to the assembly routines, and the identification register of the
  executing CPU.
\<close>

record arch_env =
  kvtop :: "addr \<Rightarrow> u64"
  mpidr_el1 :: u64
  sym_pagetables_region_base :: addr
  sym_pagetables_region_end :: addr
  sym_vm_page_region_lower_bound :: addr
  sym_page_list :: addr
  sym_zone_array :: addr
  sym_kernel_pmap_ref :: addr
  sym_kernel_pmap :: addr
  sym_tasks :: addr
  sym_threads :: addr
  sym_stacks :: addr
  sym_active_processors :: addr
  sym_idle_processors :: addr
  sym_LowResetVector :: addr
  sym_fork64_return :: addr

subsection \<open>Lemmas on the heap\<close>

lemma zero_in_outside [simp]: "\<not> in_bytes p a n \<Longrightarrow> zero_in a n z f p = f p"
  by (simp add: zero_in_def)

lemma zero_in_inside [simp]: "in_bytes p a n \<Longrightarrow> zero_in a n z f p = z"
  by (simp add: zero_in_def)

lemma dlist_zero_in:
  assumes "dlist h l xs" "\<And>x. x \<in> set (l # xs) \<Longrightarrow> \<not> in_bytes x a n"
  shows "dlist (zero_in a n z h) l xs"
  by (rule dlist_cong [THEN iffD2, OF _ assms(1)]) (use assms(2) in auto)

lemma memset_zero_lists [simp]: "lists (memset_zero a n s) = zero_in a n null_node (lists s)"
  by (simp add: memset_zero_def)

lemma memset_zero_zones [simp]: "zones (memset_zero a n s) = zero_in a n zero_zone (zones s)"
  by (simp add: memset_zero_def)

lemma memset_zero_threads [simp]:
  "thread_objs (memset_zero a n s) = zero_in a n zero_thread (thread_objs s)"
  by (simp add: memset_zero_def)

lemma memset_zero_more [simp]: "kheap.more (memset_zero a n s) = kheap.more s"
  by (simp add: memset_zero_def)

subsection \<open>The state at reset\<close>

text \<open>
  All of memory and every global variable zero, as the loader leaves the \<^verbatim>\<open>.bss\<close>, and an
  environment with the symbols at addresses of a typical link: the concrete inputs at which the
  properties are instantiated.
\<close>

definition reset_state :: kstate where
  "reset_state = \<lparr>
     lists = (\<lambda>_. null_node), cells = (\<lambda>_. 0), pages = (\<lambda>_. zero_vm_page), vm_maps = (\<lambda>_. zero_vm_map),
     map_entries = (\<lambda>_. zero_vm_map_entry), zones = (\<lambda>_. zero_zone), stack_objs = (\<lambda>_. 0),
     task_objs = (\<lambda>_. zero_task), thread_objs = (\<lambda>_. zero_thread), proc_objs = (\<lambda>_. zero_processor),
     vm_page_region_upper_bound = 0, vm_page_region_cursor = 0, vm_page_region_size = 0, vm_page_region = 0,
     vm_page_idx = 0, memory_virt_base = 0, memory_phys_base = 0, memory_phys_size = 0, kernel_phys_base = 0,
     kernel_phys_size = 0, kernel_virt_base = 0, ptregion_initialised = False, ptregion_phys_base = 0,
     pagetables_region_cursor = 0, kernel_tte = 0, kernel_ttep = 0, invalid_tte = 0, invalid_ttep = 0,
     ttbr0_el1 = 0, ttbr1_el1 = 0, num_zones_used = 0, cpu_data_entries = (\<lambda>_. zero_cpu_data),
     boot_cpu_data = zero_cpu_data, cpu_count = 0, processor_count = 0, primary_processor = 0,
     processor_zone = 0, kernel_task = 0, task_pid = 0, task_zone = 0, current_task = 0, thread_zone = 0,
     thread_id_max = 0, stack_zone = 0, irq_masked = False,
     topology = \<lparr>ti_num_cpus = 0, ti_num_clusters = 0, ti_max_cpu_id = 0, ti_max_cluster_id = 0,
       ti_cpus = replicate 16 \<lparr>tc_phys_id = 0, tc_cpu_id = 0, tc_cluster_id = 0\<rparr>,
       ti_clusters = replicate 4 \<lparr>tcl_cluster_id = 0, tcl_num_cpus = 0\<rparr>,
       ti_boot_cpu = None, ti_boot_cluster = None\<rparr>\<rparr>"

definition sample_env :: arch_env where
  "sample_env = \<lparr>kvtop = (\<lambda>v. v - 0xfffffff000000000 + 0x40000000), mpidr_el1 = 0x80000000,
     sym_pagetables_region_base = 0xfffffff000010000, sym_pagetables_region_end = 0xfffffff000020000,
     sym_vm_page_region_lower_bound = 0xfffffff000100000, sym_page_list = 0xfffffff000001000,
     sym_zone_array = 0xfffffff000002000, sym_kernel_pmap_ref = 0xfffffff00003ee80,
     sym_kernel_pmap = 0xfffffff000003000, sym_tasks = 0xfffffff000005000,
     sym_threads = 0xfffffff000005010, sym_stacks = 0xfffffff000005020,
     sym_active_processors = 0xfffffff000005030, sym_idle_processors = 0xfffffff000005040,
     sym_LowResetVector = 0xfffffff000006000, sym_fork64_return = 0xfffffff000006100\<rparr>"

lemma sample_env_simps:
  "kvtop sample_env = (\<lambda>v. v - 0xfffffff000000000 + 0x40000000)"
  "mpidr_el1 sample_env = 0x80000000"
  "sym_pagetables_region_base sample_env = 0xfffffff000010000"
  "sym_pagetables_region_end sample_env = 0xfffffff000020000"
  "sym_vm_page_region_lower_bound sample_env = 0xfffffff000100000"
  "sym_page_list sample_env = 0xfffffff000001000"
  "sym_zone_array sample_env = 0xfffffff000002000"
  "sym_kernel_pmap_ref sample_env = 0xfffffff00003ee80"
  "sym_kernel_pmap sample_env = 0xfffffff000003000"
  "sym_tasks sample_env = 0xfffffff000005000"
  "sym_threads sample_env = 0xfffffff000005010"
  "sym_stacks sample_env = 0xfffffff000005020"
  by (simp_all add: sample_env_def)

end
