(* ===== verification/Page_Interface.thy ===== *)
theory Page_Interface
  imports Monix_Prelude
begin

section \<open>What the map layer relies on from the page allocator\<close>

text \<open>
  \<^verbatim>\<open>vm_map_alloc\<close> takes physical frames from \<^verbatim>\<open>vm_page_alloc\<close> one at a time and never asks where
  they come from. The contract: a set of free frames, an allocation that returns one of them and
  removes exactly that one, and an allocation that returns whenever a frame is free.
\<close>

locale page_allocator =
  fixes alloc :: "'s \<Rightarrow> (u64 \<times> 's) outcome"
    and free_set :: "'s \<Rightarrow> u64 set"
    and inv :: "'s \<Rightarrow> bool"
  assumes alloc_returns: "inv s \<Longrightarrow> free_set s \<noteq> {} \<Longrightarrow> \<exists>pa s'. alloc s = Inr (pa, s')"
    and alloc_member: "inv s \<Longrightarrow> alloc s = Inr (pa, s') \<Longrightarrow> pa \<in> free_set s"
    and alloc_removes: "inv s \<Longrightarrow> alloc s = Inr (pa, s') \<Longrightarrow> free_set s' = free_set s - {pa}"
    and alloc_inv: "inv s \<Longrightarrow> alloc s = Inr (pa, s') \<Longrightarrow> inv s'"
    and free_finite: "inv s \<Longrightarrow> finite (free_set s)"
begin

fun alloc_n :: "nat \<Rightarrow> 's \<Rightarrow> (u64 list \<times> 's) outcome" where
  "alloc_n 0 s = Inr ([], s)"
| "alloc_n (Suc n) s =
     andthen (alloc s) (\<lambda>(pa, s1). andthen (alloc_n n s1) (\<lambda>(pas, s2). Inr (pa # pas, s2)))"

text \<open>A sequence of allocations never hands out a frame twice.\<close>

lemma alloc_n_distinct:
  assumes "inv s" "alloc_n n s = Inr (pas, s')"
  shows "inv s' \<and> length pas = n \<and> distinct pas \<and> set pas \<subseteq> free_set s \<and>
         free_set s' = free_set s - set pas"
  using assms
proof (induction n arbitrary: s pas)
  case 0
  then show ?case by simp
next
  case (Suc n)
  then obtain pa s1 qs where 1: "alloc s = Inr (pa, s1)" and 2: "alloc_n n s1 = Inr (qs, s')"
    and pas: "pas = pa # qs" by (auto simp: split_def)
  from Suc.IH [OF alloc_inv [OF Suc.prems(1) 1] 2]
    alloc_removes [OF Suc.prems(1) 1] alloc_member [OF Suc.prems(1) 1]
  show ?case by (auto simp: pas)
qed

text \<open>As many allocations succeed as there are free frames.\<close>

lemma alloc_n_returns:
  assumes "inv s" "n \<le> card (free_set s)"
  shows "\<exists>pas s'. alloc_n n s = Inr (pas, s')"
  using assms
proof (induction n arbitrary: s)
  case 0
  then show ?case by simp
next
  case (Suc n)
  then have "free_set s \<noteq> {}" by auto
  then obtain pa s1 where 1: "alloc s = Inr (pa, s1)" using alloc_returns Suc.prems(1) by blast
  have "card (free_set s1) = card (free_set s) - 1"
    using alloc_removes [OF Suc.prems(1) 1] alloc_member [OF Suc.prems(1) 1]
      free_finite [OF Suc.prems(1)] by simp
  then have "n \<le> card (free_set s1)" using Suc.prems(2) by simp
  from Suc.IH [OF alloc_inv [OF Suc.prems(1) 1] this] 1 show ?case by auto
qed

end

text \<open>
  The loop of \<^verbatim>\<open>vm_map_alloc\<close> takes a frame and maps it at the next page of the range. The
  mapping operation has to leave the free frames alone, and to return at every address that is
  \<open>ready\<close> without spoiling the other ones.
\<close>

locale page_mapper = page_allocator alloc free_set inv
  for alloc :: "'s \<Rightarrow> (u64 \<times> 's) outcome" and free_set :: "'s \<Rightarrow> u64 set" and inv :: "'s \<Rightarrow> bool" +
  fixes map_page :: "u64 \<Rightarrow> addr \<Rightarrow> 's \<Rightarrow> 's outcome"
    and ready :: "addr \<Rightarrow> 's \<Rightarrow> bool"
  assumes map_returns: "ready v s \<Longrightarrow> \<exists>s'. map_page pa v s = Inr s'"
    and map_ready: "ready v s \<Longrightarrow> map_page pa v s = Inr s' \<Longrightarrow> ready w s \<Longrightarrow> ready w s'"
    and map_free_set: "ready v s \<Longrightarrow> map_page pa v s = Inr s' \<Longrightarrow> free_set s' = free_set s"
    and map_inv: "ready v s \<Longrightarrow> map_page pa v s = Inr s' \<Longrightarrow> inv s \<Longrightarrow> inv s'"
    and alloc_ready: "alloc s = Inr (pa, s') \<Longrightarrow> ready w s \<Longrightarrow> ready w s'"
begin

fun map_n :: "nat \<Rightarrow> addr \<Rightarrow> 's \<Rightarrow> (addr \<times> 's) outcome" where
  "map_n 0 v s = Inr (v, s)"
| "map_n (Suc n) v s =
     andthen (alloc s) (\<lambda>(pa, s1). andthen (map_page pa v s1) (\<lambda>s2. map_n n (v + 4096) s2))"

lemma map_n_spec:
  assumes "inv s" "n \<le> card (free_set s)" "\<And>i. i < n \<Longrightarrow> ready (v + 4096 * word_of_nat i) s"
  shows "\<exists>s'. map_n n v s = Inr (v + 4096 * word_of_nat n, s') \<and> inv s' \<and>
           free_set s' \<subseteq> free_set s \<and> card (free_set s') + n = card (free_set s) \<and>
           (\<forall>w. ready w s \<longrightarrow> ready w s')"
  using assms
proof (induction n arbitrary: v s)
  case 0
  then show ?case by simp
next
  case (Suc n)
  then have "free_set s \<noteq> {}" by auto
  then obtain pa s1 where 1: "alloc s = Inr (pa, s1)" using alloc_returns Suc.prems(1) by blast
  have fs1: "free_set s1 \<subseteq> free_set s" "Suc (card (free_set s1)) = card (free_set s)"
    using alloc_removes [OF Suc.prems(1) 1] alloc_member [OF Suc.prems(1) 1]
      free_finite [OF Suc.prems(1)] by (auto simp: card_Suc_Diff1 simp del: card_Diff_insert)
  have rv: "ready v s1" using alloc_ready [OF 1] Suc.prems(3) [of 0] by simp
  then obtain s2 where 2: "map_page pa v s1 = Inr s2" using map_returns by blast
  have keep: "ready w s2" if "ready w s" for w
    using that alloc_ready [OF 1] map_ready [OF rv 2] by blast
  have shift: "v + 4096 + 4096 * word_of_nat i = v + 4096 * word_of_nat (Suc i)" for i
    by (simp add: algebra_simps)
  have "\<exists>s'. map_n n (v + 4096) s2 = Inr (v + 4096 + 4096 * word_of_nat n, s') \<and> inv s' \<and>
      free_set s' \<subseteq> free_set s2 \<and> card (free_set s') + n = card (free_set s2) \<and>
      (\<forall>w. ready w s2 \<longrightarrow> ready w s')"
  proof (rule Suc.IH)
    show "inv s2" using map_inv [OF rv 2 alloc_inv [OF Suc.prems(1) 1]] .
    show "n \<le> card (free_set s2)" using map_free_set [OF rv 2] fs1(2) Suc.prems(2) by simp
    show "ready (v + 4096 + 4096 * word_of_nat i) s2" if "i < n" for i
      unfolding shift by (intro keep Suc.prems(3)) (use that in simp)
  qed
  with 1 2 fs1 keep map_free_set [OF rv 2] show ?case unfolding shift by auto
qed

end

end
