(* ===== verification/Vm_Page.thy ===== *)
theory Vm_Page
  imports Kernel_State Page_Interface
begin

section \<open>Physical pages (kern/vm/vm_page.c)\<close>

text \<open>
  The page allocator keeps an array of \<^verbatim>\<open>vm_page_t\<close> in the \<^verbatim>\<open>.vm\<close> section, one per physical
  page, and hands out the first one whose state is free. The model follows the array by
  address: \<open>vm_page_get_idx\<close> is the macro \<^verbatim>\<open>__vm_page_get_idx\<close>, the cursor and its upper bound
  are addresses, and the pointer arithmetic of the bootstrap is scaled as C scales it.
\<close>

subsection \<open>Operations\<close>

abbreviation VM_PAGE_GUARD_MAGIC :: u64 where
  "VM_PAGE_GUARD_MAGIC \<equiv> 0xefbeaddeefbeadde"

definition vm_page_get_idx :: "kstate \<Rightarrow> u64 \<Rightarrow> addr" where
  "vm_page_get_idx s i = vm_page_region s + SIZEOF_VM_PAGE * i"

definition vm_page_region_cursor_inc :: "kstate \<Rightarrow> kstate" where
  "vm_page_region_cursor_inc s =
     s\<lparr>vm_page_region_cursor := vm_page_region_cursor s + SIZEOF_VM_PAGE,
       vm_page_idx := vm_page_idx s + 1\<rparr>"

definition vm_page_alloc_internal :: "arch_env \<Rightarrow> u64 \<Rightarrow> bool \<Rightarrow> kstate \<Rightarrow> i32 \<times> kstate" where
  "vm_page_alloc_internal env paddr is_mapped s =
     (if vm_page_region_upper_bound s \<le> vm_page_region_cursor s then (1, s)
      else let page = vm_page_region_cursor s;
               s1 = s\<lparr>pages := (pages s)(page :=
                     \<lparr>pg_paddr = paddr, pg_idx = vm_page_idx s, pg_alloc = False,
                      pg_mapped = is_mapped\<rparr>)\<rparr>;
               s2 = s1\<lparr>lists := list_add_tail (page + OFF_PAGE_SIBLINGS) (sym_page_list env) (lists s1)\<rparr>
           in (0, vm_page_region_cursor_inc s2))"

text \<open>
  The search of \<^verbatim>\<open>vm_page_alloc\<close>: \<open>last\<close> is the page the loop variable \<^verbatim>\<open>last\<close> points to,
  \<open>None\<close> while it was never written. The loop index is a 32-bit \<^verbatim>\<open>unsigned int\<close>: with more
  than \<open>2 ^ 32\<close> pages and none of the first \<open>2 ^ 32\<close> free, it starts again from 0 forever.
\<close>

fun vm_page_scan :: "kstate \<Rightarrow> nat \<Rightarrow> nat \<Rightarrow> addr option \<Rightarrow> addr option" where
  "vm_page_scan s i 0 lst = lst"
| "vm_page_scan s i (Suc n) lst =
     (let p = vm_page_get_idx s (word_of_nat i)
      in if \<not> pg_alloc (pages s p) then Some p else vm_page_scan s (Suc i) n (Some p))"

definition vm_page_alloc :: "kstate \<Rightarrow> (u64 \<times> kstate) outcome" where
  "vm_page_alloc s =
     (case vm_page_scan s 0 (min (unat (vm_page_idx s)) (2 ^ 32)) None of
        None \<Rightarrow> Inl (Undefined ''vm_page_alloc: last'')
      | Some p \<Rightarrow>
          if pg_alloc (pages s p)
          then Inl (if 2 ^ 32 < unat (vm_page_idx s) then Diverges
                    else Panic ''failed to allocate a free physical page'')
          else Inr (pg_paddr (pages s p),
                    s\<lparr>pages := (pages s)(p := (pages s p)\<lparr>pg_alloc := True\<rparr>)\<rparr>))"

definition vm_guard_page_fill :: "addr \<Rightarrow> kstate \<Rightarrow> kstate" where
  "vm_guard_page_fill guard_page s =
     s\<lparr>cells := fold (\<lambda>i c. c(guard_page + 8 * word_of_nat i := VM_PAGE_GUARD_MAGIC))
                  [0 ..< 4096 div 8] (cells s)\<rparr>"

definition vm_page_free :: "u64 \<Rightarrow> kstate \<Rightarrow> kstate" where
  "vm_page_free paddr s =
     (let idx = ucast ((paddr - memory_phys_base s) div VM_PAGE_SIZE) :: u32;
          page = vm_page_get_idx s (ucast idx)
      in s\<lparr>pages := (pages s)(page := (pages s page)\<lparr>pg_alloc := False\<rparr>)\<rparr>)"

text \<open>
  The two loops of the bootstrap: creating a page per iteration until one fails, with the
  number of iterations completed; and marking the kernel's pages.
\<close>

fun vm_page_create_pages :: "arch_env \<Rightarrow> nat \<Rightarrow> u64 \<Rightarrow> kstate \<Rightarrow> nat \<times> kstate" where
  "vm_page_create_pages env 0 pcursor s = (0, s)"
| "vm_page_create_pages env (Suc n) pcursor s =
     (case vm_page_alloc_internal env pcursor True s of
        (res, s1) \<Rightarrow>
          if res \<noteq> 0 then (0, s1)
          else (case vm_page_create_pages env n (pcursor + VM_PAGE_SIZE) s1 of
                  (i, s2) \<Rightarrow> (Suc i, s2)))"

definition vm_page_mark_kernel :: "nat \<Rightarrow> kstate \<Rightarrow> kstate" where
  "vm_page_mark_kernel i s =
     (let p = vm_page_get_idx s (word_of_nat i)
      in s\<lparr>pages := (pages s)(p := (pages s p)\<lparr>pg_alloc := True, pg_mapped := True\<rparr>)\<rparr>)"

text \<open>
  The region and its first page. \<^verbatim>\<open>&vm_page_region_lower_bound + vm_page_region_size\<close> adds to a
  pointer to a 64-bit object, so the size is counted in units of eight bytes.
\<close>

definition vm_page_region_init :: "arch_env \<Rightarrow> u64 \<Rightarrow> u64 \<Rightarrow> kstate \<Rightarrow> kstate" where
  "vm_page_region_init env membase page_count s =
     (let region_size = page_count * SIZEOF_VM_PAGE;
          base = sym_vm_page_region_lower_bound env;
          s1 = s\<lparr>vm_page_idx := 0, vm_page_region_size := region_size,
                 vm_page_region_upper_bound := base + 8 * region_size,
                 vm_page_region_cursor := base, vm_page_region := base,
                 lists := INIT_LIST_HEAD (sym_page_list env) (lists s)\<rparr>;
          s2 = s1\<lparr>pages := (pages s1)(base := \<lparr>pg_paddr = membase, pg_idx = vm_page_idx s1,
                    pg_alloc = False, pg_mapped = False\<rparr>),
                  lists := list_add_tail (base + OFF_PAGE_SIBLINGS) (sym_page_list env) (lists s1)\<rparr>
      in vm_page_region_cursor_inc s2)"

definition vm_page_bootstrap :: "arch_env \<Rightarrow> u64 \<Rightarrow> u64 \<Rightarrow> u64 \<Rightarrow> kstate \<Rightarrow> kstate outcome" where
  "vm_page_bootstrap env membase memsize kernsize s =
     (let page_count = memsize div VM_PAGE_SIZE
      in case vm_page_create_pages env (unat page_count) (membase + VM_PAGE_SIZE)
                (vm_page_region_init env membase page_count s) of
           (i, s1) \<Rightarrow>
             if i \<noteq> unat page_count then Inl (Panic ''error: not all pages were created'')
             else let kern_page_count = (kernsize + vm_page_region_size s1) div VM_PAGE_SIZE + 1
                  in Inr (fold vm_page_mark_kernel [0 ..< unat kern_page_count] s1))"

subsection \<open>The array of pages\<close>

abbreviation page_slot :: "kstate \<Rightarrow> nat \<Rightarrow> addr" where
  "page_slot s i \<equiv> vm_page_get_idx s (word_of_nat i)"

abbreviation page_at :: "kstate \<Rightarrow> nat \<Rightarrow> vm_page" where
  "page_at s i \<equiv> pages s (page_slot s i)"

lemma page_slot_inj:
  assumes "i \<le> 2 ^ 32" "j \<le> 2 ^ 32" "page_slot s i = page_slot s j"
  shows "i = j"
  using assms array_slot_inj [of i 40 j "vm_page_region s"]
  by (simp add: vm_page_get_idx_def mult.commute)

lemma page_slot_update [simp]:
  "vm_page_get_idx (s\<lparr>pages := P\<rparr>) i = vm_page_get_idx s i"
  "vm_page_get_idx (s\<lparr>cells := C\<rparr>) i = vm_page_get_idx s i"
  "vm_page_get_idx (s\<lparr>lists := L\<rparr>) i = vm_page_get_idx s i"
  by (simp_all add: vm_page_get_idx_def)

text \<open>
  Well-formedness after the bootstrap: \<open>n\<close> pages, the \<open>i\<close>-th describing the \<open>i\<close>-th frame from
  \<open>membase\<close>.
\<close>

definition pages_ok :: "u64 \<Rightarrow> nat \<Rightarrow> kstate \<Rightarrow> bool" where
  "pages_ok membase n s \<longleftrightarrow> unat (vm_page_idx s) = n \<and> 0 < n \<and> n \<le> 2 ^ 32 \<and>
     (\<forall>i<n. pg_paddr (page_at s i) = membase + VM_PAGE_SIZE * word_of_nat i \<and>
            pg_idx (page_at s i) = word_of_nat i)"

lemma frame_inj:
  assumes "i \<le> 2 ^ 32" "j \<le> 2 ^ 32"
    and "membase + VM_PAGE_SIZE * word_of_nat i = membase + VM_PAGE_SIZE * word_of_nat j"
  shows "i = j"
  using assms array_slot_inj [of i 4096 j membase] by (simp add: mult.commute)

subsection \<open>Allocation\<close>

definition first_free :: "kstate \<Rightarrow> nat option" where
  "first_free s = find (\<lambda>i. \<not> pg_alloc (page_at s i)) [0 ..< unat (vm_page_idx s)]"

lemma vm_page_scan_find:
  "vm_page_scan s i n lst =
     (case find (\<lambda>k. \<not> pg_alloc (page_at s k)) [i ..< i + n] of
        Some k \<Rightarrow> Some (page_slot s k)
      | None \<Rightarrow> if n = 0 then lst else Some (page_slot s (i + n - 1)))"
proof (induction n arbitrary: i lst)
  case 0
  then show ?case by simp
next
  case (Suc n)
  have "[i ..< i + Suc n] = i # [Suc i ..< Suc i + n]" by (simp add: upt_rec)
  then show ?case by (simp add: Suc.IH Let_def split: option.splits)
qed

lemma first_free_Some:
  assumes "first_free s = Some k"
  shows "k < unat (vm_page_idx s)" "\<not> pg_alloc (page_at s k)"
    and "\<And>j. j < k \<Longrightarrow> pg_alloc (page_at s j)"
  using assms by (auto simp: first_free_def find_Some_iff)

lemma first_free_None:
  "first_free s = None \<longleftrightarrow> (\<forall>i < unat (vm_page_idx s). pg_alloc (page_at s i))"
  by (auto simp: first_free_def find_None_iff)

definition mark_allocated :: "nat \<Rightarrow> kstate \<Rightarrow> kstate" where
  "mark_allocated k s =
     s\<lparr>pages := (pages s)(page_slot s k := (page_at s k)\<lparr>pg_alloc := True\<rparr>)\<rparr>"

lemma vm_page_alloc_first_free:
  assumes "pages_ok membase n s"
  shows "vm_page_alloc s =
     (case first_free s of
        None \<Rightarrow> Inl (Panic ''failed to allocate a free physical page'')
      | Some k \<Rightarrow> Inr (membase + VM_PAGE_SIZE * word_of_nat k, mark_allocated k s))"
proof (cases "first_free s")
  case None
  with assms have "\<forall>i<n. pg_alloc (page_at s i)" "0 < n"
    by (simp_all add: pages_ok_def first_free_None)
  then have "pg_alloc (page_at s (n - 1))" by (meson diff_less zero_less_one)
  moreover have "vm_page_scan s 0 n None = Some (page_slot s (n - 1))"
    using None assms by (simp add: vm_page_scan_find first_free_def pages_ok_def)
  ultimately show ?thesis using None assms by (simp add: vm_page_alloc_def pages_ok_def)
next
  case (Some k)
  then have "vm_page_scan s 0 n None = Some (page_slot s k)"
    using assms by (simp add: vm_page_scan_find first_free_def pages_ok_def)
  with Some first_free_Some [OF Some] assms show ?thesis
    by (simp add: vm_page_alloc_def pages_ok_def mark_allocated_def)
qed

lemma page_at_mark:
  assumes "i \<le> 2 ^ 32" "k \<le> 2 ^ 32"
  shows "page_at (mark_allocated k s) i =
           (if i = k then (page_at s k)\<lparr>pg_alloc := True\<rparr> else page_at s i)"
  using page_slot_inj [OF assms] by (auto simp: mark_allocated_def)

lemma pages_ok_mark:
  assumes "pages_ok membase n s" "k < n"
  shows "pages_ok membase n (mark_allocated k s)"
proof -
  have "page_at (mark_allocated k s) i =
     (if i = k then (page_at s k)\<lparr>pg_alloc := True\<rparr> else page_at s i)" if "i < n" for i
    using assms that by (intro page_at_mark) (auto simp: pages_ok_def)
  with assms show ?thesis by (auto simp: pages_ok_def mark_allocated_def)
qed

text \<open>The frames whose page is free.\<close>

definition free_frames :: "kstate \<Rightarrow> u64 set" where
  "free_frames s =
     (\<lambda>i. pg_paddr (page_at s i)) ` {i. i < unat (vm_page_idx s) \<and> \<not> pg_alloc (page_at s i)}"

lemma free_frames_eq:
  assumes "pages_ok membase n s"
  shows "free_frames s =
     (\<lambda>i. membase + VM_PAGE_SIZE * word_of_nat i) ` {i. i < n \<and> \<not> pg_alloc (page_at s i)}"
  using assms by (auto simp: free_frames_def pages_ok_def)

lemma free_frames_mark:
  assumes "pages_ok membase n s" "k < n"
  shows "free_frames (mark_allocated k s) = free_frames s - {membase + VM_PAGE_SIZE * word_of_nat k}"
proof -
  have n: "n \<le> 2 ^ 32" using assms by (simp add: pages_ok_def)
  have "{i. i < n \<and> \<not> pg_alloc (page_at (mark_allocated k s) i)}
      = {i. i < n \<and> \<not> pg_alloc (page_at s i)} - {k}"
    using n assms(2) by (auto simp: page_at_mark split: if_splits)
  moreover have "inj_on (\<lambda>i. membase + VM_PAGE_SIZE * word_of_nat i) {i. i < n}"
    using n by (auto intro!: inj_onI dest: frame_inj [rotated 2])
  ultimately show ?thesis
    using assms by (subst free_frames_eq [OF pages_ok_mark [OF assms]], subst free_frames_eq [OF assms(1)])
      (auto simp: inj_on_def)
qed

definition page_inv :: "kstate \<Rightarrow> bool" where
  "page_inv s \<longleftrightarrow> (\<exists>membase n. pages_ok membase n s)"

interpretation pa: page_allocator vm_page_alloc free_frames page_inv
proof unfold_locales
  fix s pa s'
  assume inv: "page_inv s" and alloc: "vm_page_alloc s = Inr (pa, s')"
  then obtain membase n k where ok: "pages_ok membase n s" and k: "first_free s = Some k"
    and eq: "pa = membase + VM_PAGE_SIZE * word_of_nat k" "s' = mark_allocated k s"
    by (auto simp: page_inv_def vm_page_alloc_first_free split: option.splits)
  have kn: "k < n" using first_free_Some(1) [OF k] ok by (simp add: pages_ok_def)
  show "pa \<in> free_frames s"
    using first_free_Some [OF k] kn by (auto simp: free_frames_eq [OF ok] eq)
  show "free_frames s' = free_frames s - {pa}"
    by (simp add: eq free_frames_mark [OF ok kn])
  show "page_inv s'" using pages_ok_mark [OF ok kn] by (auto simp: page_inv_def eq)
next
  fix s
  assume inv: "page_inv s"
  then obtain membase n where ok: "pages_ok membase n s" by (auto simp: page_inv_def)
  show "finite (free_frames s)" by (simp add: free_frames_eq [OF ok])
  assume "free_frames s \<noteq> {}"
  then have "first_free s \<noteq> None" by (auto simp: free_frames_def first_free_None)
  then show "\<exists>pa s'. vm_page_alloc s = Inr (pa, s')"
    by (auto simp: vm_page_alloc_first_free [OF ok])
qed

subsection \<open>Freeing\<close>

definition mark_free :: "nat \<Rightarrow> kstate \<Rightarrow> kstate" where
  "mark_free k s =
     s\<lparr>pages := (pages s)(page_slot s k := (page_at s k)\<lparr>pg_alloc := False\<rparr>)\<rparr>"

lemma frame_index:
  assumes "d < 2 ^ 32"
  shows "ucast (ucast ((VM_PAGE_SIZE * word_of_nat d) div VM_PAGE_SIZE :: u64) :: u32) = (word_of_nat d :: u64)"
proof -
  have "unat (VM_PAGE_SIZE * word_of_nat d :: u64) = 4096 * d"
    using assms unat_of_nat_no_wrap [of "4096 * d", where 'a = 64] by simp
  then have "(VM_PAGE_SIZE * word_of_nat d) div VM_PAGE_SIZE = (word_of_nat d :: u64)"
    using assms by (simp add: word_unat_eq_iff unat_div unat_of_nat_no_wrap)
  moreover have "ucast (ucast (word_of_nat d :: u64) :: u32) = (word_of_nat d :: u64)"
    using assms by (simp add: word_unat_eq_iff unsigned_ucast_eq unsigned_take_bit_eq unat_of_nat_no_wrap take_bit_nat_eq_self)
  ultimately show ?thesis by simp
qed

text \<open>
  The index is computed from \<^verbatim>\<open>memory_phys_base\<close>: freeing a frame clears the page at the frame's
  distance from there.
\<close>

lemma vm_page_free_index:
  assumes "paddr = memory_phys_base s + VM_PAGE_SIZE * word_of_nat d" "d < 2 ^ 32"
  shows "vm_page_free paddr s = mark_free d s"
  using assms frame_index [OF assms(2)] by (simp add: vm_page_free_def mark_free_def Let_def)

lemma mark_free_mark_allocated:
  "\<not> pg_alloc (page_at s k) \<Longrightarrow> mark_free k (mark_allocated k s) = s"
proof -
  assume free: "\<not> pg_alloc (page_at s k)"
  then have "(page_at s k)\<lparr>pg_alloc := False\<rparr> = page_at s k" by (cases "page_at s k") simp
  then have "(pages s)(page_slot s k := (page_at s k)\<lparr>pg_alloc := False\<rparr>) = pages s"
    by (simp only: fun_upd_triv)
  then show ?thesis by (simp add: mark_free_def mark_allocated_def)
qed

subsection \<open>Bootstrap\<close>

text \<open>The state while pages are created: \<open>m\<close> of them, all free, linked in order.\<close>

definition created :: "arch_env \<Rightarrow> u64 \<Rightarrow> nat \<Rightarrow> kstate \<Rightarrow> bool" where
  "created env membase m s \<longleftrightarrow>
     vm_page_region_cursor s = page_slot s m \<and> vm_page_idx s = word_of_nat m \<and>
     (\<forall>i<m. page_at s i = \<lparr>pg_paddr = membase + VM_PAGE_SIZE * word_of_nat i,
        pg_idx = word_of_nat i, pg_alloc = False, pg_mapped = (i \<noteq> 0)\<rparr>) \<and>
     dlist (lists s) (sym_page_list env) (map (\<lambda>i. page_slot s i + OFF_PAGE_SIBLINGS) [0 ..< m])"

lemma vm_page_alloc_internal_created:
  assumes "created env membase m s" "0 < m" "m < 2 ^ 32"
    and "page_slot s m < vm_page_region_upper_bound s"
    and "\<And>i. i \<le> m \<Longrightarrow> page_slot s i + OFF_PAGE_SIBLINGS \<noteq> sym_page_list env"
  obtains s' where
    "vm_page_alloc_internal env (membase + VM_PAGE_SIZE * word_of_nat m) True s = (0, s')"
    "created env membase (Suc m) s'" "vm_page_region s' = vm_page_region s"
    "vm_page_region_upper_bound s' = vm_page_region_upper_bound s"
proof
  let ?p = "page_slot s m"
  let ?s = "vm_page_region_cursor_inc (s\<lparr>pages := (pages s)(?p :=
      \<lparr>pg_paddr = membase + VM_PAGE_SIZE * word_of_nat m, pg_idx = word_of_nat m,
       pg_alloc = False, pg_mapped = True\<rparr>),
      lists := list_add_tail (?p + OFF_PAGE_SIBLINGS) (sym_page_list env) (lists s)\<rparr>)"
  show "vm_page_alloc_internal env (membase + VM_PAGE_SIZE * word_of_nat m) True s = (0, ?s)"
    using assms(1,4) by (simp add: vm_page_alloc_internal_def created_def Let_def)
  show "vm_page_region ?s = vm_page_region s"
    "vm_page_region_upper_bound ?s = vm_page_region_upper_bound s"
    by (simp_all add: vm_page_region_cursor_inc_def)
  have slot: "page_slot ?s i = page_slot s i" for i
    by (simp add: vm_page_get_idx_def vm_page_region_cursor_inc_def)
  have distinct_slots: "page_slot s i \<noteq> ?p" if "i < m" for i
    using page_slot_inj [of i m s] that assms(3) by auto
  then have "page_at ?s i = \<lparr>pg_paddr = membase + VM_PAGE_SIZE * word_of_nat i,
        pg_idx = word_of_nat i, pg_alloc = False, pg_mapped = (i \<noteq> 0)\<rparr>" if "i < Suc m" for i
    using that assms(1,2) unfolding slot
    by (cases "i = m") (simp_all add: vm_page_region_cursor_inc_def created_def)
  moreover have "dlist (lists ?s) (sym_page_list env) (map (\<lambda>i. page_slot ?s i + OFF_PAGE_SIBLINGS) [0 ..< Suc m])"
  proof -
    have "?p + OFF_PAGE_SIBLINGS \<notin>
        set (sym_page_list env # map (\<lambda>i. page_slot s i + OFF_PAGE_SIBLINGS) [0 ..< m])"
      using assms(5) [of m] distinct_slots by (fastforce simp: image_iff)
    then show ?thesis
      using assms(1) list_add_tail_dlist [of "lists s" "sym_page_list env"]
      unfolding slot by (simp add: created_def vm_page_region_cursor_inc_def)
  qed
  ultimately show "created env membase (Suc m) ?s"
    using assms(1) by (simp add: created_def slot)
      (simp add: vm_page_region_cursor_inc_def vm_page_get_idx_def algebra_simps)
qed

lemma vm_page_create_pages_created:
  assumes "created env membase m s" "0 < m" "m + n \<le> 2 ^ 32"
    and "\<And>i. i < m + n \<Longrightarrow> page_slot s i < vm_page_region_upper_bound s"
    and "\<And>i. i < m + n \<Longrightarrow> page_slot s i + OFF_PAGE_SIBLINGS \<noteq> sym_page_list env"
  shows "\<exists>s'. vm_page_create_pages env n (membase + VM_PAGE_SIZE * word_of_nat m) s = (n, s') \<and>
           created env membase (m + n) s' \<and> vm_page_region s' = vm_page_region s"
  using assms
proof (induction n arbitrary: m s)
  case 0
  then show ?case by simp
next
  case (Suc n)
  obtain s1 where s1: "vm_page_alloc_internal env (membase + VM_PAGE_SIZE * word_of_nat m) True s = (0, s1)"
    "created env membase (Suc m) s1" "vm_page_region s1 = vm_page_region s"
    "vm_page_region_upper_bound s1 = vm_page_region_upper_bound s"
    by (rule vm_page_alloc_internal_created [OF Suc.prems(1,2)]) (use Suc.prems(3-5) in auto)
  have "page_slot s1 i = page_slot s i" for i by (simp add: vm_page_get_idx_def s1(3))
  then obtain s' where "vm_page_create_pages env n (membase + VM_PAGE_SIZE * word_of_nat (Suc m)) s1 = (n, s')"
    "created env membase (Suc m + n) s'" "vm_page_region s' = vm_page_region s1"
    using Suc.IH [OF s1(2)] Suc.prems(3-5) s1(4) by auto
  with s1 show ?case by (auto simp: algebra_simps)
qed

lemma page_at_mark_kernel:
  assumes "k \<le> 2 ^ 32" "i \<le> 2 ^ 32"
  shows "page_at (fold vm_page_mark_kernel [0 ..< k] s) i =
           (if i < k then (page_at s i)\<lparr>pg_alloc := True, pg_mapped := True\<rparr> else page_at s i) \<and>
         vm_page_region (fold vm_page_mark_kernel [0 ..< k] s) = vm_page_region s \<and>
         vm_page_idx (fold vm_page_mark_kernel [0 ..< k] s) = vm_page_idx s \<and>
         lists (fold vm_page_mark_kernel [0 ..< k] s) = lists s"
  using assms
proof (induction k)
  case 0
  then show ?case by simp
next
  case (Suc k)
  let ?s = "fold vm_page_mark_kernel [0 ..< k] s"
  have slot: "page_slot ?s j = page_slot s j" for j
    using Suc by (simp add: vm_page_get_idx_def)
  have "page_slot s i = page_slot s k \<longleftrightarrow> i = k"
    using page_slot_inj [of i k s] Suc.prems by auto
  with Suc slot show ?case
    by (auto simp: vm_page_mark_kernel_def Let_def vm_page_get_idx_def less_Suc_eq)
qed

text \<open>The region of page structures has room for every page, since its bound is scaled by eight.\<close>

lemma page_slot_below:
  assumes "unat (vm_page_region s) + 320 * pc < 2 ^ 64" "i \<le> pc" "0 < pc"
  shows "page_slot s i < vm_page_region s + 8 * (SIZEOF_VM_PAGE * word_of_nat pc)"
proof -
  have b: "320 * pc < 2 ^ 64" "40 * i < 2 ^ 64" using assms(1,2) by simp_all
  have "unat (SIZEOF_VM_PAGE * word_of_nat i :: u64) = 40 * i"
    using unat_of_nat_no_wrap [of "40 * i", where 'a = 64] b by simp
  moreover have "unat (8 * (SIZEOF_VM_PAGE * word_of_nat pc) :: u64) = 320 * pc"
    using unat_of_nat_no_wrap [of "320 * pc", where 'a = 64] b by (simp add: mult.assoc [symmetric])
  ultimately show ?thesis
    using assms by (simp add: vm_page_get_idx_def word_less_nat_alt unat_add_no_wrap)
qed

lemma kern_page_count:
  fixes kernsize :: u64
  assumes "unat kernsize + 40 * pc < 4096 * pc" "pc < 2 ^ 32"
  shows "unat ((kernsize + word_of_nat pc * SIZEOF_VM_PAGE) div VM_PAGE_SIZE + 1)
           = (unat kernsize + 40 * pc) div 4096 + 1"
proof -
  have "unat (word_of_nat pc * SIZEOF_VM_PAGE :: u64) = 40 * pc"
    using unat_of_nat_no_wrap [of "pc * 40", where 'a = 64] assms(2) by (simp add: mult.commute)
  then have "unat (kernsize + word_of_nat pc * SIZEOF_VM_PAGE) = unat kernsize + 40 * pc"
    using assms by (simp add: unat_add_no_wrap)
  moreover have "(unat kernsize + 40 * pc) div 4096 < 2 ^ 32" using assms by linarith
  ultimately show ?thesis by (simp add: unat_add_no_wrap unat_div)
qed

lemma vm_page_region_init_created:
  assumes "sym_vm_page_region_lower_bound env + OFF_PAGE_SIBLINGS \<noteq> sym_page_list env"
  shows "created env membase 1 (vm_page_region_init env membase pc s)"
    and "vm_page_region (vm_page_region_init env membase pc s) = sym_vm_page_region_lower_bound env"
    and "vm_page_region_upper_bound (vm_page_region_init env membase pc s) =
           sym_vm_page_region_lower_bound env + 8 * (SIZEOF_VM_PAGE * pc)"
    and "vm_page_region_size (vm_page_region_init env membase pc s) = pc * SIZEOF_VM_PAGE"
  using list_add_tail_dlist [OF INIT_LIST_HEAD_dlist,
      of "sym_vm_page_region_lower_bound env + OFF_PAGE_SIBLINGS" "sym_page_list env"] assms
  by (simp_all add: created_def vm_page_region_init_def Let_def vm_page_get_idx_def
      vm_page_region_cursor_inc_def mult.commute)

text \<open>Marking the first \<open>kc\<close> pages of a freshly created array.\<close>

lemma pages_ok_mark_kernel:
  fixes s4 :: kstate
  assumes "created env membase (Suc pc) s4" "pc < 2 ^ 32" "kc \<le> pc"
  defines "s' \<equiv> fold vm_page_mark_kernel [0 ..< kc] s4"
  shows "pages_ok membase (Suc pc) s'" "\<forall>i\<le>pc. pg_alloc (page_at s' i) \<longleftrightarrow> i < kc"
    and "dlist (lists s') (sym_page_list env) (map (\<lambda>i. page_slot s' i + OFF_PAGE_SIBLINGS) [0 ..< Suc pc])"
proof -
  have mk: "page_at s' i = (if i < kc then (page_at s4 i)\<lparr>pg_alloc := True, pg_mapped := True\<rparr> else page_at s4 i)"
    if "i \<le> pc" for i
    using page_at_mark_kernel [of kc i s4] that assms(2,3) by (simp add: s'_def)
  have rest: "vm_page_region s' = vm_page_region s4" "vm_page_idx s' = vm_page_idx s4" "lists s' = lists s4"
    using page_at_mark_kernel [of kc 0 s4] assms(2,3) by (simp_all add: s'_def)
  have at4: "page_at s4 i = \<lparr>pg_paddr = membase + VM_PAGE_SIZE * word_of_nat i, pg_idx = word_of_nat i,
      pg_alloc = False, pg_mapped = (i \<noteq> 0)\<rparr>" if "i \<le> pc" for i
    using assms(1) that by (simp add: created_def)
  have "vm_page_idx s4 = word_of_nat (Suc pc)" using assms(1) unfolding created_def by blast
  then show "pages_ok membase (Suc pc) s'"
    using assms(2) unat_of_nat_no_wrap [of "Suc pc", where 'a = 64]
    by (simp add: pages_ok_def rest mk at4 del: of_nat_Suc)
  show "\<forall>i\<le>pc. pg_alloc (page_at s' i) \<longleftrightarrow> i < kc" by (simp add: mk at4)
  show "dlist (lists s') (sym_page_list env) (map (\<lambda>i. page_slot s' i + OFF_PAGE_SIBLINGS) [0 ..< Suc pc])"
    using assms(1) unfolding created_def by (simp add: rest vm_page_get_idx_def)
qed

lemma create_pages_size:
  "vm_page_region_size (snd (vm_page_create_pages env n p s)) = vm_page_region_size s"
proof (induction n arbitrary: p s)
  case (Suc n)
  have "vm_page_region_size (snd (vm_page_alloc_internal env p True s)) = vm_page_region_size s"
    by (simp add: vm_page_alloc_internal_def vm_page_region_cursor_inc_def Let_def)
  with Suc show ?case by (simp add: case_prod_beta)
qed simp

lemma vm_page_bootstrap_spec:
  fixes env :: arch_env and kernsize memsize :: u64
  assumes "pc = unat memsize div 4096" "0 < pc" "pc < 2 ^ 32"
    and "unat (sym_vm_page_region_lower_bound env) + 320 * pc < 2 ^ 64"
    and "unat kernsize + 40 * pc < 4096 * pc"
    and head: "\<And>i. i \<le> pc \<Longrightarrow> sym_vm_page_region_lower_bound env + SIZEOF_VM_PAGE * word_of_nat i
             + OFF_PAGE_SIBLINGS \<noteq> sym_page_list env"
  shows "\<exists>s'. vm_page_bootstrap env membase memsize kernsize s = Inr s' \<and>
     pages_ok membase (Suc pc) s' \<and>
     (\<forall>i\<le>pc. pg_alloc (page_at s' i) \<longleftrightarrow> i < (unat kernsize + 40 * pc) div 4096 + 1) \<and>
     dlist (lists s') (sym_page_list env)
       (map (\<lambda>i. page_slot s' i + OFF_PAGE_SIBLINGS) [0 ..< Suc pc])"
proof -
  have count: "memsize div VM_PAGE_SIZE = word_of_nat pc"
    using assms(1,3) by (simp add: word_unat_eq_iff unat_div unat_of_nat_no_wrap)
  have upc: "unat (word_of_nat pc :: u64) = pc" using assms(3) by (simp add: unat_of_nat_no_wrap)
  define s3 where "s3 = vm_page_region_init env membase (word_of_nat pc) s"
  note s3 = vm_page_region_init_created [OF head [of 0, simplified],
    where membase = membase and pc = "word_of_nat pc" and s = s, folded s3_def]
  have "page_slot s3 i < vm_page_region_upper_bound s3" if "i < 1 + pc" for i
    using page_slot_below [of s3 pc i] assms(2,4) that by (simp add: s3)
  then obtain s4 where s4:
    "vm_page_create_pages env pc (membase + VM_PAGE_SIZE) s3 = (pc, s4)"
    "created env membase (Suc pc) s4"
    using vm_page_create_pages_created [of env membase 1 s3 pc] assms(2,3) head s3(1)
    by (auto simp: s3(2) vm_page_get_idx_def)
  have "vm_page_region_size s4 = word_of_nat pc * SIZEOF_VM_PAGE"
    using create_pages_size [of env pc "membase + VM_PAGE_SIZE" s3] s4(1) by (simp add: s3)
  then have "vm_page_bootstrap env membase memsize kernsize s
      = Inr (fold vm_page_mark_kernel [0 ..< (unat kernsize + 40 * pc) div 4096 + 1] s4)"
    unfolding vm_page_bootstrap_def Let_def count upc
    using s4(1) kern_page_count [OF assms(5,3)] by (simp add: s3_def)
  moreover have "(unat kernsize + 40 * pc) div 4096 + 1 \<le> pc" using assms(5) by linarith
  ultimately show ?thesis using pages_ok_mark_kernel [OF s4(2) assms(3)] by blast
qed

subsection \<open>Properties\<close>


lemma sample_page_list_apart:
  assumes "i \<le> 16"
  shows "sym_vm_page_region_lower_bound sample_env + SIZEOF_VM_PAGE * word_of_nat i
           + OFF_PAGE_SIBLINGS \<noteq> sym_page_list sample_env"
proof -
  have "\<forall>i\<in>set [0 ..< 17]. (0xfffffff000100000 + SIZEOF_VM_PAGE * word_of_nat i + OFF_PAGE_SIBLINGS :: u64)
          \<noteq> 0xfffffff000001000"
    by (simp add: upt_rec)
  with assms show ?thesis by (auto simp: sample_env_simps)
qed


text \<open>C2. \<^verbatim>\<open>vm_page_alloc\<close> takes the free frame of the lowest address, returns its physical address
  and marks it allocated, changing no other page; when every page is allocated it panics.\<close>

theorem vm_page_alloc_lowest:
  assumes "pages_ok membase n s"
  shows "case vm_page_alloc s of
           Inl e \<Rightarrow> e = Panic ''failed to allocate a free physical page'' \<and> (\<forall>i<n. pg_alloc (page_at s i))
         | Inr (paddr, s') \<Rightarrow> (\<exists>k<n. paddr = membase + VM_PAGE_SIZE * word_of_nat k \<and>
             \<not> pg_alloc (page_at s k) \<and> (\<forall>j<k. pg_alloc (page_at s j)) \<and>
             (\<forall>i<n. page_at s' i = (if i = k then (page_at s k)\<lparr>pg_alloc := True\<rparr> else page_at s i)) \<and>
             pages_ok membase n s')"
proof (cases "first_free s")
  case None
  with assms show ?thesis
    by (simp add: vm_page_alloc_first_free [OF assms]) (simp add: pages_ok_def first_free_None)
next
  case (Some k)
  have k: "k < n" "n \<le> 2 ^ 32" using first_free_Some(1) [OF Some] assms by (auto simp: pages_ok_def)
  with Some show ?thesis
    using first_free_Some [OF Some] page_at_mark [of _ k s] pages_ok_mark [OF assms k(1)]
    by (auto simp: vm_page_alloc_first_free [OF assms] intro!: exI [of _ k])
qed

lemma sample_boot_pages:
  obtains s where "vm_page_bootstrap sample_env 0x40000000 0x10000 0x1000 reset_state = Inr s"
    "pages_ok 0x40000000 17 s" "\<And>i. i \<le> 16 \<Longrightarrow> pg_alloc (page_at s i) \<longleftrightarrow> i \<le> 1"
  using vm_page_bootstrap_spec [of 16 "0x10000" sample_env "0x1000" "0x40000000" reset_state]
    sample_page_list_apart
  by (auto simp: sample_env_simps less_Suc_eq_le)

theorem vm_page_alloc_lowest_witness:
  "\<exists>s s'. vm_page_bootstrap sample_env 0x40000000 0x10000 0x1000 reset_state = Inr s \<and>
     vm_page_alloc s = Inr (0x40002000, s')"
proof -
  obtain s where s: "vm_page_bootstrap sample_env 0x40000000 0x10000 0x1000 reset_state = Inr s"
    "pages_ok 0x40000000 17 s" "\<And>i. i \<le> 16 \<Longrightarrow> pg_alloc (page_at s i) \<longleftrightarrow> i \<le> 1"
    using sample_boot_pages by blast
  have no_panic: "\<exists>i<17. \<not> pg_alloc (page_at s i)" using s(3) [of 2] by (intro exI [of _ 2]) simp
  obtain k s' where "vm_page_alloc s = Inr (0x40000000 + VM_PAGE_SIZE * word_of_nat k, s')" "k < 17"
    "\<not> pg_alloc (page_at s k)" "\<forall>j<k. pg_alloc (page_at s j)"
    using vm_page_alloc_lowest [OF s(2)] no_panic by (auto split: sum.splits prod.splits)
  moreover from this have "k = 2" using s(3) [of k] s(3) [of 2] by (cases "k < 2"; cases "2 < k") auto
  ultimately show ?thesis using s(1) by auto
qed

definition sample_pages :: "u64 \<Rightarrow> kstate" where
  "sample_pages membase = reset_state\<lparr>vm_page_idx := 2, vm_page_region := 0xfffffff000100000,
     memory_phys_base := 0x40000000,
     pages := (\<lambda>a. if a = 0xfffffff000100028
       then \<lparr>pg_paddr = membase + 0x1000, pg_idx = 1, pg_alloc = False, pg_mapped = True\<rparr>
       else \<lparr>pg_paddr = membase, pg_idx = 0, pg_alloc = False, pg_mapped = False\<rparr>)\<rparr>"

lemma sample_pages_ok: "pages_ok membase 2 (sample_pages membase)"
  by (auto simp: pages_ok_def sample_pages_def reset_state_def vm_page_get_idx_def less_2_cases_iff)

lemma sample_pages_free: "free_frames (sample_pages membase) = {membase, membase + 0x1000}"
proof -
  have "{i. i < 2 \<and> \<not> pg_alloc (page_at (sample_pages membase) i)} = {0, 1}"
    by (auto simp: sample_pages_def reset_state_def)
  then show ?thesis using free_frames_eq [OF sample_pages_ok [of membase]] by simp
qed

text \<open>As many allocations succeed as there are free frames, they return pairwise different free
  frames, and exactly those frames stop being free.\<close>

theorem vm_page_alloc_sequence:
  assumes "pages_ok membase n s" "k \<le> card (free_frames s)"
  shows "\<exists>pas s'. pa.alloc_n k s = Inr (pas, s') \<and> length pas = k \<and> distinct pas \<and>
     set pas \<subseteq> free_frames s \<and> free_frames s' = free_frames s - set pas \<and> page_inv s'"
proof -
  have "page_inv s" using assms(1) by (auto simp: page_inv_def)
  then show ?thesis using pa.alloc_n_returns [of s k] pa.alloc_n_distinct [of s k] assms(2) by blast
qed

theorem vm_page_alloc_sequence_witness:
  "\<exists>pas s'. pa.alloc_n 2 (sample_pages 0x40000000) = Inr (pas, s') \<and> distinct pas \<and>
     set pas \<subseteq> {0x40000000, 0x40001000} \<and> free_frames s' = {0x40000000, 0x40001000} - set pas"
  using vm_page_alloc_sequence [of "0x40000000" 2 "sample_pages 0x40000000" 2]
    sample_pages_ok [of "0x40000000"] sample_pages_free [of "0x40000000"] by auto

text \<open>Freeing the frame just allocated restores the allocator exactly, provided the page array
  starts at the memory base that \<^verbatim>\<open>vm_page_free\<close> computes the index from.\<close>

theorem vm_page_alloc_free_roundtrip:
  assumes "pages_ok (memory_phys_base s) n s" "vm_page_alloc s = Inr (paddr, s')"
  shows "vm_page_free paddr s' = s"
proof -
  obtain k where k: "first_free s = Some k" "paddr = memory_phys_base s + VM_PAGE_SIZE * word_of_nat k"
    "s' = mark_allocated k s"
    using assms(2) by (auto simp: vm_page_alloc_first_free [OF assms(1)] split: option.splits)
  have "k < 2 ^ 32" using first_free_Some(1) [OF k(1)] assms(1) by (auto simp: pages_ok_def)
  then have "vm_page_free paddr s' = mark_free k s'"
    by (intro vm_page_free_index) (simp_all add: k mark_allocated_def)
  then show ?thesis using mark_free_mark_allocated [OF first_free_Some(2) [OF k(1)]] k(3) by simp
qed

lemma sample_pages_alloc:
  "vm_page_alloc (sample_pages membase) = Inr (membase, mark_allocated 0 (sample_pages membase))"
proof -
  have "first_free (sample_pages membase) = Some 0"
    by (simp add: first_free_def sample_pages_def reset_state_def upt_rec)
  then show ?thesis by (simp add: vm_page_alloc_first_free [OF sample_pages_ok])
qed

theorem vm_page_alloc_free_roundtrip_witness:
  "vm_page_free 0x40000000 (mark_allocated 0 (sample_pages 0x40000000)) = sample_pages 0x40000000"
proof (rule vm_page_alloc_free_roundtrip)
  show "pages_ok (memory_phys_base (sample_pages 0x40000000)) 2 (sample_pages 0x40000000)"
    using sample_pages_ok [of "0x40000000"] by (simp add: sample_pages_def)
qed (rule sample_pages_alloc)

text \<open>C35. When the page array starts \<open>d\<close> frames above \<^verbatim>\<open>memory_phys_base\<close> (the boot code passes
  \<^verbatim>\<open>kernel_phys_base\<close>), freeing an allocated frame clears the descriptor \<open>d\<close> places further on instead,
  and the frame stays allocated.\<close>

theorem vm_page_free_wrong_descriptor:
  assumes "pages_ok membase n s" "membase = memory_phys_base s + VM_PAGE_SIZE * word_of_nat d"
    and "0 < d" "n + d \<le> 2 ^ 32" "vm_page_alloc s = Inr (paddr, s')"
  shows "\<exists>k<n. paddr = membase + VM_PAGE_SIZE * word_of_nat k \<and>
           vm_page_free paddr s' = mark_free (k + d) s' \<and> pg_alloc (page_at (vm_page_free paddr s') k)"
proof -
  obtain k where k: "first_free s = Some k" "paddr = membase + VM_PAGE_SIZE * word_of_nat k"
    "s' = mark_allocated k s"
    using assms(5) by (auto simp: vm_page_alloc_first_free [OF assms(1)] split: option.splits)
  have kn: "k < n" using first_free_Some(1) [OF k(1)] assms(1) by (auto simp: pages_ok_def)
  have free: "vm_page_free paddr s' = mark_free (k + d) s'"
    by (intro vm_page_free_index) (use kn assms(2,4) in \<open>simp_all add: k mark_allocated_def algebra_simps\<close>)
  have "page_slot s' k \<noteq> page_slot s' (k + d)" using page_slot_inj [of k "k + d" s'] kn assms(3,4) by auto
  then have "pg_alloc (page_at (mark_free (k + d) s') k)" by (simp add: mark_free_def k(3) mark_allocated_def)
  with kn k(2) free show ?thesis by auto
qed

theorem vm_page_free_wrong_descriptor_witness:
  "\<exists>k<2. pg_alloc (page_at (vm_page_free 0x40001000 (mark_allocated 0 (sample_pages 0x40001000))) k)"
proof -
  have "memory_phys_base (sample_pages 0x40001000) = 0x40000000" by (simp add: sample_pages_def)
  then show ?thesis
    using vm_page_free_wrong_descriptor [OF sample_pages_ok _ _ _ sample_pages_alloc, of "0x40001000" 1] by auto
qed

end
