(* ===== verification/Pmap.thy ===== *)
theory Pmap
  imports Kernel_State
begin

section \<open>Translation tables (kern/vm/pmap.c)\<close>

text \<open>
  The page table region is a bump allocator of 4 KB tables; \<^verbatim>\<open>pmap_tt_create_tte\<close> fills a level 1
  table and the level 2 tables below it with 2 MB block descriptors. A table is a range of
  64-bit cells of the heap, addressed as the code addresses it. The build disables the level 3
  branch (\<^verbatim>\<open>DEFAULTS_KERNEL_VM_USE_L3_TABLE\<close>), so it is not part of the model. The walk of the
  hardware, \<open>tt_walk\<close>, is the specification the tables are proved against.
\<close>

unbundle bit_operations_syntax

subsection \<open>Constants of arch/proc\_reg.h\<close>

abbreviation PMAP_RETURN_SUCCESS :: i32 where "PMAP_RETURN_SUCCESS \<equiv> 0"
abbreviation PMAP_RETURN_FAILED :: i32 where "PMAP_RETURN_FAILED \<equiv> 1"
abbreviation PMAP_RETURN_ILLEGAL :: i32 where "PMAP_RETURN_ILLEGAL \<equiv> 2"
abbreviation PMAP_RETURN_INVALID :: i32 where "PMAP_RETURN_INVALID \<equiv> 3"

abbreviation TT_L1_INDEX_MASK :: u64 where "TT_L1_INDEX_MASK \<equiv> 0x7fc0000000"
abbreviation TT_L1_SIZE :: u64 where "TT_L1_SIZE \<equiv> 0x40000000"
abbreviation TT_L2_INDEX_MASK :: u64 where "TT_L2_INDEX_MASK \<equiv> 0x3fe00000"
abbreviation TT_L2_SIZE :: u64 where "TT_L2_SIZE \<equiv> 0x200000"
abbreviation TT_TABLE_MASK :: u64 where "TT_TABLE_MASK \<equiv> 0xfffffffff000"
abbreviation TT_BLOCK_MASK :: u64 where "TT_BLOCK_MASK \<equiv> 0xffffffe00000"
abbreviation TTBR_BADDR_MASK :: u64 where "TTBR_BADDR_MASK \<equiv> 0xffffffffffff"
abbreviation TTE_TYPE_MASK :: u64 where "TTE_TYPE_MASK \<equiv> 3"
abbreviation TTE_TYPE_TABLE :: u64 where "TTE_TYPE_TABLE \<equiv> 3"
abbreviation TTE_TYPE_BLOCK :: u64 where "TTE_TYPE_BLOCK \<equiv> 1"
abbreviation TTE_BLOCK_TEMPLATE :: u64 where "TTE_BLOCK_TEMPLATE \<equiv> 0x401"
abbreviation DEFAULTS_KERNEL_VM_VIRT_BASE :: u64 where
  "DEFAULTS_KERNEL_VM_VIRT_BASE \<equiv> 0xfffffff000000000"

abbreviation PMAP_ACCESS_NOACCESS :: u32 where "PMAP_ACCESS_NOACCESS \<equiv> 1"
abbreviation PMAP_ACCESS_READWRITE :: u32 where "PMAP_ACCESS_READWRITE \<equiv> 4"

subsection \<open>Operations\<close>

definition ptokva :: "kstate \<Rightarrow> u64 \<Rightarrow> addr" where
  "ptokva s p = p - memory_phys_base s + memory_virt_base s"

definition l1_index :: "addr \<Rightarrow> u64" where
  "l1_index va = drop_bit 30 (va AND TT_L1_INDEX_MASK)"

definition l2_index :: "addr \<Rightarrow> u64" where
  "l2_index va = drop_bit 21 (va AND TT_L2_INDEX_MASK)"

definition pmap_ptregion_create :: "arch_env \<Rightarrow> kstate \<Rightarrow> i32 \<times> kstate" where
  "pmap_ptregion_create env s =
     (if ptregion_initialised s then (PMAP_RETURN_ILLEGAL, s)
      else if sym_pagetables_region_base env = NULL then (PMAP_RETURN_INVALID, s)
      else (PMAP_RETURN_SUCCESS,
            s\<lparr>pagetables_region_cursor := sym_pagetables_region_base env,
              ptregion_phys_base := kvtop env (sym_pagetables_region_base env),
              ptregion_initialised := True\<rparr>))"

text \<open>The assertion reads the variable \<^verbatim>\<open>pagetables_region_end\<close>, the cell at that symbol.\<close>

definition pmap_ptregion_alloc :: "arch_env \<Rightarrow> kstate \<Rightarrow> (addr \<times> kstate) outcome" where
  "pmap_ptregion_alloc env s =
     (let vaddr = pagetables_region_cursor s;
          s1 = s\<lparr>pagetables_region_cursor := pagetables_region_cursor s + VM_PAGE_SIZE\<rparr>
      in if cells s1 (sym_pagetables_region_end env) < vaddr then Inr (vaddr, s1)
         else Inl (AssertFailed ''pagetables_region_end < vaddr''))"

definition block_entry :: "u64 \<Rightarrow> addr \<Rightarrow> addr \<Rightarrow> u64" where
  "block_entry pbase vbase va =
     TTE_BLOCK_TEMPLATE OR ((pbase + (va - vbase)) AND TT_TABLE_MASK)"

definition set_cell :: "addr \<Rightarrow> u64 \<Rightarrow> kstate \<Rightarrow> kstate" where
  "set_cell a v s = s\<lparr>cells := (cells s)(a := v)\<rparr>"

text \<open>The inner loop; \<open>lim\<close> is \<^verbatim>\<open>map_address + TT_L1_SIZE\<close>.\<close>

partial_function (option) pmap_fill_l2 ::
  "addr \<Rightarrow> u64 \<Rightarrow> addr \<Rightarrow> addr \<Rightarrow> addr \<Rightarrow> addr \<Rightarrow> kstate \<Rightarrow> kstate option" where
  "pmap_fill_l2 l2_table pbase vbase lim vend ma s =
     (if ma < lim \<and> ma < vend
      then pmap_fill_l2 l2_table pbase vbase lim vend (ma + TT_L2_SIZE)
             (set_cell (l2_table + 8 * l2_index ma) (block_entry pbase vbase ma) s)
      else Some s)"

text \<open>The level 2 table of an address: the one its level 1 entry names, or a new one.\<close>

definition pmap_l2_table :: "arch_env \<Rightarrow> addr \<Rightarrow> addr \<Rightarrow> kstate \<Rightarrow> (addr \<times> kstate) outcome" where
  "pmap_l2_table env table va s =
     (let slot = table + 8 * l1_index va
      in if cells s slot AND TTE_TYPE_MASK \<noteq> TTE_TYPE_TABLE
         then andthen (pmap_ptregion_alloc env s) (\<lambda>(l2_table, s1).
                Inr (l2_table, set_cell slot ((kvtop env l2_table AND TT_TABLE_MASK) OR 3) s1))
         else Inr (ptokva s (cells s slot AND TT_TABLE_MASK), s))"

partial_function (option) pmap_fill_l1 ::
  "arch_env \<Rightarrow> addr \<Rightarrow> u64 \<Rightarrow> addr \<Rightarrow> addr \<Rightarrow> addr \<Rightarrow> kstate \<Rightarrow> kstate outcome option" where
  "pmap_fill_l1 env table pbase vbase vend ma s =
     (if ma < vend
      then (case pmap_l2_table env table ma s of
              Inl e \<Rightarrow> Some (Inl e)
            | Inr (l2_table, s1) \<Rightarrow>
                (case pmap_fill_l2 l2_table pbase vbase (ma + TT_L1_SIZE) vend ma s1 of
                   None \<Rightarrow> None
                 | Some s2 \<Rightarrow> pmap_fill_l1 env table pbase vbase vend (ma + TT_L1_SIZE) s2))
      else Some (Inr s))"

definition pmap_tt_create_tte ::
  "arch_env \<Rightarrow> addr \<Rightarrow> u64 \<Rightarrow> addr \<Rightarrow> u64 \<Rightarrow> u32 \<Rightarrow> kstate \<Rightarrow> (i32 \<times> kstate) outcome" where
  "pmap_tt_create_tte env table pbase vbase sz flags s =
     (if DEFAULTS_KERNEL_VM_VIRT_BASE < pbase then Inr (PMAP_RETURN_FAILED, s)
      else andthen (terminates (pmap_fill_l1 env table pbase vbase (vbase + sz) vbase s))
             (\<lambda>r. andthen r (\<lambda>s1. Inr (PMAP_RETURN_SUCCESS, s1))))"

subsection \<open>The hardware's table walk\<close>

text \<open>
  Translation with a 4 KB granule from level 1, with the descriptor types and output address
  fields that \<^verbatim>\<open>arch/proc_reg.h\<close> documents: a table descriptor at level 1, a 2 MB block
  descriptor at level 2.
\<close>

definition tt_walk :: "kstate \<Rightarrow> addr \<Rightarrow> addr \<Rightarrow> u64 option" where
  "tt_walk s table va =
     (let e1 = cells s (table + 8 * l1_index va)
      in if e1 AND TTE_TYPE_MASK \<noteq> TTE_TYPE_TABLE then None
         else let e2 = cells s (ptokva s (e1 AND TT_TABLE_MASK) + 8 * l2_index va)
              in if e2 AND TTE_TYPE_MASK \<noteq> TTE_TYPE_BLOCK then None
                 else Some ((e2 AND TT_BLOCK_MASK) + (va AND (TT_L2_SIZE - 1))))"

subsection \<open>Index and descriptor fields\<close>

lemma drop_bit_and_field:
  fixes w :: "'a::len word"
  shows "drop_bit n (w AND push_bit n (mask m)) = take_bit m (drop_bit n w)"
  by (rule bit_word_eqI) (auto simp: bit_simps dest: bit_imp_le_length)

lemma and_field_eq:
  fixes x :: "'a::len word"
  assumes "2 ^ a dvd unat x" "unat x < 2 ^ (a + b)"
  shows "x AND push_bit a (mask b) = x"
proof (rule bit_word_eqI)
  fix n
  assume n: "n < LENGTH('a)"
  have "a \<le> n \<and> n < a + b" if "bit x n"
  proof -
    have bt: "bit (unat x) n" using that n by (simp add: bit_unsigned_iff)
    have "n < a + b" using bt assms(2) bit_take_bit_iff [of "a + b" "unat x" n] by (simp add: take_bit_nat_eq_self)
    moreover have "take_bit a (unat x) = 0" using assms(1) by (simp add: take_bit_eq_0_iff)
    then have "\<not> bit (take_bit a (unat x)) n" by simp
    ultimately show ?thesis using bt by (auto simp: bit_take_bit_iff)
  qed
  then show "bit (x AND push_bit a (mask b)) n \<longleftrightarrow> bit x n"
    using n by (auto simp: bit_simps)
qed

lemma l1_index_eq: "l1_index va = take_bit 9 (drop_bit 30 va)"
  using drop_bit_and_field [of 30 va 9] 
  by (simp add: l1_index_def mask_eq_exp_minus_1 push_bit_eq_mult)

lemma l2_index_eq: "l2_index va = take_bit 9 (drop_bit 21 va)"
  using drop_bit_and_field [of 21 va 9] 
  by (simp add: l2_index_def mask_eq_exp_minus_1 push_bit_eq_mult)

lemma unat_l1_index: "unat (l1_index va) = unat va div 2 ^ 30 mod 512"
  by (simp add: l1_index_eq take_bit_eq_mod drop_bit_eq_div unat_div unat_mod)

lemma unat_l2_index: "unat (l2_index va) = unat va div 2 ^ 21 mod 512"
  by (simp add: l2_index_eq take_bit_eq_mod drop_bit_eq_div unat_div unat_mod)

lemma unat_l2_offset: "unat (va AND (TT_L2_SIZE - 1)) = unat va mod 2 ^ 21"
proof -
  have "TT_L2_SIZE - 1 = mask 21" by (simp add: mask_eq_exp_minus_1)
  then have "va AND (TT_L2_SIZE - 1) = take_bit 21 va" by (simp only: take_bit_eq_mask)
  then show ?thesis by (simp add: take_bit_eq_mod unat_mod)
qed

lemma block_entry_fields:
  fixes x :: u64
  assumes "2 ^ 21 dvd unat x" "unat x < 2 ^ 48"
  shows "(TTE_BLOCK_TEMPLATE OR (x AND TT_TABLE_MASK)) AND TTE_TYPE_MASK = TTE_TYPE_BLOCK"
    and "(TTE_BLOCK_TEMPLATE OR (x AND TT_TABLE_MASK)) AND TT_BLOCK_MASK = x"
proof -
  show "(TTE_BLOCK_TEMPLATE OR (x AND TT_TABLE_MASK)) AND TTE_TYPE_MASK = TTE_TYPE_BLOCK"
    by (simp add: bit.conj_disj_distrib2 and.assoc)
  have "x AND TT_BLOCK_MASK = x"
    using and_field_eq [of 21 x 27] assms by (simp add: mask_eq_exp_minus_1 push_bit_eq_mult)
  then show "(TTE_BLOCK_TEMPLATE OR (x AND TT_TABLE_MASK)) AND TT_BLOCK_MASK = x"
    by (simp add: bit.conj_disj_distrib2 and.assoc)
qed

subsection \<open>The loops\<close>

definition fill_blocks :: "addr \<Rightarrow> u64 \<Rightarrow> addr \<Rightarrow> addr \<Rightarrow> nat \<Rightarrow> kstate \<Rightarrow> kstate" where
  "fill_blocks l2_table pbase vbase ma n =
     fold (\<lambda>k. set_cell (l2_table + 8 * l2_index (ma + TT_L2_SIZE * word_of_nat k))
                        (block_entry pbase vbase (ma + TT_L2_SIZE * word_of_nat k))) [0 ..< n]"

lemma block_step:
  "ma + TT_L2_SIZE + TT_L2_SIZE * word_of_nat k = (ma + TT_L2_SIZE * word_of_nat (Suc k) :: addr)"
  by (simp add: algebra_simps)

lemma fill_blocks_Suc:
  "fill_blocks l2 pbase vbase ma (Suc n) s =
     fill_blocks l2 pbase vbase (ma + TT_L2_SIZE) n
       (set_cell (l2 + 8 * l2_index ma) (block_entry pbase vbase ma) s)"
proof -
  have "[0 ..< Suc n] = 0 # map Suc [0 ..< n]" by (simp only: upt_conv_Cons map_Suc_upt zero_less_Suc)
  then show ?thesis unfolding fill_blocks_def block_step by (simp only: fold_map fold_simps comp_def) simp
qed

lemma pmap_fill_l2_fold:
  assumes "\<And>k. k < n \<Longrightarrow> ma + TT_L2_SIZE * word_of_nat k < lim \<and> ma + TT_L2_SIZE * word_of_nat k < vend"
    and "\<not> (ma + TT_L2_SIZE * word_of_nat n < lim \<and> ma + TT_L2_SIZE * word_of_nat n < vend)"
  shows "pmap_fill_l2 l2_table pbase vbase lim vend ma s = Some (fill_blocks l2_table pbase vbase ma n s)"
  using assms
proof (induction n arbitrary: ma s)
  case 0
  then show ?case by (subst pmap_fill_l2.simps) (auto simp: fill_blocks_def)
next
  case (Suc n)
  have "pmap_fill_l2 l2_table pbase vbase lim vend (ma + TT_L2_SIZE) s'
        = Some (fill_blocks l2_table pbase vbase (ma + TT_L2_SIZE) n s')" for s'
  proof (rule Suc.IH)
    fix k
    assume "k < n"
    then show "ma + TT_L2_SIZE + TT_L2_SIZE * word_of_nat k < lim \<and>
               ma + TT_L2_SIZE + TT_L2_SIZE * word_of_nat k < vend"
      unfolding block_step by (intro Suc.prems(1)) simp
  qed (unfold block_step, rule Suc.prems(2))
  moreover have "ma < lim \<and> ma < vend" using Suc.prems(1) [of 0] by simp
  ultimately show ?case by (subst pmap_fill_l2.simps) (simp only: simp_thms if_True fill_blocks_Suc)
qed

lemma l1_index_less: "unat (l1_index va) < 512"
  by (simp add: unat_l1_index)

lemma l2_index_less: "unat (l2_index va) < 512"
  by (simp add: unat_l2_index)

lemma fill_blocks_frame [frame_simps]:
  "memory_phys_base (fill_blocks l2 pbase vbase ma n s) = memory_phys_base s \<and>
   memory_virt_base (fill_blocks l2 pbase vbase ma n s) = memory_virt_base s \<and>
   pagetables_region_cursor (fill_blocks l2 pbase vbase ma n s) = pagetables_region_cursor s"
  by (induction n) (simp_all add: fill_blocks_def set_cell_def)

lemma fill_blocks_other:
  assumes "\<And>i. i < 512 \<Longrightarrow> a \<noteq> l2 + 8 * word_of_nat i"
  shows "cells (fill_blocks l2 pbase vbase ma n s) a = cells s a"
proof (induction n)
  case (Suc n)
  let ?i = "l2_index (ma + TT_L2_SIZE * word_of_nat n)"
  have "a \<noteq> l2 + 8 * ?i"
    using assms [of "unat ?i"] l2_index_less by simp
  with Suc show ?case by (simp add: fill_blocks_def set_cell_def)
qed (simp add: fill_blocks_def)

text \<open>While the blocks stay inside one table, the \<open>k\<close>-th of them is found at its index.\<close>

lemma l2_index_step:
  assumes "unat ma div 2 ^ 21 mod 512 + k < 512" "unat ma + 2 ^ 21 * k < 2 ^ 64"
  shows "unat (l2_index (ma + TT_L2_SIZE * word_of_nat k)) = unat ma div 2 ^ 21 mod 512 + k"
proof -
  have "unat (TT_L2_SIZE * word_of_nat k :: u64) = 2 ^ 21 * k"
    using unat_of_nat_no_wrap [of "2 ^ 21 * k", where 'a = 64] assms(2) by simp
  then have "unat (ma + TT_L2_SIZE * word_of_nat k) = unat ma + 2 ^ 21 * k"
    using assms(2) by (simp add: unat_add_no_wrap)
  then have "unat (l2_index (ma + TT_L2_SIZE * word_of_nat k)) = (unat ma div 2 ^ 21 + k) mod 512"
    by (simp add: unat_l2_index add.commute)
  also have "\<dots> = unat ma div 2 ^ 21 mod 512 + k" using assms(1) by (metis mod_add_left_eq mod_less)
  finally show ?thesis .
qed

lemma fill_blocks_at:
  assumes "k < n" "unat ma div 2 ^ 21 mod 512 + n \<le> 512" "unat ma + 2 ^ 21 * n \<le> 2 ^ 64"
  shows "cells (fill_blocks l2 pbase vbase ma n s) (l2 + 8 * l2_index (ma + TT_L2_SIZE * word_of_nat k))
           = block_entry pbase vbase (ma + TT_L2_SIZE * word_of_nat k)"
  using assms
proof (induction n)
  case (Suc n)
  have idx: "unat (l2_index (ma + TT_L2_SIZE * word_of_nat j)) = unat ma div 2 ^ 21 mod 512 + j" if "j \<le> n" for j
    using Suc.prems that by (intro l2_index_step) auto
  show ?case
  proof (cases "k = n")
    case False
    then have "unat (l2_index (ma + TT_L2_SIZE * word_of_nat k)) \<noteq> unat (l2_index (ma + TT_L2_SIZE * word_of_nat n))"
      using Suc.prems(1) by (simp add: idx)
    then have "l2 + 8 * l2_index (ma + TT_L2_SIZE * word_of_nat k) \<noteq> l2 + 8 * l2_index (ma + TT_L2_SIZE * word_of_nat n)"
      using array_slot_inj [of "unat (l2_index (ma + TT_L2_SIZE * word_of_nat k))" 8
          "unat (l2_index (ma + TT_L2_SIZE * word_of_nat n))" l2] idx Suc.prems
      by (auto simp: mult.commute)
    with False Suc show ?thesis by (simp add: fill_blocks_def set_cell_def)
  qed (simp add: fill_blocks_def set_cell_def)
qed simp

subsection \<open>Creating entries\<close>

text \<open>
  \<open>l2\<close> is the table the level 1 entry of \<open>va\<close> names, or else the next table of the region,
  which the assertion lets through and which the MMU's translation and \<^verbatim>\<open>ptokva\<close> agree on.
\<close>

definition l2_table_ok :: "arch_env \<Rightarrow> addr \<Rightarrow> addr \<Rightarrow> kstate \<Rightarrow> addr \<Rightarrow> bool" where
  "l2_table_ok env table va s l2 \<longleftrightarrow>
     (if cells s (table + 8 * l1_index va) AND TTE_TYPE_MASK = TTE_TYPE_TABLE
      then l2 = ptokva s (cells s (table + 8 * l1_index va) AND TT_TABLE_MASK)
      else l2 = pagetables_region_cursor s \<and> cells s (sym_pagetables_region_end env) < l2 \<and>
           ptokva s (kvtop env l2 AND TT_TABLE_MASK) = l2) \<and>
     (\<forall>i\<in>{0 ..< 512}. table + 8 * l1_index va \<noteq> l2 + 8 * word_of_nat i)"

lemma pmap_l2_table_ok:
  assumes "l2_table_ok env table va s l2"
  obtains s1 where "pmap_l2_table env table va s = Inr (l2, s1)"
    "cells s1 (table + 8 * l1_index va) AND TTE_TYPE_MASK = TTE_TYPE_TABLE"
    "ptokva s1 (cells s1 (table + 8 * l1_index va) AND TT_TABLE_MASK) = l2"
    "\<And>a. a \<noteq> table + 8 * l1_index va \<Longrightarrow> cells s1 a = cells s a"
    "memory_phys_base s1 = memory_phys_base s" "memory_virt_base s1 = memory_virt_base s"
proof (cases "cells s (table + 8 * l1_index va) AND TTE_TYPE_MASK = TTE_TYPE_TABLE")
  case True
  with assms show ?thesis by (intro that [of s]) (auto simp: l2_table_ok_def pmap_l2_table_def Let_def)
next
  case False
  with assms show ?thesis
    by (intro that [of "set_cell (table + 8 * l1_index va) ((kvtop env l2 AND TT_TABLE_MASK) OR 3)
          (s\<lparr>pagetables_region_cursor := pagetables_region_cursor s + VM_PAGE_SIZE\<rparr>)"])
      (auto simp: l2_table_ok_def pmap_l2_table_def pmap_ptregion_alloc_def Let_def set_cell_def
        bit.conj_disj_distrib2 and.assoc ptokva_def)
qed

lemma ceiling_div:
  fixes d z :: nat
  assumes "0 < d"
  shows "d * ((z + d - 1) div d) < z + d" "z \<le> d * ((z + d - 1) div d)"
  using mult_div_mod_eq [of d "z + d - 1"] mod_less_divisor [OF assms, of "z + d - 1"] assms by linarith+

lemma block_count:
  fixes vbase sz :: u64
  assumes "2 ^ 21 dvd unat vbase" "unat sz \<le> 2 ^ 30" "unat vbase + 2 ^ 30 < 2 ^ 64"
  defines "n \<equiv> (unat sz + 2 ^ 21 - 1) div 2 ^ 21"
  shows "k < n \<Longrightarrow> 2 ^ 21 * k < unat sz" and "unat vbase + 2 ^ 21 * n \<le> 2 ^ 64"
    and "unat vbase mod 2 ^ 30 + unat sz \<le> 2 ^ 30 \<Longrightarrow> unat vbase div 2 ^ 21 mod 512 + n \<le> 512"
    and "unat sz \<le> 2 ^ 21 * n"
    and "k \<le> n \<Longrightarrow> unat (vbase + TT_L2_SIZE * word_of_nat k) = unat vbase + 2 ^ 21 * k"
    and "unat (vbase + sz) = unat vbase + unat sz" and "unat (vbase + TT_L1_SIZE) = unat vbase + 2 ^ 30"
proof -
  have n: "2 ^ 21 * n < unat sz + 2 ^ 21" "unat sz \<le> 2 ^ 21 * n"
    using ceiling_div [of "2 ^ 21" "unat sz"] by (simp_all only: n_def zero_less_power zero_less_numeral)
  obtain q where q: "unat vbase = 2 ^ 21 * q" using assms(1) by blast
  have "2 ^ 21 * q mod (2 ^ 21 * 512) = 2 ^ 21 * (q mod 512)" by (rule mult_mod_right [symmetric])
  then show "unat vbase div 2 ^ 21 mod 512 + n \<le> 512" if "unat vbase mod 2 ^ 30 + unat sz \<le> 2 ^ 30"
    using that n(1) q by simp
  show "unat vbase + 2 ^ 21 * n \<le> 2 ^ 64" using n(1) assms(2,3) q by simp
  show "k < n \<Longrightarrow> 2 ^ 21 * k < unat sz" using n(1) by simp
  show "unat sz \<le> 2 ^ 21 * n" by (rule n(2))
  show "unat (vbase + sz) = unat vbase + unat sz" using assms(2,3) by (simp add: unat_add_no_wrap)
  show "unat (vbase + TT_L1_SIZE) = unat vbase + 2 ^ 30" using assms(3) by (simp add: unat_add_no_wrap)
  assume "k \<le> n"
  then have "2 ^ 21 * k \<le> 2 ^ 30" using n(1) assms(2) by simp
  moreover from this have "unat (TT_L2_SIZE * word_of_nat k :: u64) = 2 ^ 21 * k"
    using unat_of_nat_no_wrap [of "2 ^ 21 * k", where 'a = 64] by simp
  ultimately show "unat (vbase + TT_L2_SIZE * word_of_nat k) = unat vbase + 2 ^ 21 * k"
    using assms(3) by (simp add: unat_add_no_wrap)
qed

text \<open>For at most a gigabyte the outer loop runs once and the inner one once per block.\<close>

lemma pmap_fill_l1_one_table:
  assumes "2 ^ 21 dvd unat vbase" "unat sz \<le> 2 ^ 30" "unat vbase + 2 ^ 30 < 2 ^ 64"
    and "0 < sz" "pmap_l2_table env table vbase s = Inr (l2, s1)"
  shows "pmap_fill_l1 env table pbase vbase (vbase + sz) vbase s =
           Some (Inr (fill_blocks l2 pbase vbase vbase ((unat sz + 2 ^ 21 - 1) div 2 ^ 21) s1))"
proof -
  let ?n = "(unat sz + 2 ^ 21 - 1) div 2 ^ 21"
  note c = block_count [OF assms(1-3)]
  have "pmap_fill_l2 l2 pbase vbase (vbase + TT_L1_SIZE) (vbase + sz) vbase s1
      = Some (fill_blocks l2 pbase vbase vbase ?n s1)"
  proof (rule pmap_fill_l2_fold)
    fix k
    assume "k < ?n"
    with c(1) [OF this] c(5) [of k] assms(2)
    show "vbase + TT_L2_SIZE * word_of_nat k < vbase + TT_L1_SIZE \<and>
          vbase + TT_L2_SIZE * word_of_nat k < vbase + sz"
      unfolding word_less_nat_alt c(6,7) by simp
  next
    show "\<not> (vbase + TT_L2_SIZE * word_of_nat ?n < vbase + TT_L1_SIZE \<and>
             vbase + TT_L2_SIZE * word_of_nat ?n < vbase + sz)"
      using c(4) unfolding word_less_nat_alt c(6) c(5) [OF order_refl] by linarith
  qed
  moreover have "pmap_fill_l1 env table pbase vbase (vbase + sz) (vbase + TT_L1_SIZE) s' = Some (Inr s')" for s'
  proof -
    have "\<not> vbase + TT_L1_SIZE < vbase + sz" using assms(2) unfolding word_less_nat_alt c(6,7) by linarith
    then show ?thesis by (subst pmap_fill_l1.simps) simp
  qed
  moreover have "vbase < vbase + sz" using assms(4) unfolding word_less_nat_alt c(6) by simp
  ultimately show ?thesis by (subst pmap_fill_l1.simps) (simp add: assms(5))
qed

lemma div_add_within:
  fixes a d m :: nat
  assumes "a mod m + d < m"
  shows "(a + d) div m = a div m"
proof -
  have "a + d = m * (a div m) + (a mod m + d)" by simp
  then have "(a + d) div m = (m * (a div m) + (a mod m + d)) div m" by simp
  also have "\<dots> = a div m" using assms by (subst div_mult_self4) auto
  finally show ?thesis .
qed

text \<open>An address of the region lies in the block number \<open>k\<close> and in the region's level 1 entry.\<close>

lemma region_address:
  fixes vbase sz va :: u64
  assumes "2 ^ 21 dvd unat vbase" "unat vbase mod 2 ^ 30 + unat sz \<le> 2 ^ 30" "unat vbase + 2 ^ 30 < 2 ^ 64"
    and "vbase \<le> va" "va < vbase + sz"
  defines "k \<equiv> unat (va - vbase) div 2 ^ 21"
  shows "k < (unat sz + 2 ^ 21 - 1) div 2 ^ 21" "l1_index va = l1_index vbase"
    and "l2_index va = l2_index (vbase + TT_L2_SIZE * word_of_nat k)"
    and "unat (va - vbase) < unat sz" "unat (va AND (TT_L2_SIZE - 1)) = unat (va - vbase) mod 2 ^ 21"
proof -
  have "unat sz \<le> 2 ^ 30" using assms(2) by linarith
  note c = block_count [OF assms(1) this assms(3)]
  define d where "d = unat (va - vbase)"
  have va: "unat va = unat vbase + d"
    using assms(4) by (simp add: d_def unat_sub word_le_nat_alt)
  obtain q where q: "unat vbase = 2 ^ 21 * q" using assms(1) by blast
  show dsz: "unat (va - vbase) < unat sz"
    using assms(5) unfolding word_less_nat_alt c(6) va d_def by simp
  then have "d < 2 ^ 21 * ((unat sz + 2 ^ 21 - 1) div 2 ^ 21)" using c(4) unfolding d_def by linarith
  then show kn: "k < (unat sz + 2 ^ 21 - 1) div 2 ^ 21"
    unfolding k_def d_def by (simp add: div_less_iff_less_mult mult.commute)
  have "unat va div 2 ^ 30 = unat vbase div 2 ^ 30"
    unfolding va by (rule div_add_within) (use assms(2) dsz d_def in linarith)
  then show "l1_index va = l1_index vbase" by (simp add: word_unat_eq_iff unat_l1_index)
  have ub: "unat (vbase + TT_L2_SIZE * word_of_nat k) = 2 ^ 21 * (q + k)"
    using c(5) [of k] kn q by simp
  show "l2_index va = l2_index (vbase + TT_L2_SIZE * word_of_nat k)"
    unfolding word_unat_eq_iff unat_l2_index ub by (simp add: va q k_def d_def)
  show "unat (va AND (TT_L2_SIZE - 1)) = unat (va - vbase) mod 2 ^ 21"
    unfolding unat_l2_offset va q d_def by simp
qed

lemma block_output:
  fixes pbase d :: u64
  assumes "2 ^ 21 dvd unat pbase" "unat pbase + unat d < 2 ^ 48"
  defines "x \<equiv> pbase + TT_L2_SIZE * word_of_nat (unat d div 2 ^ 21)"
  shows "2 ^ 21 dvd unat x" "unat x < 2 ^ 48"
    and "unat y = unat d mod 2 ^ 21 \<Longrightarrow> x + y = pbase + d"
proof -
  obtain r where r: "unat pbase = 2 ^ 21 * r" using assms(1) by blast
  let ?k = "unat d div 2 ^ 21"
  have k: "2 ^ 21 * ?k \<le> unat d" by simp
  have "unat (TT_L2_SIZE * word_of_nat ?k :: u64) = 2 ^ 21 * ?k"
    using unat_of_nat_no_wrap [of "2 ^ 21 * ?k", where 'a = 64] k assms(2) by simp
  then have ux: "unat x = 2 ^ 21 * (r + ?k)"
    unfolding x_def using k assms(2) r by (simp add: unat_add_no_wrap)
  show "2 ^ 21 dvd unat x" unfolding ux by (rule dvd_triv_left)
  show "unat x < 2 ^ 48" using ux k assms(2) r by simp
  assume y: "unat y = unat d mod 2 ^ 21"
  have "unat x + unat y = unat pbase + unat d"
    unfolding ux y r using mult_div_mod_eq [of "2 ^ 21" "unat d"] by (simp add: distrib_left)
  then show "x + y = pbase + d"
    using assms(2) by (simp add: word_unat_eq_iff unat_add_no_wrap)
qed

text \<open>What the walk finds afterwards at an address of the region.\<close>

lemma tt_walk_fill_blocks:
  assumes "2 ^ 21 dvd unat vbase" "unat vbase mod 2 ^ 30 + unat sz \<le> 2 ^ 30" "unat vbase + 2 ^ 30 < 2 ^ 64"
    and "2 ^ 21 dvd unat pbase" "unat pbase + unat sz \<le> 2 ^ 48"
    and "cells s1 (table + 8 * l1_index vbase) AND TTE_TYPE_MASK = TTE_TYPE_TABLE"
    and "ptokva s1 (cells s1 (table + 8 * l1_index vbase) AND TT_TABLE_MASK) = l2"
    and "\<And>i. i < 512 \<Longrightarrow> table + 8 * l1_index vbase \<noteq> l2 + 8 * word_of_nat i"
    and "vbase \<le> va" "va < vbase + sz"
  defines "s' \<equiv> fill_blocks l2 pbase vbase vbase ((unat sz + 2 ^ 21 - 1) div 2 ^ 21) s1"
  shows "tt_walk s' table va = Some (pbase + (va - vbase))"
proof -
  have "unat sz \<le> 2 ^ 30" using assms(2) by linarith
  note c = block_count [OF assms(1) this assms(3)]
  note r = region_address [OF assms(1-3,9,10)]
  let ?b = "vbase + TT_L2_SIZE * word_of_nat (unat (va - vbase) div 2 ^ 21)"
  have "unat pbase + unat (va - vbase) < 2 ^ 48" using r(4) assms(5) by linarith
  note out = block_output [OF assms(4) this]
  have b: "pbase + (?b - vbase) = pbase + TT_L2_SIZE * word_of_nat (unat (va - vbase) div 2 ^ 21)" by simp
  have "cells s' (l2 + 8 * l2_index va) = block_entry pbase vbase ?b"
    unfolding s'_def r(3) by (rule fill_blocks_at [OF r(1) c(3) [OF assms(2)] c(2)])
  moreover have "cells s' (table + 8 * l1_index va) = cells s1 (table + 8 * l1_index vbase)"
    unfolding s'_def r(2) by (rule fill_blocks_other) (use assms(8) in blast)
  moreover have "ptokva s' p = ptokva s1 p" for p
    by (simp add: s'_def ptokva_def fill_blocks_frame)
  ultimately show ?thesis
    unfolding tt_walk_def Let_def using assms(6,7) block_entry_fields [OF out(1,2)] out(3) [OF r(5)]
    by (simp only: block_entry_def b simp_thms if_False if_True)
qed

lemma fill_blocks_unused:
  assumes "\<And>k. k < n \<Longrightarrow> i \<noteq> unat ma div 2 ^ 21 mod 512 + k" "i < 512"
    and "unat ma div 2 ^ 21 mod 512 + n \<le> 512" "unat ma + 2 ^ 21 * n \<le> 2 ^ 64"
  shows "cells (fill_blocks l2 pbase vbase ma n s) (l2 + 8 * word_of_nat i) = cells s (l2 + 8 * word_of_nat i)"
  using assms
proof (induction n)
  case (Suc n)
  let ?j = "l2_index (ma + TT_L2_SIZE * word_of_nat n)"
  have "unat ?j = unat ma div 2 ^ 21 mod 512 + n" using Suc.prems by (intro l2_index_step) auto
  then have "i \<noteq> unat ?j" using Suc.prems(1) [of n] by simp
  then have "l2 + 8 * word_of_nat i \<noteq> l2 + 8 * ?j"
    using array_slot_inj [of i 8 "unat ?j" l2] Suc.prems(2) l2_index_less [of "ma + TT_L2_SIZE * word_of_nat n"]
    by (auto simp: mult.commute)
  with Suc show ?case by (simp add: fill_blocks_def set_cell_def)
qed (simp add: fill_blocks_def)

text \<open>
  The specification of \<^verbatim>\<open>pmap_tt_create_tte\<close> on a region of 2 MB aligned addresses inside one
  gigabyte: it succeeds, the walk maps every address of the region to its offset from \<open>pbase\<close>,
  and no cell outside the level 1 entry and the level 2 table changes.
\<close>

lemma pmap_tt_create_tte_spec:
  assumes "2 ^ 21 dvd unat vbase" "unat vbase mod 2 ^ 30 + unat sz \<le> 2 ^ 30" "unat vbase + 2 ^ 30 < 2 ^ 64"
    and "0 < sz" "2 ^ 21 dvd unat pbase" "unat pbase + unat sz \<le> 2 ^ 48"
    and ok: "l2_table_ok env table vbase s l2"
  shows "\<exists>s'. pmap_tt_create_tte env table pbase vbase sz flags s = Inr (PMAP_RETURN_SUCCESS, s') \<and>
     (\<forall>va. vbase \<le> va \<and> va < vbase + sz \<longrightarrow> tt_walk s' table va = Some (pbase + (va - vbase))) \<and>
     (\<forall>a. a \<noteq> table + 8 * l1_index vbase \<and> (\<forall>i<512. a \<noteq> l2 + 8 * word_of_nat i) \<longrightarrow> cells s' a = cells s a)"
proof -
  obtain s1 where s1: "pmap_l2_table env table vbase s = Inr (l2, s1)"
    "cells s1 (table + 8 * l1_index vbase) AND TTE_TYPE_MASK = TTE_TYPE_TABLE"
    "ptokva s1 (cells s1 (table + 8 * l1_index vbase) AND TT_TABLE_MASK) = l2"
    "\<And>a. a \<noteq> table + 8 * l1_index vbase \<Longrightarrow> cells s1 a = cells s a"
    by (rule pmap_l2_table_ok [OF ok]) blast
  have disj: "table + 8 * l1_index vbase \<noteq> l2 + 8 * word_of_nat i" if "i < 512" for i
    using ok that by (simp add: l2_table_ok_def)
  let ?s = "fill_blocks l2 pbase vbase vbase ((unat sz + 2 ^ 21 - 1) div 2 ^ 21) s1"
  have "pbase \<le> DEFAULTS_KERNEL_VM_VIRT_BASE" using assms(6) by (simp add: word_le_nat_alt)
  moreover have "unat sz \<le> 2 ^ 30" using assms(2) by linarith
  ultimately have "pmap_tt_create_tte env table pbase vbase sz flags s = Inr (PMAP_RETURN_SUCCESS, ?s)"
    unfolding pmap_tt_create_tte_def using pmap_fill_l1_one_table [OF assms(1) _ assms(3,4) s1(1)]
    by (simp add: not_less)
  moreover have "tt_walk ?s table va = Some (pbase + (va - vbase))" if "vbase \<le> va" "va < vbase + sz" for va
    by (rule tt_walk_fill_blocks [OF assms(1-3,5,6) s1(2,3) disj that])
  moreover have "cells ?s a = cells s a"
    if "a \<noteq> table + 8 * l1_index vbase" "\<forall>i<512. a \<noteq> l2 + 8 * word_of_nat i" for a
    using that s1(4) by (simp add: fill_blocks_other)
  ultimately show ?thesis by blast
qed

text \<open>
  A region of at most a gigabyte that crosses a gigabyte boundary: the outer loop steps a
  gigabyte from the unaligned start, past the end, so the entry of the second gigabyte is never
  written and its addresses stay unmapped.
\<close>

lemma pmap_tt_create_tte_crossing:
  assumes "2 ^ 21 dvd unat vbase" "unat sz \<le> 2 ^ 30" "unat vbase + 2 ^ 30 < 2 ^ 64"
    and "2 ^ 30 < unat vbase mod 2 ^ 30 + unat sz" "pbase \<le> DEFAULTS_KERNEL_VM_VIRT_BASE"
    and ok: "l2_table_ok env table vbase s l2"
    and va: "l1_index va \<noteq> l1_index vbase" "cells s (table + 8 * l1_index va) AND TTE_TYPE_MASK \<noteq> TTE_TYPE_TABLE"
    and disj: "\<forall>i\<in>{0 ..< 512}. table + 8 * l1_index va \<noteq> l2 + 8 * word_of_nat i"
  shows "\<exists>s'. pmap_tt_create_tte env table pbase vbase sz flags s = Inr (PMAP_RETURN_SUCCESS, s') \<and>
     tt_walk s' table va = None"
proof -
  obtain s1 where s1: "pmap_l2_table env table vbase s = Inr (l2, s1)"
    "\<And>a. a \<noteq> table + 8 * l1_index vbase \<Longrightarrow> cells s1 a = cells s a"
    by (rule pmap_l2_table_ok [OF ok]) blast
  have "0 < sz" using assms(4) by (metis mod_less_divisor add.right_neutral less_numeral_extra(3) not_less_iff_gr_or_eq
      unsigned_0 word_neq_0_conv zero_less_numeral zero_less_power)
  note run = pmap_fill_l1_one_table [OF assms(1-3) this s1(1)]
  have "table + 8 * l1_index va \<noteq> table + 8 * l1_index vbase"
    using array_slot_inj [of "unat (l1_index va)" 8 "unat (l1_index vbase)" table] va(1)
      l1_index_less [of va] l1_index_less [of vbase] by (auto simp: mult.commute dest: unsigned_word_eqI)
  then have "tt_walk (fill_blocks l2 pbase vbase vbase n s1) table va = None" for n
    using va(2) disj s1(2) by (simp add: tt_walk_def fill_blocks_other)
  with run assms(5) show ?thesis by (auto simp: pmap_tt_create_tte_def not_less)
qed

subsection \<open>Properties\<close>

definition sample_mmu :: kstate where
  "sample_mmu = reset_state\<lparr>memory_phys_base := 0x40000000, memory_virt_base := 0xfffffff000000000,
     pagetables_region_cursor := 0xfffffff000010000, ptregion_initialised := True\<rparr>"

lemma table_slot_apart:
  fixes a l2 :: addr
  assumes "4096 \<le> unat (a - l2)" "i < 512"
  shows "a \<noteq> l2 + 8 * word_of_nat i"
proof
  assume "a = l2 + 8 * word_of_nat i"
  then have "a - l2 = word_of_nat (8 * i)" by simp
  moreover have "unat (word_of_nat (8 * i) :: u64) = 8 * i"
    by (rule unat_of_nat_no_wrap) (use assms(2) in simp)
  ultimately have "unat (a - l2) = 8 * i" by (simp only:)
  with assms show False by simp
qed

lemma sample_mmu_l2:
  assumes "va \<in> {0xfffffff000000000, 0xfffffff03fe00000}"
  shows "l2_table_ok sample_env 0xfffffff000030000 va sample_mmu 0xfffffff000010000"
proof -
  have "0xfffffff000030000 + 8 * l1_index va \<noteq> 0xfffffff000010000 + 8 * word_of_nat i" if "i < 512" for i
    using assms that by (intro table_slot_apart) (auto simp: l1_index_def)
  then show ?thesis
    by (auto simp: l2_table_ok_def sample_mmu_def reset_state_def sample_env_simps ptokva_def)
qed

text \<open>C5. Mapping a 2 MiB aligned region that stays inside one level-1 slot succeeds, and afterwards
  the hardware's table walk translates every address of the region to the corresponding physical
  address; no memory outside the level-1 slot and the level-2 table is written.\<close>

theorem pmap_tt_create_tte_translates:
  assumes "2 ^ 21 dvd unat vbase" "unat vbase mod 2 ^ 30 + unat sz \<le> 2 ^ 30" "unat vbase + 2 ^ 30 < 2 ^ 64"
    and "0 < sz" "2 ^ 21 dvd unat pbase" "unat pbase + unat sz \<le> 2 ^ 48"
    and "l2_table_ok env table vbase s l2"
  shows "\<exists>s'. pmap_tt_create_tte env table pbase vbase sz flags s = Inr (PMAP_RETURN_SUCCESS, s') \<and>
     (\<forall>va. vbase \<le> va \<and> va < vbase + sz \<longrightarrow> tt_walk s' table va = Some (pbase + (va - vbase))) \<and>
     (\<forall>a. a \<noteq> table + 8 * l1_index vbase \<and> (\<forall>i<512. a \<noteq> l2 + 8 * word_of_nat i) \<longrightarrow> cells s' a = cells s a)"
  using assms by (rule pmap_tt_create_tte_spec)

theorem pmap_tt_create_tte_translates_witness:
  "\<exists>s'. pmap_tt_create_tte sample_env 0xfffffff000030000 0x40000000 0xfffffff000000000 0x400000 4 sample_mmu
          = Inr (PMAP_RETURN_SUCCESS, s') \<and>
     tt_walk s' 0xfffffff000030000 0xfffffff000212345 = Some 0x40212345"
  using pmap_tt_create_tte_translates [of "0xfffffff000000000" "0x400000" "0x40000000" sample_env
      "0xfffffff000030000" sample_mmu "0xfffffff000010000" 4] sample_mmu_l2
  by force

text \<open>C36. A region that crosses a level-1 boundary is reported as mapped although the part beyond the
  boundary is not: the walk of such an address finds no entry, because the level-2 index wraps
  around inside the first table.\<close>

theorem pmap_tt_create_tte_crossing_unmapped:
  assumes "2 ^ 21 dvd unat vbase" "unat sz \<le> 2 ^ 30" "unat vbase + 2 ^ 30 < 2 ^ 64"
    and "2 ^ 30 < unat vbase mod 2 ^ 30 + unat sz" "pbase \<le> DEFAULTS_KERNEL_VM_VIRT_BASE"
    and "l2_table_ok env table vbase s l2"
    and "l1_index va \<noteq> l1_index vbase" "cells s (table + 8 * l1_index va) AND TTE_TYPE_MASK \<noteq> TTE_TYPE_TABLE"
    and "\<forall>i\<in>{0 ..< 512}. table + 8 * l1_index va \<noteq> l2 + 8 * word_of_nat i"
  shows "\<exists>s'. pmap_tt_create_tte env table pbase vbase sz flags s = Inr (PMAP_RETURN_SUCCESS, s') \<and>
     tt_walk s' table va = None"
  using assms by (rule pmap_tt_create_tte_crossing)

theorem pmap_tt_create_tte_crossing_unmapped_witness:
  "\<exists>s'. pmap_tt_create_tte sample_env 0xfffffff000030000 0x40000000 0xfffffff03fe00000 0x400000 4 sample_mmu
          = Inr (PMAP_RETURN_SUCCESS, s') \<and>
     tt_walk s' 0xfffffff000030000 0xfffffff040000000 = None"
proof (rule pmap_tt_create_tte_crossing_unmapped)
  show "l2_table_ok sample_env 0xfffffff000030000 0xfffffff03fe00000 sample_mmu 0xfffffff000010000"
    by (rule sample_mmu_l2) simp
  show "\<forall>i\<in>{0 ..< 512}. 0xfffffff000030000 + 8 * l1_index 0xfffffff040000000
          \<noteq> 0xfffffff000010000 + 8 * word_of_nat i"
    by (intro ballI table_slot_apart) (simp_all add: l1_index_def)
qed (simp_all add: l1_index_def sample_mmu_def reset_state_def)

end
