(* ===== verification/Vm_Map.thy ===== *)
theory Vm_Map
  imports Vm_Page Pmap
begin

section \<open>Virtual memory maps (kern/vm/vm\_map.c)\<close>

text \<open>
  A map keeps a list of entries, each describing a range of virtual addresses, and allocates a
  range by taking physical pages, entering them into translation tables and appending an
  entry. The first entry is placed at \<^verbatim>\<open>map + sizeof(vm_map_t)\<close> and every next one at
  \<^verbatim>\<open>last + VM_MAP_ENTRY_SIZE\<close>; both are additions to typed pointers, so the distances are
  64 * 64 and 40 * 40 bytes. The table that \<^verbatim>\<open>vm_map_alloc\<close> passes to the translation layer is
  \<^verbatim>\<open>&((pmap_t *) &map->pmap)->tte\<close>, the address of the map's own \<^verbatim>\<open>pmap\<close> member.
\<close>

subsection \<open>Operations\<close>

abbreviation VM_NULL :: u32 where "VM_NULL \<equiv> 0"
abbreviation VM_ALLOC_GUARD_FIRST :: u32 where "VM_ALLOC_GUARD_FIRST \<equiv> 1"
abbreviation VM_ALLOC_GUARD_LAST :: u32 where "VM_ALLOC_GUARD_LAST \<equiv> 2"
abbreviation VM_ALLOC_KERNEL_CODE :: u32 where "VM_ALLOC_KERNEL_CODE \<equiv> 4"
abbreviation VM_MAP_ENTRY_GUARD_PAGE :: u32 where "VM_MAP_ENTRY_GUARD_PAGE \<equiv> 1"

text \<open>
  The kernel's map: \<^verbatim>\<open>(vm_map_t *)(&kernel_pmap_ref + sizeof(task_t))\<close>, 112 structures of 40
  bytes past the kernel's \<^verbatim>\<open>pmap\<close>.
\<close>

definition vm_get_kernel_map :: "arch_env \<Rightarrow> addr" where
  "vm_get_kernel_map env = sym_kernel_pmap_ref env + SIZEOF_PMAP * SIZEOF_TASK"

definition VM_ALIGN_ADDR :: "addr \<Rightarrow> addr" where
  "VM_ALIGN_ADDR a = (a + (4 - 1)) AND (- 4)"

definition set_lock :: "bool \<Rightarrow> addr \<Rightarrow> kstate \<Rightarrow> kstate" where
  "set_lock b vmap s = s\<lparr>vm_maps := (vm_maps s)(vmap := (vm_maps s vmap)\<lparr>map_lock := b\<rparr>)\<rparr>"

definition vm_map_lock :: "addr \<Rightarrow> kstate \<Rightarrow> kstate" where
  "vm_map_lock = set_lock True"

definition vm_map_unlock :: "addr \<Rightarrow> kstate \<Rightarrow> kstate" where
  "vm_map_unlock = set_lock False"

definition next_entry :: "addr \<Rightarrow> kstate \<Rightarrow> addr" where
  "next_entry vmap s =
     (if list_empty (vmap + OFF_MAP_ENTRIES) (lists s)
      then vmap + SIZEOF_VM_MAP * SIZEOF_VM_MAP
      else list_last_entry (vmap + OFF_MAP_ENTRIES) OFF_ENTRY_SIBLINGS (lists s)
           + SIZEOF_MAP_ENTRY * SIZEOF_MAP_ENTRY)"

definition vm_map_entry_create :: "addr \<Rightarrow> addr \<Rightarrow> u64 \<Rightarrow> u32 \<Rightarrow> kstate \<Rightarrow> kstate" where
  "vm_map_entry_create vmap base sz flags s =
     (let s1 = vm_map_lock vmap s;
          entry = next_entry vmap s1;
          s2 = memset_zero entry SIZEOF_MAP_ENTRY s1;
          s3 = s2\<lparr>map_entries := (map_entries s2)(entry := (map_entries s2 entry)\<lparr>
                 ent_base := base, ent_size := sz - 1,
                 ent_guard_page := (flags AND VM_MAP_ENTRY_GUARD_PAGE \<noteq> 0),
                 ent_kernel_code := (flags AND VM_ALLOC_KERNEL_CODE \<noteq> 0)\<rparr>)\<rparr>;
          s4 = s3\<lparr>vm_maps := (vm_maps s3)(vmap := (vm_maps s3 vmap)\<lparr>
                 map_nentries := map_nentries (vm_maps s3 vmap) + 1,
                 map_size := map_size (vm_maps s3 vmap) + sz\<rparr>)\<rparr>;
          s5 = s4\<lparr>lists := list_add_tail (entry + OFF_ENTRY_SIBLINGS) (vmap + OFF_MAP_ENTRIES) (lists s4)\<rparr>
      in vm_map_unlock vmap s5)"

definition vm_map_init :: "addr \<Rightarrow> addr \<Rightarrow> addr \<Rightarrow> addr \<Rightarrow> kstate \<Rightarrow> kstate" where
  "vm_map_init vmap pmap mn mx s =
     s\<lparr>vm_maps := (vm_maps s)(vmap := \<lparr>map_timestamp = 0, map_pmap = pmap, map_min = mn,
         map_max = mx, map_size = 0, map_lock = True, map_nentries = 0\<rparr>),
       lists := INIT_LIST_HEAD (vmap + OFF_MAP_ENTRIES) (lists s)\<rparr>"

definition vm_map_create :: "addr \<Rightarrow> addr \<Rightarrow> addr \<Rightarrow> addr \<Rightarrow> kstate \<Rightarrow> kstate" where
  "vm_map_create vmap pmap mn mx s = vm_map_unlock vmap (vm_map_init vmap pmap mn mx s)"

text \<open>
  \<^verbatim>\<open>vm_map_create_new\<close> fills a map and an entry on its own stack frame, takes a page and maps it
  in the table whose physical address \<^verbatim>\<open>pmap->ttep\<close> it uses as a pointer; it has no
  \<^verbatim>\<open>return\<close>, so only its effect on the heap is modelled. \<open>ttep\<close> is the value of \<^verbatim>\<open>pmap->ttep\<close>.
\<close>

definition vm_map_create_new :: "arch_env \<Rightarrow> u64 \<Rightarrow> addr \<Rightarrow> addr \<Rightarrow> kstate \<Rightarrow> kstate outcome" where
  "vm_map_create_new env ttep mn mx s =
     andthen (vm_page_alloc s) (\<lambda>(paddr, s1).
       andthen (pmap_tt_create_tte env ttep paddr mn VM_PAGE_SIZE PMAP_ACCESS_READWRITE s1)
         (\<lambda>(_, s2). Inr s2))"

definition vm_map_page :: "arch_env \<Rightarrow> addr \<Rightarrow> u32 \<Rightarrow> u64 \<Rightarrow> addr \<Rightarrow> kstate \<Rightarrow> kstate outcome" where
  "vm_map_page env table flags paddr v s =
     andthen (pmap_tt_create_tte env table paddr v VM_PAGE_SIZE flags s) (\<lambda>(_, s1). Inr s1)"

text \<open>The loop over the pages; \<^verbatim>\<open>page_count\<close> below \<open>2 ^ 31\<close> keeps its \<^verbatim>\<open>int\<close> index exact.\<close>

fun vm_map_alloc_pages :: "arch_env \<Rightarrow> addr \<Rightarrow> nat \<Rightarrow> addr \<Rightarrow> kstate \<Rightarrow> (addr \<times> kstate) outcome" where
  "vm_map_alloc_pages env table 0 vcursor s = Inr (vcursor, s)"
| "vm_map_alloc_pages env table (Suc n) vcursor s =
     andthen (vm_page_alloc s) (\<lambda>(page_addr, s1).
       andthen (vm_map_page env table PMAP_ACCESS_READWRITE page_addr vcursor s1) (\<lambda>s2.
         vm_map_alloc_pages env table n (vcursor + VM_PAGE_SIZE) s2))"

definition guard_first :: "arch_env \<Rightarrow> addr \<Rightarrow> addr \<Rightarrow> kstate \<Rightarrow> kstate outcome" where
  "guard_first env vmap vcursor s =
     andthen (vm_page_alloc s) (\<lambda>(pa, s1).
       andthen (vm_map_page env (vmap + OFF_MAP_PMAP) PMAP_ACCESS_NOACCESS pa vcursor s1) (\<lambda>s2.
         Inr (vm_guard_page_fill vcursor
               (vm_map_entry_create vmap vcursor VM_PAGE_SIZE VM_MAP_ENTRY_GUARD_PAGE s2))))"

definition guard_last :: "arch_env \<Rightarrow> addr \<Rightarrow> addr \<Rightarrow> kstate \<Rightarrow> kstate outcome" where
  "guard_last env vmap vcursor s =
     andthen (vm_page_alloc s) (\<lambda>(pa, s1).
       andthen (vm_map_page env (vmap + OFF_MAP_PMAP) PMAP_ACCESS_NOACCESS pa vcursor s1) (\<lambda>s2.
         Inr (vm_map_entry_create vmap vcursor VM_PAGE_SIZE VM_MAP_ENTRY_GUARD_PAGE
               (vm_guard_page_fill vcursor s2))))"

text \<open>
  The base and size of the last entry. On an empty list \<^verbatim>\<open>list_last_entry\<close> yields the list head
  itself taken for the \<^verbatim>\<open>siblings\<close> member of an entry, whose base and size are then the
  map's members \<^verbatim>\<open>max\<close> and \<^verbatim>\<open>size\<close>, 24 and 16 bytes before the head.
\<close>

definition last_extent :: "addr \<Rightarrow> kstate \<Rightarrow> addr \<times> u64" where
  "last_extent vmap s =
     (if list_empty (vmap + OFF_MAP_ENTRIES) (lists s)
      then (map_max (vm_maps s vmap), map_size (vm_maps s vmap))
      else let e = list_last_entry (vmap + OFF_MAP_ENTRIES) OFF_ENTRY_SIBLINGS (lists s)
           in (ent_base (map_entries s e), ent_size (map_entries s e)))"

definition alloc_base :: "addr \<Rightarrow> kstate \<Rightarrow> addr" where
  "alloc_base vmap s = (case last_extent vmap s of (b, z) \<Rightarrow> VM_ALIGN_ADDR (b + z + 1))"

definition alloc_page_count :: "u64 \<Rightarrow> u64" where
  "alloc_page_count sz = (if sz < VM_PAGE_SIZE then 1 else sz div VM_PAGE_SIZE)"

definition vm_map_alloc :: "arch_env \<Rightarrow> addr \<Rightarrow> u64 \<Rightarrow> u32 \<Rightarrow> kstate \<Rightarrow> (addr \<times> kstate) outcome" where
  "vm_map_alloc env vmap sz flags s =
     (let v0 = alloc_base vmap s
      in andthen (if flags AND VM_ALLOC_GUARD_FIRST \<noteq> 0
                  then andthen (guard_first env vmap v0 s) (\<lambda>s1. Inr (v0 + VM_PAGE_SIZE, s1))
                  else Inr (v0, s))
         (\<lambda>(vbase, s1).
           let page_count = alloc_page_count sz
           in andthen (vm_map_alloc_pages env (vmap + OFF_MAP_PMAP) (unat page_count) vbase s1)
                (\<lambda>(vcursor, s2).
                  let s3 = vm_map_entry_create vmap vbase (page_count * VM_PAGE_SIZE) VM_NULL s2
                  in if flags AND VM_ALLOC_GUARD_LAST \<noteq> 0
                     then andthen (guard_last env vmap vcursor s3) (\<lambda>s4. Inr (vbase, s4))
                     else Inr (vbase, s3))))"

definition vm_map_alloc_at_address :: "addr \<Rightarrow> u64 \<Rightarrow> addr \<Rightarrow> kstate \<Rightarrow> i32 \<times> kstate" where
  "vm_map_alloc_at_address vmap sz base s = (0, s)"

subsection \<open>The list of entries\<close>

definition entry_at :: "addr \<Rightarrow> nat \<Rightarrow> addr" where
  "entry_at vmap i = vmap + 4096 + 1600 * word_of_nat i"

abbreviation entry_node :: "addr \<Rightarrow> nat \<Rightarrow> addr" where
  "entry_node vmap i \<equiv> entry_at vmap i + OFF_ENTRY_SIBLINGS"

definition vm_map_ok :: "addr \<Rightarrow> nat \<Rightarrow> kstate \<Rightarrow> bool" where
  "vm_map_ok vmap n s \<longleftrightarrow>
     dlist (lists s) (vmap + OFF_MAP_ENTRIES) (map (entry_node vmap) [0 ..< n]) \<and>
     map_nentries (vm_maps s vmap) = word_of_nat n \<and>
     map_size (vm_maps s vmap) = (\<Sum>i<n. ent_size (map_entries s (entry_at vmap i)) + 1) \<and>
     \<not> map_lock (vm_maps s vmap)"

text \<open>An object that starts before a range is not in it.\<close>

lemma not_in_bytes_below:
  assumes "a = p + word_of_nat m" "0 < m" "m + unat k \<le> 2 ^ 64"
  shows "\<not> in_bytes p a k"
proof
  assume "in_bytes p a k"
  then have lt: "unat (p - a) < unat k" by (simp add: in_bytes_def word_less_nat_alt)
  then have "unat (word_of_nat m :: u64) = m" using assms(3) by (intro unat_of_nat_no_wrap) simp
  then have "unat ((p - a) + word_of_nat m) = unat (p - a) + m"
    using lt assms(3) by (simp add: unat_add_no_wrap)
  moreover have "(p - a) + word_of_nat m = 0" using assms(1) by simp
  ultimately show False using assms(2) by simp
qed

lemma entry_at_below:
  assumes "n < 2 ^ 32"
  shows "\<not> in_bytes vmap (entry_at vmap n) 40" "\<not> in_bytes (vmap + OFF_MAP_ENTRIES) (entry_at vmap n) 40"
    and "i < n \<Longrightarrow> \<not> in_bytes (entry_at vmap i) (entry_at vmap n) 40"
    and "i < n \<Longrightarrow> \<not> in_bytes (entry_node vmap i) (entry_at vmap n) 40"
proof -
  show "\<not> in_bytes vmap (entry_at vmap n) 40"
    using assms by (intro not_in_bytes_below [of _ _ "4096 + 1600 * n"]) (simp_all add: entry_at_def)
  show "\<not> in_bytes (vmap + OFF_MAP_ENTRIES) (entry_at vmap n) 40"
    using assms by (intro not_in_bytes_below [of _ _ "4048 + 1600 * n"]) (simp_all add: entry_at_def)
  assume "i < n"
  then obtain j where n: "n = i + Suc j" using less_imp_Suc_add by auto
  show "\<not> in_bytes (entry_at vmap i) (entry_at vmap n) 40"
    using assms by (intro not_in_bytes_below [of _ _ "1600 + 1600 * j"]) (simp_all add: entry_at_def n distrib_left)
  show "\<not> in_bytes (entry_node vmap i) (entry_at vmap n) 40"
    using assms by (intro not_in_bytes_below [of _ _ "1576 + 1600 * j"]) (simp_all add: entry_at_def n distrib_left)
qed

lemma vm_map_ok_last:
  assumes "vm_map_ok vmap n s"
  shows "next_entry vmap s = entry_at vmap n"
    and "0 < n \<Longrightarrow> last_extent vmap s = (ent_base (map_entries s (entry_at vmap (n - 1))),
                                   ent_size (map_entries s (entry_at vmap (n - 1))))"
proof -
  have d: "dlist (lists s) (vmap + OFF_MAP_ENTRIES) (map (entry_node vmap) [0 ..< n])"
    using assms by (simp add: vm_map_ok_def)
  have last: "list_last_entry (vmap + OFF_MAP_ENTRIES) OFF_ENTRY_SIBLINGS (lists s) = entry_at vmap (n - 1)" if "0 < n"
    using dlist_last [OF d] that by (simp add: list_last_entry_def container_of_def last_map)
  show "next_entry vmap s = entry_at vmap n"
  proof (cases n)
    case (Suc m)
    then have "entry_at vmap n = entry_at vmap (n - 1) + 1600" by (simp add: entry_at_def algebra_simps)
    with Suc last show ?thesis by (simp add: next_entry_def list_empty_iff [OF d])
  qed (use list_empty_iff [OF d] in \<open>simp add: next_entry_def entry_at_def\<close>)
  show "0 < n \<Longrightarrow> last_extent vmap s = (ent_base (map_entries s (entry_at vmap (n - 1))),
                                   ent_size (map_entries s (entry_at vmap (n - 1))))"
    using last by (simp add: last_extent_def list_empty_iff [OF d] Let_def)
qed

lemmas map_lock_defs = vm_map_lock_def vm_map_unlock_def set_lock_def

lemma next_entry_vm_maps [simp]: "next_entry vmap (s\<lparr>vm_maps := m\<rparr>) = next_entry vmap s"
  by (simp add: next_entry_def)

lemma vm_map_create_ok: "vm_map_ok vmap 0 (vm_map_create vmap pmap mn mx s)"
  by (simp add: vm_map_ok_def vm_map_create_def vm_map_init_def map_lock_defs)

lemma vm_map_entry_create_lists:
  assumes "vm_map_ok vmap n s"
  shows "lists (vm_map_entry_create vmap base sz flags s) =
     list_add_tail (entry_node vmap n) (vmap + OFF_MAP_ENTRIES)
       (zero_in (entry_at vmap n) 40 null_node (lists s))"
  by (simp add: vm_map_entry_create_def Let_def vm_map_ok_last [OF assms] map_lock_defs)

lemma vm_map_entry_create_entries:
  assumes "vm_map_ok vmap n s"
  shows "map_entries (vm_map_entry_create vmap base sz flags s) =
     (zero_in (entry_at vmap n) 40 zero_vm_map_entry (map_entries s))
       (entry_at vmap n := \<lparr>ent_base = base, ent_size = sz - 1,
          ent_guard_page = (flags AND VM_MAP_ENTRY_GUARD_PAGE \<noteq> 0),
          ent_kernel_code = (flags AND VM_ALLOC_KERNEL_CODE \<noteq> 0)\<rparr>)"
proof -
  have "in_bytes (entry_at vmap n) (entry_at vmap n) 40" by (simp add: in_bytes_def)
  then show ?thesis
    by (simp add: vm_map_entry_create_def Let_def vm_map_ok_last [OF assms] map_lock_defs
        memset_zero_def zero_vm_map_entry_def)
qed

lemma vm_map_entry_create_map:
  assumes "vm_map_ok vmap n s" "n < 2 ^ 32"
  shows "vm_maps (vm_map_entry_create vmap base sz flags s) vmap =
     (vm_maps s vmap)\<lparr>map_nentries := word_of_nat (Suc n), map_size := map_size (vm_maps s vmap) + sz,
        map_lock := False\<rparr>"
proof -
  have "map_nentries (vm_maps s vmap) + 1 = word_of_nat (Suc n)"
    using assms(1) by (simp add: vm_map_ok_def add.commute)
  then show ?thesis
    using entry_at_below(1) [OF assms(2), where vmap = vmap]
    by (simp add: vm_map_entry_create_def Let_def vm_map_ok_last [OF assms(1)] map_lock_defs
        memset_zero_def del: of_nat_Suc)
qed

text \<open>Creating an entry extends the list by exactly that entry and keeps the accounts.\<close>

lemma vm_map_entry_create_ok:
  assumes "vm_map_ok vmap n s" "n < 2 ^ 32"
  shows "vm_map_ok vmap (Suc n) (vm_map_entry_create vmap base sz flags s)"
    and "i < n \<Longrightarrow> map_entries (vm_map_entry_create vmap base sz flags s) (entry_at vmap i)
                   = map_entries s (entry_at vmap i)"
proof -
  let ?s = "vm_map_entry_create vmap base sz flags s" and ?l = "vmap + OFF_MAP_ENTRIES"
  note below = entry_at_below [OF assms(2), where vmap = vmap]
  have neq: "entry_at vmap i \<noteq> entry_at vmap n" if "i < n" for i
    using below(3) [OF that] by (auto simp: in_bytes_def)
  show old: "map_entries ?s (entry_at vmap i) = map_entries s (entry_at vmap i)" if "i < n" for i
    using neq [OF that] below(3) [OF that] by (simp add: vm_map_entry_create_entries [OF assms(1)])
  have "dlist (zero_in (entry_at vmap n) 40 null_node (lists s)) ?l (map (entry_node vmap) [0 ..< n])"
    using assms(1) below(2,4) by (intro dlist_zero_in) (auto simp: vm_map_ok_def)
  moreover have "in_bytes (entry_node vmap n) (entry_at vmap n) 40"
    by (simp add: in_bytes_def)
  then have "entry_node vmap n \<noteq> ?l" using below(2) by metis
  then have "entry_node vmap n \<notin> set (?l # map (entry_node vmap) [0 ..< n])"
    using neq by (fastforce simp: image_iff)
  ultimately have "dlist (lists ?s) ?l (map (entry_node vmap) [0 ..< Suc n])"
    using list_add_tail_dlist [of _ ?l "map (entry_node vmap) [0 ..< n]"]
    by (simp add: vm_map_entry_create_lists [OF assms(1)])
  moreover have "(\<Sum>i<n. ent_size (map_entries ?s (entry_at vmap i)) + 1)
      = (\<Sum>i<n. ent_size (map_entries s (entry_at vmap i)) + 1)"
    by (rule sum.cong) (simp_all add: old)
  moreover have "ent_size (map_entries ?s (entry_at vmap n)) + 1 = sz"
    by (simp add: vm_map_entry_create_entries [OF assms(1)])
  ultimately show "vm_map_ok vmap (Suc n) ?s"
    using assms(1) vm_map_entry_create_map [OF assms] by (simp add: vm_map_ok_def del: of_nat_Suc upt_Suc)
qed

subsection \<open>Mapping pages\<close>

text \<open>
  A page can be entered into a table when the level 1 entry of its address is a table
  descriptor and the level 2 table it names does not overlap the level 1 table.
\<close>

definition page_ready :: "addr \<Rightarrow> addr \<Rightarrow> kstate \<Rightarrow> bool" where
  "page_ready table v s \<longleftrightarrow> unat v + 2 ^ 30 < 2 ^ 64 \<and>
     cells s (table + 8 * l1_index v) AND TTE_TYPE_MASK = TTE_TYPE_TABLE \<and>
     (\<forall>i\<in>{0 ..< 512}. \<forall>j\<in>{0 ..< 512}. table + 8 * word_of_nat j \<noteq>
        ptokva s (cells s (table + 8 * l1_index v) AND TT_TABLE_MASK) + 8 * word_of_nat i)"

lemma pmap_fill_one_page:
  assumes "unat v + 2 ^ 30 < 2 ^ 64" "pmap_l2_table env table v s = Inr (l2, s)"
  shows "pmap_fill_l1 env table pa v (v + VM_PAGE_SIZE) v s =
           Some (Inr (set_cell (l2 + 8 * l2_index v) (block_entry pa v v) s))"
proof -
  have u: "unat (v + VM_PAGE_SIZE) = unat v + 4096" "unat (v + TT_L1_SIZE) = unat v + 2 ^ 30"
    "unat (v + TT_L2_SIZE) = unat v + 2 ^ 21"
    using assms(1) by (simp_all add: unat_add_no_wrap)
  have "pmap_fill_l2 l2 pa v (v + TT_L1_SIZE) (v + VM_PAGE_SIZE) v s = Some (fill_blocks l2 pa v v 1 s)"
    by (rule pmap_fill_l2_fold) (simp_all add: word_less_nat_alt u)
  moreover have "pmap_fill_l1 env table pa v (v + VM_PAGE_SIZE) (v + TT_L1_SIZE) s' = Some (Inr s')" for s'
    by (subst pmap_fill_l1.simps) (simp add: word_less_nat_alt u)
  moreover have "v < v + VM_PAGE_SIZE" by (simp add: word_less_nat_alt u)
  ultimately show ?thesis
    by (subst pmap_fill_l1.simps) (simp add: assms(2) fill_blocks_def)
qed

lemma vm_map_page_ready:
  assumes "page_ready table v s"
  obtains a x where "vm_map_page env table flags pa v s = Inr (s\<lparr>cells := (cells s)(a := x)\<rparr>)"
    "\<And>j. j < 512 \<Longrightarrow> a \<noteq> table + 8 * word_of_nat j"
proof -
  let ?l2 = "ptokva s (cells s (table + 8 * l1_index v) AND TT_TABLE_MASK)"
  let ?a = "?l2 + 8 * l2_index v"
  have "\<forall>i<512. \<forall>j<512. table + 8 * word_of_nat j \<noteq> ?l2 + 8 * word_of_nat i"
    using assms by (simp add: page_ready_def)
  from this [rule_format, of "unat (l2_index v)"]
  have far: "?a \<noteq> table + 8 * word_of_nat j" if "j < 512" for j
    using that l2_index_less [of v] by (simp add: eq_commute)
  show ?thesis
  proof (cases "DEFAULTS_KERNEL_VM_VIRT_BASE < pa")
    case True
    then show ?thesis by (intro that [OF _ far, of "cells s ?a"]) (simp_all add: vm_map_page_def pmap_tt_create_tte_def)
  next
    case False
    have "pmap_l2_table env table v s = Inr (?l2, s)"
      using assms by (simp add: pmap_l2_table_def page_ready_def Let_def)
    from pmap_fill_one_page [OF _ this] assms False show ?thesis
      by (intro that [OF _ far, of "block_entry pa v v"])
        (simp_all add: vm_map_page_def pmap_tt_create_tte_def page_ready_def set_cell_def)
  qed
qed

lemma page_ready_cells:
  assumes "page_ready table w s" "\<And>j. j < 512 \<Longrightarrow> a \<noteq> table + 8 * word_of_nat j"
  shows "page_ready table w (s\<lparr>cells := (cells s)(a := x)\<rparr>)"
proof -
  have "a \<noteq> table + 8 * l1_index w" using assms(2) [of "unat (l1_index w)"] l1_index_less by simp
  then show ?thesis using assms(1) by (simp add: page_ready_def ptokva_def)
qed

lemma page_inv_cells [simp]: "page_inv (s\<lparr>cells := c\<rparr>) = page_inv s"
  by (simp add: page_inv_def pages_ok_def)

lemma free_frames_cells [simp]: "free_frames (s\<lparr>cells := c\<rparr>) = free_frames s"
  by (simp add: free_frames_def)

lemma vm_page_alloc_frame:
  assumes "vm_page_alloc s = Inr (pa, s')"
  obtains P where "s' = s\<lparr>pages := P\<rparr>"
  using assms by (auto simp: vm_page_alloc_def split: option.splits if_splits)

interpretation pm: page_mapper vm_page_alloc free_frames page_inv
  "vm_map_page env table flags" "page_ready table" for env table flags
proof unfold_locales
  fix s pa s' w
  assume "vm_page_alloc s = Inr (pa, s')" "page_ready table w s"
  then show "page_ready table w s'"
    by (elim vm_page_alloc_frame) (simp add: page_ready_def ptokva_def)
next
  fix v s pa s' w
  assume ready: "page_ready table v s"
  then obtain a x where eq: "vm_map_page env table flags pa v s = Inr (s\<lparr>cells := (cells s)(a := x)\<rparr>)"
    and far: "\<And>j. j < 512 \<Longrightarrow> a \<noteq> table + 8 * word_of_nat j"
    by (rule vm_map_page_ready) blast
  show "\<exists>s'. vm_map_page env table flags pa v s = Inr s'" using eq by blast
  assume "vm_map_page env table flags pa v s = Inr s'"
  with eq have s': "s' = s\<lparr>cells := (cells s)(a := x)\<rparr>" by simp
  show "page_ready table w s'" if "page_ready table w s"
    unfolding s' by (rule page_ready_cells [OF that far])
  show "free_frames s' = free_frames s" "page_inv s \<Longrightarrow> page_inv s'" by (simp_all add: s')
qed

lemma vm_map_alloc_pages_map_n:
  "vm_map_alloc_pages env table n = pm.map_n env table PMAP_ACCESS_READWRITE n"
  by (induction n) (rule ext, rule ext, simp)+

subsection \<open>Allocating a range\<close>

text \<open>
  What an allocation needs of the rest of the kernel: a well-formed map and page array, and no
  map entry, present or future, that shares memory with the page array.
\<close>

definition alloc_inv :: "addr \<Rightarrow> nat \<Rightarrow> kstate \<Rightarrow> bool" where
  "alloc_inv vmap n s \<longleftrightarrow> vm_map_ok vmap n s \<and> page_inv s \<and>
     (\<forall>i < unat (vm_page_idx s). \<forall>m < 2 ^ 32. \<not> in_bytes (page_slot s i) (entry_at vmap m) 40)"

lemma vm_map_ok_pages_cells [simp]:
  "vm_map_ok vmap n (s\<lparr>pages := P\<rparr>) = vm_map_ok vmap n s"
  "vm_map_ok vmap n (s\<lparr>cells := C\<rparr>) = vm_map_ok vmap n s"
  by (simp_all add: vm_map_ok_def)

lemma alloc_inv_cells [simp]: "alloc_inv vmap n (s\<lparr>cells := C\<rparr>) = alloc_inv vmap n s"
  by (simp add: alloc_inv_def)

lemma alloc_inv_page_alloc:
  assumes "alloc_inv vmap n s" "vm_page_alloc s = Inr (pa, s')"
  shows "alloc_inv vmap n s'" "map_entries s' = map_entries s"
proof -
  obtain P where P: "s' = s\<lparr>pages := P\<rparr>" using assms(2) by (rule vm_page_alloc_frame)
  have "page_inv s'" using pa.alloc_inv [OF _ assms(2)] assms(1) unfolding alloc_inv_def by blast
  with P assms(1) show "alloc_inv vmap n s'" "map_entries s' = map_entries s"
    by (simp_all add: alloc_inv_def)
qed

lemma entry_create_page_at:
  assumes "alloc_inv vmap n s" "n < 2 ^ 32" "i < unat (vm_page_idx s)"
  shows "pages (vm_map_entry_create vmap base sz flags s) (page_slot s i) = page_at s i"
    "page_slot (vm_map_entry_create vmap base sz flags s) i = page_slot s i"
    "vm_page_idx (vm_map_entry_create vmap base sz flags s) = vm_page_idx s"
proof -
  have ok: "vm_map_ok vmap n s" and "\<not> in_bytes (page_slot s i) (entry_at vmap n) 40"
    using assms by (simp_all add: alloc_inv_def)
  then show "pages (vm_map_entry_create vmap base sz flags s) (page_slot s i) = page_at s i"
    "page_slot (vm_map_entry_create vmap base sz flags s) i = page_slot s i"
    "vm_page_idx (vm_map_entry_create vmap base sz flags s) = vm_page_idx s"
    by (simp_all add: vm_map_entry_create_def Let_def vm_map_ok_last [OF ok] map_lock_defs memset_zero_def
        vm_page_get_idx_def)
qed

lemma alloc_inv_entry_create:
  assumes "alloc_inv vmap n s" "n < 2 ^ 32"
  shows "alloc_inv vmap (Suc n) (vm_map_entry_create vmap base sz flags s)"
    and "free_frames (vm_map_entry_create vmap base sz flags s) = free_frames s"
proof -
  let ?s = "vm_map_entry_create vmap base sz flags s"
  note at = entry_create_page_at [OF assms]
  obtain membase k where ok: "pages_ok membase k s" using assms(1) by (auto simp: alloc_inv_def page_inv_def)
  then have "0 < unat (vm_page_idx s)" by (simp add: pages_ok_def)
  note idx = at(3) [OF this]
  have "pages_ok membase k ?s" using ok by (simp add: pages_ok_def idx at)
  moreover have "vm_map_ok vmap (Suc n) ?s" using assms by (intro vm_map_entry_create_ok) (simp_all add: alloc_inv_def)
  ultimately show "alloc_inv vmap (Suc n) ?s"
    using assms(1) by (auto simp: alloc_inv_def page_inv_def idx at)
  show "free_frames ?s = free_frames s"
    unfolding free_frames_def idx by (rule image_cong) (auto simp: at)
qed

text \<open>The map's own \<^verbatim>\<open>pmap\<close> member, taken for a table, ends before every entry but the first.\<close>

lemma page_ready_entry_create:
  assumes "vm_map_ok vmap n s" "0 < n" "n < 2 ^ 32" "page_ready (vmap + OFF_MAP_PMAP) w s"
  shows "page_ready (vmap + OFF_MAP_PMAP) w (vm_map_entry_create vmap base sz flags s)"
proof -
  let ?s = "vm_map_entry_create vmap base sz flags s" and ?t = "vmap + OFF_MAP_PMAP"
  let ?j = "unat (l1_index w)"
  have j: "?j < 512" by (rule l1_index_less)
  have "\<not> in_bytes (?t + 8 * l1_index w) (entry_at vmap n) 40"
    using assms(2,3) j by (intro not_in_bytes_below [of _ _ "4088 + 1600 * n - 8 * ?j"])
      (simp_all add: entry_at_def of_nat_diff)
  then have "cells ?s (?t + 8 * l1_index w) = cells s (?t + 8 * l1_index w)"
    by (simp add: vm_map_entry_create_def Let_def vm_map_ok_last [OF assms(1)] map_lock_defs memset_zero_def)
  moreover have "ptokva ?s p = ptokva s p" for p
    by (simp add: vm_map_entry_create_def Let_def map_lock_defs memset_zero_def ptokva_def)
  ultimately show ?thesis using assms(4) by (simp add: page_ready_def)
qed

text \<open>
  What an allocation leaves alone: the global variables, and every object and list that lies
  outside the map's list head and the memory of its entries.
\<close>

definition outside :: "addr \<Rightarrow> addr \<Rightarrow> bool" where
  "outside vmap a \<longleftrightarrow> a \<noteq> vmap + OFF_MAP_ENTRIES \<and> (\<forall>m < 2 ^ 32. \<not> in_bytes a (entry_at vmap m) 40)"

definition kept :: "addr \<Rightarrow> kstate \<Rightarrow> kstate \<Rightarrow> bool" where
  "kept vmap s s' \<longleftrightarrow> kheap.more s' = kheap.more s \<and>
     (\<forall>a. outside vmap a \<longrightarrow> zones s' a = zones s a \<and> stack_objs s' a = stack_objs s a \<and>
        task_objs s' a = task_objs s a \<and> thread_objs s' a = thread_objs s a \<and> proc_objs s' a = proc_objs s a) \<and>
     (\<forall>l xs. dlist (lists s) l xs \<and> (\<forall>x\<in>set (l # xs). outside vmap x) \<longrightarrow> dlist (lists s') l xs)"

lemma kept_trans: "kept vmap s s' \<Longrightarrow> kept vmap s' s'' \<Longrightarrow> kept vmap s s''"
  unfolding kept_def by (metis (no_types, lifting))

lemma kept_pages_cells [simp]:
  "kept vmap s (s\<lparr>cells := C\<rparr>)" "kept vmap s (s\<lparr>pages := P\<rparr>)" "kept vmap s s"
  by (simp_all add: kept_def)

lemma kept_entry_create:
  assumes "vm_map_ok vmap n s" "n < 2 ^ 32"
  shows "kept vmap s (vm_map_entry_create vmap base sz flags s)"
proof -
  let ?s = "vm_map_entry_create vmap base sz flags s" and ?e = "entry_at vmap n"
  have "dlist (lists ?s) l xs" if d: "dlist (lists s) l xs" and out: "\<forall>x\<in>set (l # xs). outside vmap x" for l xs
  proof -
    have nin: "\<not> in_bytes x ?e 40" if "x \<in> set (l # xs)" for x
      using out that assms(2) by (auto simp: outside_def)
    have node: "in_bytes (entry_node vmap i) (entry_at vmap i) 40" for i by (simp add: in_bytes_def)
    have far: "x \<noteq> vmap + OFF_MAP_ENTRIES" "x \<noteq> entry_node vmap i" if "x \<in> set (l # xs)" "i \<le> n" for x i
      using out that assms(2) node [of i] by (auto simp: outside_def)
    let ?h = "zero_in ?e 40 null_node (lists s)"
    have 1: "dlist ?h l xs" by (rule dlist_zero_in [OF d nin])
    have 2: "dlist ?h (vmap + OFF_MAP_ENTRIES) (map (entry_node vmap) [0 ..< n])"
      using assms entry_at_below(2,4) [OF assms(2)] by (intro dlist_zero_in) (auto simp: vm_map_ok_def)
    have "set (l # xs) \<inter> set (entry_node vmap n # (vmap + OFF_MAP_ENTRIES) # map (entry_node vmap) [0 ..< n]) = {}"
      (is "_ \<inter> ?nodes = {}")
    proof -
      have "x \<notin> ?nodes" if "x \<in> set (l # xs)" for x
        using far(1) [OF that order_refl] far(2) [OF that] by (simp add: image_iff less_imp_le)
      then show ?thesis by blast
    qed
    then show ?thesis
      unfolding vm_map_entry_create_lists [OF assms(1)] by (rule lh.append_frame [OF 2 1])
  qed
  moreover have "kheap.more ?s = kheap.more s"
    by (simp add: vm_map_entry_create_def Let_def map_lock_defs memset_zero_def)
  moreover have "zones ?s a = zones s a \<and> stack_objs ?s a = stack_objs s a \<and> task_objs ?s a = task_objs s a \<and>
      thread_objs ?s a = thread_objs s a \<and> proc_objs ?s a = proc_objs s a" if "outside vmap a" for a
    using that assms(2)
    by (simp add: outside_def vm_map_entry_create_def Let_def vm_map_ok_last [OF assms(1)] map_lock_defs memset_zero_def)
  ultimately show ?thesis by (auto simp: kept_def)
qed

lemma vm_guard_page_fill_cells:
  "\<exists>C. vm_guard_page_fill v s = s\<lparr>cells := C\<rparr> \<and>
     (\<forall>a. (\<forall>i\<in>{0 ..< 512}. a \<noteq> v + 8 * word_of_nat i) \<longrightarrow> C a = cells s a) \<and>
     (\<forall>i\<in>{0 ..< 512}. C (v + 8 * word_of_nat i) = VM_PAGE_GUARD_MAGIC)"
proof -
  define f where "f n = fold (\<lambda>i c. c(v + 8 * word_of_nat i := VM_PAGE_GUARD_MAGIC)) [0 ..< n] (cells s)" for n
  have "(\<forall>a. (\<forall>i\<in>{0 ..< n}. a \<noteq> v + 8 * word_of_nat i) \<longrightarrow> f n a = cells s a) \<and>
        (\<forall>i\<in>{0 ..< n}. f n (v + 8 * word_of_nat i) = VM_PAGE_GUARD_MAGIC)" for n
    by (induction n) (auto simp: f_def less_Suc_eq)
  moreover have "vm_guard_page_fill v s = s\<lparr>cells := f 512\<rparr>"
    by (simp add: vm_guard_page_fill_def f_def)
  ultimately show ?thesis by blast
qed

text \<open>A guard page may be filled when it does not overlap the table.\<close>

definition guard_ok :: "addr \<Rightarrow> addr \<Rightarrow> bool" where
  "guard_ok table v \<longleftrightarrow> (\<forall>i\<in>{0 ..< 512}. \<forall>j\<in>{0 ..< 512}. table + 8 * word_of_nat j \<noteq> v + 8 * word_of_nat i)"

lemma page_ready_guard_fill:
  assumes "page_ready table w s" "guard_ok table v"
  shows "page_ready table w (vm_guard_page_fill v s)"
proof -
  obtain C where C: "vm_guard_page_fill v s = s\<lparr>cells := C\<rparr>"
    "\<forall>a. (\<forall>i\<in>{0 ..< 512}. a \<noteq> v + 8 * word_of_nat i) \<longrightarrow> C a = cells s a"
    using vm_guard_page_fill_cells by blast
  have "table + 8 * l1_index w \<noteq> v + 8 * word_of_nat i" if "i < 512" for i
    using assms(2) [unfolded guard_ok_def, rule_format, of i "unat (l1_index w)"] that l1_index_less [of w] by simp
  then have "C (table + 8 * l1_index w) = cells s (table + 8 * l1_index w)" using C(2) by auto
  with assms(1) show ?thesis by (simp add: C(1) page_ready_def ptokva_def)
qed

lemma alloc_inv_guard_fill: "alloc_inv vmap n (vm_guard_page_fill v s) = alloc_inv vmap n s"
  and map_entries_guard_fill: "map_entries (vm_guard_page_fill v s) = map_entries s"
  and free_frames_guard_fill: "free_frames (vm_guard_page_fill v s) = free_frames s"
  by (simp_all add: vm_guard_page_fill_def)

lemma kept_guard_fill: "kept vmap s s' \<Longrightarrow> kept vmap s (vm_guard_page_fill v s')"
  unfolding vm_guard_page_fill_def by (erule kept_trans) (rule kept_pages_cells(1))

text \<open>Taking one page and mapping it.\<close>

lemma alloc_one_page:
  assumes "alloc_inv vmap n s" "0 < card (free_frames s)" "page_ready table v s"
  obtains pa s1 s2 where "vm_page_alloc s = Inr (pa, s1)" "vm_map_page env table flags pa v s1 = Inr s2"
    "alloc_inv vmap n s2" "Suc (card (free_frames s2)) = card (free_frames s)"
    "free_frames s2 \<subseteq> free_frames s"
    "map_entries s2 = map_entries s" "\<And>w. page_ready table w s \<Longrightarrow> page_ready table w s2"
    "kept vmap s s2"
proof -
  have inv: "page_inv s" using assms(1) by (simp add: alloc_inv_def)
  obtain pa s1 where 1: "vm_page_alloc s = Inr (pa, s1)"
    using pa.alloc_returns [OF inv] assms(2) by fastforce
  have r1: "page_ready table w s1" if "page_ready table w s" for w
    by (rule pm.alloc_ready [OF 1 that])
  obtain a x where 2: "vm_map_page env table flags pa v s1 = Inr (s1\<lparr>cells := (cells s1)(a := x)\<rparr>)"
    "\<And>j. j < 512 \<Longrightarrow> a \<noteq> table + 8 * word_of_nat j"
    by (rule vm_map_page_ready [OF r1 [OF assms(3)]]) blast
  show ?thesis
  proof (rule that [OF 1 2(1)])
    show "Suc (card (free_frames (s1\<lparr>cells := (cells s1)(a := x)\<rparr>))) = card (free_frames s)"
      "free_frames (s1\<lparr>cells := (cells s1)(a := x)\<rparr>) \<subseteq> free_frames s"
      using pa.alloc_removes [OF inv 1] pa.alloc_member [OF inv 1] pa.free_finite [OF inv]
      by (auto simp: card_Suc_Diff1 simp del: card_Diff_insert)
    show "page_ready table w (s1\<lparr>cells := (cells s1)(a := x)\<rparr>)" if "page_ready table w s" for w
      by (rule page_ready_cells [OF r1 [OF that] 2(2)])
    show "kept vmap s (s1\<lparr>cells := (cells s1)(a := x)\<rparr>)"
    proof -
      obtain P where "s1 = s\<lparr>pages := P\<rparr>" using 1 by (rule vm_page_alloc_frame)
      then have "kept vmap s s1" by simp
      then show ?thesis by (rule kept_trans) simp
    qed
  qed (use alloc_inv_page_alloc [OF assms(1) 1] in simp_all)
qed

definition guard_entry :: "addr \<Rightarrow> vm_map_entry" where
  "guard_entry v = \<lparr>ent_base = v, ent_size = VM_PAGE_SIZE - 1, ent_guard_page = True, ent_kernel_code = False\<rparr>"

definition range_entry :: "addr \<Rightarrow> nat \<Rightarrow> vm_map_entry" where
  "range_entry v pc = \<lparr>ent_base = v, ent_size = word_of_nat pc * VM_PAGE_SIZE - 1,
     ent_guard_page = False, ent_kernel_code = False\<rparr>"

text \<open>
  The effect of one phase of an allocation: \<open>es\<close> are the entries it appends, \<open>k\<close> the number of
  pages it takes.
\<close>

definition phase :: "addr \<Rightarrow> nat \<Rightarrow> vm_map_entry list \<Rightarrow> nat \<Rightarrow> kstate \<Rightarrow> kstate \<Rightarrow> bool" where
  "phase vmap n es k s s' \<longleftrightarrow>
     alloc_inv vmap (n + length es) s' \<and>
     card (free_frames s') + k = card (free_frames s) \<and> free_frames s' \<subseteq> free_frames s \<and>
     (\<forall>i<n. map_entries s' (entry_at vmap i) = map_entries s (entry_at vmap i)) \<and>
     (\<forall>i<length es. map_entries s' (entry_at vmap (n + i)) = es ! i) \<and>
     (\<forall>w. page_ready (vmap + OFF_MAP_PMAP) w s \<longrightarrow> page_ready (vmap + OFF_MAP_PMAP) w s') \<and>
     kept vmap s s'"

lemma phase_trans:
  assumes "phase vmap n es k s s'" "phase vmap (n + length es) fs l s' s''"
  shows "phase vmap n (es @ fs) (k + l) s s''"
proof -
  have "map_entries s'' (entry_at vmap (n + i)) = (es @ fs) ! i" if "i < length es + length fs" for i
  proof (cases "i < length es")
    case True
    with assms show ?thesis by (simp add: phase_def nth_append)
  next
    case False
    then obtain j where i: "i = length es + j" by (metis le_add_diff_inverse not_less)
    with assms(2) that show ?thesis by (simp add: phase_def nth_append add.assoc [symmetric])
  qed
  moreover have "kept vmap s s''" using assms kept_trans by (auto simp: phase_def)
  ultimately show ?thesis using assms by (auto simp: phase_def add.assoc)
qed

lemma phase_entry_create:
  assumes "alloc_inv vmap n s" "0 < n" "n < 2 ^ 32"
  shows "phase vmap n [\<lparr>ent_base = base, ent_size = sz - 1,
           ent_guard_page = (flags AND VM_MAP_ENTRY_GUARD_PAGE \<noteq> 0),
           ent_kernel_code = (flags AND VM_ALLOC_KERNEL_CODE \<noteq> 0)\<rparr>] 0 s
           (vm_map_entry_create vmap base sz flags s)"
  using assms alloc_inv_entry_create [OF assms(1,3)] vm_map_entry_create_ok(2) [of vmap n s]
    page_ready_entry_create [of vmap n s] vm_map_entry_create_entries [of vmap n s]
    kept_entry_create [of vmap n s]
  by (simp add: phase_def alloc_inv_def)

lemma phase_pages:
  assumes "alloc_inv vmap n s" "k \<le> card (free_frames s)"
    and "\<And>i. i < k \<Longrightarrow> page_ready (vmap + OFF_MAP_PMAP) (v + VM_PAGE_SIZE * word_of_nat i) s"
  shows "\<exists>s'. vm_map_alloc_pages env (vmap + OFF_MAP_PMAP) k v s = Inr (v + VM_PAGE_SIZE * word_of_nat k, s') \<and>
           phase vmap n [] k s s'"
  using assms
proof (induction k arbitrary: v s)
  case 0
  then show ?case by (simp add: phase_def)
next
  case (Suc k)
  have r: "page_ready (vmap + OFF_MAP_PMAP) v s" using Suc.prems(3) [of 0] by simp
  obtain pa s1 s2 where 1: "vm_page_alloc s = Inr (pa, s1)"
    "vm_map_page env (vmap + OFF_MAP_PMAP) PMAP_ACCESS_READWRITE pa v s1 = Inr s2"
    and 2: "alloc_inv vmap n s2" "Suc (card (free_frames s2)) = card (free_frames s)"
    "free_frames s2 \<subseteq> free_frames s" "map_entries s2 = map_entries s"
    "\<And>w. page_ready (vmap + OFF_MAP_PMAP) w s \<Longrightarrow> page_ready (vmap + OFF_MAP_PMAP) w s2" "kept vmap s s2"
    by (rule alloc_one_page [OF Suc.prems(1) _ r]) (use Suc.prems(2) in auto)
  have shift: "v + VM_PAGE_SIZE + VM_PAGE_SIZE * word_of_nat i = v + VM_PAGE_SIZE * word_of_nat (Suc i)" for i
    by (simp add: algebra_simps)
  have "\<exists>s'. vm_map_alloc_pages env (vmap + OFF_MAP_PMAP) k (v + VM_PAGE_SIZE) s2
          = Inr (v + VM_PAGE_SIZE + VM_PAGE_SIZE * word_of_nat k, s') \<and> phase vmap n [] k s2 s'"
  proof (rule Suc.IH [OF 2(1)])
    show "k \<le> card (free_frames s2)" using Suc.prems(2) 2(2) by simp
    show "page_ready (vmap + OFF_MAP_PMAP) (v + VM_PAGE_SIZE + VM_PAGE_SIZE * word_of_nat i) s2" if "i < k" for i
      unfolding shift by (intro 2(5) Suc.prems(3)) (use that in simp)
  qed
  moreover have "phase vmap n [] 1 s s2" using 2 by (simp add: phase_def)
  ultimately show ?case unfolding shift using 1 phase_trans [of vmap n "[]" 1 s s2 "[]" k] by auto
qed

lemma phase_guard_first:
  assumes "alloc_inv vmap n s" "0 < n" "n < 2 ^ 32" "0 < card (free_frames s)"
    and "page_ready (vmap + OFF_MAP_PMAP) v s" "guard_ok (vmap + OFF_MAP_PMAP) v"
  shows "\<exists>s'. guard_first env vmap v s = Inr s' \<and> phase vmap n [guard_entry v] 1 s s'"
proof -
  obtain pa s1 s2 where 1: "vm_page_alloc s = Inr (pa, s1)"
    "vm_map_page env (vmap + OFF_MAP_PMAP) PMAP_ACCESS_NOACCESS pa v s1 = Inr s2"
    and 2: "alloc_inv vmap n s2" "Suc (card (free_frames s2)) = card (free_frames s)"
    "free_frames s2 \<subseteq> free_frames s" "map_entries s2 = map_entries s"
    "\<And>w. page_ready (vmap + OFF_MAP_PMAP) w s \<Longrightarrow> page_ready (vmap + OFF_MAP_PMAP) w s2" "kept vmap s s2"
    by (rule alloc_one_page [OF assms(1,4,5)]) blast
  let ?s3 = "vm_map_entry_create vmap v VM_PAGE_SIZE VM_MAP_ENTRY_GUARD_PAGE s2"
  have "phase vmap n [] 1 s s2" using 2 by (simp add: phase_def)
  moreover have "phase vmap n [guard_entry v] 0 s2 ?s3"
    using phase_entry_create [OF 2(1) assms(2,3), of v VM_PAGE_SIZE VM_MAP_ENTRY_GUARD_PAGE]
    by (simp add: guard_entry_def)
  ultimately have "phase vmap n [guard_entry v] 1 s ?s3"
    using phase_trans [of vmap n "[]" 1 s s2 "[guard_entry v]" 0 ?s3] by simp
  then have "phase vmap n [guard_entry v] 1 s (vm_guard_page_fill v ?s3)"
    by (simp add: phase_def alloc_inv_guard_fill map_entries_guard_fill free_frames_guard_fill
        page_ready_guard_fill [OF _ assms(6)] kept_guard_fill)
  with 1 show ?thesis by (simp add: guard_first_def)
qed

lemma phase_guard_last:
  assumes "alloc_inv vmap n s" "0 < n" "n < 2 ^ 32" "0 < card (free_frames s)"
    and "page_ready (vmap + OFF_MAP_PMAP) v s" "guard_ok (vmap + OFF_MAP_PMAP) v"
  shows "\<exists>s'. guard_last env vmap v s = Inr s' \<and> phase vmap n [guard_entry v] 1 s s'"
proof -
  obtain pa s1 s2 where 1: "vm_page_alloc s = Inr (pa, s1)"
    "vm_map_page env (vmap + OFF_MAP_PMAP) PMAP_ACCESS_NOACCESS pa v s1 = Inr s2"
    and 2: "alloc_inv vmap n s2" "Suc (card (free_frames s2)) = card (free_frames s)"
    "free_frames s2 \<subseteq> free_frames s" "map_entries s2 = map_entries s"
    "\<And>w. page_ready (vmap + OFF_MAP_PMAP) w s \<Longrightarrow> page_ready (vmap + OFF_MAP_PMAP) w s2" "kept vmap s s2"
    by (rule alloc_one_page [OF assms(1,4,5)]) blast
  let ?s3 = "vm_guard_page_fill v s2"
  have "phase vmap n [] 1 s ?s3"
    using 2 by (simp add: phase_def alloc_inv_guard_fill map_entries_guard_fill free_frames_guard_fill
        page_ready_guard_fill [OF _ assms(6)] kept_guard_fill)
  moreover have "alloc_inv vmap n ?s3" using 2(1) by (simp add: alloc_inv_guard_fill)
  ultimately have "phase vmap n [guard_entry v] 1 s (vm_map_entry_create vmap v VM_PAGE_SIZE VM_MAP_ENTRY_GUARD_PAGE ?s3)"
    using phase_entry_create [of vmap n ?s3 v VM_PAGE_SIZE VM_MAP_ENTRY_GUARD_PAGE] assms(2,3)
      phase_trans [of vmap n "[]" 1 s ?s3 "[guard_entry v]" 0] by (simp add: guard_entry_def)
  with 1 show ?thesis by (simp add: guard_last_def)
qed

text \<open>The entries an allocation appends, and the pages it takes.\<close>

definition alloc_entries :: "u32 \<Rightarrow> addr \<Rightarrow> nat \<Rightarrow> vm_map_entry list" where
  "alloc_entries flags v pc =
     (if flags AND VM_ALLOC_GUARD_FIRST \<noteq> 0
      then [guard_entry v, range_entry (v + VM_PAGE_SIZE) pc] @
        (if flags AND VM_ALLOC_GUARD_LAST \<noteq> 0 then [guard_entry (v + VM_PAGE_SIZE * word_of_nat (Suc pc))] else [])
      else [range_entry v pc] @
        (if flags AND VM_ALLOC_GUARD_LAST \<noteq> 0 then [guard_entry (v + VM_PAGE_SIZE * word_of_nat pc)] else []))"

lemma vm_map_alloc_tail:
  assumes "alloc_inv vmap n s" "0 < n" "n + 1 < 2 ^ 32" "pc = unat (alloc_page_count sz)"
    and "g = (if flags AND VM_ALLOC_GUARD_LAST \<noteq> 0 then 1 else 0)"
    and "pc + g \<le> card (free_frames s)"
    and "\<And>i. i < pc + g \<Longrightarrow> page_ready (vmap + OFF_MAP_PMAP) (v + VM_PAGE_SIZE * word_of_nat i) s"
    and "g = 1 \<Longrightarrow> guard_ok (vmap + OFF_MAP_PMAP) (v + VM_PAGE_SIZE * word_of_nat pc)"
  shows "\<exists>s'. andthen (vm_map_alloc_pages env (vmap + OFF_MAP_PMAP) pc v s)
                (\<lambda>(vcursor, s2).
                  let s3 = vm_map_entry_create vmap v (alloc_page_count sz * VM_PAGE_SIZE) VM_NULL s2
                  in if flags AND VM_ALLOC_GUARD_LAST \<noteq> 0
                     then andthen (guard_last env vmap vcursor s3) (\<lambda>s4. Inr (v, s4))
                     else Inr (v, s3)) = Inr (v, s') \<and>
     phase vmap n (range_entry v pc # (if g = 1 then [guard_entry (v + VM_PAGE_SIZE * word_of_nat pc)] else []))
       (pc + g) s s'"
proof -
  obtain s2 where s2: "vm_map_alloc_pages env (vmap + OFF_MAP_PMAP) pc v s = Inr (v + VM_PAGE_SIZE * word_of_nat pc, s2)"
    "phase vmap n [] pc s s2"
    using phase_pages [OF assms(1), of pc v] assms(6,7) by auto
  let ?s3 = "vm_map_entry_create vmap v (alloc_page_count sz * VM_PAGE_SIZE) VM_NULL s2"
  have "alloc_inv vmap n s2" using s2(2) by (simp add: phase_def)
  then have "phase vmap n [range_entry v pc] 0 s2 ?s3"
    using phase_entry_create [of vmap n s2 v "alloc_page_count sz * VM_PAGE_SIZE" VM_NULL] assms(2-4)
    by (simp add: range_entry_def)
  then have ph: "phase vmap n [range_entry v pc] pc s ?s3"
    using phase_trans [OF s2(2), of "[range_entry v pc]" 0 ?s3] by simp
  show ?thesis
  proof (cases "flags AND VM_ALLOC_GUARD_LAST \<noteq> 0")
    case True
    let ?v = "v + VM_PAGE_SIZE * word_of_nat pc"
    have "alloc_inv vmap (Suc n) ?s3" "0 < card (free_frames ?s3)" "page_ready (vmap + OFF_MAP_PMAP) ?v ?s3"
      using ph assms(5,6) True assms(7) [of pc] by (simp_all add: phase_def)
    then obtain s4 where "guard_last env vmap ?v ?s3 = Inr s4" "phase vmap (Suc n) [guard_entry ?v] 1 ?s3 s4"
      using phase_guard_last [of vmap "Suc n" ?s3 ?v env] assms(3,5,8) True by auto
    with phase_trans [OF ph, of "[guard_entry ?v]" 1 s4] s2(1) True assms(5) show ?thesis by auto
  qed (use s2(1) ph assms(5) in auto)
qed

lemma alloc_page_count_pos: "0 < unat (alloc_page_count sz)"
proof (cases "sz < VM_PAGE_SIZE")
  case False
  then have "4096 \<le> unat sz" by (simp add: word_less_nat_alt not_less)
  then show ?thesis using False by (simp add: alloc_page_count_def unat_div)
qed (simp add: alloc_page_count_def)

definition guards :: "u32 \<Rightarrow> u32 \<Rightarrow> nat" where
  "guards which flags = (if flags AND which \<noteq> 0 then 1 else 0)"

lemma vm_map_alloc_phase:
  fixes flags :: u32 and sz :: u64
  assumes inv: "alloc_inv vmap n s" "0 < n" "n + 2 < 2 ^ 32"
  defines "pc \<equiv> unat (alloc_page_count sz)" and "v \<equiv> alloc_base vmap s"
    and "g1 \<equiv> guards VM_ALLOC_GUARD_FIRST flags" and "g2 \<equiv> guards VM_ALLOC_GUARD_LAST flags"
  assumes free: "g1 + pc + g2 \<le> card (free_frames s)"
    and ready: "\<And>i. i < g1 + pc + g2 \<Longrightarrow> page_ready (vmap + OFF_MAP_PMAP) (v + VM_PAGE_SIZE * word_of_nat i) s"
    and guard: "g1 = 1 \<Longrightarrow> guard_ok (vmap + OFF_MAP_PMAP) v"
      "g2 = 1 \<Longrightarrow> guard_ok (vmap + OFF_MAP_PMAP) (v + VM_PAGE_SIZE * word_of_nat (g1 + pc))"
  shows "\<exists>s'. vm_map_alloc env vmap sz flags s = Inr (v + VM_PAGE_SIZE * word_of_nat g1, s') \<and>
           phase vmap n (alloc_entries flags v pc) (g1 + pc + g2) s s'"
proof (cases "flags AND VM_ALLOC_GUARD_FIRST \<noteq> 0")
  case False
  then have g1: "g1 = 0" by (simp add: g1_def guards_def)
  from vm_map_alloc_tail [OF inv(1,2), of pc sz g2 flags v env] inv(3) free ready guard(2) False g1
  show ?thesis
    by (auto simp: vm_map_alloc_def Let_def pc_def v_def g2_def guards_def alloc_entries_def)
next
  case True
  then have g1: "g1 = 1" by (simp add: g1_def guards_def)
  obtain s1 where s1: "guard_first env vmap v s = Inr s1" "phase vmap n [guard_entry v] 1 s s1"
    using phase_guard_first [OF inv(1,2), of v env] inv(3) free ready [of 0] guard(1) g1 by auto
  have shift: "v + VM_PAGE_SIZE + VM_PAGE_SIZE * word_of_nat i = v + VM_PAGE_SIZE * word_of_nat (Suc i)" for i
    by (simp add: algebra_simps)
  have g2_eq: "g2 = (if flags AND VM_ALLOC_GUARD_LAST \<noteq> 0 then 1 else 0)" by (simp add: g2_def guards_def)
  have ready1: "page_ready (vmap + OFF_MAP_PMAP) (v + VM_PAGE_SIZE + VM_PAGE_SIZE * word_of_nat i) s1"
    if "i < pc + g2" for i
    unfolding shift using s1(2) ready [of "Suc i"] that g1 by (simp add: phase_def)
  have guard1: "g2 = 1 \<Longrightarrow> guard_ok (vmap + OFF_MAP_PMAP) (v + VM_PAGE_SIZE + VM_PAGE_SIZE * word_of_nat pc)"
    unfolding shift using guard(2) g1 by simp
  have s1_ok: "alloc_inv vmap (Suc n) s1" "0 < Suc n" "Suc n + 1 < 2 ^ 32" "pc + g2 \<le> card (free_frames s1)"
    using s1(2) inv(3) free g1 by (simp_all add: phase_def)
  obtain s' where s': "andthen (vm_map_alloc_pages env (vmap + OFF_MAP_PMAP) pc (v + VM_PAGE_SIZE) s1)
                (\<lambda>(vcursor, s2).
                  let s3 = vm_map_entry_create vmap (v + VM_PAGE_SIZE) (alloc_page_count sz * VM_PAGE_SIZE) VM_NULL s2
                  in if flags AND VM_ALLOC_GUARD_LAST \<noteq> 0
                     then andthen (guard_last env vmap vcursor s3) (\<lambda>s4. Inr (v + VM_PAGE_SIZE, s4))
                     else Inr (v + VM_PAGE_SIZE, s3)) = Inr (v + VM_PAGE_SIZE, s')"
    "phase vmap (Suc n) (range_entry (v + VM_PAGE_SIZE) pc #
        (if g2 = 1 then [guard_entry (v + VM_PAGE_SIZE + VM_PAGE_SIZE * word_of_nat pc)] else [])) (pc + g2) s1 s'"
    using vm_map_alloc_tail [OF s1_ok(1-3) meta_eq_to_obj_eq [OF pc_def] g2_eq s1_ok(4) ready1 guard1] by blast
  have "phase vmap n (alloc_entries flags v pc) (g1 + pc + g2) s s'"
    using phase_trans [OF s1(2), of _ "pc + g2" s'] s'(2) True g1
    by (simp add: alloc_entries_def g2_def guards_def shift split: if_splits del: of_nat_Suc)
  moreover have "vm_map_alloc env vmap sz flags s = Inr (v + VM_PAGE_SIZE, s')"
    using s1(1) s'(1) True unfolding vm_map_alloc_def v_def [symmetric] pc_def [symmetric] Let_def by simp
  ultimately show ?thesis using g1 by simp
qed

subsection \<open>Ranges do not overlap\<close>

lemma VM_ALIGN_ADDR_eq:
  assumes "unat a + 3 < 2 ^ 64"
  shows "unat (VM_ALIGN_ADDR a) = (unat a + 3) div 4 * 4"
proof -
  have "(- 4 :: u64) = NOT (mask 2)" by (simp add: mask_eq_exp_minus_1)
  moreover have "w AND NOT (mask m) = push_bit m (drop_bit m w)" for w :: u64 and m
    by (rule bit_word_eqI) (auto simp: bit_simps)
  ultimately have "(a + 3) AND - 4 = push_bit 2 (drop_bit 2 (a + 3))" by metis
  then have "VM_ALIGN_ADDR a = (a + 3) div 4 * 4"
    by (simp add: VM_ALIGN_ADDR_def push_bit_eq_mult drop_bit_eq_div)
  moreover have "unat (a + 3) = unat a + 3" using assms by (simp add: unat_add_no_wrap)
  moreover have "(unat a + 3) div 4 * 4 < 2 ^ 64" using assms by simp
  ultimately show ?thesis by (simp add: unat_word_ariths unat_div)
qed

definition entries_of :: "addr \<Rightarrow> nat \<Rightarrow> kstate \<Rightarrow> vm_map_entry list" where
  "entries_of vmap n s = map (\<lambda>i. map_entries s (entry_at vmap i)) [0 ..< n]"

text \<open>The first range ends before the second one starts; \<^verbatim>\<open>size\<close> holds the size less one.\<close>

definition extent_before :: "vm_map_entry \<Rightarrow> vm_map_entry \<Rightarrow> bool" where
  "extent_before e f \<longleftrightarrow> unat (ent_base e) + unat (ent_size e) < unat (ent_base f)"

lemma phase_entries:
  assumes "phase vmap n es k s s'"
  shows "entries_of vmap (n + length es) s' = entries_of vmap n s @ es"
  using assms by (auto intro!: nth_equalityI simp: entries_of_def phase_def nth_append)
    (metis le_add_diff_inverse not_less nat_add_left_cancel_less)

lemma extent_before_trans: "extent_before e f \<Longrightarrow> extent_before f g \<Longrightarrow> extent_before e g"
  by (simp add: extent_before_def)

lemma unat_page_cursor:
  fixes v :: addr
  assumes "unat v + 4096 * k < 2 ^ 64"
  shows "unat (v + VM_PAGE_SIZE * word_of_nat k) = unat v + 4096 * k"
  using assms unat_of_nat_no_wrap [of "4096 * k", where 'a = 64] by (simp add: unat_add_no_wrap)

lemma unat_range_size:
  assumes "0 < pc" "4096 * pc < 2 ^ 64"
  shows "unat (word_of_nat pc * VM_PAGE_SIZE - 1 :: u64) = 4096 * pc - 1"
proof -
  have u: "unat (word_of_nat pc * VM_PAGE_SIZE :: u64) = 4096 * pc"
    using unat_of_nat_no_wrap [of "pc * 4096", where 'a = 64] assms by (simp add: mult.commute)
  moreover have "(1 :: u64) \<le> word_of_nat pc * VM_PAGE_SIZE" using u assms(1) by (simp add: word_le_nat_alt)
  ultimately show ?thesis by (simp add: unat_sub)
qed

lemma alloc_entries_sorted:
  assumes "0 < pc" "unat v + 4096 * (pc + 2) < 2 ^ 64"
  shows "sorted_wrt extent_before (alloc_entries flags v pc)"
    and "e \<in> set (alloc_entries flags v pc) \<Longrightarrow> unat v \<le> unat (ent_base e)"
proof -
  have u: "unat (v + VM_PAGE_SIZE) = unat v + 4096" using unat_page_cursor [of v 1] assms(2) by simp
  note k = unat_page_cursor [of v pc] unat_page_cursor [of v "Suc pc"]
  have z: "unat (word_of_nat pc * VM_PAGE_SIZE - 1 :: u64) = 4096 * pc - 1"
    using unat_range_size assms by simp
  show "sorted_wrt extent_before (alloc_entries flags v pc)"
    using assms by (simp add: alloc_entries_def extent_before_def guard_entry_def range_entry_def u k z del: of_nat_Suc)
  show "e \<in> set (alloc_entries flags v pc) \<Longrightarrow> unat v \<le> unat (ent_base e)"
    using assms u k by (auto simp: alloc_entries_def guard_entry_def range_entry_def simp del: of_nat_Suc split: if_splits)
qed

text \<open>An allocation after the last entry keeps all ranges apart.\<close>

lemma phase_sorted:
  assumes ph: "phase vmap n (alloc_entries flags (alloc_base vmap s) pc) k s s'"
    and inv: "vm_map_ok vmap n s" "0 < n" "0 < pc" "sorted_wrt extent_before (entries_of vmap n s)"
    and last: "e = map_entries s (entry_at vmap (n - 1))"
      "unat (ent_base e) + unat (ent_size e) + 8 + 4096 * (pc + 2) < 2 ^ 64"
  shows "sorted_wrt extent_before (entries_of vmap (n + length (alloc_entries flags (alloc_base vmap s) pc)) s')"
proof -
  let ?v = "alloc_base vmap s"
  have "unat (ent_base e + ent_size e + 1) = unat (ent_base e) + unat (ent_size e) + 1"
    using last(2) by (simp add: unat_add_no_wrap)
  then have v: "unat ?v = (unat (ent_base e) + unat (ent_size e) + 4) div 4 * 4"
    using VM_ALIGN_ADDR_eq [of "ent_base e + ent_size e + 1"] last
    by (simp add: alloc_base_def vm_map_ok_last(2) [OF inv(1,2)] add.commute)
  then have near: "unat (ent_base e) + unat (ent_size e) < unat ?v" "unat ?v + 4096 * (pc + 2) < 2 ^ 64"
    using last(2) by linarith+
  have before: "extent_before f g" if fin: "f \<in> set (entries_of vmap n s)" and gin: "g \<in> set (alloc_entries flags ?v pc)" for f g
  proof -
    have eg: "extent_before e g"
      using near(1) alloc_entries_sorted(2) [OF inv(3) near(2) gin] by (simp add: extent_before_def)
    obtain i where i: "i < n" "f = map_entries s (entry_at vmap i)" using fin by (auto simp: entries_of_def)
    show ?thesis
    proof (cases "i = n - 1")
      case False
      then have "extent_before f e"
        using inv(4) i last(1) by (simp add: entries_of_def sorted_wrt_iff_nth_less)
      then show ?thesis using eg by (rule extent_before_trans)
    qed (use i last(1) eg in simp)
  qed
  show ?thesis unfolding phase_entries [OF ph]
    using inv(4) alloc_entries_sorted(1) [OF inv(3) near(2)] before by (simp add: sorted_wrt_append)
qed

subsection \<open>Properties\<close>

definition entry_of :: "addr \<times> u64 \<times> u32 \<Rightarrow> vm_map_entry" where
  "entry_of r = (case r of (b, z, f) \<Rightarrow> \<lparr>ent_base = b, ent_size = z - 1,
     ent_guard_page = (f AND VM_MAP_ENTRY_GUARD_PAGE \<noteq> 0), ent_kernel_code = (f AND VM_ALLOC_KERNEL_CODE \<noteq> 0)\<rparr>)"

definition record_entries :: "addr \<Rightarrow> (addr \<times> u64 \<times> u32) list \<Rightarrow> kstate \<Rightarrow> kstate" where
  "record_entries vmap rs s = fold (\<lambda>(b, z, f). vm_map_entry_create vmap b z f) rs s"

lemma entries_of_entry_create:
  assumes "vm_map_ok vmap n s" "n < 2 ^ 32"
  shows "entries_of vmap (Suc n) (vm_map_entry_create vmap b z f s) = entries_of vmap n s @ [entry_of (b, z, f)]"
  using vm_map_entry_create_ok(2) [OF assms] vm_map_entry_create_entries [OF assms(1)]
  by (auto simp: entries_of_def entry_of_def)

text \<open>Recording any sequence of regions in a fresh map keeps the map well formed: the entries are
  linked in creation order and hold the regions' bases and lengths minus one, the entry count and the
  accumulated size agree with them, and the map is left unlocked.\<close>

theorem vm_map_records_entries:
  fixes s :: kstate and vmap pmap mn mx :: addr
  assumes "length rs < 2 ^ 32"
  defines "s' \<equiv> record_entries vmap rs (vm_map_create vmap pmap mn mx s)"
  shows "vm_map_ok vmap (length rs) s' \<and> entries_of vmap (length rs) s' = map entry_of rs \<and>
     list_for_each (nxt (lists s' (vmap + OFF_MAP_ENTRIES))) (vmap + OFF_MAP_ENTRIES) (lists s')
       = Some (map (entry_node vmap) [0 ..< length rs])"
proof -
  have "vm_map_ok vmap (length rs) (record_entries vmap rs (vm_map_create vmap pmap mn mx s)) \<and>
      entries_of vmap (length rs) (record_entries vmap rs (vm_map_create vmap pmap mn mx s)) = map entry_of rs"
    using assms(1)
  proof (induction rs rule: rev_induct)
    case Nil
    then show ?case using vm_map_create_ok by (simp add: record_entries_def entries_of_def)
  next
    case (snoc r rs)
    obtain b z f where r: "r = (b, z, f)" by (cases r)
    from snoc have ok: "vm_map_ok vmap (length rs) (record_entries vmap rs (vm_map_create vmap pmap mn mx s))"
      and n: "length rs < 2 ^ 32" by auto
    show ?case
      using vm_map_entry_create_ok(1) [OF ok n] entries_of_entry_create [OF ok n] snoc
      by (simp add: record_entries_def r)
  qed
  then show ?thesis unfolding s'_def by (simp add: vm_map_ok_def list_for_each_dlist)
qed

theorem vm_map_records_entries_witness:
  "entries_of 0xfffffff000040000 1 (record_entries 0xfffffff000040000 [(0xfffffff000000000, 0x200000, 4)]
      (vm_map_create 0xfffffff000040000 0xfffffff000003000 0xfffffff000000000 0xfffffff3ffffffff reset_state))
    = [\<lparr>ent_base = 0xfffffff000000000, ent_size = 0x1fffff, ent_guard_page = False, ent_kernel_code = True\<rparr>]"
  using vm_map_records_entries [of "[(0xfffffff000000000, 0x200000, 4)]" "0xfffffff000040000"
      "0xfffffff000003000" "0xfffffff000000000" "0xfffffff3ffffffff" reset_state]
  by (simp add: entry_of_def)

lemma entries_apart:
  fixes p vmap :: addr
  assumes "unat (p - vmap) = c" "m < 2 ^ 32"
    and "c < 4096 \<or> 40 \<le> (c - 4096) mod 1600 \<or> 2 ^ 63 \<le> c"
  shows "\<not> in_bytes p (entry_at vmap m) 40"
proof -
  have p: "p - entry_at vmap m = word_of_nat c - word_of_nat (4096 + 1600 * m)"
    using assms(1) by (simp add: entry_at_def word_eq_of_nat [of "p - vmap" c, symmetric])
  have c: "c < 2 ^ 64" 
  proof -
    have "unat (p - vmap) < 2 ^ LENGTH(64)" by (rule unsigned_less)
    then show ?thesis using assms(1) by simp
  qed
  have m: "4096 + 1600 * m < 2 ^ 44" using assms(2) by simp
  show ?thesis
  proof (cases "4096 + 1600 * m \<le> c")
    case True
    then have "p - entry_at vmap m = word_of_nat (c - (4096 + 1600 * m))" by (simp add: p of_nat_diff)
    then have u: "unat (p - entry_at vmap m) = c - (4096 + 1600 * m)"
      using c by (simp only:) (rule unat_of_nat_no_wrap, simp)
    have "40 \<le> c - (4096 + 1600 * m)" 
    proof -
      have "(c - 4096) mod 1600 = (c - (4096 + 1600 * m)) mod 1600"
        using True mod_mult_self2 [of "c - (4096 + 1600 * m)" 1600 m] by simp
      then have "(c - 4096) mod 1600 \<le> c - (4096 + 1600 * m)" by (simp only: mod_less_eq_dividend)
      then show ?thesis using assms(3) True m by auto
    qed
    then show ?thesis by (simp add: in_bytes_def word_less_nat_alt u)
  next
    case False
    then have "entry_at vmap m = p + word_of_nat (4096 + 1600 * m - c)"
      using p by (simp add: of_nat_diff algebra_simps)
    then show ?thesis by (rule not_in_bytes_below) (use False m in simp_all)
  qed
qed

lemma windows_apart:
  fixes a b :: addr
  assumes "4096 \<le> unat (a - b)" "unat (a - b) + 4096 \<le> 2 ^ 64" "i < 512" "j < 512"
  shows "a + 8 * word_of_nat j \<noteq> b + 8 * word_of_nat i"
proof -
  have j: "unat (8 * word_of_nat j :: u64) = 8 * j"
    using unat_of_nat_no_wrap [of "8 * j", where 'a = 64] assms(4) by simp
  have e: "a + 8 * word_of_nat j - b = (a - b) + 8 * word_of_nat j" by simp
  have "unat (a + 8 * word_of_nat j - b) = unat (a - b) + 8 * j"
    unfolding e using unat_add_no_wrap [of "a - b" "8 * word_of_nat j"] j assms(2,4) by simp
  then show ?thesis using assms(1,3) by (intro table_slot_apart) simp_all
qed

definition alloc_pre :: "addr \<Rightarrow> nat \<Rightarrow> u64 \<Rightarrow> u32 \<Rightarrow> kstate \<Rightarrow> bool" where
  "alloc_pre vmap n sz flags s \<longleftrightarrow>
     (let pc = unat (alloc_page_count sz); v = alloc_base vmap s; table = vmap + OFF_MAP_PMAP;
          g1 = guards VM_ALLOC_GUARD_FIRST flags; g2 = guards VM_ALLOC_GUARD_LAST flags
      in alloc_inv vmap n s \<and> 0 < n \<and> n + 2 < 2 ^ 32 \<and> g1 + pc + g2 \<le> card (free_frames s) \<and>
         (\<forall>i\<in>{0 ..< g1 + pc + g2}. page_ready table (v + VM_PAGE_SIZE * word_of_nat i) s \<and>
            guard_ok table (v + VM_PAGE_SIZE * word_of_nat i)))"

lemma vm_map_alloc_pre:
  fixes flags :: u32 and sz :: u64
  assumes "alloc_pre vmap n sz flags s"
  defines "pc \<equiv> unat (alloc_page_count sz)" and "v \<equiv> alloc_base vmap s"
    and "g1 \<equiv> guards VM_ALLOC_GUARD_FIRST flags" and "g2 \<equiv> guards VM_ALLOC_GUARD_LAST flags"
  shows "\<exists>s'. vm_map_alloc env vmap sz flags s = Inr (v + VM_PAGE_SIZE * word_of_nat g1, s') \<and>
           phase vmap n (alloc_entries flags v pc) (g1 + pc + g2) s s'"
proof -
  have pre: "alloc_inv vmap n s" "0 < n" "n + 2 < 2 ^ 32" "g1 + pc + g2 \<le> card (free_frames s)"
    and at: "\<And>i. i < g1 + pc + g2 \<Longrightarrow> page_ready (vmap + OFF_MAP_PMAP) (v + VM_PAGE_SIZE * word_of_nat i) s"
      "\<And>i. i < g1 + pc + g2 \<Longrightarrow> guard_ok (vmap + OFF_MAP_PMAP) (v + VM_PAGE_SIZE * word_of_nat i)"
    using assms(1) by (simp_all add: alloc_pre_def Let_def pc_def v_def g1_def g2_def)
  show ?thesis unfolding g1_def g2_def pc_def v_def
    by (rule vm_map_alloc_phase [OF pre(1-3)])
      (use pre(4) at at(2) [of 0] at(2) [of "g1 + pc"] in \<open>simp_all add: g1_def g2_def pc_def v_def\<close>)
qed

definition sample_vm :: kstate where
  "sample_vm = vm_map_entry_create 0xfffffff000040000 0xfffffff000000000 0x200000 VM_ALLOC_KERNEL_CODE
     (vm_map_create 0xfffffff000040000 0xfffffff000003000 0xfffffff000000000 0xfffffff3ffffffff
       ((sample_pages 0x40000000)\<lparr>memory_virt_base := 0xfffffff000000000,
          cells := (\<lambda>a. if a = 0xfffffff000040e08 then 0x40020003 else 0)\<rparr>))"

lemma sample_vm_inv: "alloc_inv 0xfffffff000040000 1 sample_vm" "card (free_frames sample_vm) = 2"
proof -
  let ?s = "vm_map_create 0xfffffff000040000 0xfffffff000003000 0xfffffff000000000 0xfffffff3ffffffff
       ((sample_pages 0x40000000)\<lparr>memory_virt_base := 0xfffffff000000000,
          cells := (\<lambda>a. if a = 0xfffffff000040e08 then 0x40020003 else 0)\<rparr>)"
  have eq: "vm_page_idx ?s = vm_page_idx (sample_pages 0x40000000)" "pages ?s = pages (sample_pages 0x40000000)"
    "vm_page_region ?s = vm_page_region (sample_pages 0x40000000)"
    by (simp_all add: vm_map_create_def vm_map_init_def map_lock_defs)
  have "pages_ok 0x40000000 2 ?s"
    using sample_pages_ok [of "0x40000000"] unfolding pages_ok_def vm_page_get_idx_def eq .
  then have inv: "page_inv ?s" by (auto simp: page_inv_def)
  have ff: "free_frames ?s = {0x40000000, 0x40001000}"
    using sample_pages_free [of "0x40000000"] unfolding free_frames_def vm_page_get_idx_def eq by simp
  have "\<not> in_bytes (page_slot ?s i) (entry_at 0xfffffff000040000 m) 40"
    if "i < unat (vm_page_idx ?s)" "m < 2 ^ 32" for i m
  proof -
    have "i = 0 \<or> i = 1" using that(1) unfolding eq by (auto simp: sample_pages_def less_2_cases_iff)
    moreover have "page_slot ?s 0 = 0xfffffff000100000" "page_slot ?s 1 = 0xfffffff000100028"
      unfolding vm_page_get_idx_def eq by (simp_all add: sample_pages_def)
    moreover have "\<not> in_bytes 0xfffffff000100000 (entry_at 0xfffffff000040000 m) 40"
      "\<not> in_bytes 0xfffffff000100028 (entry_at 0xfffffff000040000 m) 40"
      using that(2) by (intro entries_apart [OF refl]; simp)+
    ultimately show ?thesis by auto
  qed
  with inv have "alloc_inv 0xfffffff000040000 0 ?s" by (simp add: alloc_inv_def vm_map_create_ok)
  from alloc_inv_entry_create [OF this] ff
  show "alloc_inv 0xfffffff000040000 1 sample_vm" "card (free_frames sample_vm) = 2"
    by (simp_all add: sample_vm_def)
qed

lemma sample_vm_entry:
  "map_entries sample_vm (entry_at 0xfffffff000040000 0) = \<lparr>ent_base = 0xfffffff000000000,
     ent_size = 0x1fffff, ent_guard_page = False, ent_kernel_code = True\<rparr>"
  unfolding sample_vm_def by (simp add: vm_map_entry_create_entries [OF vm_map_create_ok])

lemma sample_vm_base: "alloc_base 0xfffffff000040000 sample_vm = 0xfffffff000200000"
  using vm_map_ok_last(2) [of "0xfffffff000040000" 1 sample_vm] sample_vm_inv(1)
  by (simp add: alloc_base_def alloc_inv_def sample_vm_entry VM_ALIGN_ADDR_def)

lemma sample_vm_mmu:
  "memory_phys_base sample_vm = 0x40000000" "memory_virt_base sample_vm = 0xfffffff000000000"
  "cells sample_vm 0xfffffff000040e08 = 0x40020003"
  by (simp_all add: sample_vm_def vm_map_entry_create_def Let_def map_lock_defs memset_zero_def
        next_entry_def list_empty_def INIT_LIST_HEAD_def vm_map_create_def vm_map_init_def
        sample_pages_def zero_in_def in_bytes_def)

lemma sample_vm_ready:
  assumes "v \<in> {0xfffffff000200000, 0xfffffff000201000}"
  shows "page_ready 0xfffffff000040008 v sample_vm" "guard_ok 0xfffffff000040008 v"
proof -
  have "l1_index v = 448" "unat v + 2 ^ 30 < 2 ^ 64" using assms by (auto simp: l1_index_def)
  moreover have "(0xfffffff000040008 :: addr) + 8 * word_of_nat j \<noteq> 0xfffffff000020000 + 8 * word_of_nat i"
    if "i < 512" "j < 512" for i j by (rule windows_apart) (use that in simp_all)
  ultimately show "page_ready 0xfffffff000040008 v sample_vm"
    by (auto simp: page_ready_def sample_vm_mmu ptokva_def)
  show "guard_ok 0xfffffff000040008 v"
    using assms unfolding guard_ok_def by (intro ballI windows_apart) auto
qed

lemma sample_vm_pre: "alloc_pre 0xfffffff000040000 1 100 VM_ALLOC_GUARD_FIRST sample_vm"
  using sample_vm_inv sample_vm_ready
  by (auto simp: alloc_pre_def guards_def alloc_page_count_def sample_vm_base atLeast0_lessThan_Suc
        less_2_cases_iff)



text \<open>C4. Allocations never overlap: if the extents recorded in a map are strictly ascending, they
  still are after \<^verbatim>\<open>vm_map_alloc\<close>, guards included, as long as the addresses do not wrap around.\<close>

theorem vm_map_alloc_no_overlap:
  fixes flags :: u32 and sz :: u64
  assumes "alloc_pre vmap n sz flags s" "sorted_wrt extent_before (entries_of vmap n s)"
    and "vm_map_alloc env vmap sz flags s = Inr (base, s')"
    and "e = map_entries s (entry_at vmap (n - 1))"
    and "unat (ent_base e) + unat (ent_size e) + 8 + 4096 * (unat (alloc_page_count sz) + 2) < 2 ^ 64"
  shows "\<exists>m>n. entries_of vmap m s' =
           entries_of vmap n s @ alloc_entries flags (alloc_base vmap s) (unat (alloc_page_count sz)) \<and>
         sorted_wrt extent_before (entries_of vmap m s')"
proof -
  let ?pc = "unat (alloc_page_count sz)" and ?v = "alloc_base vmap s"
  obtain k where ph: "phase vmap n (alloc_entries flags ?v ?pc) k s s'"
    using vm_map_alloc_pre [OF assms(1), of env] assms(3) by auto
  have pre: "vm_map_ok vmap n s" "0 < n" using assms(1) by (auto simp: alloc_pre_def Let_def alloc_inv_def)
  have "alloc_entries flags ?v ?pc \<noteq> []" by (simp add: alloc_entries_def)
  then show ?thesis
    using phase_sorted [OF ph pre alloc_page_count_pos assms(2,4,5)] phase_entries [OF ph]
    by (intro exI [of _ "n + length (alloc_entries flags ?v ?pc)"]) auto
qed

theorem vm_map_alloc_no_overlap_witness:
  "\<exists>base s' m. vm_map_alloc sample_env 0xfffffff000040000 100 VM_ALLOC_GUARD_FIRST sample_vm = Inr (base, s') \<and>
     1 < m \<and> sorted_wrt extent_before (entries_of 0xfffffff000040000 m s')"
proof -
  obtain base s' where a: "vm_map_alloc sample_env 0xfffffff000040000 100 VM_ALLOC_GUARD_FIRST sample_vm = Inr (base, s')"
    using vm_map_alloc_pre [OF sample_vm_pre] by blast
  show ?thesis
    using vm_map_alloc_no_overlap [OF sample_vm_pre _ a refl]
    by (auto simp: a entries_of_def sample_vm_entry alloc_page_count_def)
qed

end
