(* ===== verification/Vm.thy ===== *)
theory Vm
  imports Vm_Map
begin

section \<open>Bringing up virtual memory (kern/vm/vm.c)\<close>

text \<open>
  \<^verbatim>\<open>arm_vm_init\<close> builds the kernel's translation tables from the boot arguments and switches the
  MMU to them; \<^verbatim>\<open>vm_configure\<close> then starts the page allocator and creates the kernel's map. The
  debugging walk of the tables is modelled by the list of lines it prints. The address translation
  instruction used through \<^verbatim>\<open>mmu_translate_kvtop\<close> is the parameter \<open>kvtop\<close> of the environment.
\<close>

subsection \<open>Boot arguments\<close>

record boot_args =
  ba_version :: u32
  ba_virtbase :: u64
  ba_physbase :: u64
  ba_memsize :: u64
  ba_kernbase :: u64
  ba_kernsize :: u64
  ba_fdtbase :: u64
  ba_fdtsize :: u64
  ba_uartbase :: u64
  ba_uartsize :: u64

abbreviation VM_KERNEL_MAX_ADDRESS :: u64 where "VM_KERNEL_MAX_ADDRESS \<equiv> 0xfffffff3ffffffff"
abbreviation DEFAULTS_KERNEL_VM_PERIPH_BASE :: u64 where "DEFAULTS_KERNEL_VM_PERIPH_BASE \<equiv> 0xffffffff10000000"

subsection \<open>Operations\<close>

definition vm_is_address_valid :: "arch_env \<Rightarrow> addr \<Rightarrow> i32" where
  "vm_is_address_valid env va = (if kvtop env va \<noteq> 0 then 0 else 1)"

definition mmu_set_tt_base :: "u64 \<Rightarrow> kstate \<Rightarrow> kstate" where
  "mmu_set_tt_base base s = s\<lparr>ttbr0_el1 := base\<rparr>"

definition mmu_set_tt_base_alt :: "u64 \<Rightarrow> kstate \<Rightarrow> kstate" where
  "mmu_set_tt_base_alt base s = s\<lparr>ttbr1_el1 := base\<rparr>"

text \<open>The lines of \<^verbatim>\<open>__vm_pagetable_walk\<close>: level, index, and the addresses printed. The page branch
  computes \<^verbatim>\<open>entry && TT_PAGE_MASK\<close>, a truth value.\<close>

datatype walk_line =
    TableLine int nat u64
  | BlockLine int nat u64 addr
  | PageLine int nat u64

function vm_pagetable_walk_from :: "kstate \<Rightarrow> addr \<Rightarrow> int \<Rightarrow> walk_line list" where
  "vm_pagetable_walk_from s table level =
     concat (map (\<lambda>idx.
       let entry = cells s (table + 8 * word_of_nat idx); type = entry AND TTE_TYPE_MASK
       in if type = TTE_TYPE_TABLE \<and> level < 3
          then TableLine level idx (entry AND TT_TABLE_MASK) #
                 vm_pagetable_walk_from s (ptokva s (entry AND TT_TABLE_MASK)) (level + 1)
          else if type = TTE_TYPE_BLOCK
          then [BlockLine level idx (entry AND TT_BLOCK_MASK) (ptokva s (entry AND TT_BLOCK_MASK))]
          else if type = TTE_TYPE_TABLE
          then [PageLine level idx (if entry \<noteq> 0 \<and> TT_TABLE_MASK \<noteq> 0 then 1 else 0)]
          else []) [0 ..< 512])"
  by pat_completeness auto
termination
  by (relation "measure (\<lambda>(s, table, level). nat (3 - level))") auto

definition vm_pagetable_walk :: "kstate \<Rightarrow> addr \<Rightarrow> int \<Rightarrow> walk_line list" where
  "vm_pagetable_walk s table level = vm_pagetable_walk_from s table level"

definition vm_pagetable_walk_ttbr1 :: "kstate \<Rightarrow> walk_line list" where
  "vm_pagetable_walk_ttbr1 s = vm_pagetable_walk_from s (ptokva s (ttbr1_el1 s AND TTBR_BADDR_MASK)) 1"

definition vm_pagetable_walk_ttbr0 :: "kstate \<Rightarrow> walk_line list" where
  "vm_pagetable_walk_ttbr0 s = vm_pagetable_walk_from s (ptokva s (ttbr0_el1 s AND TTBR_BADDR_MASK)) 1"

text \<open>\<^verbatim>\<open>vm_configure\<close> passes \<^verbatim>\<open>&kernel_pmap\<close>, the address of the pointer variable, as the map's pmap.\<close>

definition vm_configure :: "arch_env \<Rightarrow> kstate \<Rightarrow> kstate outcome" where
  "vm_configure env s =
     andthen (vm_page_bootstrap env (kernel_phys_base s) (memory_phys_size s) (kernel_phys_size s) s) (\<lambda>s1.
       let m = vm_get_kernel_map env;
           s2 = vm_map_create m (sym_kernel_pmap env) (kernel_virt_base s1) VM_KERNEL_MAX_ADDRESS s1
       in Inr (vm_map_entry_create m (kernel_virt_base s2) (kernel_phys_size s2) VM_ALLOC_KERNEL_CODE s2))"

definition arm_vm_init :: "arch_env \<Rightarrow> boot_args \<Rightarrow> u64 \<Rightarrow> u64 \<Rightarrow> kstate \<Rightarrow> kstate outcome" where
  "arm_vm_init env args membase memsize s =
     (if \<not> (0 < membase \<and> 0 < memsize) then Inl (AssertFailed ''membase > 0 && memsize > 0'')
      else
        let s1 = s\<lparr>memory_phys_base := ba_physbase args, memory_phys_size := memsize,
                   memory_virt_base := ba_virtbase args\<rparr>;
            s2 = snd (pmap_ptregion_create env s1)
        in andthen (pmap_ptregion_alloc env s2) (\<lambda>(tte, s3).
             let s4 = s3\<lparr>kernel_tte := tte, kernel_ttep := kvtop env tte\<rparr>
             in andthen (pmap_ptregion_alloc env s4) (\<lambda>(tte, s5).
                  let s6 = s5\<lparr>invalid_tte := tte, invalid_ttep := kvtop env tte,
                              kernel_virt_base := memory_virt_base s5,
                              kernel_phys_base := ba_kernbase args, kernel_phys_size := ba_kernsize args\<rparr>
                  in andthen (pmap_tt_create_tte env (kernel_tte s6) (kernel_phys_base s6) (kernel_virt_base s6)
                                (kernel_phys_size s6) PMAP_ACCESS_READWRITE s6) (\<lambda>(_, s7).
                       andthen (pmap_tt_create_tte env (kernel_tte s7) (ba_uartbase args)
                                  DEFAULTS_KERNEL_VM_PERIPH_BASE (ba_uartsize args) PMAP_ACCESS_READWRITE s7)
                         (\<lambda>(_, s8).
                           Inr (mmu_set_tt_base (invalid_ttep s8 AND TTBR_BADDR_MASK)
                                 (mmu_set_tt_base_alt (kernel_ttep s8 AND TTBR_BADDR_MASK) s8)))))))"

subsection \<open>Mapped regions\<close>

lemma fill_blocks_cells: "\<exists>C. fill_blocks l2 pbase vbase ma n s = s\<lparr>cells := C\<rparr>"
proof (induction n arbitrary: ma s)
  case 0
  show ?case by (intro exI [of _ "cells s"]) (simp add: fill_blocks_def)
next
  case (Suc n)
  then obtain C where "fill_blocks l2 pbase vbase (ma + TT_L2_SIZE) n
      (set_cell (l2 + 8 * l2_index ma) (block_entry pbase vbase ma) s) =
      (set_cell (l2 + 8 * l2_index ma) (block_entry pbase vbase ma) s)\<lparr>cells := C\<rparr>" by blast
  then show ?case by (auto simp: fill_blocks_Suc set_cell_def)
qed

definition region_ok :: "addr \<Rightarrow> u64 \<Rightarrow> u64 \<Rightarrow> bool" where
  "region_ok vbase pbase sz \<longleftrightarrow> 2 ^ 21 dvd unat vbase \<and> unat vbase mod 2 ^ 30 + unat sz \<le> 2 ^ 30 \<and>
     unat vbase + 2 ^ 30 < 2 ^ 64 \<and> 0 < sz \<and> 2 ^ 21 dvd unat pbase \<and> unat pbase + unat sz \<le> 2 ^ 48"

definition region_mapped :: "addr \<Rightarrow> addr \<Rightarrow> u64 \<Rightarrow> u64 \<Rightarrow> kstate \<Rightarrow> bool" where
  "region_mapped table vbase pbase sz s \<longleftrightarrow>
     (\<forall>va. vbase \<le> va \<and> va < vbase + sz \<longrightarrow> tt_walk s table va = Some (pbase + (va - vbase)))"

text \<open>The level-2 table that the walk of \<open>va\<close> goes through.\<close>

definition walks_through :: "addr \<Rightarrow> addr \<Rightarrow> addr \<Rightarrow> kstate \<Rightarrow> bool" where
  "walks_through table va l2 s \<longleftrightarrow> cells s (table + 8 * l1_index va) AND TTE_TYPE_MASK = TTE_TYPE_TABLE \<and>
     ptokva s (cells s (table + 8 * l1_index va) AND TT_TABLE_MASK) = l2"

lemma l1_index_region:
  assumes "region_ok vbase pbase sz" "vbase \<le> va" "va < vbase + sz"
  shows "l1_index va = l1_index vbase"
  using assms region_address(2) [of vbase sz va] by (simp add: region_ok_def)

lemma region_mapped_frame:
  assumes "region_mapped table vbase pbase sz s" "region_ok vbase pbase sz" "walks_through table vbase l2 s"
    and "cells s' (table + 8 * l1_index vbase) = cells s (table + 8 * l1_index vbase)"
    and "\<And>i. i < 512 \<Longrightarrow> cells s' (l2 + 8 * word_of_nat i) = cells s (l2 + 8 * word_of_nat i)"
    and "memory_phys_base s' = memory_phys_base s" "memory_virt_base s' = memory_virt_base s"
  shows "region_mapped table vbase pbase sz s'"
  unfolding region_mapped_def
proof (intro allI impI)
  fix va assume va: "vbase \<le> va \<and> va < vbase + sz"
  have l1: "l1_index va = l1_index vbase" using l1_index_region [OF assms(2)] va by blast
  have "l2_index va = word_of_nat (unat (l2_index va))" by simp
  then have e2: "cells s' (l2 + 8 * l2_index va) = cells s (l2 + 8 * l2_index va)"
    using assms(5) [OF l2_index_less [of va]] by metis
  have "tt_walk s' table va = tt_walk s table va"
    using assms(3,4,6,7) e2 unfolding tt_walk_def walks_through_def l1 Let_def by (simp add: ptokva_def)
  then show "tt_walk s' table va = Some (pbase + (va - vbase))"
    using assms(1) va by (simp add: region_mapped_def)
qed

lemma pmap_map_new_table:
  assumes "region_ok vbase pbase sz" "l2_table_ok env table vbase s l2"
    and "cells s (table + 8 * l1_index vbase) AND TTE_TYPE_MASK \<noteq> TTE_TYPE_TABLE"
  obtains C where "pmap_tt_create_tte env table pbase vbase sz flags s =
      Inr (PMAP_RETURN_SUCCESS, s\<lparr>cells := C, pagetables_region_cursor := l2 + VM_PAGE_SIZE\<rparr>)"
    "region_mapped table vbase pbase sz (s\<lparr>cells := C, pagetables_region_cursor := l2 + VM_PAGE_SIZE\<rparr>)"
    "walks_through table vbase l2 (s\<lparr>cells := C, pagetables_region_cursor := l2 + VM_PAGE_SIZE\<rparr>)"
    "\<forall>a. a \<noteq> table + 8 * l1_index vbase \<and> (\<forall>i<512. a \<noteq> l2 + 8 * word_of_nat i) \<longrightarrow> C a = cells s a"
proof -
  let ?slot = "table + 8 * l1_index vbase"
  let ?s1 = "set_cell ?slot ((kvtop env l2 AND TT_TABLE_MASK) OR 3) (s\<lparr>pagetables_region_cursor := l2 + VM_PAGE_SIZE\<rparr>)"
  let ?n = "(unat sz + 2 ^ 21 - 1) div 2 ^ 21"
  note r = assms(1) [unfolded region_ok_def]
  have l2: "l2 = pagetables_region_cursor s" "cells s (sym_pagetables_region_end env) < l2"
    "ptokva s (kvtop env l2 AND TT_TABLE_MASK) = l2"
    using assms(2,3) by (auto simp: l2_table_ok_def)
  have disj: "?slot \<noteq> l2 + 8 * word_of_nat i" if "i < 512" for i
    using assms(2) that by (simp add: l2_table_ok_def)
  have tab: "pmap_l2_table env table vbase s = Inr (l2, ?s1)"
    using assms(3) l2 by (simp add: pmap_l2_table_def Let_def pmap_ptregion_alloc_def)
  obtain C where C: "fill_blocks l2 pbase vbase vbase ?n ?s1 = ?s1\<lparr>cells := C\<rparr>" using fill_blocks_cells by blast
  have eq: "?s1\<lparr>cells := C\<rparr> = s\<lparr>cells := C, pagetables_region_cursor := l2 + VM_PAGE_SIZE\<rparr>" by (simp add: set_cell_def)
  have w1: "cells ?s1 ?slot AND TTE_TYPE_MASK = TTE_TYPE_TABLE" "ptokva ?s1 (cells ?s1 ?slot AND TT_TABLE_MASK) = l2"
    using l2(3) by (simp_all add: set_cell_def bit.conj_disj_distrib2 and.assoc ptokva_def)
  have "pbase \<le> DEFAULTS_KERNEL_VM_VIRT_BASE" "unat sz \<le> 2 ^ 30" using r by (auto simp: word_le_nat_alt)
  then have res: "pmap_tt_create_tte env table pbase vbase sz flags s = Inr (PMAP_RETURN_SUCCESS, ?s1\<lparr>cells := C\<rparr>)"
    unfolding pmap_tt_create_tte_def using pmap_fill_l1_one_table [OF _ _ _ _ tab] r
    by (simp add: not_less C [symmetric])
  have "tt_walk (?s1\<lparr>cells := C\<rparr>) table va = Some (pbase + (va - vbase))" if "vbase \<le> va" "va < vbase + sz" for va
    unfolding C [symmetric] by (rule tt_walk_fill_blocks) (use r w1 disj that in blast)+
  then have map: "region_mapped table vbase pbase sz (?s1\<lparr>cells := C\<rparr>)" by (simp add: region_mapped_def)
  have other: "C a = cells ?s1 a" if "\<And>i. i < 512 \<Longrightarrow> a \<noteq> l2 + 8 * word_of_nat i" for a
    using fill_blocks_other [OF that, of pbase vbase vbase ?n ?s1] unfolding C by simp
  have "C ?slot = cells ?s1 ?slot" using other disj by blast
  with w1 have walk: "walks_through table vbase l2 (?s1\<lparr>cells := C\<rparr>)"
    by (simp add: walks_through_def ptokva_def)
  have "\<forall>a. a \<noteq> ?slot \<and> (\<forall>i<512. a \<noteq> l2 + 8 * word_of_nat i) \<longrightarrow> C a = cells s a"
    using other by (simp add: set_cell_def)
  then show thesis by (rule that [OF res [unfolded eq] map [unfolded eq] walk [unfolded eq]])
qed

subsection \<open>The boot tables\<close>

text \<open>
  What \<^verbatim>\<open>arm_vm_init\<close> relies on: the region for page tables is fresh, zeroed and not yet claimed, its
  first four pages do not wrap around and do not contain the variable the assertion reads, that
  variable is below the region, and the translation instruction agrees with the linear mapping of
  the boot tables on these pages.
\<close>

definition boot_tables_ok :: "arch_env \<Rightarrow> boot_args \<Rightarrow> kstate \<Rightarrow> bool" where
  "boot_tables_ok env args s \<longleftrightarrow>
     (let b = sym_pagetables_region_base env; e = sym_pagetables_region_end env
      in \<not> ptregion_initialised s \<and> b \<noteq> NULL \<and> 0x4000 \<le> unat (e - b) \<and>
         (\<forall>i\<in>{0 ..< 4}. cells s e < b + VM_PAGE_SIZE * word_of_nat i \<and>
            (kvtop env (b + VM_PAGE_SIZE * word_of_nat i) AND TT_TABLE_MASK) - ba_physbase args + ba_virtbase args
              = b + VM_PAGE_SIZE * word_of_nat i) \<and>
         (\<forall>i\<in>{0 ..< 512}. cells s (b + 8 * word_of_nat i) = 0))"

definition boot_args_ok :: "boot_args \<Rightarrow> bool" where
  "boot_args_ok args \<longleftrightarrow>
     region_ok (ba_virtbase args) (ba_kernbase args) (ba_kernsize args) \<and>
     region_ok DEFAULTS_KERNEL_VM_PERIPH_BASE (ba_uartbase args) (ba_uartsize args) \<and>
     l1_index (ba_virtbase args) \<noteq> l1_index DEFAULTS_KERNEL_VM_PERIPH_BASE"

lemma page_offset_apart:
  fixes b :: addr
  assumes "i < 512" "j < 512" "k < m" "m < 2 ^ 32"
  shows "b + VM_PAGE_SIZE * word_of_nat k + 8 * word_of_nat j \<noteq> b + VM_PAGE_SIZE * word_of_nat m + 8 * word_of_nat i"
proof
  assume "b + VM_PAGE_SIZE * word_of_nat k + 8 * word_of_nat j = b + VM_PAGE_SIZE * word_of_nat m + 8 * word_of_nat i"
  then have "(word_of_nat (4096 * k + 8 * j) :: u64) = word_of_nat (4096 * m + 8 * i)" by (simp add: add.assoc)
  moreover have "unat (word_of_nat (4096 * k + 8 * j) :: u64) = 4096 * k + 8 * j"
    "unat (word_of_nat (4096 * m + 8 * i) :: u64) = 4096 * m + 8 * i"
    by (rule unat_of_nat_no_wrap, use assms in simp)+
  ultimately have "4096 * k + 8 * j = 4096 * m + 8 * i" by metis
  then show False using assms by linarith
qed

lemma l1_slot: "b + 8 * l1_index va = b + VM_PAGE_SIZE * word_of_nat 0 + 8 * word_of_nat (unat (l1_index va))"
  by simp

lemma l1_slot_apart:
  assumes "i < 512" "0 < m" "m < 2 ^ 32"
  shows "b + 8 * l1_index va \<noteq> b + VM_PAGE_SIZE * word_of_nat m + 8 * word_of_nat i"
  unfolding l1_slot by (rule page_offset_apart) (use assms l1_index_less in auto)

lemma l1_slots_apart:
  assumes "l1_index va \<noteq> l1_index vb"
  shows "b + 8 * l1_index va \<noteq> b + 8 * l1_index vb"
proof
  assume "b + 8 * l1_index va = b + 8 * l1_index vb"
  then have "8 * l1_index va = 8 * l1_index vb" by simp
  moreover have "unat (8 * l1_index va) = 8 * unat (l1_index va)" for va
  proof -
    have "8 * l1_index va = word_of_nat (8 * unat (l1_index va))" by simp
    then show ?thesis
      by (simp only:) (rule unat_of_nat_no_wrap, use l1_index_less [of va] in simp)
  qed
  ultimately have "unat (l1_index va) = unat (l1_index vb)" by (metis mult_cancel1 zero_neq_numeral)
  with assms show False by (simp add: word_unat_eq_iff)
qed

lemma end_symbol_apart:
  fixes b e :: addr
  assumes "0x4000 \<le> unat (e - b)" "i < 512" "k < 4"
  shows "e \<noteq> b + VM_PAGE_SIZE * word_of_nat k + 8 * word_of_nat i"
proof
  assume "e = b + VM_PAGE_SIZE * word_of_nat k + 8 * word_of_nat i"
  then have "e - b = word_of_nat (4096 * k + 8 * i)" by simp
  moreover have "unat (word_of_nat (4096 * k + 8 * i) :: u64) = 4096 * k + 8 * i"
    by (rule unat_of_nat_no_wrap) (use assms in simp)
  ultimately have "unat (e - b) = 4096 * k + 8 * i" by metis
  then show False using assms by simp
qed


lemma l2_table_ok_new:
  assumes "cells s (b + 8 * l1_index va) = 0" "pagetables_region_cursor s = b + VM_PAGE_SIZE * word_of_nat m"
    and "0 < m" "m < 2 ^ 32" "cells s (sym_pagetables_region_end env) < b + VM_PAGE_SIZE * word_of_nat m"
    and "ptokva s (kvtop env (b + VM_PAGE_SIZE * word_of_nat m) AND TT_TABLE_MASK) = b + VM_PAGE_SIZE * word_of_nat m"
  shows "l2_table_ok env b va s (b + VM_PAGE_SIZE * word_of_nat m)"
  using assms l1_slot_apart [of _ m b va] by (simp add: l2_table_ok_def)

lemma page_step: "b + VM_PAGE_SIZE * word_of_nat m + VM_PAGE_SIZE = (b + VM_PAGE_SIZE * word_of_nat (Suc m) :: u64)"
  by (simp add: algebra_simps)

definition tables_free :: "arch_env \<Rightarrow> addr \<Rightarrow> kstate \<Rightarrow> bool" where
  "tables_free env b s \<longleftrightarrow> (let e = sym_pagetables_region_end env in 0x4000 \<le> unat (e - b) \<and>
     (\<forall>i<4. cells s e < b + VM_PAGE_SIZE * word_of_nat i \<and>
        ptokva s (kvtop env (b + VM_PAGE_SIZE * word_of_nat i) AND TT_TABLE_MASK) = b + VM_PAGE_SIZE * word_of_nat i))"

lemma map_two_regions:
  assumes r: "region_ok v p z" "region_ok v' p' z'" "l1_index v \<noteq> l1_index v'" and free: "tables_free env b s"
    and cur: "pagetables_region_cursor s = b + VM_PAGE_SIZE * word_of_nat 2"
    and zero: "\<And>va. cells s (b + 8 * l1_index va) = 0"
  obtains s' C where "pmap_tt_create_tte env b p v z fl s = Inr (PMAP_RETURN_SUCCESS, s')" "kernel_tte s' = kernel_tte s"
    "pmap_tt_create_tte env b p' v' z' fl s' = Inr (PMAP_RETURN_SUCCESS,
       s\<lparr>cells := C, pagetables_region_cursor := b + VM_PAGE_SIZE * word_of_nat 4\<rparr>)"
    "region_mapped b v p z (s\<lparr>cells := C, pagetables_region_cursor := b + VM_PAGE_SIZE * word_of_nat 4\<rparr>)"
    "region_mapped b v' p' z' (s\<lparr>cells := C, pagetables_region_cursor := b + VM_PAGE_SIZE * word_of_nat 4\<rparr>)"
proof -
  let ?e = "sym_pagetables_region_end env" and ?l2 = "b + VM_PAGE_SIZE * word_of_nat 2"
  have e: "0x4000 \<le> unat (?e - b)"
    and below: "\<And>i. i < 4 \<Longrightarrow> cells s ?e < b + VM_PAGE_SIZE * word_of_nat i"
    and lin: "\<And>i. i < 4 \<Longrightarrow> ptokva s (kvtop env (b + VM_PAGE_SIZE * word_of_nat i) AND TT_TABLE_MASK)
        = b + VM_PAGE_SIZE * word_of_nat i"
    using free by (auto simp: tables_free_def Let_def)
  have l2: "l2_table_ok env b v s ?l2"
    by (rule l2_table_ok_new [OF zero cur _ _ below lin]) simp_all
  have fresh: "cells s (b + 8 * l1_index v) AND TTE_TYPE_MASK \<noteq> TTE_TYPE_TABLE" by (simp add: zero)
  obtain C1 where C1: "pmap_tt_create_tte env b p v z fl s =
      Inr (PMAP_RETURN_SUCCESS, s\<lparr>cells := C1, pagetables_region_cursor := ?l2 + VM_PAGE_SIZE\<rparr>)"
    and m1: "region_mapped b v p z (s\<lparr>cells := C1, pagetables_region_cursor := ?l2 + VM_PAGE_SIZE\<rparr>)"
    and w1: "walks_through b v ?l2 (s\<lparr>cells := C1, pagetables_region_cursor := ?l2 + VM_PAGE_SIZE\<rparr>)"
    and f1: "\<forall>a. a \<noteq> b + 8 * l1_index v \<and> (\<forall>i<512. a \<noteq> ?l2 + 8 * word_of_nat i) \<longrightarrow> C1 a = cells s a"
    by (rule pmap_map_new_table [OF r(1) l2 fresh, of fl]) (rule that)
  have f1: "C1 a = cells s a" if "a \<noteq> b + 8 * l1_index v" "\<And>i. i < 512 \<Longrightarrow> a \<noteq> ?l2 + 8 * word_of_nat i" for a
    using f1 that by blast
  let ?s = "s\<lparr>cells := C1, pagetables_region_cursor := ?l2 + VM_PAGE_SIZE\<rparr>" and ?l3 = "b + VM_PAGE_SIZE * word_of_nat 3"
  have C1v: "C1 (b + 8 * l1_index v') = 0"
  proof -
    have "C1 (b + 8 * l1_index v') = cells s (b + 8 * l1_index v')"
      by (rule f1) (use l1_slots_apart [OF r(3) [symmetric], of b] l1_slot_apart [of _ 2 b v'] in simp_all)
    then show ?thesis by (simp add: zero)
  qed
  have C1e: "C1 ?e = cells s ?e"
    using end_symbol_apart [OF e, of _ 2] end_symbol_apart [OF e l1_index_less [of v], of 0] by (intro f1) auto
  have l3: "l2_table_ok env b v' ?s ?l3"
    by (rule l2_table_ok_new) (use C1v C1e below [of 3] lin [of 3] in \<open>simp_all add: ptokva_def\<close>)
  have fresh: "cells ?s (b + 8 * l1_index v') AND TTE_TYPE_MASK \<noteq> TTE_TYPE_TABLE" by (simp add: C1v)
  obtain C2 where C2: "pmap_tt_create_tte env b p' v' z' fl ?s =
      Inr (PMAP_RETURN_SUCCESS, ?s\<lparr>cells := C2, pagetables_region_cursor := ?l3 + VM_PAGE_SIZE\<rparr>)"
    and m2: "region_mapped b v' p' z' (?s\<lparr>cells := C2, pagetables_region_cursor := ?l3 + VM_PAGE_SIZE\<rparr>)"
    and f2: "\<forall>a. a \<noteq> b + 8 * l1_index v' \<and> (\<forall>i<512. a \<noteq> ?l3 + 8 * word_of_nat i) \<longrightarrow> C2 a = cells ?s a"
    by (rule pmap_map_new_table [OF r(2) l3 fresh, of fl]) (rule that)
  have f2: "C2 a = cells ?s a" if "a \<noteq> b + 8 * l1_index v'" "\<And>i. i < 512 \<Longrightarrow> a \<noteq> ?l3 + 8 * word_of_nat i" for a
    using f2 that by blast
  let ?s2 = "?s\<lparr>cells := C2, pagetables_region_cursor := ?l3 + VM_PAGE_SIZE\<rparr>"
  have m3: "region_mapped b v p z ?s2"
  proof (rule region_mapped_frame [OF m1 r(1) w1])
    show "cells ?s2 (b + 8 * l1_index v) = cells ?s (b + 8 * l1_index v)"
      using f2 l1_slots_apart [OF r(3)] l1_slot_apart [of _ 3 b v] by simp
    show "cells ?s2 (?l2 + 8 * word_of_nat i) = cells ?s (?l2 + 8 * word_of_nat i)" if "i < 512" for i
      using f2 [of "?l2 + 8 * word_of_nat i"] l1_slot_apart [OF that, of 2 b v']
        page_offset_apart [OF _ that, of _ 2 3 b] by fastforce
  qed simp_all
  have eq: "?s2 = s\<lparr>cells := C2, pagetables_region_cursor := b + VM_PAGE_SIZE * word_of_nat 4\<rparr>"
    by (simp add: page_step)
  show thesis by (rule that [OF C1 _ C2 [unfolded eq] m3 [unfolded eq] m2 [unfolded eq]]) simp
qed

lemma arm_vm_init_ok:
  fixes env :: arch_env and args :: boot_args
  assumes tab: "boot_tables_ok env args s" and ok: "boot_args_ok args" and mem: "0 < membase" "0 < memsize"
  defines "b \<equiv> sym_pagetables_region_base env"
  shows "\<exists>s'. arm_vm_init env args membase memsize s = Inr s' \<and> kernel_tte s' = b \<and>
     region_mapped b (ba_virtbase args) (ba_kernbase args) (ba_kernsize args) s' \<and>
     region_mapped b DEFAULTS_KERNEL_VM_PERIPH_BASE (ba_uartbase args) (ba_uartsize args) s' \<and>
     ttbr1_el1 s' = kvtop env b AND TTBR_BADDR_MASK \<and>
     ttbr0_el1 s' = kvtop env (b + VM_PAGE_SIZE) AND TTBR_BADDR_MASK \<and>
     kernel_virt_base s' = ba_virtbase args \<and> kernel_phys_base s' = ba_kernbase args \<and>
     kernel_phys_size s' = ba_kernsize args \<and> memory_phys_base s' = ba_physbase args \<and> memory_phys_size s' = memsize \<and>
     topology s' = topology s \<and> cpu_data_entries s' = cpu_data_entries s"
proof -
  let ?e = "sym_pagetables_region_end env" and ?v = "ba_virtbase args"
  have new: "\<not> ptregion_initialised s" "b \<noteq> NULL" "cells s ?e < b" "cells s ?e < b + VM_PAGE_SIZE"
  proof -
    have all: "\<forall>i\<in>{0 ..< 4}. cells s ?e < b + VM_PAGE_SIZE * word_of_nat i"
      using tab by (simp add: boot_tables_ok_def Let_def b_def)
    show "cells s ?e < b" "cells s ?e < b + VM_PAGE_SIZE" using bspec [OF all, of 0] bspec [OF all, of 1] by simp_all
    show "\<not> ptregion_initialised s" "b \<noteq> NULL" using tab by (simp_all add: boot_tables_ok_def Let_def b_def)
  qed
  define s6 where "s6 = s\<lparr>memory_phys_base := ba_physbase args, memory_phys_size := memsize,
      memory_virt_base := ?v, pagetables_region_cursor := b + VM_PAGE_SIZE * word_of_nat 2,
      ptregion_phys_base := kvtop env b, ptregion_initialised := True, kernel_tte := b, kernel_ttep := kvtop env b,
      invalid_tte := b + VM_PAGE_SIZE, invalid_ttep := kvtop env (b + VM_PAGE_SIZE),
      kernel_virt_base := ?v, kernel_phys_base := ba_kernbase args, kernel_phys_size := ba_kernsize args\<rparr>"
  have "tables_free env b s6"
    using tab by (auto simp: tables_free_def boot_tables_ok_def Let_def b_def s6_def ptokva_def)
  moreover have "cells s6 (b + 8 * l1_index va) = 0" for va
    using tab l1_index_less [of va] unfolding boot_tables_ok_def Let_def b_def [symmetric] s6_def
    by (auto dest!: bspec [of _ _ "unat (l1_index va)"])
  ultimately obtain s' C where m: "pmap_tt_create_tte env b (ba_kernbase args) ?v (ba_kernsize args) PMAP_ACCESS_READWRITE s6
      = Inr (PMAP_RETURN_SUCCESS, s')" "kernel_tte s' = kernel_tte s6"
    "pmap_tt_create_tte env b (ba_uartbase args) DEFAULTS_KERNEL_VM_PERIPH_BASE (ba_uartsize args) PMAP_ACCESS_READWRITE s'
      = Inr (PMAP_RETURN_SUCCESS, s6\<lparr>cells := C, pagetables_region_cursor := b + VM_PAGE_SIZE * word_of_nat 4\<rparr>)"
    "region_mapped b ?v (ba_kernbase args) (ba_kernsize args)
      (s6\<lparr>cells := C, pagetables_region_cursor := b + VM_PAGE_SIZE * word_of_nat 4\<rparr>)"
    "region_mapped b DEFAULTS_KERNEL_VM_PERIPH_BASE (ba_uartbase args) (ba_uartsize args)
      (s6\<lparr>cells := C, pagetables_region_cursor := b + VM_PAGE_SIZE * word_of_nat 4\<rparr>)"
    using ok by (elim map_two_regions [rotated 3]) (auto simp: boot_args_ok_def s6_def)
  have "s\<lparr>memory_phys_base := ba_physbase args, memory_phys_size := memsize,
      memory_virt_base := ?v, ptregion_phys_base := kvtop env b, ptregion_initialised := True, kernel_tte := b, kernel_ttep := kvtop env b,
      pagetables_region_cursor := b + VM_PAGE_SIZE + VM_PAGE_SIZE, 
      invalid_tte := b + VM_PAGE_SIZE, invalid_ttep := kvtop env (b + VM_PAGE_SIZE),
      kernel_virt_base := ?v, kernel_phys_base := ba_kernbase args, kernel_phys_size := ba_kernsize args\<rparr> = s6"
     by (simp add: s6_def)
  moreover have "kernel_tte s6 = b" "kernel_ttep s6 = kvtop env b" "invalid_ttep s6 = kvtop env (b + VM_PAGE_SIZE)"
    by (simp_all add: s6_def)
  ultimately have "arm_vm_init env args membase memsize s =
      Inr (mmu_set_tt_base (kvtop env (b + VM_PAGE_SIZE) AND TTBR_BADDR_MASK)
        (mmu_set_tt_base_alt (kvtop env b AND TTBR_BADDR_MASK)
          (s6\<lparr>cells := C, pagetables_region_cursor := b + VM_PAGE_SIZE * word_of_nat 4\<rparr>)))"
    using mem new m(1-3)
    by (simp add: arm_vm_init_def pmap_ptregion_create_def pmap_ptregion_alloc_def Let_def b_def [symmetric]) 
  then show ?thesis using m(4,5)
    by (auto simp: mmu_set_tt_base_def mmu_set_tt_base_alt_def region_mapped_def tt_walk_def ptokva_def s6_def Let_def)
qed

subsection \<open>The kernel map\<close>

lemma vm_map_create_pages:
  "pages (vm_map_create m p a b s) = pages s" "vm_page_idx (vm_map_create m p a b s) = vm_page_idx s"
  "vm_page_region (vm_map_create m p a b s) = vm_page_region s"
  "kernel_virt_base (vm_map_create m p a b s) = kernel_virt_base s"
  "kernel_phys_size (vm_map_create m p a b s) = kernel_phys_size s"
  by (simp_all add: vm_map_create_def vm_map_init_def map_lock_defs)

lemma bootstrap_frame:
  assumes "vm_page_bootstrap env membase memsize kernsize s = Inr s'"
  shows "kernel_virt_base s' = kernel_virt_base s" "kernel_phys_size s' = kernel_phys_size s"
    and "vm_page_region s' = sym_vm_page_region_lower_bound env"
proof -
  have internal: "kernel_virt_base (snd (vm_page_alloc_internal env p b s)) = kernel_virt_base s \<and>
      kernel_phys_size (snd (vm_page_alloc_internal env p b s)) = kernel_phys_size s \<and>
      vm_page_region (snd (vm_page_alloc_internal env p b s)) = vm_page_region s" for p b s
    by (simp add: vm_page_alloc_internal_def Let_def vm_page_region_cursor_inc_def)
  have create: "kernel_virt_base (snd (vm_page_create_pages env n p s)) = kernel_virt_base s \<and>
      kernel_phys_size (snd (vm_page_create_pages env n p s)) = kernel_phys_size s \<and>
      vm_page_region (snd (vm_page_create_pages env n p s)) = vm_page_region s" for n p s
  proof (induction n arbitrary: p s)
    case (Suc n)
    then show ?case using internal [of p True s] by (auto simp: split_def Let_def)
  qed simp
  have mark: "kernel_virt_base (fold vm_page_mark_kernel is s) = kernel_virt_base s \<and>
      kernel_phys_size (fold vm_page_mark_kernel is s) = kernel_phys_size s \<and>
      vm_page_region (fold vm_page_mark_kernel is s) = vm_page_region s" for "is" s
    by (induction "is" arbitrary: s) (simp_all add: vm_page_mark_kernel_def Let_def)
  let ?s = "vm_page_region_init env membase (memsize div VM_PAGE_SIZE) s"
  have init: "kernel_virt_base ?s = kernel_virt_base s \<and> kernel_phys_size ?s = kernel_phys_size s \<and>
      vm_page_region ?s = sym_vm_page_region_lower_bound env"
    by (simp add: vm_page_region_init_def Let_def vm_page_region_cursor_inc_def)
  obtain i s1 k where "vm_page_create_pages env (unat (memsize div VM_PAGE_SIZE)) (membase + VM_PAGE_SIZE) ?s = (i, s1)"
    "s' = fold vm_page_mark_kernel [0 ..< k] s1"
    using assms unfolding vm_page_bootstrap_def Let_def by (auto split: prod.splits if_splits)
  with create [of "unat (memsize div VM_PAGE_SIZE)" "membase + VM_PAGE_SIZE" ?s] mark [of "[0 ..< k]" s1] init
  show "kernel_virt_base s' = kernel_virt_base s" "kernel_phys_size s' = kernel_phys_size s"
    "vm_page_region s' = sym_vm_page_region_lower_bound env" by simp_all
qed

lemma vm_configure_ok:
  fixes env :: arch_env and s :: kstate
  assumes pc: "pc = unat (memory_phys_size s) div 4096" "0 < pc" "pc < 2 ^ 32"
    and region: "unat (sym_vm_page_region_lower_bound env) + 320 * pc < 2 ^ 64"
    and kern: "unat (kernel_phys_size s) + 40 * pc < 4096 * pc"
    and head: "\<And>i. i \<le> pc \<Longrightarrow> sym_vm_page_region_lower_bound env + SIZEOF_VM_PAGE * word_of_nat i
             + OFF_PAGE_SIBLINGS \<noteq> sym_page_list env"
    and apart: "\<And>i m. i \<le> pc \<Longrightarrow> m < 2 ^ 32 \<Longrightarrow> \<not> in_bytes (sym_vm_page_region_lower_bound env +
             SIZEOF_VM_PAGE * word_of_nat i) (entry_at (vm_get_kernel_map env) m) 40"
  defines "kc \<equiv> (unat (kernel_phys_size s) + 40 * pc) div 4096 + 1" and "m \<equiv> vm_get_kernel_map env"
  shows "\<exists>s'. vm_configure env s = Inr s' \<and> alloc_inv m 1 s' \<and>
     entries_of m 1 s' = [entry_of (kernel_virt_base s, kernel_phys_size s, VM_ALLOC_KERNEL_CODE)] \<and>
     free_frames s' = (\<lambda>i. kernel_phys_base s + VM_PAGE_SIZE * word_of_nat i) ` {i. kc \<le> i \<and> i \<le> pc}"
proof -
  obtain s1 where s1: "vm_page_bootstrap env (kernel_phys_base s) (memory_phys_size s) (kernel_phys_size s) s = Inr s1"
    "pages_ok (kernel_phys_base s) (Suc pc) s1" "\<forall>i\<le>pc. pg_alloc (page_at s1 i) \<longleftrightarrow> i < kc"
    using vm_page_bootstrap_spec [OF pc region kern head, of "kernel_phys_base s" s] unfolding kc_def by blast
  note fr = bootstrap_frame [OF s1(1)]
  let ?s2 = "vm_map_create m (sym_kernel_pmap env) (kernel_virt_base s1) VM_KERNEL_MAX_ADDRESS s1"
  have ok2: "pages_ok (kernel_phys_base s) (Suc pc) ?s2"
    using s1(2) unfolding pages_ok_def vm_page_get_idx_def vm_map_create_pages .
  have free2: "free_frames ?s2 = free_frames s1"
    unfolding free_frames_def vm_page_get_idx_def vm_map_create_pages by (rule refl)
  have idx: "unat (vm_page_idx s1) = Suc pc" using s1(2) by (simp add: pages_ok_def)
  have "alloc_inv m 0 ?s2"
    using ok2 apart by (auto simp: alloc_inv_def vm_map_create_ok page_inv_def idx vm_page_get_idx_def
        vm_map_create_pages fr(3) m_def less_Suc_eq_le simp del: of_nat_Suc)
  note inv = alloc_inv_entry_create [OF this, of "kernel_virt_base s" "kernel_phys_size s" VM_ALLOC_KERNEL_CODE]
  let ?s3 = "vm_map_entry_create m (kernel_virt_base s) (kernel_phys_size s) VM_ALLOC_KERNEL_CODE ?s2"
  have "vm_configure env s = Inr ?s3"
    using s1(1) fr by (simp add: vm_configure_def Let_def m_def vm_map_create_pages)
  moreover have "entries_of m 1 ?s3 = [entry_of (kernel_virt_base s, kernel_phys_size s, VM_ALLOC_KERNEL_CODE)]"
    using entries_of_entry_create [OF vm_map_create_ok, of m] by (simp add: entries_of_def)
  moreover have "{i. i < Suc pc \<and> \<not> pg_alloc (page_at s1 i)} = {i. kc \<le> i \<and> i \<le> pc}" using s1(3) by auto
  then have "free_frames s1 = (\<lambda>i. kernel_phys_base s + VM_PAGE_SIZE * word_of_nat i) ` {i. kc \<le> i \<and> i \<le> pc}"
    by (simp add: free_frames_eq [OF s1(2)])
  ultimately show ?thesis using inv free2 by simp
qed

lemma sample_kernel_map: "vm_get_kernel_map sample_env = 0xfffffff000040000"
  by (simp add: vm_get_kernel_map_def sample_env_simps)

lemma sample_configure_apart:
  assumes "i \<le> 1" "m < 2 ^ 32"
  shows "\<not> in_bytes (sym_vm_page_region_lower_bound sample_env + SIZEOF_VM_PAGE * word_of_nat i)
      (entry_at (vm_get_kernel_map sample_env) m) 40"
proof -
  have "i = 0 \<or> i = 1" using assms(1) by auto
  then show ?thesis using assms(2) unfolding sample_kernel_map sample_env_simps
    by (elim disjE; intro entries_apart [OF refl]; simp)
qed

subsection \<open>Properties\<close>

text \<open>C6. Bringing up the MMU: from a fresh page-table region \<^verbatim>\<open>arm_vm_init\<close> succeeds, and in the table it
  hands to the MMU the whole kernel image and the whole console window translate to the physical
  regions the boot arguments name; mapping the console does not disturb the kernel's mapping.\<close>

theorem arm_vm_init_maps:
  fixes env :: arch_env and args :: boot_args
  assumes "boot_tables_ok env args s" "boot_args_ok args" "0 < membase" "0 < memsize"
  defines "b \<equiv> sym_pagetables_region_base env"
  shows "\<exists>s'. arm_vm_init env args membase memsize s = Inr s' \<and> kernel_tte s' = b \<and>
     (\<forall>va. ba_virtbase args \<le> va \<and> va < ba_virtbase args + ba_kernsize args \<longrightarrow>
        tt_walk s' b va = Some (ba_kernbase args + (va - ba_virtbase args))) \<and>
     (\<forall>va. DEFAULTS_KERNEL_VM_PERIPH_BASE \<le> va \<and> va < DEFAULTS_KERNEL_VM_PERIPH_BASE + ba_uartsize args \<longrightarrow>
        tt_walk s' b va = Some (ba_uartbase args + (va - DEFAULTS_KERNEL_VM_PERIPH_BASE))) \<and>
     ttbr1_el1 s' = kvtop env b AND TTBR_BADDR_MASK \<and>
     ttbr0_el1 s' = kvtop env (b + VM_PAGE_SIZE) AND TTBR_BADDR_MASK"
  using arm_vm_init_ok [OF assms(1-4)] unfolding b_def region_mapped_def by metis

definition sample_args :: boot_args where
  "sample_args = \<lparr>ba_version = 0x11, ba_virtbase = 0xfffffff000000000, ba_physbase = 0x40000000,
     ba_memsize = 0x10000000, ba_kernbase = 0x40000000, ba_kernsize = 0x200000, ba_fdtbase = 0x48000000,
     ba_fdtsize = 0x2000, ba_uartbase = 0x9000000, ba_uartsize = 0x1000\<rparr>"

lemma sample_boot_ok: "boot_tables_ok sample_env sample_args reset_state" "boot_args_ok sample_args"
proof -
  have "\<forall>i\<in>set [0 ..< 4]. (0 :: u64) < 0xfffffff000010000 + VM_PAGE_SIZE * word_of_nat i \<and>
      ((0xfffffff000010000 + VM_PAGE_SIZE * word_of_nat i - 0xfffffff000000000 + 0x40000000 :: u64) AND TT_TABLE_MASK)
        - 0x40000000 + 0xfffffff000000000 = 0xfffffff000010000 + VM_PAGE_SIZE * word_of_nat i"
    by (simp add: upt_rec)
  then show "boot_tables_ok sample_env sample_args reset_state"
    by (auto simp: boot_tables_ok_def sample_env_simps sample_args_def reset_state_def)
  show "boot_args_ok sample_args"
    by (simp add: boot_args_ok_def region_ok_def sample_args_def l1_index_def)
qed

theorem arm_vm_init_maps_witness:
  "\<exists>s'. arm_vm_init sample_env sample_args 0x40000000 0x10000000 reset_state = Inr s' \<and>
     tt_walk s' 0xfffffff000010000 0xfffffff000123456 = Some 0x40123456 \<and>
     tt_walk s' 0xfffffff000010000 0xffffffff10000018 = Some 0x9000018"
proof -
  obtain s' where s': "arm_vm_init sample_env sample_args 0x40000000 0x10000000 reset_state = Inr s'"
    "\<forall>va. ba_virtbase sample_args \<le> va \<and> va < ba_virtbase sample_args + ba_kernsize sample_args \<longrightarrow>
        tt_walk s' (sym_pagetables_region_base sample_env) va = Some (ba_kernbase sample_args + (va - ba_virtbase sample_args))"
    "\<forall>va. DEFAULTS_KERNEL_VM_PERIPH_BASE \<le> va \<and> va < DEFAULTS_KERNEL_VM_PERIPH_BASE + ba_uartsize sample_args \<longrightarrow>
        tt_walk s' (sym_pagetables_region_base sample_env) va = Some (ba_uartbase sample_args + (va - DEFAULTS_KERNEL_VM_PERIPH_BASE))"
    using arm_vm_init_maps [OF sample_boot_ok, of "0x40000000" "0x10000000"] by auto
  show ?thesis
    using s'(1) spec [OF s'(2), of "0xfffffff000123456"] spec [OF s'(3), of "0xffffffff10000018"]
    by (simp add: sample_args_def sample_env_simps)
qed

end
