(* ===== verification/Zalloc.thy ===== *)
theory Zalloc
  imports Vm_Map
begin

section \<open>The zone allocator (kern/mm/zalloc.c)\<close>

text \<open>
  A zone is a descriptor in \<^verbatim>\<open>zone_array\<close> and a run of pages cut into blocks, each a list node
  (\<^verbatim>\<open>struct zone_alloc_metadata\<close>, 16 bytes) followed by the element. The blocks are on the
  zone's free list or on its used list. Descriptors live at their address in the array, with
  their two list heads at the member offsets.
\<close>

subsection \<open>Operations\<close>

abbreviation MAX_NUM_ZONES :: nat where "MAX_NUM_ZONES \<equiv> 12"

definition zone_at :: "arch_env \<Rightarrow> nat \<Rightarrow> addr" where
  "zone_at env i = sym_zone_array env + SIZEOF_ZONE * word_of_nat i"

definition set_zone :: "addr \<Rightarrow> (zone \<Rightarrow> zone) \<Rightarrow> kstate \<Rightarrow> kstate" where
  "set_zone z f s = s\<lparr>zones := (zones s)(z := f (zones s z))\<rparr>"

definition zone_init :: "arch_env \<Rightarrow> kstate \<Rightarrow> i32 \<times> kstate" where
  "zone_init env s =
     (0, fold (\<lambda>i s. set_zone (zone_at env i) (\<lambda>z. z\<lparr>z_used := False\<rparr>)
                       (memset_zero (zone_at env i) SIZEOF_ZONE s))
           [0 ..< MAX_NUM_ZONES] (s\<lparr>num_zones_used := 0\<rparr>))"

definition zone_find :: "arch_env \<Rightarrow> kstate \<Rightarrow> nat option" where
  "zone_find env s = find (\<lambda>i. \<not> z_used (zones s (zone_at env i))) [0 ..< MAX_NUM_ZONES]"

text \<open>
  The descriptor \<^verbatim>\<open>zone_create\<close> fills in. \<^verbatim>\<open>count_free\<close> and \<^verbatim>\<open>page_count\<close> are 32-bit signed
  integers, converted to 64 bits where they enter 64-bit products; \<^verbatim>\<open>page_count * VM_PAGE_SIZE\<close> is a
  product of two \<^verbatim>\<open>int\<close>s.
\<close>

definition zone_desc :: "u64 \<Rightarrow> u64 \<Rightarrow> string \<Rightarrow> nat \<Rightarrow> zone \<Rightarrow> zone" where
  "zone_desc sz mx name zidx z =
     (let count_free = ucast (mx div sz) :: i32;
          max_size = scast count_free * sz;
          page_count = ucast ((max_size + mx * SIZEOF_ZONE_META) div VM_PAGE_SIZE) :: i32
      in z\<lparr>z_elem_size := sz, z_count_free := count_free, z_count := 0, z_max_size := max_size,
           z_size := 0, z_page_count := (if page_count = 0 then 1 else page_count),
           z_index := word_of_nat zidx, z_name := name\<rparr>)"

definition zone_fill :: "addr \<Rightarrow> addr \<Rightarrow> u64 \<Rightarrow> nat \<Rightarrow> list_heap \<Rightarrow> list_heap" where
  "zone_fill free_elems base block n =
     fold (\<lambda>i. list_add_tail (base + word_of_nat i * block) free_elems) [0 ..< n]"

definition zone_create :: "arch_env \<Rightarrow> u64 \<Rightarrow> u64 \<Rightarrow> string \<Rightarrow> kstate \<Rightarrow> (addr \<times> kstate) outcome" where
  "zone_create env sz mx name s =
     (case zone_find env s of
        None \<Rightarrow> Inl (Panic ''failed to allocate a zone: no available zones'')
      | Some zidx \<Rightarrow>
          if sz = 0 then Inl (Panic ''failed to allocate a zone: invalid element size'')
          else if mx = 0 then Inl (Panic ''failed to allocate a zone: invalid max zone size'')
          else
            let z = zone_at env zidx;
                s1 = set_zone z (zone_desc sz mx name zidx) s;
                s2 = s1\<lparr>lists := INIT_LIST_HEAD (z + OFF_ZONE_USED)
                              (INIT_LIST_HEAD (z + OFF_ZONE_FREE) (lists s1))\<rparr>
            in andthen (vm_map_alloc env (vm_get_kernel_map env)
                          (scast (z_page_count (zones s2 z) * 4096 :: i32)) VM_NULL s2)
                 (\<lambda>(zone_page_base, s3).
                   let s4 = s3\<lparr>lists := zone_fill (z + OFF_ZONE_FREE) zone_page_base
                                 (z_elem_size (zones s3 z) + SIZEOF_ZONE_META)
                                 (nat (sint (z_count_free (zones s3 z)))) (lists s3)\<rparr>
                   in Inr (z, set_zone z (\<lambda>z. z\<lparr>z_used := True\<rparr>)
                                (s4\<lparr>num_zones_used := num_zones_used s4 + 1\<rparr>))))"

definition zalloc :: "addr \<Rightarrow> kstate \<Rightarrow> addr \<times> kstate" where
  "zalloc z s =
     (let meta = list_first_entry (z + OFF_ZONE_FREE) 0 (lists s);
          s1 = s\<lparr>lists := list_move meta (z + OFF_ZONE_USED) (lists s)\<rparr>;
          s2 = set_zone z (\<lambda>z. z\<lparr>z_count := z_count z + 1, z_count_free := z_count_free z - 1\<rparr>) s1
      in (meta + SIZEOF_ZONE_META, s2))"

text \<open>How the search of \<^verbatim>\<open>zfree\<close> over the used list ends.\<close>

datatype zfree_result = Found | NotInZone | ListEnd

partial_function (option) zfree_search :: "addr \<Rightarrow> addr \<Rightarrow> addr \<Rightarrow> list_heap \<Rightarrow> zfree_result option" where
  "zfree_search meta meta_addr used_elems h =
     (if meta = used_elems then Some ListEnd
      else if meta = meta_addr then Some Found
      else if list_is_last meta used_elems h then Some NotInZone
      else zfree_search (nxt (h meta)) meta_addr used_elems h)"

definition zfree :: "addr \<Rightarrow> addr \<Rightarrow> kstate \<Rightarrow> kstate outcome" where
  "zfree z a s =
     (let meta_addr = a - SIZEOF_ZONE_META
      in andthen (terminates (zfree_search (list_first_entry (z + OFF_ZONE_USED) 0 (lists s))
                                meta_addr (z + OFF_ZONE_USED) (lists s)))
           (\<lambda>r. case r of
              ListEnd \<Rightarrow> Inr s
            | NotInZone \<Rightarrow> Inl (Panic ''failed to free element: element does not exist in zone'')
            | Found \<Rightarrow>
                let s1 = memset_zero a (z_elem_size (zones s z)) s;
                    s2 = s1\<lparr>lists := list_move meta_addr (z + OFF_ZONE_FREE) (lists s1)\<rparr>
                in Inr (set_zone z (\<lambda>z. z\<lparr>z_count := z_count z - 1, z_count_free := z_count_free z + 1\<rparr>) s2)))"

subsection \<open>Well-formed zones\<close>

text \<open>\<open>fs\<close> and \<open>us\<close> are the nodes on the free and on the used list, in order.\<close>

definition zone_ok :: "addr \<Rightarrow> addr list \<Rightarrow> addr list \<Rightarrow> kstate \<Rightarrow> bool" where
  "zone_ok z fs us s \<longleftrightarrow>
     dlist (lists s) (z + OFF_ZONE_FREE) fs \<and> dlist (lists s) (z + OFF_ZONE_USED) us \<and>
     set ((z + OFF_ZONE_FREE) # fs) \<inter> set ((z + OFF_ZONE_USED) # us) = {} \<and>
     z_count (zones s z) = word_of_nat (length us) \<and>
     z_count_free (zones s z) = word_of_nat (length fs)"

definition zone_block :: "addr \<Rightarrow> u64 \<Rightarrow> nat \<Rightarrow> addr" where
  "zone_block base elem i = base + word_of_nat i * (elem + SIZEOF_ZONE_META)"

text \<open>
  The memory of a zone of \<open>n\<close> blocks: it fits in the address space and contains neither the
  descriptor nor its list heads.
\<close>

definition zone_layout :: "addr \<Rightarrow> addr \<Rightarrow> u64 \<Rightarrow> nat \<Rightarrow> bool" where
  "zone_layout z base elem n \<longleftrightarrow> n * (unat elem + 16) < 2 ^ 64 \<and>
     (\<forall>x \<in> {z, z + OFF_ZONE_FREE, z + OFF_ZONE_USED}. n * (unat elem + 16) \<le> unat (x - base))"

lemma unat_block_offset:
  assumes "i * (unat elem + 16) < 2 ^ 64" "0 < i"
  shows "unat (word_of_nat i * (elem + 16) :: u64) = i * (unat elem + 16)"
proof -
  have "1 * (unat elem + 16) < 2 ^ 64"
    by (rule le_less_trans [OF mult_le_mono1 assms(1)]) (use assms(2) in simp)
  then have "unat (elem + 16) = unat elem + 16" by (simp add: unat_add_no_wrap)
  moreover have "i * 1 < 2 ^ 64" by (rule le_less_trans [OF mult_le_mono2 assms(1)]) simp
  ultimately show ?thesis
    using assms(1) by (simp add: unat_word_ariths unat_of_nat_no_wrap)
qed

lemma zfree_search_dlist:
  assumes "dlist h u us"
  shows "zfree_search (nxt (h u)) m u h =
     Some (if us = [] then ListEnd else if m \<in> set us then Found else NotInZone)"
proof (cases us)
  case Nil
  with dlist_first [OF assms] show ?thesis by (subst zfree_search.simps) simp
next
  case (Cons x xs)
  have "zfree_search y m u h = Some (if m \<in> set (y # vs) then Found else NotInZone)"
    if "us = ps @ y # vs" for ps y vs
    using that
  proof (induction vs arbitrary: y ps)
    case Nil
    with assms have "dlist h u (ps @ y # [])" "y \<noteq> u" by (auto simp: dlist_def)
    then show ?case using list_is_last_iff [of h u ps y "[]"] by (subst zfree_search.simps) simp
  next
    case (Cons v vs)
    then have d: "dlist h u (ps @ y # v # vs)" "y \<noteq> u" using assms by (auto simp: dlist_def)
    have "zfree_search v m u h = Some (if m \<in> set (v # vs) then Found else NotInZone)"
      by (rule Cons.IH [of "ps @ [y]"]) (simp add: Cons.prems)
    then show ?case using list_is_last_iff [OF d(1)] dlist_nxt [OF d(1)] d(2)
      by (subst zfree_search.simps) simp
  qed
  from this [of "[]" x xs] Cons dlist_first [OF assms] show ?thesis by simp
qed

subsection \<open>Allocating and freeing\<close>

lemma zalloc_ok:
  assumes "zone_ok z (x # fs) us s"
  shows "fst (zalloc z s) = x + SIZEOF_ZONE_META" "zone_ok z fs (x # us) (snd (zalloc z s))"
proof -
  have first: "nxt (lists s (z + OFF_ZONE_FREE)) = x"
    using dlist_first [of "lists s" "z + OFF_ZONE_FREE" "x # fs"] assms by (simp add: zone_ok_def)
  then show "fst (zalloc z s) = x + SIZEOF_ZONE_META"
    by (simp add: zalloc_def Let_def list_first_entry_def container_of_def)
  have "set ((z + OFF_ZONE_FREE) # fs) \<inter> set ((z + OFF_ZONE_USED) # x # us) = {}"
    using assms lh.rep_distinct [of "lists s" "z + OFF_ZONE_FREE" "x # fs"] by (auto simp: zone_ok_def)
  moreover have "dlist (list_move x (z + OFF_ZONE_USED) (lists s)) (z + OFF_ZONE_FREE) fs"
    "dlist (list_move x (z + OFF_ZONE_USED) (lists s)) (z + OFF_ZONE_USED) (x # us)"
    using lh.pool_take [of "lists s" "z + OFF_ZONE_FREE" x fs "z + OFF_ZONE_USED" us] assms
    by (simp_all add: zone_ok_def first)
  ultimately show "zone_ok z fs (x # us) (snd (zalloc z s))"
    using assms by (simp add: zalloc_def Let_def list_first_entry_def container_of_def first zone_ok_def set_zone_def)
qed

text \<open>An exhausted zone hands out the address of its own used list.\<close>

lemma zalloc_exhausted:
  assumes "zone_ok z [] us s"
  shows "fst (zalloc z s) = z + OFF_ZONE_USED"
  using assms dlist_first [of "lists s" "z + OFF_ZONE_FREE" "[]"]
  by (simp add: zalloc_def Let_def list_first_entry_def container_of_def zone_ok_def)

text \<open>No node of a zone lies in the element of a block.\<close>

lemma block_element_apart:
  assumes "zone_layout z base elem n" "i < n" "j < n"
  shows "\<not> in_bytes (zone_block base elem j) (zone_block base elem i + 16) elem"
    and "x \<in> {z, z + OFF_ZONE_FREE, z + OFF_ZONE_USED} \<Longrightarrow> \<not> in_bytes x (zone_block base elem i + 16) elem"
proof -
  let ?B = "unat elem + 16"
  have le: "k * ?B \<le> n * ?B" if "k \<le> n" for k using that by (rule mult_le_mono1)
  have fit: "n * ?B < 2 ^ 64" using assms(1) by (simp add: zone_layout_def)
  have off: "unat (word_of_nat k * (elem + 16) :: u64) = k * ?B" if "k \<le> n" for k
    using unat_block_offset [OF le_less_trans [OF le [OF that] fit]] by (cases "k = 0") simp_all
  show "\<not> in_bytes (zone_block base elem j) (zone_block base elem i + 16) elem"
  proof (cases "j \<le> i")
    case True
    then obtain d where d: "i = j + d" using le_Suc_ex by blast
    have "d * ?B \<le> (n - 1) * ?B" using assms(2) d by (intro mult_le_mono1) simp
    moreover have "(n - 1) * ?B + ?B = n * ?B" using assms(2) by (cases n) simp_all
    ultimately have "d * ?B + 16 + unat elem \<le> 2 ^ 64" using fit by linarith
    moreover have "zone_block base elem i + 16 = zone_block base elem j + word_of_nat (d * ?B + 16)"
      by (simp add: zone_block_def d distrib_right distrib_left add_ac)
    ultimately show ?thesis by (intro not_in_bytes_below [of _ _ "d * ?B + 16"]) simp_all
  next
    case False
    then obtain d where d: "j = i + Suc d" using less_imp_Suc_add [of i j] by auto
    have "zone_block base elem j - (zone_block base elem i + 16) = word_of_nat d * (elem + 16) + elem"
      by (simp add: zone_block_def d distrib_right distrib_left)
    moreover have "Suc d * ?B < 2 ^ 64" using le [of "Suc d"] d assms(3) fit by linarith
    then have "unat (word_of_nat d * (elem + 16) + elem) = d * ?B + unat elem"
      using off [of d] d assms(3) by (simp add: unat_add_no_wrap)
    ultimately show ?thesis by (simp add: in_bytes_def word_less_nat_alt)
  qed
  assume "x \<in> {z, z + OFF_ZONE_FREE, z + OFF_ZONE_USED}"
  then have far: "n * ?B \<le> unat (x - base)" using assms(1) by (auto simp: zone_layout_def)
  let ?o = "word_of_nat i * (elem + 16) + 16 :: u64"
  have i: "Suc i * ?B \<le> n * ?B" by (rule le) (use assms(2) in simp)
  then have uo: "unat ?o = i * ?B + 16" using off [of i] assms(2) fit by (simp add: unat_add_no_wrap)
  have "?o \<le> x - base" using uo far i by (simp add: word_le_nat_alt)
  then have "unat (x - base - ?o) = unat (x - base) - (i * ?B + 16)" using uo by (simp add: unat_sub)
  then have "\<not> x - base - ?o < elem" using far i by (simp add: word_less_nat_alt)
  moreover have "x - (zone_block base elem i + 16) = x - base - ?o" by (simp add: zone_block_def)
  ultimately show "\<not> in_bytes x (zone_block base elem i + 16) elem" by (simp only: in_bytes_def simp_thms)
qed

text \<open>Clearing the element of a used block touches none of the zone's lists, nor its descriptor.\<close>

lemma zone_clear_element:
  assumes ok: "zone_ok z fs us s" and lay: "zone_layout z base (z_elem_size (zones s z)) n"
    and mem: "x \<in> set us"
    and blocks: "set fs \<union> set us \<subseteq> zone_block base (z_elem_size (zones s z)) ` {0 ..< n}"
  defines "h \<equiv> zero_in (x + SIZEOF_ZONE_META) (z_elem_size (zones s z)) null_node (lists s)"
  shows "dlist h (z + OFF_ZONE_FREE) fs" "dlist h (z + OFF_ZONE_USED) us"
    and "\<not> in_bytes z (x + SIZEOF_ZONE_META) (z_elem_size (zones s z))"
proof -
  let ?e = "z_elem_size (zones s z)" and ?f = "z + OFF_ZONE_FREE" and ?u = "z + OFF_ZONE_USED"
  obtain i where i: "i < n" "x = zone_block base ?e i" using blocks mem by auto
  have apart: "\<not> in_bytes y (x + SIZEOF_ZONE_META) ?e" if "y \<in> set fs \<union> set us \<union> {z, ?f, ?u}" for y
  proof -
    from that consider j where "j < n" "y = zone_block base ?e j" | "y \<in> {z, ?f, ?u}" using blocks by auto
    then show ?thesis
      using block_element_apart(1) [OF lay i(1)] block_element_apart(2) [OF lay i(1) i(1)] i(2) by cases simp_all
  qed
  show "dlist h ?f fs" "dlist h ?u us"
    using ok apart unfolding h_def by (auto simp: zone_ok_def intro!: dlist_zero_in)
  show "\<not> in_bytes z (x + SIZEOF_ZONE_META) ?e" by (rule apart) simp
qed

lemma zfree_ok:
  assumes ok: "zone_ok z fs us s" and lay: "zone_layout z base (z_elem_size (zones s z)) n"
    and mem: "x \<in> set us"
    and blocks: "set fs \<union> set us \<subseteq> zone_block base (z_elem_size (zones s z)) ` {0 ..< n}"
  shows "\<exists>s'. zfree z (x + SIZEOF_ZONE_META) s = Inr s' \<and> zone_ok z (x # fs) (remove1 x us) s' \<and>
           z_elem_size (zones s' z) = z_elem_size (zones s z) \<and>
           lists s' = list_move x (z + OFF_ZONE_FREE)
             (zero_in (x + SIZEOF_ZONE_META) (z_elem_size (zones s z)) null_node (lists s))"
proof -
  let ?f = "z + OFF_ZONE_FREE" and ?u = "z + OFF_ZONE_USED"
  note d = zone_clear_element [OF assms]
  have disj: "set (?u # us) \<inter> set (?f # fs) = {}" using ok by (auto simp: zone_ok_def)
  have "dlist (lists s) ?u us" using ok by (simp add: zone_ok_def)
  then have search: "zfree_search (list_first_entry ?u 0 (lists s)) x ?u (lists s) = Some Found"
    using zfree_search_dlist [of "lists s" ?u us x] mem by (auto simp: list_first_entry_def container_of_def)
  have cnt: "(word_of_nat (length us) - 1 :: i32) = word_of_nat (length us - 1)"
    using mem by (cases us) simp_all
  have "distinct (?u # us)" by (rule lh.rep_distinct [OF d(2)])
  then have "set (?f # x # fs) \<inter> set (?u # remove1 x us) = {}"
    using disj mem by auto
  then show ?thesis
    using lh.pool_give [OF d(2,1) mem disj] ok d(3) mem search cnt
    by (simp add: zfree_def Let_def set_zone_def zone_ok_def length_remove1 add.commute)
qed

text \<open>Any other list survives if it does not run through the element.\<close>

lemma zfree_frame:
  assumes ok: "zone_ok z fs us s" and lay: "zone_layout z base (z_elem_size (zones s z)) n"
    and mem: "x \<in> set us"
    and blocks: "set fs \<union> set us \<subseteq> zone_block base (z_elem_size (zones s z)) ` {0 ..< n}"
    and other: "dlist (lists s) l xs" "set (l # xs) \<inter> set ((z + OFF_ZONE_USED) # us @ (z + OFF_ZONE_FREE) # fs) = {}"
      "\<And>y. y \<in> set (l # xs) \<Longrightarrow> \<not> in_bytes y (x + SIZEOF_ZONE_META) (z_elem_size (zones s z))"
  shows "dlist (list_move x (z + OFF_ZONE_FREE)
           (zero_in (x + SIZEOF_ZONE_META) (z_elem_size (zones s z)) null_node (lists s))) l xs"
proof -
  note d = zone_clear_element [OF ok lay mem blocks]
  have "set ((z + OFF_ZONE_USED) # us) \<inter> set ((z + OFF_ZONE_FREE) # fs) = {}" using ok by (auto simp: zone_ok_def)
  from lh.pool_frame [OF d(2,1) mem dlist_zero_in [OF other(1)] this other(2)] other(3)
  show ?thesis by blast
qed

lemma zfree_absent:
  assumes "zone_ok z fs us s" "a - SIZEOF_ZONE_META \<notin> set us"
  shows "zfree z a s = (if us = [] then Inr s
     else Inl (Panic ''failed to free element: element does not exist in zone''))"
  using assms zfree_search_dlist [of "lists s" "z + OFF_ZONE_USED" us "a - SIZEOF_ZONE_META"]
  by (simp add: zfree_def Let_def zone_ok_def list_first_entry_def container_of_def)

subsection \<open>Creating a zone\<close>

text \<open>The pages \<^verbatim>\<open>zone_create\<close> asks for hold all its blocks once elements have three bytes.\<close>

definition zone_pages :: "nat \<Rightarrow> nat \<Rightarrow> nat" where
  "zone_pages sz mx = max 1 ((mx div sz * sz + mx * 16) div 4096)"

lemma zone_pages_fit:
  assumes "3 \<le> sz"
  shows "mx div sz * (sz + 16) \<le> 4096 * zone_pages sz mx"
proof -
  define c where "c = mx div sz"
  define t where "t = c * sz"
  define q where "q = (t + mx * 16) div 4096"
  have "t \<le> mx" by (simp add: t_def c_def)
  moreover have "3 * c \<le> t" using assms by (simp add: t_def mult.commute)
  moreover have "t + mx * 16 < 4096 * q + 4096"
    using mult_div_mod_eq [of 4096 "t + mx * 16"] mod_less_divisor [of 4096 "t + mx * 16"] unfolding q_def by linarith
  ultimately have "t + 16 * c \<le> 4096 * max 1 q" by (cases "t + 16 * c \<le> 4096"; cases "q = 0") simp_all
  then show ?thesis by (simp add: zone_pages_def c_def [symmetric] t_def [symmetric] q_def [symmetric] distrib_left)
qed

lemma zone_desc_numbers:
  assumes "unat sz \<noteq> 0" "unat mx < 2 ^ 26"
  shows "z_count_free (zone_desc sz mx name i z) = word_of_nat (unat mx div unat sz)"
    and "sint (z_count_free (zone_desc sz mx name i z)) = int (unat mx div unat sz)"
    and "unat (alloc_page_count (scast (z_page_count (zone_desc sz mx name i z) * 4096 :: i32)))
           = zone_pages (unat sz) (unat mx)"
proof -
  let ?c = "unat mx div unat sz" and ?p = "(unat mx div unat sz * unat sz + unat mx * 16) div 4096"
  have le: "?c < 2 ^ 31" "?c * unat sz \<le> unat mx"
    using assms(2) by (simp_all add: le_less_trans [OF div_le_dividend])
  have "mx div sz = word_of_nat ?c" by (rule word_eq_of_nat) (simp add: unat_div)
  then show c: "z_count_free (zone_desc sz mx name i z) = word_of_nat ?c"
    by (simp add: zone_desc_def Let_def)
  show "sint (z_count_free (zone_desc sz mx name i z)) = int ?c"
    unfolding c by (rule sint_of_nat_32) (rule le(1))
  have "scast (word_of_nat ?c :: i32) = (word_of_nat ?c :: u64)"
    by (rule scast_of_nat_32) (rule le(1))
  moreover have "word_of_nat ?c * sz + mx * 16 = word_of_nat (?c * unat sz + unat mx * 16)" by simp
  moreover have "unat (word_of_nat (?c * unat sz + unat mx * 16) :: u64) = ?c * unat sz + unat mx * 16"
    by (rule unat_of_nat_no_wrap) (use le(2) assms(2) in \<open>simp del: times_div_less_eq_dividend div_times_less_eq_dividend\<close>)
  ultimately have "(scast (word_of_nat ?c :: i32) * sz + mx * SIZEOF_ZONE_META) div VM_PAGE_SIZE = word_of_nat ?p"
    by (intro word_eq_of_nat) (simp only: unat_div, simp)
  then have "z_page_count (zone_desc sz mx name i z) = (if word_of_nat ?p = (0 :: i32) then 1 else word_of_nat ?p)"
    using c by (simp add: zone_desc_def Let_def)
  moreover have "t + unat mx * 16 < 2 ^ 19 * 4096" if "t \<le> unat mx" for t using that assms(2) by simp
  from this [OF le(2)] have p: "?p < 2 ^ 19" by (rule less_mult_imp_div_less)
  then have "unat (word_of_nat ?p :: i32) = ?p" by (intro unat_of_nat_no_wrap) simp
  then have "word_of_nat ?p = (0 :: i32) \<longleftrightarrow> ?p = 0" by (metis unat_eq_zero)
  ultimately have "z_page_count (zone_desc sz mx name i z) = word_of_nat (zone_pages (unat sz) (unat mx))"
    by (auto simp: zone_pages_def max_def)
  then have "scast (z_page_count (zone_desc sz mx name i z) * 4096 :: i32)
      = (word_of_nat (4096 * zone_pages (unat sz) (unat mx)) :: u64)"
    using scast_of_nat_32 [of "zone_pages (unat sz) (unat mx) * 4096"] p by (simp add: zone_pages_def mult.commute max_def)
  moreover have "unat (word_of_nat (4096 * zone_pages (unat sz) (unat mx)) :: u64) = 4096 * zone_pages (unat sz) (unat mx)"
    by (rule unat_of_nat_no_wrap) (use p in \<open>simp add: zone_pages_def\<close>)
  moreover have "1 \<le> zone_pages (unat sz) (unat mx)" by (simp add: zone_pages_def)
  ultimately show "unat (alloc_page_count (scast (z_page_count (zone_desc sz mx name i z) * 4096 :: i32)))
           = zone_pages (unat sz) (unat mx)"
    by (simp add: alloc_page_count_def word_less_nat_alt unat_div)
qed

text \<open>Filling the free list with the blocks.\<close>

lemma layout_offset:
  assumes "zone_layout z base elem n" "k \<le> n"
  shows "unat (word_of_nat k * (elem + 16) :: u64) = k * (unat elem + 16)"
proof (cases "k = 0")
  case False
  have "n * (unat elem + 16) < 2 ^ 64" using assms(1) by (simp add: zone_layout_def)
  then have "k * (unat elem + 16) < 2 ^ 64" by (rule le_less_trans [OF mult_le_mono1 [OF assms(2)]])
  then show ?thesis using False by (intro unat_block_offset) simp_all
qed simp

lemma zone_blocks_distinct:
  assumes "zone_layout z base elem n" "i \<le> n" "j \<le> n" "zone_block base elem i = zone_block base elem j"
  shows "i = j"
proof -
  have "word_of_nat i * (elem + 16) = (word_of_nat j * (elem + 16) :: u64)"
    using assms(4) unfolding zone_block_def by (rule add_left_imp_eq)
  then have "i * (unat elem + 16) = j * (unat elem + 16)"
    using layout_offset [OF assms(1,2)] layout_offset [OF assms(1,3)] by metis
  then show ?thesis by simp
qed

lemma zone_block_not_head:
  assumes "zone_layout z base elem n" "i < n" "x \<in> {z, z + OFF_ZONE_FREE, z + OFF_ZONE_USED}"
  shows "zone_block base elem i \<noteq> x"
proof -
  have "n * (unat elem + 16) \<le> unat (x - base)" using assms(1,3) by (auto simp: zone_layout_def)
  moreover have "i * (unat elem + 16) < n * (unat elem + 16)" using assms(2) by simp
  ultimately have "i * (unat elem + 16) < unat (x - base)" by (rule less_le_trans [rotated])
  moreover have "unat (zone_block base elem i - base) = i * (unat elem + 16)"
    using layout_offset [OF assms(1), of i] assms(2) by (simp add: zone_block_def)
  ultimately show ?thesis by auto
qed

lemma zone_fill_ok:
  assumes lay: "zone_layout z base elem n"
    and d: "dlist h (z + OFF_ZONE_FREE) []" "dlist h (z + OFF_ZONE_USED) []"
  shows "dlist (zone_fill (z + OFF_ZONE_FREE) base (elem + SIZEOF_ZONE_META) n h) (z + OFF_ZONE_FREE)
           (map (zone_block base elem) [0 ..< n])"
    and "dlist (zone_fill (z + OFF_ZONE_FREE) base (elem + SIZEOF_ZONE_META) n h) (z + OFF_ZONE_USED) []"
proof -
  let ?ns = "map (zone_block base elem) [0 ..< n]" and ?f = "z + OFF_ZONE_FREE" and ?u = "z + OFF_ZONE_USED"
  have fill: "zone_fill ?f base (elem + SIZEOF_ZONE_META) n h = fold (\<lambda>x. list_add_tail x ?f) ?ns h"
    by (simp add: zone_fill_def fold_map comp_def zone_block_def)
  have dist: "distinct ?ns"
    using zone_blocks_distinct [OF lay] by (auto simp: distinct_map inj_on_def)
  have heads: "set ?ns \<inter> {?f, ?u} = {}" (is "?A = {}")
  proof -
    have "x \<notin> {?f, ?u}" if "x \<in> set ?ns" for x
      using that zone_block_not_head [OF lay, of _ x] by auto
    then show ?thesis by blast
  qed
  show "dlist (zone_fill ?f base (elem + SIZEOF_ZONE_META) n h) ?f ?ns"
    unfolding fill using lh.append_all [OF d(1) dist] heads by simp
  show "dlist (zone_fill ?f base (elem + SIZEOF_ZONE_META) n h) ?u []"
    unfolding fill using heads by (intro lh.append_all_frame [OF d dist]) auto
qed

lemma alloc_inv_zone_heads:
  assumes "alloc_inv vmap n s" "outside vmap (z + OFF_ZONE_FREE)" "outside vmap (z + OFF_ZONE_USED)" "n < 2 ^ 32"
  shows "alloc_inv vmap n (s\<lparr>zones := Z, lists := INIT_LIST_HEAD (z + OFF_ZONE_USED)
           (INIT_LIST_HEAD (z + OFF_ZONE_FREE) (lists s))\<rparr>)"
proof -
  have node: "in_bytes (entry_node vmap i) (entry_at vmap i) 40" for i by (simp add: in_bytes_def)
  have "x \<noteq> entry_node vmap i" if "outside vmap x" "i < n" for x i
    using that node [of i] assms(4) by (auto simp: outside_def)
  then have "x \<notin> set ((vmap + OFF_MAP_ENTRIES) # map (entry_node vmap) [0 ..< n])" if "outside vmap x" for x
    using that by (fastforce simp: outside_def)
  then have "dlist (INIT_LIST_HEAD (z + OFF_ZONE_USED) (INIT_LIST_HEAD (z + OFF_ZONE_FREE) (lists s)))
      (vmap + OFF_MAP_ENTRIES) (map (entry_node vmap) [0 ..< n])"
    using assms by (intro lh.init_frame) (auto simp: alloc_inv_def vm_map_ok_def)
  then show ?thesis
    using assms(1) by (simp add: alloc_inv_def vm_map_ok_def page_inv_def pages_ok_def vm_page_get_idx_def)
qed

lemma outside_not_node:
  assumes "outside vmap x" "n \<le> 2 ^ 32"
  shows "x \<notin> set ((vmap + OFF_MAP_ENTRIES) # map (entry_node vmap) [0 ..< n])"
proof -
  have "x \<noteq> entry_node vmap i" if "i < n" for i
  proof -
    have "in_bytes (entry_node vmap i) (entry_at vmap i) 40" by (simp add: in_bytes_def)
    then show ?thesis using assms that by (auto simp: outside_def)
  qed
  then show ?thesis using assms(1) by (simp add: outside_def image_iff)
qed

lemma alloc_inv_cong:
  assumes "alloc_inv vmap n s" "dlist (lists s') (vmap + OFF_MAP_ENTRIES) (map (entry_node vmap) [0 ..< n])"
    and "vm_maps s' = vm_maps s" "map_entries s' = map_entries s" "pages s' = pages s"
    and "vm_page_idx s' = vm_page_idx s" "vm_page_region s' = vm_page_region s"
  shows "alloc_inv vmap n s'"
  using assms by (simp add: alloc_inv_def vm_map_ok_def page_inv_def pages_ok_def vm_page_get_idx_def)

lemma alloc_inv_zone_fill:
  assumes inv: "alloc_inv vmap n s" "n \<le> 2 ^ 32" and lay: "zone_layout z base elem c"
    and d: "dlist (lists s) (z + OFF_ZONE_FREE) []"
    and out: "outside vmap (z + OFF_ZONE_FREE)" "\<And>i. i < c \<Longrightarrow> outside vmap (zone_block base elem i)"
  shows "dlist (zone_fill (z + OFF_ZONE_FREE) base (elem + SIZEOF_ZONE_META) c (lists s))
           (vmap + OFF_MAP_ENTRIES) (map (entry_node vmap) [0 ..< n])"
proof -
  let ?ns = "map (zone_block base elem) [0 ..< c]" and ?f = "z + OFF_ZONE_FREE"
  let ?nodes = "(vmap + OFF_MAP_ENTRIES) # map (entry_node vmap) [0 ..< n]"
  have fill: "zone_fill ?f base (elem + SIZEOF_ZONE_META) c (lists s) = fold (\<lambda>x. list_add_tail x ?f) ?ns (lists s)"
    by (simp add: zone_fill_def fold_map comp_def zone_block_def)
  have "x \<notin> set ?nodes" if "x \<in> set (?f # ?ns)" for x
    using that out by (intro outside_not_node [OF _ inv(2)]) auto
  then have "set ?nodes \<inter> set (?f # [] @ ?ns) = {}" by auto
  moreover have "dlist (lists s) (vmap + OFF_MAP_ENTRIES) (map (entry_node vmap) [0 ..< n])"
    using inv(1) by (simp add: alloc_inv_def vm_map_ok_def)
  moreover have "distinct ?ns" using zone_blocks_distinct [OF lay] by (auto simp: distinct_map inj_on_def)
  moreover have "?f \<notin> set ?ns" using zone_block_not_head [OF lay, of _ ?f] by (auto simp: image_iff dest!: sym [of ?f])
  ultimately show ?thesis unfolding fill by (intro lh.append_all_frame [OF d]) auto
qed

text \<open>
  What \<^verbatim>\<open>zone_create\<close> needs: a free descriptor outside the map's memory, pages and table
  entries for the run of pages at the map's next base, and blocks that meet nothing else.
\<close>

definition zone_create_pre :: "arch_env \<Rightarrow> u64 \<Rightarrow> u64 \<Rightarrow> nat \<Rightarrow> nat \<Rightarrow> kstate \<Rightarrow> bool" where
  "zone_create_pre env sz mx zidx n s \<longleftrightarrow>
     (let vmap = vm_get_kernel_map env; z = zone_at env zidx; v = alloc_base vmap s;
          p = zone_pages (unat sz) (unat mx); c = unat mx div unat sz
      in zone_find env s = Some zidx \<and> alloc_inv vmap n s \<and> 0 < n \<and> n + 2 < 2 ^ 32 \<and>
         outside vmap z \<and> outside vmap (z + OFF_ZONE_FREE) \<and> outside vmap (z + OFF_ZONE_USED) \<and>
         p \<le> card (free_frames s) \<and>
         (\<forall>i\<in>{0 ..< p}. page_ready (vmap + OFF_MAP_PMAP) (v + VM_PAGE_SIZE * word_of_nat i) s) \<and>
         zone_layout z v sz c \<and> (\<forall>i\<in>{0 ..< c}. outside vmap (zone_block v sz i)))"

lemma zone_create_ok:
  fixes sz mx :: u64 and env :: arch_env
  assumes pre: "zone_create_pre env sz mx zidx n s" and nz: "sz \<noteq> 0" "mx \<noteq> 0" "unat mx < 2 ^ 26"
  defines "vmap \<equiv> vm_get_kernel_map env" and "z \<equiv> zone_at env zidx" and "v \<equiv> alloc_base (vm_get_kernel_map env) s"
    and "c \<equiv> unat mx div unat sz"
  shows "\<exists>s'. zone_create env sz mx name s = Inr (z, s') \<and>
     zone_ok z (map (zone_block v sz) [0 ..< c]) [] s' \<and> z_elem_size (zones s' z) = sz \<and>
     z_used (zones s' z) \<and> z_name (zones s' z) = name \<and> alloc_inv vmap (Suc n) s' \<and>
     card (free_frames s') + zone_pages (unat sz) (unat mx) = card (free_frames s)"
proof -
  let ?f = "z + OFF_ZONE_FREE" and ?u = "z + OFF_ZONE_USED" and ?p = "zone_pages (unat sz) (unat mx)"
  let ?d = "zone_desc sz mx name zidx (zones s z)"
  let ?s2 = "s\<lparr>zones := (zones s)(z := ?d), lists := INIT_LIST_HEAD ?u (INIT_LIST_HEAD ?f (lists s))\<rparr>"
  note p = pre [unfolded zone_create_pre_def Let_def, folded vmap_def z_def v_def c_def]
  have sz: "unat sz \<noteq> 0" using nz(1) by (simp add: unat_eq_zero)
  note num = zone_desc_numbers [OF sz nz(3), of name zidx "zones s z"]
  have inv2: "alloc_inv vmap n ?s2" using p by (intro alloc_inv_zone_heads) simp_all
  have base: "alloc_base vmap ?s2 = v"
    using p inv2 vm_map_ok_last(2) [of vmap n s] vm_map_ok_last(2) [of vmap n ?s2]
    by (simp add: alloc_base_def v_def vmap_def alloc_inv_def)
  have free2: "free_frames ?s2 = free_frames s" by (simp add: free_frames_def vm_page_get_idx_def)
  have "\<exists>s3. vm_map_alloc env vmap (scast (z_page_count ?d * 4096 :: i32)) VM_NULL ?s2 = Inr (v, s3) \<and>
      phase vmap n (alloc_entries VM_NULL v ?p) ?p ?s2 s3"
    using vm_map_alloc_phase [OF inv2, where sz = "scast (z_page_count ?d * 4096 :: i32)" and flags = VM_NULL and env = env] p
    unfolding num(3) base free2 by (simp add: guards_def page_ready_def ptokva_def)
  then obtain s3 where s3: "vm_map_alloc env vmap (scast (z_page_count ?d * 4096 :: i32)) VM_NULL ?s2 = Inr (v, s3)"
    "phase vmap n (alloc_entries VM_NULL v ?p) ?p ?s2 s3" by blast
  have k: "kept vmap ?s2 s3" and inv3: "alloc_inv vmap (Suc n) s3" and card3: "card (free_frames s3) + ?p = card (free_frames s)"
    using s3(2) free2 by (simp_all add: phase_def alloc_entries_def)
  have zd: "zones s3 z = ?d" using k p by (simp add: kept_def)
  have heads: "?f \<noteq> ?u" by simp
  have "dlist (lists ?s2) ?f [] \<and> dlist (lists ?s2) ?u []"
    by (simp add: lh.init_frame [OF INIT_LIST_HEAD_dlist])
  then have d: "dlist (lists s3) ?f []" "dlist (lists s3) ?u []"
    using k p unfolding kept_def by (metis empty_iff list.set(1,2) singletonD)+
  let ?h = "zone_fill ?f v (sz + SIZEOF_ZONE_META) c (lists s3)"
  let ?s' = "s3\<lparr>lists := ?h, num_zones_used := num_zones_used s3 + 1, zones := (zones s3)(z := ?d\<lparr>z_used := True\<rparr>)\<rparr>"
  have desc: "z_elem_size ?d = sz" "z_name ?d = name" "z_count ?d = 0" by (simp_all add: zone_desc_def Let_def)
  have "zone_create env sz mx name s = Inr (z, ?s')"
    using p nz(1,2) s3(1) num(2) desc
    by (simp add: zone_create_def Let_def set_zone_def z_def [symmetric] vmap_def [symmetric] zd c_def)
  moreover have "zone_ok z (map (zone_block v sz) [0 ..< c]) [] ?s'"
  proof -
    have lay: "zone_layout z v sz c" using p by simp
    have "zone_block v sz i \<noteq> ?u" if "i < c" for i by (rule zone_block_not_head [OF lay that]) simp
    then have "?u \<notin> set (map (zone_block v sz) [0 ..< c])" by (auto dest!: sym [of ?u])
    then show ?thesis using zone_fill_ok [OF lay d] num(1) desc by (simp add: zone_ok_def c_def)
  qed
  moreover have "alloc_inv vmap (Suc n) ?s'"
    using alloc_inv_zone_fill [OF inv3, of z v sz c] d p
    by (intro alloc_inv_cong [OF inv3]) simp_all
  moreover have "free_frames ?s' = free_frames s3" by (simp add: free_frames_def vm_page_get_idx_def)
  ultimately show ?thesis using card3 desc by auto
qed

subsection \<open>Properties\<close>

definition sample_zone :: kstate where
  "sample_zone = reset_state\<lparr>
     zones := (\<lambda>_. zero_zone\<lparr>z_elem_size := 24, z_count_free := 2, z_page_count := 1, z_used := True\<rparr>),
     lists := zone_fill (0xfffffff000002000 + OFF_ZONE_FREE) 0xfffffff000200000 (24 + SIZEOF_ZONE_META) 2
       (INIT_LIST_HEAD (0xfffffff000002000 + OFF_ZONE_USED)
         (INIT_LIST_HEAD (0xfffffff000002000 + OFF_ZONE_FREE) (\<lambda>_. null_node)))\<rparr>"

lemma sample_zone_layout: "zone_layout 0xfffffff000002000 0xfffffff000200000 24 2"
  by (simp add: zone_layout_def)

lemma sample_zone_blocks:
  "map (zone_block 0xfffffff000200000 24) [0 ..< 2] = [0xfffffff000200000, 0xfffffff000200028]"
  by (simp add: zone_block_def upt_rec)

lemma sample_zone_ok: "zone_ok 0xfffffff000002000 [0xfffffff000200000, 0xfffffff000200028] [] sample_zone"
proof -
  let ?h = "INIT_LIST_HEAD (0xfffffff000002000 + OFF_ZONE_USED)
         (INIT_LIST_HEAD (0xfffffff000002000 + OFF_ZONE_FREE) (\<lambda>_. null_node))"
  have "dlist ?h (0xfffffff000002000 + OFF_ZONE_FREE) []" "dlist ?h (0xfffffff000002000 + OFF_ZONE_USED) []"
    by (simp_all add: dlist_def INIT_LIST_HEAD_def)
  from zone_fill_ok [OF sample_zone_layout this] show ?thesis
    by (simp add: zone_ok_def sample_zone_def sample_zone_blocks zero_zone_def)
qed


lemma sample_outside:
  "outside 0xfffffff000040000 0xfffffff000002000" "outside 0xfffffff000040000 0xfffffff000002028"
  "outside 0xfffffff000040000 0xfffffff000002038" "outside 0xfffffff000040000 0xfffffff000200000"
  "outside 0xfffffff000040000 0xfffffff000200028"
  unfolding outside_def by (intro conjI allI impI entries_apart [OF refl]; simp)+

lemma sample_zone_create_pre: "zone_create_pre sample_env 24 48 0 1 sample_vm"
proof -
  have z: "zone_find sample_env sample_vm = Some 0"
    by (simp add: zone_find_def upt_rec zone_at_def sample_env_simps sample_vm_def vm_map_entry_create_def
          Let_def map_lock_defs memset_zero_def vm_map_create_def vm_map_init_def sample_pages_def
          zero_in_def zero_zone_def reset_state_def)
  have k: "vm_get_kernel_map sample_env = 0xfffffff000040000"
    by (simp add: vm_get_kernel_map_def sample_env_simps)
  show ?thesis
    using z sample_vm_inv sample_outside sample_vm_ready(1) [of "0xfffffff000200000"] sample_zone_layout
    by (auto simp: zone_create_pre_def k sample_vm_base zone_at_def sample_env_simps zone_pages_def
          zone_block_def less_2_cases_iff)
qed


fun zalloc_n :: "nat \<Rightarrow> addr \<Rightarrow> kstate \<Rightarrow> addr list \<times> kstate" where
  "zalloc_n 0 z s = ([], s)"
| "zalloc_n (Suc k) z s = (case zalloc z s of (a, s1) \<Rightarrow> case zalloc_n k z s1 of (as, s2) \<Rightarrow> (a # as, s2))"

text \<open>Allocating \<open>k\<close> elements from a zone with at least \<open>k\<close> free blocks returns the payloads of the
  first \<open>k\<close> free blocks, in order and pairwise different, and moves exactly those to the used list.\<close>

theorem zalloc_sequence:
  assumes "zone_ok z fs us s" "k \<le> length fs"
  shows "fst (zalloc_n k z s) = map (\<lambda>x. x + SIZEOF_ZONE_META) (take k fs) \<and>
     distinct (fst (zalloc_n k z s)) \<and>
     zone_ok z (drop k fs) (rev (take k fs) @ us) (snd (zalloc_n k z s))"
proof -
  have "fst (zalloc_n k z s) = map (\<lambda>x. x + SIZEOF_ZONE_META) (take k fs) \<and>
     zone_ok z (drop k fs) (rev (take k fs) @ us) (snd (zalloc_n k z s))"
    using assms
  proof (induction k arbitrary: fs us s)
    case (Suc k)
    then obtain x gs where fs: "fs = x # gs" by (cases fs) auto
    from Suc.IH [OF zalloc_ok(2) [OF Suc.prems(1) [unfolded fs]]] zalloc_ok(1) [OF Suc.prems(1) [unfolded fs]]
      Suc.prems(2) show ?case by (auto simp: fs split: prod.splits)
  qed simp
  moreover have "distinct fs" using assms(1) by (simp add: zone_ok_def dlist_def)
  ultimately show ?thesis by (simp add: distinct_map inj_on_def)
qed

theorem zalloc_sequence_witness:
  "fst (zalloc_n 2 0xfffffff000002000 sample_zone) = [0xfffffff000200010, 0xfffffff000200038]"
  using zalloc_sequence [OF sample_zone_ok, of 2] by simp

text \<open>C8. Freeing the element just allocated succeeds and restores the zone's free and used lists
  and its counters, whatever the state of the other elements.\<close>

theorem zalloc_zfree_roundtrip:
  assumes "zone_ok z (x # fs) us s" "zone_layout z base (z_elem_size (zones s z)) n"
    and "set (x # fs) \<union> set us \<subseteq> zone_block base (z_elem_size (zones s z)) ` {0 ..< n}"
  shows "\<exists>s'. zfree z (fst (zalloc z s)) (snd (zalloc z s)) = Inr s' \<and> zone_ok z (x # fs) us s'"
proof -
  have e: "z_elem_size (zones (snd (zalloc z s)) z) = z_elem_size (zones s z)"
    by (simp add: zalloc_def Let_def set_zone_def)
  from zfree_ok [OF zalloc_ok(2) [OF assms(1)], of base n x] assms(2,3)
  show ?thesis by (auto simp: e zalloc_ok(1) [OF assms(1)])
qed

lemma sample_zone_elem: "z_elem_size (zones sample_zone z) = 24"
  by (simp add: sample_zone_def)

lemma sample_zone_image:
  "{0xfffffff000200000, 0xfffffff000200028} \<subseteq> zone_block 0xfffffff000200000 24 ` {0 ..< 2}"
  by (auto simp: zone_block_def image_iff less_2_cases_iff intro: bexI [of _ 0] bexI [of _ 1])

theorem zalloc_zfree_roundtrip_witness:
  "\<exists>s'. zfree 0xfffffff000002000 0xfffffff000200010 (snd (zalloc 0xfffffff000002000 sample_zone)) = Inr s' \<and>
     zone_ok 0xfffffff000002000 [0xfffffff000200000, 0xfffffff000200028] [] s'"
  using zalloc_zfree_roundtrip [OF sample_zone_ok, of "0xfffffff000200000" 2] sample_zone_layout sample_zone_image
    zalloc_ok(1) [OF sample_zone_ok]
  by (simp add: sample_zone_elem)

lemma sample_zone_used:
  "zone_ok 0xfffffff000002000 [] [0xfffffff000200028, 0xfffffff000200000]
     (snd (zalloc_n 2 0xfffffff000002000 sample_zone))"
  using zalloc_ok(2) [OF zalloc_ok(2) [OF sample_zone_ok]] by (simp add: numeral_2_eq_2 split_def)

text \<open>Elements may be freed in any order: freeing any used element succeeds, unlinks exactly it
  from the used list, puts it at the front of the free list and adjusts the counters.\<close>

theorem zfree_any_order:
  assumes "zone_ok z fs us s" "zone_layout z base (z_elem_size (zones s z)) n" "x \<in> set us"
    and "set fs \<union> set us \<subseteq> zone_block base (z_elem_size (zones s z)) ` {0 ..< n}"
  shows "\<exists>s'. zfree z (x + SIZEOF_ZONE_META) s = Inr s' \<and> zone_ok z (x # fs) (remove1 x us) s' \<and>
           z_elem_size (zones s' z) = z_elem_size (zones s z)"
  using zfree_ok [OF assms] by blast

theorem zfree_any_order_witness:
  "\<exists>s'. zfree 0xfffffff000002000 0xfffffff000200010 (snd (zalloc_n 2 0xfffffff000002000 sample_zone)) = Inr s' \<and>
     zone_ok 0xfffffff000002000 [0xfffffff000200000] [0xfffffff000200028] s'"
proof -
  have e: "z_elem_size (zones (snd (zalloc_n 2 0xfffffff000002000 sample_zone)) 0xfffffff000002000) = 24"
    by (simp add: numeral_2_eq_2 split_def zalloc_def Let_def set_zone_def sample_zone_elem)
  show ?thesis
    using zfree_any_order [OF sample_zone_used, of "0xfffffff000200000" 2 "0xfffffff000200000"]
      sample_zone_layout sample_zone_image
    by (auto simp: e insert_commute)
qed

text \<open>Freeing an address that is not a used element of the zone panics when some element is used,
  and is silently accepted without any effect when none is.\<close>

theorem zfree_not_allocated:
  assumes "zone_ok z fs us s" "a - SIZEOF_ZONE_META \<notin> set us"
  shows "zfree z a s = (if us = [] then Inr s
     else Inl (Panic ''failed to free element: element does not exist in zone''))"
  using assms by (rule zfree_absent)

theorem zfree_not_allocated_witness:
  "zfree 0xfffffff000002000 0xfffffff000200038 sample_zone = Inr sample_zone \<and>
   zfree 0xfffffff000002000 0xfffffff000200038 (snd (zalloc 0xfffffff000002000 sample_zone))
     = Inl (Panic ''failed to free element: element does not exist in zone'')"
  using zfree_not_allocated [OF sample_zone_ok, of "0xfffffff000200038"]
    zfree_not_allocated [OF zalloc_ok(2) [OF sample_zone_ok], of "0xfffffff000200038"] by simp

text \<open>C37. \<^verbatim>\<open>zalloc\<close> does not notice exhaustion: on a zone without free elements it returns the address
  of the zone's own \<^verbatim>\<open>used_elems\<close> list head as a fresh element and counts one element more than the
  zone has.\<close>

theorem zalloc_exhausted_returns_list_head:
  assumes "zone_ok z [] us s"
  shows "fst (zalloc z s) = z + OFF_ZONE_USED \<and>
     z_count (zones (snd (zalloc z s)) z) = word_of_nat (Suc (length us)) \<and>
     z_count_free (zones (snd (zalloc z s)) z) = - 1"
  using zalloc_exhausted [OF assms] assms by (simp add: zalloc_def Let_def set_zone_def zone_ok_def)

theorem zalloc_exhausted_returns_list_head_witness:
  "fst (zalloc 0xfffffff000002000 (snd (zalloc_n 2 0xfffffff000002000 sample_zone))) = 0xfffffff000002038"
  using zalloc_exhausted_returns_list_head [OF sample_zone_used] by simp

text \<open>The page count that \<^verbatim>\<open>zone_create\<close> computes covers every block, header included, for all
  element sizes of at least three bytes and zone sizes below 64 MiB; a two-byte element size already
  overflows the mapped range.\<close>

theorem zone_blocks_fit:
  fixes sz mx :: u64
  assumes "3 \<le> unat sz" "unat mx < 2 ^ 26"
  shows "nat (sint (z_count_free (zone_desc sz mx name i z))) * (unat sz + 16)
           \<le> 4096 * unat (alloc_page_count (scast (z_page_count (zone_desc sz mx name i z) * 4096 :: i32))) \<and>
         4096 * unat (alloc_page_count (scast (z_page_count (zone_desc 2 460 name i z) * 4096 :: i32)))
           < nat (sint (z_count_free (zone_desc 2 460 name i z))) * (2 + 16)"
  using zone_desc_numbers [of sz mx name i z] zone_desc_numbers [of 2 460 name i z]
    zone_pages_fit [OF assms(1), of "unat mx"] assms
  by (simp add: zone_pages_def [of 2])

theorem zone_blocks_fit_witness:
  "nat (sint (z_count_free (zone_desc 288 6912 ''thread_zone'' 0 zero_zone))) * 304 \<le>
     4096 * unat (alloc_page_count (scast (z_page_count (zone_desc 288 6912 ''thread_zone'' 0 zero_zone) * 4096 :: i32)))"
  using zone_blocks_fit [of 288 6912 "''thread_zone''" 0 zero_zone] by simp

end
