(* ===== verification/Cpu.thy ===== *)
theory Cpu
  imports Zalloc
begin

section \<open>CPUs and processors (kern/cpu.c, kern/processor.c, kern/machine.c)\<close>

text \<open>
  \<^verbatim>\<open>CpuDataEntries\<close> is a table of 16 structures indexed by a signed CPU number. Its accessors
  check the number against the global \<^verbatim>\<open>cpu_count\<close>, which no code ever changes from 0; an
  access outside the table is \<open>Undefined\<close>. A structure passed by address (\<^verbatim>\<open>cpu_t *\<close>) is a value
  here, \<open>None\<close> standing for a null pointer.
\<close>

subsection \<open>The CPU number\<close>

abbreviation CPU_NUMBER_MAX :: nat where "CPU_NUMBER_MAX \<equiv> 16"
abbreviation KERN_RETURN_SUCCESS :: i32 where "KERN_RETURN_SUCCESS \<equiv> 0"
abbreviation KERN_RETURN_FAIL :: i32 where "KERN_RETURN_FAIL \<equiv> 1"
abbreviation CPU_FLAG_THREADING_ENABLED :: u32 where "CPU_FLAG_THREADING_ENABLED \<equiv> 1"

definition MPIDR_TO_CPU_NUM :: "u64 \<Rightarrow> u64" where
  "MPIDR_TO_CPU_NUM mpidr = mpidr AND (0xff00 OR 0xff)"

text \<open>The loop over the topology; \<open>cs\<close> are the entries still to be looked at.\<close>

fun machine_check_cpu :: "i32 \<Rightarrow> u32 \<Rightarrow> topology_cpu list \<Rightarrow> i32 outcome" where
  "machine_check_cpu num max_id [] = Inr num"
| "machine_check_cpu num max_id (c # cs) =
     (if tc_phys_id c = num
      then (if num \<le> max_id then Inr num
            else Inl (AssertFailed ''cpu_num <= topology_info.max_cpu_id''))
      else machine_check_cpu num max_id cs)"

definition machine_get_cpu_num :: "arch_env \<Rightarrow> kstate \<Rightarrow> i32 outcome" where
  "machine_get_cpu_num env s =
     machine_check_cpu (ucast (MPIDR_TO_CPU_NUM (mpidr_el1 env))) (ti_max_cpu_id (topology s))
       (take (unat (ti_num_cpus (topology s))) (ti_cpus (topology s)))"

definition machine_get_boot_cpu_num :: "kstate \<Rightarrow> u32 outcome" where
  "machine_get_boot_cpu_num s =
     (case ti_boot_cpu (topology s) of
        None \<Rightarrow> Inl (Undefined ''topology_info.boot_cpu'')
      | Some i \<Rightarrow> Inr (tc_cpu_id (ti_cpus (topology s) ! i)))"

subsection \<open>CPU data\<close>

text \<open>\<^verbatim>\<open>CPU_NUMBER_MAX\<close> is unsigned, so a negative number fails the first assertion but not the second.\<close>

definition CPU_ASSERT_VALID :: "cpu_data option \<Rightarrow> cpu_data outcome" where
  "CPU_ASSERT_VALID cpu =
     (case cpu of
        None \<Rightarrow> Inl (Panic ''cpu: assertion failed: invalid cpu data structure'')
      | Some c \<Rightarrow> if 16 \<le> (scast (cpu_num c) :: u64)
                  then Inl (Panic ''cpu: assertion failed: invalid cpu_id'') else Inr c)"

definition CPU_ASSERT_VALID_ID :: "i32 \<Rightarrow> kstate \<Rightarrow> unit outcome" where
  "CPU_ASSERT_VALID_ID cpuid s =
     (if sint (cpu_count s) < sint cpuid then Inl (Panic ''cpu: assertion failed: cpu_id is larger than count'')
      else Inr ())"

definition in_cpu_table :: "i32 \<Rightarrow> bool" where
  "in_cpu_table cpuid \<longleftrightarrow> 0 \<le> sint cpuid \<and> sint cpuid < int CPU_NUMBER_MAX"

definition cpu_get_cpu :: "i32 \<Rightarrow> kstate \<Rightarrow> cpu_data outcome" where
  "cpu_get_cpu cpuid s =
     (if in_cpu_table cpuid then Inr (cpu_data_entries s cpuid) else Inl (Undefined ''CpuDataEntries''))"

definition update_cpu :: "i32 \<Rightarrow> (cpu_data \<Rightarrow> cpu_data) \<Rightarrow> kstate \<Rightarrow> kstate outcome" where
  "update_cpu cpuid f s =
     (if in_cpu_table cpuid
      then Inr (s\<lparr>cpu_data_entries := (cpu_data_entries s)(cpuid := f (cpu_data_entries s cpuid))\<rparr>)
      else Inl (Undefined ''CpuDataEntries''))"

definition cpu_register :: "cpu_data option \<Rightarrow> kstate \<Rightarrow> (i32 \<times> kstate) outcome" where
  "cpu_register cpu s =
     andthen (CPU_ASSERT_VALID cpu) (\<lambda>c.
       andthen (update_cpu (cpu_num c) (\<lambda>_. c) s) (\<lambda>s1. Inr (KERN_RETURN_SUCCESS, s1)))"

definition cpu_create :: "arch_env \<Rightarrow> addr \<Rightarrow> addr \<Rightarrow> kstate \<Rightarrow> (cpu_data \<times> i32 \<times> kstate) outcome" where
  "cpu_create env excepstack intstack s =
     andthen (machine_get_cpu_num env s) (\<lambda>n.
       let c = zero_cpu_data\<lparr>cpu_flags := 0, cpu_reset_handler := kvtop env (sym_LowResetVector env),
                 cpu_excepstack_top := excepstack, cpu_intstack_top := intstack, cpu_num := n\<rparr>
       in andthen (cpu_register (Some c) s) (\<lambda>(r, s1). Inr (c, r, s1)))"

definition cpu_set_flag :: "i32 \<Rightarrow> u32 \<Rightarrow> kstate \<Rightarrow> (i32 \<times> kstate) outcome" where
  "cpu_set_flag cpuid flag s =
     andthen (CPU_ASSERT_VALID_ID cpuid s) (\<lambda>_.
       andthen (update_cpu cpuid (\<lambda>c. c\<lparr>cpu_flags := cpu_flags c OR flag\<rparr>) s) (\<lambda>s1. Inr (KERN_RETURN_SUCCESS, s1)))"

definition cpu_read_flag :: "i32 \<Rightarrow> u32 \<Rightarrow> kstate \<Rightarrow> i32 outcome" where
  "cpu_read_flag cpuid flag s =
     andthen (CPU_ASSERT_VALID_ID cpuid s) (\<lambda>_.
       andthen (cpu_get_cpu cpuid s) (\<lambda>c.
         Inr (if cpu_flags c AND flag = flag then KERN_RETURN_FAIL else KERN_RETURN_SUCCESS)))"

definition cpu_set_active_stack :: "i32 \<Rightarrow> addr \<Rightarrow> kstate \<Rightarrow> (i32 \<times> kstate) outcome" where
  "cpu_set_active_stack cpuid stack s =
     andthen (CPU_ASSERT_VALID_ID cpuid s) (\<lambda>_.
       andthen (update_cpu cpuid (\<lambda>c. c\<lparr>cpu_active_stack := stack\<rparr>) s) (\<lambda>s1. Inr (KERN_RETURN_SUCCESS, s1)))"

definition cpu_set_active_thread :: "i32 \<Rightarrow> addr \<Rightarrow> kstate \<Rightarrow> (i32 \<times> kstate) outcome" where
  "cpu_set_active_thread cpuid thread s =
     andthen (CPU_ASSERT_VALID_ID cpuid s) (\<lambda>_.
       if thread = NULL then Inl (Panic ''cpu: failed to set cpu active thread: invalid thread'')
       else andthen (update_cpu cpuid (\<lambda>c. c\<lparr>cpu_active_thread := thread\<rparr>) s)
              (\<lambda>s1. Inr (KERN_RETURN_SUCCESS, s1)))"

definition cpu_set_processor :: "i32 \<Rightarrow> addr \<Rightarrow> kstate \<Rightarrow> (i32 \<times> kstate) outcome" where
  "cpu_set_processor cpuid processor s =
     andthen (CPU_ASSERT_VALID_ID cpuid s) (\<lambda>_.
       andthen (update_cpu cpuid (\<lambda>c. c\<lparr>cpu_processor := processor\<rparr>) s) (\<lambda>s1. Inr (KERN_RETURN_SUCCESS, s1)))"

definition cpu_set_boot_cpu :: "cpu_data option \<Rightarrow> kstate \<Rightarrow> (i32 \<times> kstate) outcome" where
  "cpu_set_boot_cpu cpu s =
     andthen (CPU_ASSERT_VALID cpu) (\<lambda>c.
       let s1 = s\<lparr>boot_cpu_data := c\<rparr>
       in andthen (CPU_ASSERT_VALID (Some (boot_cpu_data s1))) (\<lambda>_. Inr (KERN_RETURN_SUCCESS, s1)))"

definition cpu_get_current :: "arch_env \<Rightarrow> kstate \<Rightarrow> cpu_data outcome" where
  "cpu_get_current env s = andthen (machine_get_cpu_num env s) (\<lambda>n. cpu_get_cpu n s)"

definition cpu_get_processor :: "i32 \<Rightarrow> kstate \<Rightarrow> addr outcome" where
  "cpu_get_processor cpuid s =
     andthen (cpu_get_cpu cpuid s) (\<lambda>c. andthen (CPU_ASSERT_VALID (Some c)) (\<lambda>c. Inr (cpu_processor c)))"

definition processor_get_cpu :: "addr \<Rightarrow> kstate \<Rightarrow> cpu_data outcome" where
  "processor_get_cpu processor s =
     (let cpu_id = pr_cpu_id (proc_objs s processor)
      in andthen (CPU_ASSERT_VALID_ID cpu_id s) (\<lambda>_.
           andthen (cpu_get_cpu cpu_id s) (\<lambda>c. CPU_ASSERT_VALID (Some c))))"

subsection \<open>Processors\<close>

abbreviation PROCESSOR_STATE_INACTIVE :: i32 where "PROCESSOR_STATE_INACTIVE \<equiv> 0"
abbreviation THREAD_PRIORITY_LOW :: i32 where "THREAD_PRIORITY_LOW \<equiv> 0"

definition processor_create :: "arch_env \<Rightarrow> i32 \<Rightarrow> kstate \<Rightarrow> addr \<times> kstate" where
  "processor_create env cpu_id s =
     (case zalloc (processor_zone s) s of
        (processor, s1) \<Rightarrow>
          let s2 = memset_zero processor SIZEOF_PROCESSOR s1;
              s3 = s2\<lparr>proc_objs := (proc_objs s2)(processor := (proc_objs s2 processor)\<lparr>
                     pr_state := PROCESSOR_STATE_INACTIVE, pr_active_thread := NULL,
                     pr_next_thread := NULL, pr_idle_thread := NULL,
                     pr_priority := THREAD_PRIORITY_LOW, pr_cpu_id := cpu_id\<rparr>)\<rparr>;
              s4 = s3\<lparr>lists := list_add_tail (processor + OFF_PROC_LIST) (sym_idle_processors env) (lists s3)\<rparr>
          in (processor, s4\<lparr>processor_count := processor_count s4 + 1\<rparr>))"

definition processor_init :: "arch_env \<Rightarrow> kstate \<Rightarrow> kstate outcome" where
  "processor_init env s =
     (let s1 = s\<lparr>lists := fold INIT_LIST_HEAD
                  [sym_active_processors env, sym_idle_processors env, sym_tasks env, sym_threads env] (lists s)\<rparr>
      in andthen (zone_create env SIZEOF_PROCESSOR (16 * SIZEOF_PROCESSOR) ''processor_zone'' s1) (\<lambda>(z, s2).
           case processor_create env 0 (s2\<lparr>processor_zone := z\<rparr>) of
             (p, s3) \<Rightarrow>
               let s4 = s3\<lparr>primary_processor := p\<rparr>
               in andthen (cpu_set_processor (pr_cpu_id (proc_objs s4 p)) p s4) (\<lambda>(_, s5). Inr s5)))"

subsection \<open>The table\<close>

lemma valid_cpu_in_table:
  assumes "CPU_ASSERT_VALID (Some c) = Inr d"
  shows "d = c" "in_cpu_table (cpu_num c)"
proof -
  have lt: "(scast (cpu_num c) :: u64) < 16" and "d = c"
    using assms by (auto simp: CPU_ASSERT_VALID_def split: if_splits)
  then show "d = c" by simp
  show "in_cpu_table (cpu_num c)"
  proof (cases "0 \<le> sint (cpu_num c)")
    case True
    have "sint (cpu_num c) < 2 ^ 31" using sint_lt [of "cpu_num c"] by simp
    then have "sint (cpu_num c) mod 2 ^ 64 = sint (cpu_num c)"
      using True by (intro mod_pos_pos_trivial) simp_all
    then have "uint (scast (cpu_num c) :: u64) = sint (cpu_num c)"
      unfolding scast_eq uint_word_of_int by (simp add: take_bit_eq_mod)
    then show ?thesis using lt True by (simp add: in_cpu_table_def word_less_def)
  next
    case False
    have "- (2 ^ 31) \<le> sint (cpu_num c)" using sint_ge [of "cpu_num c"] by simp
    then have "(sint (cpu_num c) + 2 ^ 64) mod 2 ^ 64 = sint (cpu_num c) + 2 ^ 64"
      using False by (intro mod_pos_pos_trivial) simp_all
    then have "uint (scast (cpu_num c) :: u64) = sint (cpu_num c) + 2 ^ 64"
      unfolding scast_eq uint_word_of_int by (simp add: take_bit_eq_mod)
    then show ?thesis using lt False \<open>- (2 ^ 31) \<le> sint (cpu_num c)\<close> by (simp add: word_less_def)
  qed
qed

subsection \<open>Properties\<close>

text \<open>Registration never touches memory outside \<^verbatim>\<open>CpuDataEntries\<close>: it panics on a null pointer or a
  cpu number outside the table, and otherwise stores the structure so that looking the cpu up returns
  it, with every other entry unchanged.\<close>

theorem cpu_register_lookup:
  "case cpu_register cpu s of
     Inl e \<Rightarrow> (cpu = None \<and> e = Panic ''cpu: assertion failed: invalid cpu data structure'') \<or>
       (\<exists>c. cpu = Some c \<and> \<not> in_cpu_table (cpu_num c) \<and> e = Panic ''cpu: assertion failed: invalid cpu_id'')
   | Inr (r, s') \<Rightarrow> (\<exists>c. cpu = Some c \<and> in_cpu_table (cpu_num c) \<and> r = KERN_RETURN_SUCCESS \<and>
       cpu_get_cpu (cpu_num c) s' = Inr c \<and>
       (\<forall>i. i \<noteq> cpu_num c \<longrightarrow> cpu_get_cpu i s' = cpu_get_cpu i s))"
proof (cases cpu)
  case None
  then show ?thesis by (simp add: cpu_register_def CPU_ASSERT_VALID_def)
next
  case (Some c)
  show ?thesis
  proof (cases "CPU_ASSERT_VALID (Some c)")
    case (Inl e)
    then have big: "16 \<le> (scast (cpu_num c) :: u64)"
      and e: "e = Panic ''cpu: assertion failed: invalid cpu_id''"
      by (auto simp: CPU_ASSERT_VALID_def split: if_splits)
    have "\<not> in_cpu_table (cpu_num c)"
    proof
      assume t: "in_cpu_table (cpu_num c)"
      then have "uint (scast (cpu_num c) :: u64) = sint (cpu_num c)"
        unfolding scast_eq uint_word_of_int by (simp add: in_cpu_table_def)
      then show False using t big by (simp add: in_cpu_table_def word_le_def)
    qed
    with Inl e Some show ?thesis by (simp add: cpu_register_def)
  next
    case (Inr d)
    from valid_cpu_in_table [OF this] Inr Some show ?thesis
      by (auto simp: cpu_register_def update_cpu_def cpu_get_cpu_def)
  qed
qed

theorem cpu_register_lookup_witness:
  "\<exists>s'. cpu_register (Some (zero_cpu_data\<lparr>cpu_num := 3\<rparr>)) reset_state = Inr (KERN_RETURN_SUCCESS, s') \<and>
     cpu_get_cpu 3 s' = Inr (zero_cpu_data\<lparr>cpu_num := 3\<rparr>)"
  using cpu_register_lookup [of "Some (zero_cpu_data\<lparr>cpu_num := 3\<rparr>)" reset_state]
  by (auto simp: in_cpu_table_def split: sum.splits)

text \<open>Flags are sticky but reported the wrong way round: after \<^verbatim>\<open>cpu_set_flag\<close> has succeeded,
  \<^verbatim>\<open>cpu_read_flag\<close> of that flag returns \<^verbatim>\<open>KERN_RETURN_FAIL\<close>, while for a flag with no bit set it returns
  \<^verbatim>\<open>KERN_RETURN_SUCCESS\<close>.\<close>

theorem cpu_flag_read_inverted:
  assumes "cpu_set_flag cpuid flag s = Inr (r, s')"
  shows "cpu_read_flag cpuid flag s' = Inr KERN_RETURN_FAIL \<and>
     (\<forall>f. f \<noteq> 0 \<and> cpu_flags (cpu_data_entries s' cpuid) AND f = 0 \<longrightarrow>
        cpu_read_flag cpuid f s' = Inr KERN_RETURN_SUCCESS)"
  using assms
  by (auto simp: cpu_set_flag_def cpu_read_flag_def update_cpu_def cpu_get_cpu_def CPU_ASSERT_VALID_ID_def
        bit.conj_disj_distrib2 split: if_splits)

theorem cpu_flag_read_inverted_witness:
  "\<exists>s'. cpu_set_flag 0 CPU_FLAG_THREADING_ENABLED reset_state = Inr (KERN_RETURN_SUCCESS, s') \<and>
     cpu_read_flag 0 CPU_FLAG_THREADING_ENABLED s' = Inr KERN_RETURN_FAIL"
proof -
  obtain s' where "cpu_set_flag 0 CPU_FLAG_THREADING_ENABLED reset_state = Inr (KERN_RETURN_SUCCESS, s')"
    by (auto simp: cpu_set_flag_def CPU_ASSERT_VALID_ID_def update_cpu_def in_cpu_table_def reset_state_def)
  with cpu_flag_read_inverted [OF this] show ?thesis by blast
qed

text \<open>No operation of the code increments \<^verbatim>\<open>cpu_count\<close>, so the check of cpu identifiers rejects every
  cpu but the first: each of the setters panics for a positive identifier, also a registered one.\<close>

theorem cpu_setters_reject_secondary:
  assumes "cpu_count s = 0" "0 < sint cpuid"
  defines "p \<equiv> Inl (Panic ''cpu: assertion failed: cpu_id is larger than count'')"
  shows "cpu_set_flag cpuid flag s = p \<and> cpu_set_active_stack cpuid stack s = p \<and>
     cpu_set_active_thread cpuid thread s = p \<and> cpu_set_processor cpuid processor s = p"
  using assms by (simp add: cpu_set_flag_def cpu_set_active_stack_def cpu_set_active_thread_def
      cpu_set_processor_def CPU_ASSERT_VALID_ID_def)

theorem cpu_setters_reject_secondary_witness:
  "cpu_set_active_thread 1 0xfffffff000220010 reset_state
     = Inl (Panic ''cpu: assertion failed: cpu_id is larger than count'')"
  using cpu_setters_reject_secondary [of reset_state 1] by (simp add: reset_state_def)

end
