(* ===== verification/Gic.thy ===== *)
theory Gic
  imports Mmio Vm Cpu
begin

section \<open>The interrupt controller and the timer\<close>

text \<open>
  \<^verbatim>\<open>drivers/irq/irq-gicv3.c\<close> with the register frames of its header, the machine interrupt
  interface \<^verbatim>\<open>kern/machine/machine-irq.c\<close> and the timer interface
  \<^verbatim>\<open>kern/machine/machine_timer.c\<close>. The frames are memory-mapped (\<^const>\<open>mmio_read\<close> and
  \<^const>\<open>mmio_write\<close>, a byte access being recorded with its value extended); the cpu interface and
  the timer are system registers, kept in the state. The barriers order accesses of a single
  processor and have no effect here; the messages are left out.
\<close>

subsection \<open>Register frames\<close>

definition gicv3_dist_frame :: "member list" where
  "gicv3_dist_frame =
    [(''ctlr'', 4, 1), (''typer'', 4, 1), (''iidr'', 4, 1), (''typer2'', 4, 1), (''statusr'', 4, 1),
     (''reserved0'', 4, 11),
     (''setspi_nsr'', 4, 1), (''reserved1'', 4, 1),
     (''clrspi_nsr'', 4, 1), (''reserved2'', 4, 1),
     (''setspi_sr'', 4, 1), (''reserved3'', 4, 1),
     (''clrspi_sr'', 4, 1), (''reserved4'', 4, 9),
     (''igroupr'', 4, 32), (''isenabler'', 4, 32), (''icenabler'', 4, 32), (''ispendr'', 4, 32),
     (''icpendr'', 4, 32), (''isactiver'', 4, 32), (''icactiver'', 4, 32),
     (''ipriorityr'', 4, 256), (''itargetsr'', 4, 256), (''icfgr'', 4, 64), (''igrpmodr'', 4, 64),
     (''nsacr'', 4, 64), (''sgir'', 4, 1), (''reserved5'', 4, 3),
     (''cpendsgir'', 4, 4), (''spendsgir'', 4, 4), (''reserved6'', 4, 52),
     (''igroupre'', 4, 128), (''isenablere'', 4, 128), (''icenablere'', 4, 128), (''ispendre'', 4, 128),
     (''icpendre'', 4, 128), (''isactivere'', 4, 128), (''icactivere'', 4, 128), (''reserved7'', 4, 128),
     (''ipriorityre'', 4, 1024), (''icfgre'', 4, 256), (''igrpmodre'', 4, 128), (''nsacre'', 4, 64),
     (''reserved8'', 4, 2688), (''irouter'', 4, 1024), (''reserved9'', 4, 9146), (''pidr2'', 4, 1)]"

definition gicv3_redist_sgis_frame :: "member list" where
  "gicv3_redist_sgis_frame =
    [(''reserved0'', 4, 32), (''igroupr'', 4, 3), (''reserved1'', 4, 29),
     (''isenabler'', 4, 3), (''reserved2'', 4, 29), (''icenabler'', 4, 3), (''reserved3'', 4, 29),
     (''ispendr'', 4, 3), (''reserved4'', 4, 29), (''icpendr'', 4, 3), (''reserved5'', 4, 29),
     (''isactiver'', 4, 3), (''reserved6'', 4, 29), (''icactiver'', 4, 3), (''reserved7'', 4, 29),
     (''ipriorityr'', 1, 96), (''reserved8'', 4, 488), (''icfgr'', 4, 6), (''reserved9'', 4, 58),
     (''igrpmodr'', 4, 3), (''reserved10'', 4, 61), (''nsacr'', 4, 1)]"

definition gicv3_redist_lpis_frame :: "member list" where
  "gicv3_redist_lpis_frame =
    [(''ctlr'', 4, 1), (''iidr'', 4, 1), (''typer'', 4, 2), (''statusr'', 4, 1), (''waker'', 4, 1),
     (''mpamidr'', 4, 1), (''partid'', 4, 1), (''reserved0'', 4, 8),
     (''setlpir'', 8, 1), (''clrlpir'', 8, 1), (''reserved1'', 4, 6), (''seir'', 4, 1), (''reserved2'', 4, 1),
     (''propbaser'', 8, 1), (''pendbaser'', 8, 1), (''reserved3'', 4, 8),
     (''invlpir'', 8, 1), (''reserved4'', 4, 2), (''invallr'', 8, 1), (''reserved5'', 4, 2),
     (''syncr'', 8, 1), (''reserved6'', 4, 2), (''reserved7'', 4, 1),
     (''movlpir'', 8, 1), (''reserved8'', 4, 2), (''movallr'', 8, 1)]"

text \<open>\<^verbatim>\<open>struct gicv3_redist_frame\<close>: both members aligned to 64 KiB, so one frame is 128 KiB.\<close>

definition redist_lpis :: "addr \<Rightarrow> u32 \<Rightarrow> string \<Rightarrow> addr" where
  "redist_lpis redist index f = reg gicv3_redist_lpis_frame (redist + 0x20000 * ucast index) f"

definition redist_sgis :: "addr \<Rightarrow> u32 \<Rightarrow> string \<Rightarrow> addr" where
  "redist_sgis redist index f = reg gicv3_redist_sgis_frame (redist + 0x20000 * ucast index + 0x10000) f"

subsection \<open>State\<close>

record gic =
  gic_version :: i32
  gic_dist_base :: addr
  gic_redist_base :: addr
  gic_max_redist_idx :: u32
  gic_initialised :: bool
  gic_dist :: addr
  gic_redist :: addr
  gic_io :: io
  icc_sre_el1 :: u64
  icc_pmr_el1 :: u64
  icc_igrpen1_el1 :: u64
  icc_sgi1r_el1 :: "u64 list"
  cntp_tval_el0 :: u64
  cntp_ctl_el0 :: u64

definition gic_write :: "addr \<Rightarrow> u32 \<Rightarrow> gic \<Rightarrow> gic" where
  "gic_write a v g = g\<lparr>gic_io := mmio_write a v (gic_io g)\<rparr>"

definition gic_read :: "device \<Rightarrow> addr \<Rightarrow> gic \<Rightarrow> u32 \<times> gic" where
  "gic_read dev a g = (case mmio_read dev a (gic_io g) of (v, s) \<Rightarrow> (v, g\<lparr>gic_io := s\<rparr>))"

text \<open>\<^verbatim>\<open>*a = f (*a)\<close>\<close>

definition gic_update :: "device \<Rightarrow> addr \<Rightarrow> (u32 \<Rightarrow> u32) \<Rightarrow> gic \<Rightarrow> gic" where
  "gic_update dev a f g = (case gic_read dev a g of (v, g') \<Rightarrow> gic_write a (f v) g')"

abbreviation GICD_CTLR_ENABLE_G1NS_BIT :: u32 where "GICD_CTLR_ENABLE_G1NS_BIT \<equiv> 2"
abbreviation GICD_CTLR_ARE_NS_BIT :: u32 where "GICD_CTLR_ARE_NS_BIT \<equiv> 0x20"
abbreviation GICD_CTLR_DS_BIT :: u32 where "GICD_CTLR_DS_BIT \<equiv> 0x40"
abbreviation GICR_WAKER_PS_BIT :: u32 where "GICR_WAKER_PS_BIT \<equiv> 2"
abbreviation GICR_WAKER_CA_BIT :: u32 where "GICR_WAKER_CA_BIT \<equiv> 4"
abbreviation ICC_SRE_SRE_BIT :: u64 where "ICC_SRE_SRE_BIT \<equiv> 1"
abbreviation ICC_SRE_EN_BIT :: u64 where "ICC_SRE_EN_BIT \<equiv> 8"

subsection \<open>Redistributors\<close>

text \<open>\<^verbatim>\<open>~(0xff << 24)\<close> is an \<^verbatim>\<open>int\<close>, \<^verbatim>\<open>0x00ffffff\<close>, and keeps the low 24 bits only.\<close>

definition arm64_read_affinity :: "arch_env \<Rightarrow> u64" where
  "arm64_read_affinity env =
     (let mpidr = mpidr_el1 env in (mpidr AND 0xffffff) OR push_bit 24 (drop_bit 32 mpidr AND 0xff))"

partial_function (option) redist_search ::
  "device \<Rightarrow> addr \<Rightarrow> u32 \<Rightarrow> u32 \<Rightarrow> u32 \<Rightarrow> io \<Rightarrow> (u32 \<times> io) option" where
  "redist_search dev redist max_idx affinity index s =
     (case mmio_read dev (redist_lpis redist index ''typer'' + 4) s of (v, s') \<Rightarrow>
        if v = affinity then Some (index, s')
        else if index + 1 \<le> max_idx then redist_search dev redist max_idx affinity (index + 1) s'
        else Some (0xffffffff, s'))"

definition gic_get_redist_id :: "device \<Rightarrow> u32 \<Rightarrow> gic \<Rightarrow> (u32 \<times> gic) outcome" where
  "gic_get_redist_id dev affinity g =
     andthen (terminates (redist_search dev (gic_redist g) (gic_max_redist_idx g) affinity 0 (gic_io g)))
       (\<lambda>(index, s). Inr (index, g\<lparr>gic_io := s\<rparr>))"

subsection \<open>Configuration\<close>

definition gic_get_version :: "device \<Rightarrow> gic \<Rightarrow> i32 \<times> gic" where
  "gic_get_version dev g =
     (case gic_read dev (reg gicv3_dist_frame (gic_dist g) ''pidr2'') g of
        (v, g') \<Rightarrow> (drop_bit 4 v AND 0xf, g'))"

definition gic_dist_init :: "device \<Rightarrow> gic \<Rightarrow> gic" where
  "gic_dist_init dev g =
     (let (v, g1) = gic_get_version dev g;
          g2 = g1\<lparr>gic_version := v\<rparr>;
          ctlr = reg gicv3_dist_frame (gic_dist g2) ''ctlr'';
          g3 = gic_write ctlr (GICD_CTLR_ARE_NS_BIT OR GICD_CTLR_DS_BIT) g2
      in gic_update dev ctlr (\<lambda>v. v OR GICD_CTLR_ENABLE_G1NS_BIT) g3)"

definition gic_redist_init :: "device \<Rightarrow> arch_env \<Rightarrow> kstate \<Rightarrow> gic \<Rightarrow> gic outcome" where
  "gic_redist_init dev env s g =
     andthen (machine_get_cpu_num env s) (\<lambda>cpu_num.
       andthen (gic_get_redist_id dev (ucast (arm64_read_affinity env))
                 (g\<lparr>gic_max_redist_idx := ti_max_cpu_id (topology s)\<rparr>)) (\<lambda>(redist_id, g1).
         let waker = redist_lpis (gic_redist g1) redist_id ''waker'';
             g2 = gic_update dev waker (\<lambda>v. v AND NOT GICR_WAKER_PS_BIT) g1
         in andthen (terminates (mmio_poll dev waker GICR_WAKER_CA_BIT (gic_io g2))) (\<lambda>s'.
              Inr (g2\<lparr>gic_io := s'\<rparr>))))"

definition gic_cpuif_init :: "gic \<Rightarrow> gic" where
  "gic_cpuif_init g =
     (let g1 = g\<lparr>icc_sre_el1 := icc_sre_el1 g OR (ICC_SRE_EN_BIT OR ICC_SRE_SRE_BIT)\<rparr>;
          g2 = g1\<lparr>icc_pmr_el1 := 0xff\<rparr>
      in g2\<lparr>icc_igrpen1_el1 := icc_igrpen1_el1 g2 OR 1\<rparr>)"

definition gic_interface_init :: "device \<Rightarrow> arch_env \<Rightarrow> addr \<Rightarrow> addr \<Rightarrow> kstate \<Rightarrow> gic \<Rightarrow> (i32 \<times> gic) outcome" where
  "gic_interface_init dev env dist_base redist_base s g =
     (let g1 = g\<lparr>gic_dist_base := dist_base, gic_redist_base := redist_base,
                 gic_dist := dist_base, gic_redist := redist_base\<rparr>;
          g2 = gic_dist_init dev g1
      in andthen (gic_redist_init dev env s g2) (\<lambda>g3.
           let g4 = gic_cpuif_init g3 in Inr (KERN_RETURN_SUCCESS, g4\<lparr>gic_initialised := True\<rparr>)))"

subsection \<open>Interrupts\<close>

abbreviation GIC_IRQ_CONTROL_DISABLE :: i32 where "GIC_IRQ_CONTROL_DISABLE \<equiv> 0"
abbreviation GIC_IRQ_CONTROL_ENABLE :: i32 where "GIC_IRQ_CONTROL_ENABLE \<equiv> 1"

definition gic_irq_control :: "device \<Rightarrow> arch_env \<Rightarrow> u32 \<Rightarrow> i32 \<Rightarrow> gic \<Rightarrow> gic outcome" where
  "gic_irq_control dev env intid ctrl g =
     (if intid < 31
      then andthen (gic_get_redist_id dev (ucast (arm64_read_affinity env)) g) (\<lambda>(redist_id, g1).
             if gic_max_redist_idx g1 < redist_id
             then Inl (Panic ''irq: failed to obtain redistributor for cpu'')
             else let bit = push_bit (unat (intid AND 0x1f)) 1
                  in Inr (if ctrl = GIC_IRQ_CONTROL_ENABLE
                          then gic_update dev (redist_sgis (gic_redist g1) redist_id ''isenabler'') (\<lambda>v. v OR bit) g1
                          else if ctrl = GIC_IRQ_CONTROL_DISABLE
                          then gic_update dev (redist_sgis (gic_redist g1) redist_id ''icenabler'') (\<lambda>v. v OR bit) g1
                          else g1))
      else Inr g)"

definition gic_irq_register :: "device \<Rightarrow> arch_env \<Rightarrow> u32 \<Rightarrow> u32 \<Rightarrow> gic \<Rightarrow> (i32 \<times> gic) outcome" where
  "gic_irq_register dev env intid priority g =
     (if intid < 31
      then andthen (gic_get_redist_id dev (ucast (arm64_read_affinity env)) g) (\<lambda>(redist_id, g1).
             if gic_max_redist_idx g1 < redist_id then Inr (KERN_RETURN_FAIL, g1)
             else
               let sgis = redist_sgis (gic_redist g1) redist_id;
                   g2 = gic_write (sgis ''ipriorityr'' + ucast intid) (ucast (ucast priority :: u8)) g1;
                   bit = push_bit (unat (intid AND 0x1f)) 1;
                   (group, g3) = gic_read dev (sgis ''igroupr'') g2;
                   (md, g4) = gic_read dev (sgis ''igrpmodr'') g3;
                   group = (group OR bit);
                   md = (md AND NOT bit);
                   g5 = gic_write (sgis ''igroupr'') group g4;
                   g6 = gic_write (sgis ''igrpmodr'') md g5
               in andthen (gic_irq_control dev env intid GIC_IRQ_CONTROL_ENABLE g6)
                    (\<lambda>g7. Inr (KERN_RETURN_SUCCESS, g7)))
      else if intid < 1020 then Inr (KERN_RETURN_FAIL, g)
      else Inr (KERN_RETURN_FAIL, g))"

definition gic_irq_enable :: "device \<Rightarrow> arch_env \<Rightarrow> u64 \<Rightarrow> gic \<Rightarrow> gic outcome" where
  "gic_irq_enable dev env intid g = gic_irq_control dev env (ucast intid) GIC_IRQ_CONTROL_ENABLE g"

definition gic_irq_disable :: "device \<Rightarrow> arch_env \<Rightarrow> u64 \<Rightarrow> gic \<Rightarrow> gic outcome" where
  "gic_irq_disable dev env intid g = gic_irq_control dev env (ucast intid) GIC_IRQ_CONTROL_DISABLE g"

definition MPIDR_AFFLVL1_VAL :: "u64 \<Rightarrow> u64" where "MPIDR_AFFLVL1_VAL mpidr = drop_bit 8 mpidr AND 0xff"
definition MPIDR_AFFLVL2_VAL :: "u64 \<Rightarrow> u64" where "MPIDR_AFFLVL2_VAL mpidr = drop_bit 16 mpidr AND 0xff"
definition MPIDR_AFFLVL3_VAL :: "u64 \<Rightarrow> u64" where "MPIDR_AFFLVL3_VAL mpidr = 0"

definition CREATE_SGIR_VALUE :: "u64 \<Rightarrow> u64 \<Rightarrow> u64 \<Rightarrow> u64 \<Rightarrow> u64 \<Rightarrow> u64 \<Rightarrow> u64" where
  "CREATE_SGIR_VALUE aff3 aff2 aff1 intid irm tgt =
     push_bit 48 aff3 OR push_bit 40 irm OR push_bit 32 aff2 OR push_bit 24 intid OR push_bit 16 aff1 OR tgt"

definition gic_send_sgi :: "arch_env \<Rightarrow> u64 \<Rightarrow> u64 \<Rightarrow> gic \<Rightarrow> gic" where
  "gic_send_sgi env intid target g =
     (let mpidr = mpidr_el1 env;
          sgi_val = CREATE_SGIR_VALUE (MPIDR_AFFLVL3_VAL mpidr) (MPIDR_AFFLVL2_VAL mpidr)
            (MPIDR_AFFLVL1_VAL mpidr) intid 0 target
      in g\<lparr>icc_sgi1r_el1 := icc_sgi1r_el1 g @ [sgi_val]\<rparr>)"

subsection \<open>The machine interface\<close>

definition machine_init_interrupts :: "device \<Rightarrow> arch_env \<Rightarrow> kstate \<Rightarrow> gic \<Rightarrow> (i32 \<times> kstate \<times> gic) outcome" where
  "machine_init_interrupts dev env s g =
     (let gic_region_virt_base = 0xffffffff11000000; gic_region_base = 0x8000000;
          gicd_virt_base = gic_region_virt_base + 0; gicd_phys_base = gic_region_base + 0; gicd_size = 0x10000;
          gicr_virt_base = gic_region_virt_base + 0xa0000; gicr_phys_base = gic_region_base + 0xa0000;
          gicr_size = 0xf60000
      in andthen (pmap_tt_create_tte env (kernel_tte s) gicd_phys_base gicd_virt_base gicd_size PMAP_ACCESS_READWRITE s)
           (\<lambda>(_, s1).
         andthen (pmap_tt_create_tte env (kernel_tte s1) gicr_phys_base gicr_virt_base gicr_size PMAP_ACCESS_READWRITE s1)
           (\<lambda>(_, s2).
         andthen (gic_interface_init dev env gicd_virt_base gicr_virt_base s2 g)
           (\<lambda>(_, g1). Inr (KERN_RETURN_SUCCESS, s2, g1)))))"

definition machine_register_interrupt :: "device \<Rightarrow> arch_env \<Rightarrow> u32 \<Rightarrow> u32 \<Rightarrow> gic \<Rightarrow> (i32 \<times> gic) outcome" where
  "machine_register_interrupt dev env intid priority g = gic_irq_register dev env intid priority g"

definition machine_send_interrupt :: "arch_env \<Rightarrow> u32 \<Rightarrow> u32 \<Rightarrow> gic \<Rightarrow> gic" where
  "machine_send_interrupt env intid target g = gic_send_sgi env (ucast intid) (ucast target) g"

subsection \<open>The timer\<close>

abbreviation MACHINE_TIMER_EL1PHYS_IRQ_ID :: u32 where "MACHINE_TIMER_EL1PHYS_IRQ_ID \<equiv> 30"
abbreviation MACHINE_TIMER_RESET_VALUE :: u64 where "MACHINE_TIMER_RESET_VALUE \<equiv> 0x5000000"

text \<open>
  The assembly routines of \<^verbatim>\<open>arch/support.S\<close> write the timer registers. Neither machine routine has
  a return statement, so only the state they leave is modelled.
\<close>

definition arm64_timer_init :: "u64 \<Rightarrow> gic \<Rightarrow> gic" where
  "arm64_timer_init v g = g\<lparr>cntp_tval_el0 := v, cntp_ctl_el0 := 1\<rparr>"

definition arm64_timer_reset :: "u64 \<Rightarrow> gic \<Rightarrow> gic" where
  "arm64_timer_reset v g = g\<lparr>cntp_tval_el0 := v\<rparr>"

definition machine_init_timers :: "device \<Rightarrow> arch_env \<Rightarrow> gic \<Rightarrow> gic outcome" where
  "machine_init_timers dev env g =
     andthen (machine_register_interrupt dev env MACHINE_TIMER_EL1PHYS_IRQ_ID 0 g) (\<lambda>(_, g1).
       Inr (arm64_timer_init MACHINE_TIMER_RESET_VALUE g1))"

definition machine_timer_reset :: "u64 \<Rightarrow> gic \<Rightarrow> gic" where
  "machine_timer_reset reset g = arm64_timer_reset reset g"

subsection \<open>Finding a redistributor\<close>

text \<open>The type registers are read-only: redistributor \<open>i\<close> always reports the affinity \<open>ids i\<close>.\<close>

definition redist_ids :: "device \<Rightarrow> addr \<Rightarrow> (u32 \<Rightarrow> u32) \<Rightarrow> bool" where
  "redist_ids dev redist ids \<longleftrightarrow> (\<forall>i s. dev (redist_lpis redist i ''typer'' + 4) s = ids i)"

lemma redist_search_step:
  assumes "redist_ids dev redist ids"
  shows "redist_search dev redist max_idx aff i s =
     (if ids i = aff then Some (i, io_after 1 s)
      else if i + 1 \<le> max_idx then redist_search dev redist max_idx aff (i + 1) (io_after 1 s)
      else Some (0xffffffff, io_after 1 s))"
  using assms by (subst redist_search.simps) (simp add: mmio_read_eq redist_ids_def)

text \<open>The search returns the first redistributor of the affinity, or all ones.\<close>

definition first_redist :: "(u32 \<Rightarrow> u32) \<Rightarrow> u32 \<Rightarrow> u32 \<Rightarrow> u32 option" where
  "first_redist ids aff max_idx = find (\<lambda>i. ids i = aff) (map word_of_nat [0 ..< Suc (unat max_idx)])"

lemma word_Suc_le:
  assumes "k < unat (n :: u32)"
  shows "word_of_nat k + 1 \<le> n"
proof -
  have "unat (word_of_nat (Suc k) :: u32) = Suc k"
    using assms order.strict_trans1 [OF Suc_leI [OF assms] unsigned_less [of n]]
    by (intro unat_of_nat_no_wrap) simp
  with assms show ?thesis by (simp add: word_le_nat_alt ac_simps)
qed

lemma word_Suc_not_le:
  assumes "(n :: u32) \<noteq> 0xffffffff"
  shows "\<not> n + 1 \<le> n"
proof -
  have "unat n < 2 ^ LENGTH(32)" by (rule unsigned_less)
  moreover from assms have "unat n \<noteq> 0xffffffff" by (simp add: word_unat_eq_iff)
  ultimately have "unat (n + 1) = unat n + unat (1 :: u32)" by (intro unat_add_no_wrap) simp
  then show ?thesis by (simp add: word_le_nat_alt)
qed

lemma redist_search_find:
  assumes ids: "redist_ids dev redist ids" and "max_idx \<noteq> 0xffffffff" "k \<le> unat max_idx"
  obtains n where "redist_search dev redist max_idx aff (word_of_nat k) s =
     Some (case find (\<lambda>i. ids i = aff) (map word_of_nat [k ..< Suc (unat max_idx)]) of
             None \<Rightarrow> 0xffffffff | Some i \<Rightarrow> i, io_after n s)"
  using assms(3)
proof (induction "unat max_idx - k" arbitrary: k s thesis)
  case 0
  then have k: "k = unat max_idx" by simp
  then have "\<not> word_of_nat k + 1 \<le> max_idx"
    using word_Suc_not_le [OF assms(2)] by simp
  with 0 k show ?case by (simp add: redist_search_step [OF ids])
next
  case (Suc d)
  then have less: "k < unat max_idx" by simp
  note step = redist_search_step [OF ids, of max_idx aff "word_of_nat k" s]
  show ?case
  proof (cases "ids (word_of_nat k) = aff")
    case True
    then show ?thesis using less by (intro Suc.prems(1) [of 1]) (simp add: step upt_rec [of k])
  next
    case False
    from Suc.hyps(2) less have "d = unat max_idx - Suc k" "Suc k \<le> unat max_idx" by simp_all
    from Suc.hyps(1) [OF this(1) _ this(2), of "io_after 1 s"] obtain n where
      "redist_search dev redist max_idx aff (word_of_nat (Suc k)) (io_after 1 s) =
         Some (case find (\<lambda>i. ids i = aff) (map word_of_nat [Suc k ..< Suc (unat max_idx)]) of
             None \<Rightarrow> 0xffffffff | Some i \<Rightarrow> i, io_after n (io_after 1 s))" .
    with False word_Suc_le [OF less] less show ?thesis
      by (intro Suc.prems(1) [of "Suc n"]) (simp add: step upt_rec [of k] ac_simps)
  qed
qed

lemma gic_get_redist_id_first:
  assumes "redist_ids dev (gic_redist g) ids" "gic_max_redist_idx g \<noteq> 0xffffffff"
  obtains n where "gic_get_redist_id dev aff g =
     Inr (case first_redist ids aff (gic_max_redist_idx g) of None \<Rightarrow> 0xffffffff | Some i \<Rightarrow> i,
          g\<lparr>gic_io := io_after n (gic_io g)\<rparr>)"
  using redist_search_find [OF assms, of 0 aff "gic_io g"] that
  by (auto simp: gic_get_redist_id_def first_redist_def)

lemma first_redist_le: "first_redist ids aff max_idx = Some i \<Longrightarrow> i \<le> max_idx"
proof -
  assume "first_redist ids aff max_idx = Some i"
  then obtain k where "k \<le> unat max_idx" "i = word_of_nat k"
    unfolding first_redist_def find_Some_iff by (auto simp: less_Suc_eq_le simp del: upt_Suc)
  then show "i \<le> max_idx"
    using take_bit_nat_less_eq_self [of 32 k] by (auto simp: word_le_nat_alt unat_of_nat)
qed

subsection \<open>Register accesses\<close>

lemma gic_access_simps [simp]:
  "gic_redist (gic_write a v g) = gic_redist g" "gic_max_redist_idx (gic_write a v g) = gic_max_redist_idx g"
  "gic_io (gic_write a v g) = mmio_write a v (gic_io g)"
  "gic_read dev a g = (dev a (gic_io g), g\<lparr>gic_io := io_after 1 (gic_io g)\<rparr>)"
  "gic_update dev a f g = gic_write a (f (dev a (gic_io g))) (g\<lparr>gic_io := io_after 1 (gic_io g)\<rparr>)"
  by (simp_all add: gic_write_def gic_read_def gic_update_def mmio_read_eq)

lemma gic_write_io: "gic_write a v (g\<lparr>gic_io := s\<rparr>) = g\<lparr>gic_io := mmio_write a v s\<rparr>"
  by (simp add: gic_write_def)

lemma gic_irq_control_found:
  assumes ids: "redist_ids dev (gic_redist g) ids" "gic_max_redist_idx g \<noteq> 0xffffffff" and "intid < 31"
    and first: "first_redist ids (ucast (arm64_read_affinity env)) (gic_max_redist_idx g) = Some i"
  obtains n where "gic_irq_control dev env intid GIC_IRQ_CONTROL_ENABLE g =
      Inr (gic_update dev (redist_sgis (gic_redist g) i ''isenabler'') (\<lambda>v. v OR push_bit (unat (intid AND 0x1f)) 1)
        (g\<lparr>gic_io := io_after n (gic_io g)\<rparr>))"
    "gic_irq_control dev env intid GIC_IRQ_CONTROL_DISABLE g =
      Inr (gic_update dev (redist_sgis (gic_redist g) i ''icenabler'') (\<lambda>v. v OR push_bit (unat (intid AND 0x1f)) 1)
        (g\<lparr>gic_io := io_after n (gic_io g)\<rparr>))"
proof -
  from gic_get_redist_id_first [OF ids, of "ucast (arm64_read_affinity env)"] first obtain n where
    "gic_get_redist_id dev (ucast (arm64_read_affinity env)) g = Inr (i, g\<lparr>gic_io := io_after n (gic_io g)\<rparr>)"
    by auto
  with first_redist_le [OF first] assms(3) that [of n] show thesis
    by (simp add: gic_irq_control_def not_less [symmetric] Let_def del: gic_access_simps(5))
qed

lemma redist_sgis_offsets:
  "redist_sgis r i ''igroupr'' = r + 0x20000 * ucast i + 0x10080"
  "redist_sgis r i ''isenabler'' = r + 0x20000 * ucast i + 0x10100"
  "redist_sgis r i ''icenabler'' = r + 0x20000 * ucast i + 0x10180"
  "redist_sgis r i ''ipriorityr'' = r + 0x20000 * ucast i + 0x10400"
  "redist_sgis r i ''igrpmodr'' = r + 0x20000 * ucast i + 0x10d00"
  by (simp_all add: redist_sgis_def reg_def gicv3_redist_sgis_frame_def align_up_def)

lemma redist_lpis_offsets:
  "redist_lpis r i ''waker'' = r + 0x20000 * ucast i + 0x14"
  "redist_lpis r i ''typer'' = r + 0x20000 * ucast i + 0x8"
  by (simp_all add: redist_lpis_def reg_def gicv3_redist_lpis_frame_def align_up_def)

text \<open>The offsets in the comments of \<^verbatim>\<open>drivers/irq/irq-gicv3.h\<close>.\<close>

definition dist_documented :: "(string \<times> nat) list" where
  "dist_documented =
    [(''ctlr'', 0x0), (''typer'', 0x4), (''iidr'', 0x8), (''typer2'', 0xc), (''statusr'', 0x10),
     (''setspi_nsr'', 0x40), (''clrspi_nsr'', 0x48), (''setspi_sr'', 0x50), (''clrspi_sr'', 0x58),
     (''igroupr'', 0x80), (''isenabler'', 0x100), (''icenabler'', 0x180), (''ispendr'', 0x200),
     (''icpendr'', 0x280), (''isactiver'', 0x300), (''icactiver'', 0x380), (''ipriorityr'', 0x400),
     (''itargetsr'', 0x800), (''icfgr'', 0xc00), (''igrpmodr'', 0xd00), (''nsacr'', 0xe00), (''sgir'', 0xf00),
     (''cpendsgir'', 0xf10), (''spendsgir'', 0xf20), (''igroupre'', 0x1000), (''isenablere'', 0x1200),
     (''icenablere'', 0x1400), (''ispendre'', 0x1600), (''icpendre'', 0x1800), (''isactivere'', 0x1a00),
     (''icactivere'', 0x1c00), (''ipriorityre'', 0x2000), (''icfgre'', 0x3000), (''igrpmodre'', 0x3400),
     (''nsacre'', 0x3600), (''irouter'', 0x6100), (''pidr2'', 0xffe8)]"

definition sgis_documented :: "(string \<times> nat) list" where
  "sgis_documented =
    [(''igroupr'', 0x80), (''isenabler'', 0x100), (''icenabler'', 0x180), (''ispendr'', 0x200),
     (''icpendr'', 0x280), (''isactiver'', 0x300), (''icactiver'', 0x380), (''ipriorityr'', 0x400),
     (''icfgr'', 0xc00), (''igrpmodr'', 0xd00), (''nsacr'', 0xe00)]"

definition lpis_documented :: "(string \<times> nat) list" where
  "lpis_documented =
    [(''ctlr'', 0x0), (''iidr'', 0x4), (''typer'', 0x8), (''statusr'', 0x10), (''waker'', 0x14),
     (''mpamidr'', 0x18), (''partid'', 0x1c), (''setlpir'', 0x40), (''clrlpir'', 0x48), (''seir'', 0x68),
     (''propbaser'', 0x70), (''pendbaser'', 0x78), (''invlpir'', 0xa0), (''invallr'', 0xb0), (''syncr'', 0xc0),
     (''movlpir'', 0x100), (''movallr'', 0x110)]"

subsection \<open>Properties\<close>


text \<open>C30. Registering an SGI or PPI below 31 when the redistributor of the executing cpu is among those
  searched: exactly four registers are written, in order, at the addresses of the first redistributor
  of that affinity: the priority byte, the group register with the interrupt's bit set, the group
  modifier with it clear (non-secure group 1), and the enable register with it set, the other bits as
  read; nothing else of the driver's state changes. Other interrupts are refused without an access.
\<close>

theorem gic_irq_register_effect:
  assumes "redist_ids dev (gic_redist g) ids" "gic_max_redist_idx g \<noteq> 0xffffffff" "intid < 31"
    and "first_redist ids (ucast (arm64_read_affinity env)) (gic_max_redist_idx g) = Some i"
    and "sgis = gic_redist g + 0x20000 * ucast i + 0x10000" "b = push_bit (unat (intid AND 0x1f)) (1 :: u32)"
    and "w1 = (sgis + 0x400 + ucast intid, ucast (ucast priority :: u8))" "31 \<le> intid'"
  shows "gic_irq_register dev env intid' priority g = Inr (KERN_RETURN_FAIL, g) \<and>
    (\<exists>h1 h2 h3 g' w2 w3. gic_irq_register dev env intid priority g = Inr (KERN_RETURN_SUCCESS, g') \<and>
       g' = g\<lparr>gic_io := gic_io g'\<rparr> \<and>
       w2 = (sgis + 0x80, dev (sgis + 0x80) h1 OR b) \<and> w3 = (sgis + 0xd00, dev (sgis + 0xd00) h2 AND NOT b) \<and>
       io_writes h1 = io_writes (gic_io g) @ [w1] \<and> io_writes h2 = io_writes h1 \<and>
       io_writes h3 = io_writes h1 @ [w2, w3] \<and>
       io_writes (gic_io g') = io_writes h3 @ [(sgis + 0x100, dev (sgis + 0x100) h3 OR b)])"
proof -
  from gic_get_redist_id_first [OF assms(1,2), of "ucast (arm64_read_affinity env)"] assms(4) obtain n where
    id: "gic_get_redist_id dev (ucast (arm64_read_affinity env)) g = Inr (i, g\<lparr>gic_io := io_after n (gic_io g)\<rparr>)"
    by auto
  define h1 where "h1 = mmio_write (fst w1) (snd w1) (io_after n (gic_io g))"
  define h2 where "h2 = io_after 1 h1"
  define h3 where "h3 = mmio_write (sgis + 0xd00) (dev (sgis + 0xd00) h2 AND NOT b)
     (mmio_write (sgis + 0x80) (dev (sgis + 0x80) h1 OR b) (io_after 1 h2))"
  let ?g = "g\<lparr>gic_io := h3\<rparr>"
  from gic_irq_control_found [of dev ?g ids intid env i] assms(1-4) obtain k where
    c: "gic_irq_control dev env intid GIC_IRQ_CONTROL_ENABLE ?g =
      Inr (gic_update dev (redist_sgis (gic_redist g) i ''isenabler'') (\<lambda>v. v OR b) (?g\<lparr>gic_io := io_after k h3\<rparr>))"
    by (auto simp: assms(6))
  have "gic_irq_register dev env intid priority g =
    Inr (KERN_RETURN_SUCCESS, g\<lparr>gic_io := mmio_write (sgis + 0x100) (dev (sgis + 0x100) (io_after k h3) OR b)
       (io_after 1 (io_after k h3))\<rparr>)"
    using id c first_redist_le [OF assms(4)] assms(3)
    by (simp add: gic_irq_register_def not_less [symmetric] Let_def redist_sgis_offsets gic_write_io
        assms(5,6,7) h1_def h2_def h3_def add.assoc)
  moreover have "io_writes h1 = io_writes (gic_io g) @ [w1]" "io_writes h2 = io_writes h1"
    "io_writes (io_after k h3) = io_writes h1 @
      [(sgis + 0x80, dev (sgis + 0x80) h1 OR b), (sgis + 0xd00, dev (sgis + 0xd00) h2 AND NOT b)]"
    by (simp_all add: h1_def h2_def h3_def)
  moreover have "gic_irq_register dev env intid' priority g = Inr (KERN_RETURN_FAIL, g)"
    using assms(8) by (simp add: gic_irq_register_def linorder_not_less [symmetric])
  ultimately show ?thesis
    by (intro conjI exI [of _ h1] exI [of _ h2] exI [of _ "io_after k h3"]) auto
qed

definition sample_gic :: gic where
  "sample_gic = \<lparr>gic_version = 3, gic_dist_base = 0xffffffff11000000, gic_redist_base = 0xffffffff110a0000,
     gic_max_redist_idx = 0, gic_initialised = True, gic_dist = 0xffffffff11000000,
     gic_redist = 0xffffffff110a0000, gic_io = \<lparr>io_writes = [], io_reads = 0\<rparr>, icc_sre_el1 = 0, icc_pmr_el1 = 0,
     icc_igrpen1_el1 = 0, icc_sgi1r_el1 = [], cntp_tval_el0 = 0, cntp_ctl_el0 = 0\<rparr>"

text \<open>The timer's interrupt, on a device whose registers read as zero.\<close>

theorem gic_irq_register_effect_witness:
  "\<exists>g'. gic_irq_register (\<lambda>_ _. 0) sample_env 30 0xa0 sample_gic = Inr (KERN_RETURN_SUCCESS, g') \<and>
     io_writes (gic_io g') = [(0xffffffff110b041e, 0xa0), (0xffffffff110b0080, 0x40000000),
       (0xffffffff110b0d00, 0), (0xffffffff110b0100, 0x40000000)]"
proof -
  have ids: "redist_ids (\<lambda>_ _. 0) (gic_redist sample_gic) (\<lambda>_. 0)" by (simp add: redist_ids_def)
  have idx: "gic_max_redist_idx sample_gic \<noteq> 0xffffffff" by (simp add: sample_gic_def)
  have first: "first_redist (\<lambda>_. 0) (ucast (arm64_read_affinity sample_env)) (gic_max_redist_idx sample_gic) = Some 0"
    by (simp add: first_redist_def sample_gic_def arm64_read_affinity_def sample_env_def)
  have "(30 :: u32) < 31" "(31 :: u32) \<le> 31" by simp_all
  from gic_irq_register_effect [OF ids idx this(1) first refl refl refl this(2), of "0xa0"]
  show ?thesis by (auto simp: sample_gic_def)
qed

text \<open>Waking the redistributor. When the topology check passes and the awaited bit clears,
  \<^verbatim>\<open>gic_redist_init\<close> returns after exactly one write, which clears the processor-sleep bit of the
  first redistributor with the cpu's affinity. If there is none, the search's result 0xffffffff is
  not checked and the write goes to the frame at that index, 512 TiB past the region.
\<close>

theorem gic_redist_init_effect:
  assumes "redist_ids dev (gic_redist g) ids" "ti_max_cpu_id (topology s) \<noteq> 0xffffffff"
    and "machine_get_cpu_num env s = Inr cpu"
    and "i = (case first_redist ids (ucast (arm64_read_affinity env)) (ti_max_cpu_id (topology s)) of
                None \<Rightarrow> 0xffffffff | Some i \<Rightarrow> i)"
    and "waker = gic_redist g + 0x20000 * ucast i + 0x14" "clears dev waker GICR_WAKER_CA_BIT"
  shows "\<exists>g' h. gic_redist_init dev env s g = Inr g' \<and> io_writes h = io_writes (gic_io g) \<and>
     io_writes (gic_io g') = io_writes (gic_io g) @ [(waker, dev waker h AND NOT GICR_WAKER_PS_BIT)] \<and>
     g' = g\<lparr>gic_max_redist_idx := ti_max_cpu_id (topology s), gic_io := gic_io g'\<rparr>"
proof -
  let ?g = "g\<lparr>gic_max_redist_idx := ti_max_cpu_id (topology s)\<rparr>"
  from gic_get_redist_id_first [of dev ?g ids "ucast (arm64_read_affinity env)"] assms(1,2) obtain n where
    id: "gic_get_redist_id dev (ucast (arm64_read_affinity env)) ?g =
      Inr (i, ?g\<lparr>gic_io := io_after n (gic_io g)\<rparr>)"
    by (auto simp: assms(4))
  define h where "h = io_after n (gic_io g)"
  define h' where "h' = mmio_write waker (dev waker h AND NOT GICR_WAKER_PS_BIT) (io_after 1 h)"
  from mmio_poll_clears [OF assms(6), of h'] obtain k where
    k: "mmio_poll dev waker GICR_WAKER_CA_BIT h' = Some (io_after k h')" .
  have "gic_redist_init dev env s g = Inr (?g\<lparr>gic_io := io_after k h'\<rparr>)"
    using id k by (simp add: gic_redist_init_def assms(3) Let_def redist_lpis_offsets gic_write_io
        h_def h'_def assms(5) add.assoc)
  moreover have "io_writes h = io_writes (gic_io g)"
    "io_writes (io_after k h') = io_writes (gic_io g) @ [(waker, dev waker h AND NOT GICR_WAKER_PS_BIT)]"
    by (simp_all add: h_def h'_def)
  ultimately show ?thesis by (intro exI [of _ "?g\<lparr>gic_io := io_after k h'\<rparr>"] exI [of _ h]) simp
qed

text \<open>A cpu whose affinity no redistributor reports: the write leaves the region.\<close>

theorem gic_redist_init_effect_witness:
  "\<exists>g'. gic_redist_init (\<lambda>_ _. 0) (sample_env\<lparr>mpidr_el1 := 0x80000001\<rparr>) reset_state sample_gic = Inr g' \<and>
     io_writes (gic_io g') = [(0x1ffff11080014, 0)]"
proof -
  have ids: "redist_ids (\<lambda>_ _. 0) (gic_redist sample_gic) (\<lambda>_. 0)" by (simp add: redist_ids_def)
  have idx: "ti_max_cpu_id (topology reset_state) \<noteq> 0xffffffff"
    and num: "machine_get_cpu_num (sample_env\<lparr>mpidr_el1 := 0x80000001\<rparr>) reset_state = Inr 1"
    by (simp_all add: reset_state_def machine_get_cpu_num_def MPIDR_TO_CPU_NUM_def)
  have i: "0xffffffff = (case first_redist (\<lambda>_. 0) (ucast (arm64_read_affinity (sample_env\<lparr>mpidr_el1 := 0x80000001\<rparr>)))
      (ti_max_cpu_id (topology reset_state)) of None \<Rightarrow> 0xffffffff | Some i \<Rightarrow> i)"
    by (simp add: first_redist_def reset_state_def arm64_read_affinity_def)
  have "clears (\<lambda>_ _. 0) a b" for a b by (simp add: clears_def)
  from gic_redist_init_effect [OF ids idx num i refl this]
  show ?thesis by (auto simp: sample_gic_def)
qed

end
