(* ===== verification/Task_Thread.thy ===== *)
theory Task_Thread
  imports Cpu
begin

section \<open>Stacks, tasks and threads (kern/mm/stack.c, kern/task.c, kern/thread.c)\<close>

text \<open>
  Tasks, threads and stack objects are zone elements; a task heads the list of its threads, and
  all tasks, threads and stacks are on global lists. A thread's node on its task's list is at
  offset 136 (\<^verbatim>\<open>siblings\<close>) and its node on the global list at offset 152 (\<^verbatim>\<open>threads\<close>).
\<close>

subsection \<open>Stacks\<close>

abbreviation THREAD_COUNT_MAX :: u64 where "THREAD_COUNT_MAX \<equiv> 24"
abbreviation TASK_COUNT_MAX :: u64 where "TASK_COUNT_MAX \<equiv> 12"
abbreviation TASK_NAME_MAX_LEN :: nat where "TASK_NAME_MAX_LEN \<equiv> 32"
abbreviation THREAD_NAME_MAX_LEN :: u64 where "THREAD_NAME_MAX_LEN \<equiv> 64"
abbreviation THREAD_STACK_DEFAULT_SIZE :: u64 where "THREAD_STACK_DEFAULT_SIZE \<equiv> VM_PAGE_SIZE"
abbreviation THREAD_ID_KERN_THREAD :: i32 where "THREAD_ID_KERN_THREAD \<equiv> 0"
abbreviation TASK_STATE_INACTIVE :: i32 where "TASK_STATE_INACTIVE \<equiv> 0"

definition set_thread :: "addr \<Rightarrow> (thread \<Rightarrow> thread) \<Rightarrow> kstate \<Rightarrow> kstate" where
  "set_thread t f s = s\<lparr>thread_objs := (thread_objs s)(t := f (thread_objs s t))\<rparr>"

definition stack_init :: "arch_env \<Rightarrow> kstate \<Rightarrow> kstate outcome" where
  "stack_init env s =
     andthen (zone_create env SIZEOF_STACK (THREAD_COUNT_MAX * SIZEOF_STACK) ''stacks_zone'' s) (\<lambda>(z, s1).
       Inr (s1\<lparr>stack_zone := z, lists := INIT_LIST_HEAD (sym_stacks env) (lists s1)\<rparr>))"

definition stack_alloc :: "arch_env \<Rightarrow> addr \<Rightarrow> kstate \<Rightarrow> kstate outcome" where
  "stack_alloc env thread s =
     (case zalloc (stack_zone s) s of
        (stack, s1) \<Rightarrow>
          andthen (vm_map_alloc env (vm_get_kernel_map env) THREAD_STACK_DEFAULT_SIZE
                     (VM_ALLOC_GUARD_FIRST OR VM_ALLOC_GUARD_LAST) s1) (\<lambda>(base, s2).
            let s3 = s2\<lparr>stack_objs := (stack_objs s2)(stack := base)\<rparr>;
                s4 = s3\<lparr>lists := list_add_tail (stack + OFF_STACK_SIBLINGS) (sym_stacks env) (lists s3)\<rparr>
            in Inr (set_thread thread (\<lambda>t. t\<lparr>th_stack_base := stack_objs s4 stack,
                                            th_stack := stack_objs s4 stack\<rparr>) s4)))"

text \<open>The search of \<^verbatim>\<open>stack_free\<close>: the first stack object whose own address is \<open>base\<close>.\<close>

partial_function (option) stack_search :: "addr \<Rightarrow> addr \<Rightarrow> addr \<Rightarrow> list_heap \<Rightarrow> addr option option" where
  "stack_search node base head h =
     (if node = head then Some None
      else if node - OFF_STACK_SIBLINGS = base then Some (Some base)
      else stack_search (nxt (h node)) base head h)"

definition stack_free :: "arch_env \<Rightarrow> addr \<Rightarrow> kstate \<Rightarrow> kstate outcome" where
  "stack_free env thread s =
     andthen (terminates (stack_search (nxt (lists s (sym_stacks env)))
                (th_stack_base (thread_objs s thread)) (sym_stacks env) (lists s)))
       (\<lambda>r. case r of None \<Rightarrow> Inr s | Some stack \<Rightarrow> zfree (stack_zone s) stack s)"

subsection \<open>Tasks\<close>

definition get_current_task :: "kstate \<Rightarrow> addr" where
  "get_current_task s = current_task s"

definition set_current_task :: "addr \<Rightarrow> kstate \<Rightarrow> kstate" where
  "set_current_task task s = s\<lparr>current_task := task\<rparr>"

text \<open>
  The name is the contents of the array up to its first zero; a name of 32 or more characters
  fills the array and leaves no zero in it. The argument \<^verbatim>\<open>map\<close> is not used.
\<close>

definition task_create :: "arch_env \<Rightarrow> addr \<Rightarrow> string \<Rightarrow> kstate \<Rightarrow> addr \<times> kstate" where
  "task_create env vmap name s =
     (case zalloc (task_zone s) s of
        (new, s1) \<Rightarrow>
          let s2 = s1\<lparr>task_objs := (task_objs s1)(new := (task_objs s1 new)\<lparr>
                     tk_ref_count := 2, tk_state := TASK_STATE_INACTIVE, tk_pid := task_pid s1,
                     tk_name := take TASK_NAME_MAX_LEN name\<rparr>), task_pid := task_pid s1 + 1\<rparr>;
              s3 = s2\<lparr>lists := list_add_tail (new + OFF_TASK_TASKS) (sym_tasks env)
                             (INIT_LIST_HEAD (new + OFF_TASK_THREADS) (lists s2))\<rparr>
          in (new, s3))"

definition task_init :: "arch_env \<Rightarrow> kstate \<Rightarrow> kstate outcome" where
  "task_init env s =
     andthen (zone_create env SIZEOF_TASK (TASK_COUNT_MAX * SIZEOF_TASK) ''task_zone'' s) (\<lambda>(z, s1).
       case task_create env (vm_get_kernel_map env) ''kernel_task'' (s1\<lparr>task_zone := z\<rparr>) of
         (t, s2) \<Rightarrow> Inr (s2\<lparr>kernel_task := t\<rparr>))"

definition task_assign_thread :: "addr \<Rightarrow> addr \<Rightarrow> kstate \<Rightarrow> kstate" where
  "task_assign_thread task thread s =
     set_thread thread (\<lambda>t. t\<lparr>th_task := task\<rparr>)
       (s\<lparr>lists := list_add_tail (thread + OFF_THREAD_SIBLINGS) (task + OFF_TASK_THREADS) (lists s)\<rparr>)"

subsection \<open>Threads\<close>

definition thread_init :: "arch_env \<Rightarrow> kstate \<Rightarrow> kstate outcome" where
  "thread_init env s =
     andthen (zone_create env SIZEOF_THREAD (THREAD_COUNT_MAX * SIZEOF_THREAD) ''thread_zone'' s) (\<lambda>(z, s1).
       stack_init env (s1\<lparr>thread_zone := z\<rparr>))"

text \<open>
  \<^verbatim>\<open>thread_set_name\<close> computes the length of the copy from a variable it never wrote; \<open>len\<close> is the
  value that variable happens to have. \<^verbatim>\<open>strlcpy\<close> copies at most one character less than the
  length and terminates, and does nothing for length 0.
\<close>

definition thread_set_name :: "u64 \<Rightarrow> addr \<Rightarrow> string \<Rightarrow> kstate \<Rightarrow> kstate" where
  "thread_set_name len thread name s =
     (let n = (if len < THREAD_NAME_MAX_LEN then len else THREAD_NAME_MAX_LEN)
      in if n = 0 then s
         else set_thread thread (\<lambda>t. t\<lparr>th_name := take (unat n - 1) name\<rparr>) s)"

definition thread_init_context :: "addr \<Rightarrow> addr \<Rightarrow> kstate \<Rightarrow> kstate" where
  "thread_init_context thread entry = set_thread thread (\<lambda>t. t\<lparr>th_entry := entry\<rparr>)"

text \<open>\<^verbatim>\<open>thread->stack = THREAD_STATE_INACTIVE\<close> writes 0 into the stack pointer, not into the state.\<close>

definition thread_create ::
  "arch_env \<Rightarrow> u64 \<Rightarrow> addr \<Rightarrow> i32 \<Rightarrow> addr \<Rightarrow> string \<Rightarrow> kstate \<Rightarrow> (addr \<times> kstate) outcome" where
  "thread_create env len parent_task priority entry name s =
     (case zalloc (thread_zone s) s of
        (thread, s1) \<Rightarrow>
          let s2 = set_thread thread (\<lambda>t. t\<lparr>th_stack := 0, th_ref_count := 2, th_preempt := 0,
                     th_thread_id := thread_id_max s1\<rparr>) s1;
              s3 = s2\<lparr>thread_id_max := thread_id_max s2 + 1\<rparr>
          in andthen (stack_alloc env thread s3) (\<lambda>s4.
               let s5 = thread_init_context thread entry s4;
                   s6 = task_assign_thread parent_task thread s5;
                   s7 = s6\<lparr>lists := list_add_tail (thread + OFF_THREAD_THREADS) (sym_threads env) (lists s6)\<rparr>;
                   s8 = thread_set_name len thread name s7
               in Inr (thread, set_thread thread (\<lambda>t. t\<lparr>th_active := True\<rparr>) s8)))"

definition machine_irq_enable :: "kstate \<Rightarrow> kstate" where
  "machine_irq_enable s = s\<lparr>irq_masked := False\<rparr>"

definition machine_irq_disable :: "kstate \<Rightarrow> kstate" where
  "machine_irq_disable s = s\<lparr>irq_masked := True\<rparr>"

definition thread_block :: "kstate \<Rightarrow> kstate" where
  "thread_block = machine_irq_disable"

definition thread_unblock :: "kstate \<Rightarrow> kstate" where
  "thread_unblock = machine_irq_enable"

definition thread_destroy :: "arch_env \<Rightarrow> addr \<Rightarrow> kstate \<Rightarrow> kstate outcome" where
  "thread_destroy env thread s =
     (let s1 = thread_block s
      in andthen (cpu_get_current env s1) (\<lambda>cpu.
           if thread = cpu_active_thread cpu then Inl (Panic ''cannot destroy active thread'')
           else
             let s2 = set_thread thread (\<lambda>t. t\<lparr>th_active := False\<rparr>) s1;
                 s3 = s2\<lparr>lists := list_del (thread + OFF_THREAD_THREADS)
                               (list_del (thread + OFF_THREAD_SIBLINGS) (lists s2))\<rparr>
             in andthen (stack_free env thread s3) (\<lambda>s4.
                  andthen (zfree (thread_zone s4) thread s4) (\<lambda>s5. Inr (thread_unblock s5)))))"

definition kernel_thread_create ::
  "arch_env \<Rightarrow> u64 \<Rightarrow> addr \<Rightarrow> i32 \<Rightarrow> addr \<Rightarrow> kstate \<Rightarrow> (addr \<times> kstate) outcome" where
  "kernel_thread_create env len entry priority args s =
     andthen (thread_create env len (kernel_task s) priority entry ''kthread_main'' s) (\<lambda>(thread, s1).
       if thread = NULL then Inl (Panic ''kernel_thread_create: failed to create kernel thread'')
       else if th_thread_id (thread_objs s1 thread) \<noteq> THREAD_ID_KERN_THREAD
       then Inl (Panic ''kernel_thread_create: kernel thread not created first'')
       else Inr (thread, set_thread thread (\<lambda>t. t\<lparr>th_args := args, th_active := True\<rparr>) s1))"

text \<open>
  The context handed to \<^verbatim>\<open>__fork64_exec\<close>, and the one saved from an exception frame; \<open>elr\<close> is the
  value of the register \<^verbatim>\<open>ELR_EL1\<close>.
\<close>

definition thread_load_context :: "arch_env \<Rightarrow> addr \<Rightarrow> kstate \<Rightarrow> kstate" where
  "thread_load_context env thread =
     set_thread thread (\<lambda>t. t\<lparr>th_context := (th_context t)\<lparr>
       ctx_x := (ctx_x (th_context t))(19 := th_entry t, 20 := th_args t),
       ctx_sp := th_stack t, ctx_lr := sym_fork64_return env\<rparr>\<rparr>)"

definition thread_save_context :: "u64 \<Rightarrow> addr \<Rightarrow> exception_frame \<Rightarrow> kstate \<Rightarrow> kstate" where
  "thread_save_context elr thread frame =
     set_thread thread (\<lambda>t. t\<lparr>th_context := (th_context t)\<lparr>
         ctx_x := (\<lambda>i. if 19 \<le> i \<and> i \<le> 28 then fr_regs frame i else ctx_x (th_context t) i),
         ctx_fp := fr_fp frame, ctx_sp := fr_sp frame\<rparr>,
       th_entry := elr, th_stack := fr_sp frame\<rparr>)"

subsection \<open>Freeing a stack\<close>

lemma stack_search_dseg:
  "dseg h p xs head \<Longrightarrow> head \<notin> set xs \<Longrightarrow>
   stack_search (nxt (h p)) base head h = Some (if base + OFF_STACK_SIBLINGS \<in> set xs then Some base else None)"
proof (induction xs arbitrary: p)
  case Nil
  then show ?case by (simp add: stack_search.simps)
next
  case (Cons x xs)
  have "x - OFF_STACK_SIBLINGS = base \<longleftrightarrow> base + OFF_STACK_SIBLINGS = x" by (auto simp: diff_eq_eq)
  with Cons show ?case by (subst stack_search.simps) auto
qed

text \<open>
  \<^verbatim>\<open>stack_free\<close> compares the address of each stack object with the base of the stack's memory, so
  it frees nothing unless a stack object lies at that base.
\<close>

lemma stack_free_leaks:
  assumes "dlist (lists s) (sym_stacks env) xs"
    and "th_stack_base (thread_objs s t) + OFF_STACK_SIBLINGS \<notin> set xs"
  shows "stack_free env t s = Inr s"
  using assms stack_search_dseg [of "lists s" "sym_stacks env" xs "sym_stacks env"]
  by (simp add: stack_free_def dlist_def)

subsection \<open>Creating a task\<close>

lemma task_create_ok:
  assumes zone: "zone_ok (task_zone s) (x # fs) us s" and tasks: "dlist (lists s) (sym_tasks env) ts"
    and apart: "set (sym_tasks env # ts) \<inter>
      set ((task_zone s + OFF_ZONE_FREE) # (x # fs) @ (task_zone s + OFF_ZONE_USED) # us) = {}"
    and fresh: "x + SIZEOF_ZONE_META + OFF_TASK_TASKS \<notin> set (sym_tasks env # ts)"
      "x + SIZEOF_ZONE_META + OFF_TASK_THREADS \<notin> set (sym_tasks env # ts)"
  shows "\<exists>s'. task_create env vmap name s = (x + SIZEOF_ZONE_META, s') \<and>
     tk_pid (task_objs s' (x + SIZEOF_ZONE_META)) = task_pid s \<and> task_pid s' = task_pid s + 1 \<and>
     tk_name (task_objs s' (x + SIZEOF_ZONE_META)) = take TASK_NAME_MAX_LEN name \<and>
     dlist (lists s') (sym_tasks env) (ts @ [x + SIZEOF_ZONE_META + OFF_TASK_TASKS]) \<and>
     dlist (lists s') (x + SIZEOF_ZONE_META + OFF_TASK_THREADS) []"
proof -
  let ?z = "task_zone s" and ?new = "x + SIZEOF_ZONE_META"
  let ?f = "?z + OFF_ZONE_FREE" and ?u = "?z + OFF_ZONE_USED"
  have first: "list_first_entry ?f 0 (lists s) = x"
    using zone dlist_first [of "lists s" ?f "x # fs"]
    by (simp add: zone_ok_def list_first_entry_def container_of_def)
  let ?h1 = "list_move x ?u (lists s)"
  have "dlist ?h1 (sym_tasks env) ts"
    using zone apart by (intro lh.pool_frame [of "lists s" ?f "x # fs" ?u us]) (auto simp: zone_ok_def tasks)
  then have 2: "dlist (INIT_LIST_HEAD (?new + OFF_TASK_THREADS) ?h1) (sym_tasks env) ts"
    using fresh(2) by (intro lh.init_frame) simp
  let ?h3 = "list_add_tail (?new + OFF_TASK_TASKS) (sym_tasks env) (INIT_LIST_HEAD (?new + OFF_TASK_THREADS) ?h1)"
  have 3: "dlist ?h3 (sym_tasks env) (ts @ [?new + OFF_TASK_TASKS])"
    using fresh(1) by (intro lh.rep_append [OF 2]) simp
  have 4: "dlist ?h3 (?new + OFF_TASK_THREADS) []"
    using fresh by (intro lh.append_frame [OF 2 lh.rep_init]) auto
  show ?thesis
    using 3 4 by (simp add: task_create_def zalloc_def first Let_def set_zone_def)
qed

subsection \<open>Saving and loading a context\<close>

lemma load_save_context:
  assumes "s' = thread_load_context env t (thread_save_context elr t frame s)"
  shows "th_context (thread_objs s' t) = \<lparr>ctx_x = (\<lambda>i. if i = 19 then elr else if i = 20 then th_args (thread_objs s t)
             else if 21 \<le> i \<and> i \<le> 28 then fr_regs frame i else ctx_x (th_context (thread_objs s t)) i),
           ctx_fp = fr_fp frame, ctx_lr = sym_fork64_return env, ctx_sp = fr_sp frame\<rparr>"
    and "u \<noteq> t \<Longrightarrow> thread_objs s' u = thread_objs s u"
proof -
  show "u \<noteq> t \<Longrightarrow> thread_objs s' u = thread_objs s u"
    by (simp add: assms thread_load_context_def thread_save_context_def set_thread_def)
  show "th_context (thread_objs s' t) = \<lparr>ctx_x = (\<lambda>i. if i = 19 then elr else if i = 20 then th_args (thread_objs s t)
             else if 21 \<le> i \<and> i \<le> 28 then fr_regs frame i else ctx_x (th_context (thread_objs s t)) i),
           ctx_fp = fr_fp frame, ctx_lr = sym_fork64_return env, ctx_sp = fr_sp frame\<rparr>"
    by (rule cpu_context.equality)
      (auto simp: assms thread_load_context_def thread_save_context_def set_thread_def fun_eq_iff)
qed

subsection \<open>Destroying a thread\<close>

text \<open>
  The lists a thread is on: the global list \<open>ts\<close>, the list \<open>ks\<close> of its task, the stacks and its
  zone, all apart from each other.
\<close>

definition thread_lists :: "arch_env \<Rightarrow> addr \<Rightarrow> addr list \<Rightarrow> addr list \<Rightarrow> addr list \<Rightarrow> addr list \<Rightarrow> addr list \<Rightarrow> kstate \<Rightarrow> bool" where
  "thread_lists env t ts ks st fs us s \<longleftrightarrow>
     (let k = th_task (thread_objs s t) + OFF_TASK_THREADS; z = thread_zone s
      in dlist (lists s) (sym_threads env) ts \<and> dlist (lists s) k ks \<and> dlist (lists s) (sym_stacks env) st \<and>
         zone_ok z fs us s \<and>
         distinct (sym_threads env # ts @ k # ks @ sym_stacks env # st @
                   (z + OFF_ZONE_FREE) # fs @ (z + OFF_ZONE_USED) # us) \<and>
         t + OFF_THREAD_THREADS \<in> set ts \<and> t + OFF_THREAD_SIBLINGS \<in> set ks)"

lemma list_del_two:
  assumes "dlist h a xs" "dlist h b ys" "x \<in> set xs" "y \<in> set ys" "distinct (a # xs @ b # ys)"
  shows "dlist (list_del x (list_del y h)) a (remove1 x xs)" "dlist (list_del x (list_del y h)) b (remove1 y ys)"
    and "dlist h c zs \<Longrightarrow> set (c # zs) \<inter> set (a # xs @ b # ys) = {} \<Longrightarrow> dlist (list_del x (list_del y h)) c zs"
proof -
  obtain u1 v1 where ys: "ys = u1 @ y # v1" using assms(4) by (rule in_set_splitE)
  obtain u2 v2 where xs: "xs = u2 @ x # v2" using assms(3) by (rule in_set_splitE)
  have 1: "dlist (list_del y h) a xs"
    using assms(1,2,5) ys by (intro lh.remove_frame [of h b u1 y v1]) auto
  have 2: "dlist (list_del y h) b (remove1 y ys)" by (rule lh.remove_member [OF assms(2,4)])
  have sub: "set (remove1 y ys) \<subseteq> set ys" by (rule set_remove1_subset)
  show "dlist (list_del x (list_del y h)) a (remove1 x xs)" by (rule lh.remove_member [OF 1 assms(3)])
  show "dlist (list_del x (list_del y h)) b (remove1 y ys)"
    using 1 2 xs assms(5) sub by (intro lh.remove_frame [of "list_del y h" a u2 x v2]) auto
  assume c: "dlist h c zs" "set (c # zs) \<inter> set (a # xs @ b # ys) = {}"
  have "dlist (list_del y h) c zs" using c assms(2) ys by (intro lh.remove_frame [of h b u1 y v1]) auto
  then show "dlist (list_del x (list_del y h)) c zs"
    using c 1 xs by (intro lh.remove_frame [of "list_del y h" a u2 x v2]) auto
qed

lemma set_thread_frame [simp]:
  "lists (set_thread t f s) = lists s" "zones (set_thread t f s) = zones s"
  "thread_zone (set_thread t f s) = thread_zone s" "stack_zone (set_thread t f s) = stack_zone s"
  "thread_objs (set_thread t f s) = (thread_objs s)(t := f (thread_objs s t))"
  by (simp_all add: set_thread_def)

lemma thread_block_frame [simp]:
  "lists (thread_block s) = lists s" "zones (thread_block s) = zones s"
  "thread_zone (thread_block s) = thread_zone s" "thread_objs (thread_block s) = thread_objs s"
  by (simp_all add: thread_block_def machine_irq_disable_def)

lemma thread_destroy_ok:
  fixes env :: arch_env and t :: addr
  assumes L: "thread_lists env t ts ks st fs us s"
    and cur: "cpu_get_current env (thread_block s) = Inr cpu" "t \<noteq> cpu_active_thread cpu"
    and leak: "th_stack_base (thread_objs s t) + OFF_STACK_SIBLINGS \<notin> set st"
    and elem: "t = x + SIZEOF_ZONE_META" "x \<in> set us"
      "zone_layout (thread_zone s) base (z_elem_size (zones s (thread_zone s))) n"
      "set fs \<union> set us \<subseteq> zone_block base (z_elem_size (zones s (thread_zone s))) ` {0 ..< n}"
  defines "k \<equiv> th_task (thread_objs s t) + OFF_TASK_THREADS"
  assumes away: "\<And>y. y \<in> set (sym_threads env # remove1 (t + OFF_THREAD_THREADS) ts @ k # remove1 (t + OFF_THREAD_SIBLINGS) ks)
        \<Longrightarrow> \<not> in_bytes y t (z_elem_size (zones s (thread_zone s)))"
  shows "\<exists>s'. thread_destroy env t s = Inr s' \<and>
     dlist (lists s') (sym_threads env) (remove1 (t + OFF_THREAD_THREADS) ts) \<and>
     dlist (lists s') k (remove1 (t + OFF_THREAD_SIBLINGS) ks) \<and>
     zone_ok (thread_zone s) (x # fs) (remove1 x us) s' \<and> \<not> irq_masked s'"
proof -
  let ?z = "thread_zone s" and ?l = "sym_threads env" and ?e = "z_elem_size (zones s (thread_zone s))"
  let ?f = "?z + OFF_ZONE_FREE" and ?u = "?z + OFF_ZONE_USED"
  let ?h = "list_del (t + OFF_THREAD_THREADS) (list_del (t + OFF_THREAD_SIBLINGS) (lists s))"
  let ?s3 = "(set_thread t (\<lambda>t. t\<lparr>th_active := False\<rparr>) (thread_block s))\<lparr>lists := ?h\<rparr>"
  note L' = L [unfolded thread_lists_def Let_def, folded k_def]
  have d: "distinct (?l # ts @ k # ks @ sym_stacks env # st @ ?f # fs @ ?u # us)" using L' by blast
  have parts: "dlist (lists s) ?l ts" "dlist (lists s) k ks" "t + OFF_THREAD_THREADS \<in> set ts"
    "t + OFF_THREAD_SIBLINGS \<in> set ks" "distinct (?l # ts @ k # ks)" using L' d by auto
  note del = list_del_two [OF parts]
  have disj: "set (?f # fs) \<inter> set (?l # ts @ k # ks) = {}" "set (?u # us) \<inter> set (?l # ts @ k # ks) = {}"
    "set (sym_stacks env # st) \<inter> set (?l # ts @ k # ks) = {}" "set (?f # fs) \<inter> set (?u # us) = {}"
    using d by (auto simp: disjoint_iff)
  have z3: "zone_ok ?z fs us ?s3"
    using L' del(3) [OF _ disj(1)] del(3) [OF _ disj(2)]
    by (simp add: zone_ok_def)
  have "dlist ?h (sym_stacks env) st" using del(3) [OF _ disj(3)] L' by blast
  then have free: "stack_free env t ?s3 = Inr ?s3"
    by (intro stack_free_leaks [of _ _ st])
      (simp_all add: leak)
  have sel: "zones ?s3 = zones s" "thread_zone ?s3 = ?z" "lists ?s3 = ?h"
    by simp_all
  obtain s5 where s5: "zfree ?z t ?s3 = Inr s5" "zone_ok ?z (x # fs) (remove1 x us) s5"
    "lists s5 = list_move x ?f (zero_in t ?e null_node ?h)"
    using zfree_ok [OF z3, unfolded sel, OF elem(3,2,4), folded elem(1)] by blast
  have "thread_destroy env t s = Inr (thread_unblock s5)"
    using cur free s5(1) by (simp add: thread_destroy_def Let_def sel(2))
  moreover have fr: "dlist (lists (thread_unblock s5)) c zs"
    if "dlist ?h c zs" "set (c # zs) \<inter> set (?u # us @ ?f # fs) = {}" "\<And>y. y \<in> set (c # zs) \<Longrightarrow> \<not> in_bytes y t ?e" for c zs
    using zfree_frame [OF z3, unfolded sel, OF elem(3,2,4), folded elem(1), OF that] s5(3)
    by (simp add: thread_unblock_def machine_irq_enable_def)
  have "dlist (lists (thread_unblock s5)) ?l (remove1 (t + OFF_THREAD_THREADS) ts)"
    using disj(1,2) away by (intro fr [OF del(1)]) (auto simp: disjoint_iff dest: set_remove1_subset [THEN subsetD])
  moreover have "dlist (lists (thread_unblock s5)) k (remove1 (t + OFF_THREAD_SIBLINGS) ks)"
    using disj(1,2) away by (intro fr [OF del(2)]) (auto simp: disjoint_iff dest: set_remove1_subset [THEN subsetD])
  moreover have "zone_ok ?z (x # fs) (remove1 x us) (thread_unblock s5)"
    using s5(2) by (simp add: zone_ok_def thread_unblock_def machine_irq_enable_def)
  ultimately show ?thesis by (auto simp: thread_unblock_def machine_irq_enable_def)
qed

subsection \<open>Properties\<close>

definition sample_tasks :: kstate where
  "sample_tasks = reset_state\<lparr>task_zone := 0xfffffff000002060, task_pid := 7,
     zones := (\<lambda>_. zero_zone\<lparr>z_elem_size := 112, z_count_free := 1, z_page_count := 1, z_used := True\<rparr>),
     lists := INIT_LIST_HEAD 0xfffffff000005000
       (list_add_tail 0xfffffff000210000 0xfffffff000002088
         (INIT_LIST_HEAD 0xfffffff000002098 (INIT_LIST_HEAD 0xfffffff000002088 (\<lambda>_. null_node))))\<rparr>"

lemmas ring_eval = dlist_def INIT_LIST_HEAD_def list_add_tail_def raw_list_add_def

lemma sample_tasks_ok:
  "zone_ok 0xfffffff000002060 [0xfffffff000210000] [] sample_tasks"
  "dlist (lists sample_tasks) 0xfffffff000005000 []"
  by (simp_all add: zone_ok_def sample_tasks_def ring_eval zero_zone_def)

text \<open>Creating a task takes the next element of the task zone, gives it the next process identifier
  and the name cut to 32 characters, starts it without threads and links it at the end of the task
  list.\<close>

theorem task_create_links:
  assumes "zone_ok (task_zone s) (x # fs) us s" "dlist (lists s) (sym_tasks env) ts"
    and "set (sym_tasks env # ts) \<inter>
      set ((task_zone s + OFF_ZONE_FREE) # (x # fs) @ (task_zone s + OFF_ZONE_USED) # us) = {}"
    and "x + SIZEOF_ZONE_META + OFF_TASK_TASKS \<notin> set (sym_tasks env # ts)"
      "x + SIZEOF_ZONE_META + OFF_TASK_THREADS \<notin> set (sym_tasks env # ts)"
  shows "\<exists>s'. task_create env vmap name s = (x + SIZEOF_ZONE_META, s') \<and>
     tk_pid (task_objs s' (x + SIZEOF_ZONE_META)) = task_pid s \<and> task_pid s' = task_pid s + 1 \<and>
     tk_name (task_objs s' (x + SIZEOF_ZONE_META)) = take TASK_NAME_MAX_LEN name \<and>
     dlist (lists s') (sym_tasks env) (ts @ [x + SIZEOF_ZONE_META + OFF_TASK_TASKS]) \<and>
     dlist (lists s') (x + SIZEOF_ZONE_META + OFF_TASK_THREADS) []"
  using assms by (rule task_create_ok)

theorem task_create_links_witness:
  "\<exists>s'. task_create sample_env 0 ''init'' sample_tasks = (0xfffffff000210010, s') \<and>
     tk_pid (task_objs s' 0xfffffff000210010) = 7 \<and>
     dlist (lists s') 0xfffffff000005000 [0xfffffff000210038]"
proof -
  have z: "task_zone sample_tasks = 0xfffffff000002060" "task_pid sample_tasks = 7" by (simp_all add: sample_tasks_def)
  show ?thesis
    using task_create_links [of sample_tasks "0xfffffff000210000" "[]" "[]" sample_env "[]" 0 "''init''"]
      sample_tasks_ok by (simp add: z sample_env_simps) blast
qed

text \<open>Freeing a thread's stack never releases it: the search compares the address of each stack
  descriptor with the base of the stack's memory, finds nothing, and returns with the zone, the list
  and the mapping unchanged.\<close>

theorem stack_free_never_releases:
  assumes "dlist (lists s) (sym_stacks env) xs"
    and "th_stack_base (thread_objs s t) + OFF_STACK_SIBLINGS \<notin> set xs"
  shows "stack_free env t s = Inr s"
  using assms by (rule stack_free_leaks)

definition sample_thread :: kstate where
  "sample_thread = reset_state\<lparr>thread_zone := 0xfffffff0000020c0,
     zones := (\<lambda>_. zero_zone\<lparr>z_elem_size := 288, z_count := 1, z_page_count := 2, z_used := True\<rparr>),
     thread_objs := (\<lambda>_. zero_thread\<lparr>th_stack_base := 0xfffffff000300000, th_task := 0xfffffff000210010,
        th_active := True\<rparr>),
     lists := list_add_tail 0xfffffff000230018 0xfffffff000005020 (INIT_LIST_HEAD 0xfffffff000005020
       (list_add_tail 0xfffffff000220098 0xfffffff000210048 (INIT_LIST_HEAD 0xfffffff000210048
       (list_add_tail 0xfffffff0002200a8 0xfffffff000005010 (INIT_LIST_HEAD 0xfffffff000005010
       (list_add_tail 0xfffffff000220000 0xfffffff0000020f8 (INIT_LIST_HEAD 0xfffffff0000020f8
       (INIT_LIST_HEAD 0xfffffff0000020e8 (\<lambda>_. null_node)))))))))\<rparr>"

lemma sample_thread_fields:
  "thread_zone sample_thread = 0xfffffff0000020c0" "z_elem_size (zones sample_thread z) = 288"
  "th_stack_base (thread_objs sample_thread t) = 0xfffffff000300000"
  "th_task (thread_objs sample_thread t) = 0xfffffff000210010"
  by (simp_all add: sample_thread_def)

lemma sample_thread_lists:
  "dlist (lists sample_thread) 0xfffffff000005020 [0xfffffff000230018]"
  "dlist (lists sample_thread) 0xfffffff000005010 [0xfffffff0002200a8]"
  "dlist (lists sample_thread) 0xfffffff000210048 [0xfffffff000220098]"
  "zone_ok 0xfffffff0000020c0 [] [0xfffffff000220000] sample_thread"
  by (simp_all add: zone_ok_def sample_thread_def ring_eval zero_zone_def)

theorem stack_free_never_releases_witness:
  "stack_free sample_env 0xfffffff000220010 sample_thread = Inr sample_thread"
  using stack_free_never_releases [of sample_thread sample_env "[0xfffffff000230018]" "0xfffffff000220010"]
    sample_thread_lists(1) by (simp add: sample_env_simps sample_thread_fields)

text \<open>C25. Destroying a thread that is not running unlinks it from the global thread list and from its
  task's list, returns its structure to the thread zone and unmasks interrupts again; all the other
  elements of the three lists keep their order.\<close>

theorem thread_destroy_unlinks:
  fixes env :: arch_env and t :: addr
  assumes "thread_lists env t ts ks st fs us s"
    and "cpu_get_current env (thread_block s) = Inr cpu" "t \<noteq> cpu_active_thread cpu"
    and "th_stack_base (thread_objs s t) + OFF_STACK_SIBLINGS \<notin> set st"
    and "t = x + SIZEOF_ZONE_META" "x \<in> set us"
      "zone_layout (thread_zone s) base (z_elem_size (zones s (thread_zone s))) n"
      "set fs \<union> set us \<subseteq> zone_block base (z_elem_size (zones s (thread_zone s))) ` {0 ..< n}"
  defines "k \<equiv> th_task (thread_objs s t) + OFF_TASK_THREADS"
  assumes "\<And>y. y \<in> set (sym_threads env # remove1 (t + OFF_THREAD_THREADS) ts @ k # remove1 (t + OFF_THREAD_SIBLINGS) ks)
        \<Longrightarrow> \<not> in_bytes y t (z_elem_size (zones s (thread_zone s)))"
  shows "\<exists>s'. thread_destroy env t s = Inr s' \<and>
     dlist (lists s') (sym_threads env) (remove1 (t + OFF_THREAD_THREADS) ts) \<and>
     dlist (lists s') k (remove1 (t + OFF_THREAD_SIBLINGS) ks) \<and>
     zone_ok (thread_zone s) (x # fs) (remove1 x us) s' \<and> \<not> irq_masked s'"
  unfolding k_def by (rule thread_destroy_ok [OF assms(1-8)]) (use assms(10) in \<open>simp add: k_def\<close>)

lemma sample_cpu: "cpu_get_current sample_env (thread_block sample_thread) = Inr zero_cpu_data"
  by (simp add: cpu_get_current_def machine_get_cpu_num_def sample_env_simps MPIDR_TO_CPU_NUM_def thread_block_def
        machine_irq_disable_def sample_thread_def reset_state_def cpu_get_cpu_def in_cpu_table_def)

theorem thread_destroy_unlinks_witness:
  "\<exists>s'. thread_destroy sample_env 0xfffffff000220010 sample_thread = Inr s' \<and>
     dlist (lists s') 0xfffffff000005010 [] \<and> dlist (lists s') 0xfffffff000210048 [] \<and>
     zone_ok 0xfffffff0000020c0 [0xfffffff000220000] [] s' \<and> \<not> irq_masked s'"
proof -
  have L: "thread_lists sample_env 0xfffffff000220010 [0xfffffff0002200a8] [0xfffffff000220098]
      [0xfffffff000230018] [] [0xfffffff000220000] sample_thread"
    using sample_thread_lists by (simp add: thread_lists_def Let_def sample_env_simps sample_thread_fields)
  have "0xfffffff000220000 \<in> zone_block 0xfffffff000220000 288 ` {0 ..< 1}"
    by (rule image_eqI [of _ _ 0]) (simp_all add: zone_block_def)
  then have blk: "set [] \<union> set [0xfffffff000220000] \<subseteq> zone_block 0xfffffff000220000
      (z_elem_size (zones sample_thread (thread_zone sample_thread))) ` {0 ..< 1}"
    by (simp only: sample_thread_fields) simp
  have lay: "zone_layout 0xfffffff0000020c0 0xfffffff000220000 288 1" by (simp add: zone_layout_def)
  have "\<not> in_bytes 0xfffffff000005010 0xfffffff000220010 288" "\<not> in_bytes 0xfffffff000210048 0xfffffff000220010 288"
    by (simp_all add: in_bytes_def)
  then have away: "\<not> in_bytes y 0xfffffff000220010 (z_elem_size (zones sample_thread (thread_zone sample_thread)))"
    if "y \<in> set (sym_threads sample_env # remove1 (0xfffffff000220010 + OFF_THREAD_THREADS) [0xfffffff0002200a8] @
          (th_task (thread_objs sample_thread 0xfffffff000220010) + OFF_TASK_THREADS) #
          remove1 (0xfffffff000220010 + OFF_THREAD_SIBLINGS) [0xfffffff000220098])" for y
    using that by (auto simp: sample_env_simps sample_thread_fields)
  have "\<exists>s'. thread_destroy sample_env 0xfffffff000220010 sample_thread = Inr s' \<and>
      dlist (lists s') (sym_threads sample_env)
        (remove1 (0xfffffff000220010 + OFF_THREAD_THREADS) [0xfffffff0002200a8]) \<and>
      dlist (lists s') (th_task (thread_objs sample_thread 0xfffffff000220010) + OFF_TASK_THREADS)
        (remove1 (0xfffffff000220010 + OFF_THREAD_SIBLINGS) [0xfffffff000220098]) \<and>
      zone_ok (thread_zone sample_thread) [0xfffffff000220000] (remove1 0xfffffff000220000 [0xfffffff000220000]) s' \<and>
      \<not> irq_masked s'"
    by (rule thread_destroy_unlinks [OF L sample_cpu _ _ _ _ _ blk away])
      (use lay in \<open>simp_all add: sample_thread_fields zero_cpu_data_def\<close>)
  then show ?thesis by (simp add: sample_env_simps sample_thread_fields)
qed

text \<open>Switching away from a thread and back loses nothing the switch is meant to keep: after saving a
  thread's context from an exception frame and loading it again, the callee-saved registers, frame and
  stack pointers come from the frame, execution resumes at the saved return address through
  \<^verbatim>\<open>x19\<close>, and no other thread is affected.\<close>

theorem context_save_load:
  assumes "s' = thread_load_context env t (thread_save_context elr t frame s)"
  shows "th_context (thread_objs s' t) = \<lparr>ctx_x = (\<lambda>i. if i = 19 then elr else if i = 20 then th_args (thread_objs s t)
             else if 21 \<le> i \<and> i \<le> 28 then fr_regs frame i else ctx_x (th_context (thread_objs s t)) i),
           ctx_fp = fr_fp frame, ctx_lr = sym_fork64_return env, ctx_sp = fr_sp frame\<rparr> \<and>
     (\<forall>u. u \<noteq> t \<longrightarrow> thread_objs s' u = thread_objs s u)"
  using load_save_context [OF assms] by blast

theorem context_save_load_witness:
  "ctx_x (th_context (thread_objs (thread_load_context sample_env 0x10 (thread_save_context 0x4000 0x10
     \<lparr>fr_regs = (\<lambda>i. word_of_nat i), fr_fp = 1, fr_lr = 2, fr_sp = 3, fr_far = 0, fr_esr = 0, fr_elr = 0\<rparr>
     reset_state)) 0x10)) 19 = 0x4000"
  using context_save_load [OF refl, of sample_env "0x10" "0x4000"
      "\<lparr>fr_regs = (\<lambda>i. word_of_nat i), fr_fp = 1, fr_lr = 2, fr_sp = 3, fr_far = 0, fr_esr = 0, fr_elr = 0\<rparr>"
      reset_state] by simp

end
