(* ===== verification/Sched.thy ===== *)
theory Sched
  imports Task_Thread
begin

section \<open>The scheduler (kern/sched.c)\<close>

text \<open>
  On a timer interrupt \<^verbatim>\<open>__schedule\<close> picks the thread after the active one on the global list,
  saves the interrupted context and loads the new one; \<^verbatim>\<open>sched_tail\<close> runs on the new thread's
  side of the switch. The loop that waits for an active thread is a partial function: it may
  never return.
\<close>

subsection \<open>Operations\<close>

definition select_thread :: "arch_env \<Rightarrow> addr \<Rightarrow> kstate \<Rightarrow> addr" where
  "select_thread env active_thread s =
     (if list_is_last (active_thread + OFF_THREAD_THREADS) (sym_threads env) (lists s)
      then list_first_entry (sym_threads env) OFF_THREAD_THREADS (lists s)
      else container_of (nxt (lists s (active_thread + OFF_THREAD_THREADS))) OFF_THREAD_THREADS)"

text \<open>The loop of \<^verbatim>\<open>__schedule\<close>, which selects from the same \<open>thread\<close> on every round.\<close>

partial_function (option) schedule_loop :: "arch_env \<Rightarrow> addr \<Rightarrow> addr \<Rightarrow> kstate \<Rightarrow> addr option" where
  "schedule_loop env thread next_thread s =
     (if th_active (thread_objs s next_thread) then Some next_thread
      else schedule_loop env thread (select_thread env thread s) s)"

text \<open>The state in which \<^verbatim>\<open>__fork64_exec\<close> enters the thread that is returned.\<close>

definition schedule :: "arch_env \<Rightarrow> u64 \<Rightarrow> exception_frame \<Rightarrow> kstate \<Rightarrow> (addr \<times> kstate) outcome" where
  "schedule env elr frame s =
     (let s1 = machine_irq_disable s
      in andthen (cpu_get_current env s1) (\<lambda>cpu.
           let thread = cpu_active_thread cpu
           in andthen (terminates (schedule_loop env thread (select_thread env thread s1) s1)) (\<lambda>next_thread.
                let s2 = set_current_task (th_task (thread_objs s1 next_thread)) s1;
                    s3 = thread_save_context elr thread frame s2
                in Inr (next_thread, thread_load_context env next_thread s3))))"

definition sched_tail :: "arch_env \<Rightarrow> addr \<Rightarrow> kstate \<Rightarrow> kstate outcome" where
  "sched_tail env thread s =
     (let stack = th_stack (thread_objs s thread)
      in andthen (machine_get_cpu_num env s) (\<lambda>n.
           andthen (cpu_set_active_thread n thread s) (\<lambda>(_, s1).
             andthen (machine_get_cpu_num env s1) (\<lambda>n.
               andthen (cpu_set_active_stack n stack s1) (\<lambda>(_, s2). Inr (machine_irq_enable s2))))))"

subsection \<open>Round robin\<close>

text \<open>The global list holds the threads \<open>ts\<close>, in order.\<close>

definition on_threads :: "arch_env \<Rightarrow> addr list \<Rightarrow> kstate \<Rightarrow> bool" where
  "on_threads env ts s \<longleftrightarrow> dlist (lists s) (sym_threads env) (map (\<lambda>t. t + OFF_THREAD_THREADS) ts)"

lemma select_thread_next:
  assumes "on_threads env ts s" "i < length ts"
  shows "select_thread env (ts ! i) s = ts ! (Suc i mod length ts)"
proof -
  let ?n = "\<lambda>t. t + OFF_THREAD_THREADS"
  have split: "map ?n ts = map ?n (take i ts) @ ?n (ts ! i) # map ?n (drop (Suc i) ts)"
    by (subst id_take_nth_drop [OF assms(2)]) simp
  have d: "dlist (lists s) (sym_threads env) (map ?n (take i ts) @ ?n (ts ! i) # map ?n (drop (Suc i) ts))"
    using assms(1) unfolding on_threads_def split .
  show ?thesis
  proof (cases "Suc i = length ts")
    case True
    then have "ts \<noteq> []" using assms(2) by auto
    moreover have "nxt (lists s (sym_threads env)) = ?n (hd ts)"
      using dlist_first [of "lists s" "sym_threads env" "map ?n ts"] assms(1) \<open>ts \<noteq> []\<close>
      by (cases ts) (simp_all add: on_threads_def)
    ultimately show ?thesis
      using True list_is_last_iff [OF d]
      by (simp add: select_thread_def list_first_entry_def container_of_def hd_conv_nth)
  next
    case False
    then have "Suc i < length ts" using assms(2) by simp
    then have "drop (Suc i) ts = ts ! Suc i # drop (Suc (Suc i)) ts" by (rule Cons_nth_drop_Suc [symmetric])
    then show ?thesis
      using list_is_last_iff [OF d] dlist_nxt [OF d] \<open>Suc i < length ts\<close>
      by (simp add: select_thread_def container_of_def)
  qed
qed

text \<open>Selecting again and again visits the threads in a circle.\<close>

lemma select_thread_circle:
  assumes "on_threads env ts s" "i < length ts"
  shows "((\<lambda>t. select_thread env t s) ^^ k) (ts ! i) = ts ! ((i + k) mod length ts)"
proof (induction k)
  case 0
  with assms(2) show ?case by simp
next
  case (Suc k)
  have "0 < length ts" using assms(2) by linarith
  then have "(i + k) mod length ts < length ts" by (rule mod_less_divisor)
  from select_thread_next [OF assms(1) this] show ?case by (simp add: Suc mod_Suc_eq)
qed

subsection \<open>The loop\<close>

lemma schedule_loop_active:
  "th_active (thread_objs s t) \<Longrightarrow> schedule_loop env thread t s = Some t"
  by (subst schedule_loop.simps) simp

text \<open>
  If the thread after the active one is not active, the loop selects it again forever, whatever
  other threads there are.
\<close>

lemma schedule_loop_diverges:
  assumes "\<not> th_active (thread_objs s (select_thread env thread s))"
  shows "schedule_loop env thread (select_thread env thread s) s = None"
proof -
  have "\<not> th_active (thread_objs s t) \<longrightarrow> t = select_thread env thread s \<longrightarrow> False"
    if "schedule_loop env thread t s = Some r" for t r
    by (rule schedule_loop.raw_induct [where P = "\<lambda>env thread t s r. \<not> th_active (thread_objs s t) \<longrightarrow>
          t = select_thread env thread s \<longrightarrow> False", OF _ that]) (fastforce split: if_splits)
  with assms show ?thesis by (cases "schedule_loop env thread (select_thread env thread s) s") auto
qed

subsection \<open>One switch\<close>

lemma schedule_switch:
  assumes "on_threads env ts s" "i < length ts"
    and cur: "cpu_get_current env (machine_irq_disable s) = Inr cpu" "cpu_active_thread cpu = ts ! i"
    and act: "th_active (thread_objs s (ts ! (Suc i mod length ts)))"
  shows "schedule env elr frame s = Inr (ts ! (Suc i mod length ts),
     thread_load_context env (ts ! (Suc i mod length ts))
       (thread_save_context elr (ts ! i) frame
         (set_current_task (th_task (thread_objs s (ts ! (Suc i mod length ts)))) (machine_irq_disable s))))"
proof -
  have "on_threads env ts (machine_irq_disable s)" "thread_objs (machine_irq_disable s) = thread_objs s"
    using assms(1) by (simp_all add: on_threads_def machine_irq_disable_def)
  then show ?thesis
    using assms select_thread_next [of env ts "machine_irq_disable s" i]
    by (simp add: schedule_def Let_def schedule_loop_active)
qed

lemma schedule_switch_effect:
  assumes "on_threads env ts s" "i < length ts" "cpu_get_current env (machine_irq_disable s) = Inr cpu"
    and "cpu_active_thread cpu = ts ! i" "th_active (thread_objs s (ts ! (Suc i mod length ts)))"
  shows "\<exists>s'. schedule env elr frame s = Inr (ts ! (Suc i mod length ts), s') \<and>
     irq_masked s' \<and> current_task s' = th_task (thread_objs s (ts ! (Suc i mod length ts))) \<and>
     th_entry (thread_objs s' (ts ! i)) = elr \<and> th_stack (thread_objs s' (ts ! i)) = fr_sp frame \<and>
     (\<forall>t. t \<noteq> ts ! i \<and> t \<noteq> ts ! (Suc i mod length ts) \<longrightarrow> thread_objs s' t = thread_objs s t)"
  using schedule_switch [OF assms, of elr frame]
  by (auto simp: thread_load_context_def thread_save_context_def set_thread_def set_current_task_def
        machine_irq_disable_def)

lemma schedule_stuck:
  assumes "on_threads env ts s" "i < length ts"
    and cur: "cpu_get_current env (machine_irq_disable s) = Inr cpu" "cpu_active_thread cpu = ts ! i"
    and inact: "\<not> th_active (thread_objs s (ts ! (Suc i mod length ts)))"
  shows "schedule env elr frame s = Inl Diverges"
proof -
  have "on_threads env ts (machine_irq_disable s)" "thread_objs (machine_irq_disable s) = thread_objs s"
    using assms(1) by (simp_all add: on_threads_def machine_irq_disable_def)
  then show ?thesis
    using assms select_thread_next [of env ts "machine_irq_disable s" i]
      schedule_loop_diverges [of "machine_irq_disable s" env "ts ! i"]
    by (simp add: schedule_def Let_def)
qed

lemma sched_tail_runs:
  assumes "machine_get_cpu_num env s = Inr n" "in_cpu_table n" "sint n \<le> sint (cpu_count s)"
  shows "sched_tail env thread s =
     (if thread = NULL then Inl (Panic ''cpu: failed to set cpu active thread: invalid thread'')
      else Inr (s\<lparr>cpu_data_entries := (cpu_data_entries s)(n := (cpu_data_entries s n)\<lparr>
             cpu_active_thread := thread, cpu_active_stack := th_stack (thread_objs s thread)\<rparr>),
           irq_masked := False\<rparr>))"
proof -
  have "machine_get_cpu_num env (s\<lparr>cpu_data_entries := d\<rparr>) = Inr n" for d
    using assms(1) by (simp add: machine_get_cpu_num_def)
  then show ?thesis
    using assms by (auto simp: sched_tail_def Let_def cpu_set_active_thread_def cpu_set_active_stack_def
        CPU_ASSERT_VALID_ID_def update_cpu_def machine_irq_enable_def)
qed

subsection \<open>Properties\<close>

definition sample_sched :: "bool \<Rightarrow> kstate" where
  "sample_sched active = reset_state\<lparr>
     cpu_data_entries := (\<lambda>_. zero_cpu_data\<lparr>cpu_active_thread := 0xfffffff000220010\<rparr>),
     thread_objs := (\<lambda>_. zero_thread\<lparr>th_active := active, th_task := 0xfffffff000210010\<rparr>),
     lists := list_add_tail 0xfffffff0002201d8 0xfffffff000005010
       (list_add_tail 0xfffffff0002200a8 0xfffffff000005010 (INIT_LIST_HEAD 0xfffffff000005010 (\<lambda>_. null_node)))\<rparr>"

lemma sample_sched_threads: "on_threads sample_env [0xfffffff000220010, 0xfffffff000220140] (sample_sched b)"
  by (simp add: on_threads_def sample_sched_def sample_env_simps ring_eval)

lemma sample_sched_cpu:
  "cpu_get_current sample_env (machine_irq_disable (sample_sched b))
     = Inr (zero_cpu_data\<lparr>cpu_active_thread := 0xfffffff000220010\<rparr>)"
  by (simp add: cpu_get_current_def machine_get_cpu_num_def sample_env_simps MPIDR_TO_CPU_NUM_def
        machine_irq_disable_def sample_sched_def reset_state_def cpu_get_cpu_def in_cpu_table_def)

text \<open>Selection is fair: starting from any thread of the list, \<open>k\<close> selections arrive at the thread
  \<open>k\<close> places further round the ring, so every thread is reached exactly once in each round.\<close>

theorem select_thread_round_robin:
  assumes "on_threads env ts s" "i < length ts"
  shows "((\<lambda>t. select_thread env t s) ^^ k) (ts ! i) = ts ! ((i + k) mod length ts)"
  using assms by (rule select_thread_circle)

theorem select_thread_round_robin_witness:
  "((\<lambda>t. select_thread sample_env t (sample_sched True)) ^^ 3) 0xfffffff000220010 = 0xfffffff000220140"
  using select_thread_round_robin [OF sample_sched_threads, of 0 3 True] by (simp add: numeral_3_eq_3 mod_Suc)

text \<open>A timer tick with an active next thread switches to exactly that thread: the running thread's
  context and return address are saved, the current task becomes the next thread's task, and the
  next thread's context is prepared, with interrupts left masked.\<close>

theorem schedule_switches:
  assumes "on_threads env ts s" "i < length ts" "cpu_get_current env (machine_irq_disable s) = Inr cpu"
    and "cpu_active_thread cpu = ts ! i" "th_active (thread_objs s (ts ! (Suc i mod length ts)))"
  shows "\<exists>s'. schedule env elr frame s = Inr (ts ! (Suc i mod length ts), s') \<and>
     irq_masked s' \<and> current_task s' = th_task (thread_objs s (ts ! (Suc i mod length ts))) \<and>
     th_entry (thread_objs s' (ts ! i)) = elr \<and> th_stack (thread_objs s' (ts ! i)) = fr_sp frame \<and>
     (\<forall>t. t \<noteq> ts ! i \<and> t \<noteq> ts ! (Suc i mod length ts) \<longrightarrow> thread_objs s' t = thread_objs s t)"
  by (rule schedule_switch_effect [OF assms])

theorem schedule_switches_witness:
  "\<exists>s'. schedule sample_env 0x4000 \<lparr>fr_regs = (\<lambda>_. 0), fr_fp = 0, fr_lr = 0, fr_sp = 0x8000, fr_far = 0,
       fr_esr = 0, fr_elr = 0\<rparr> (sample_sched True) = Inr (0xfffffff000220140, s') \<and>
     th_entry (thread_objs s' 0xfffffff000220010) = 0x4000"
proof -
  have "th_active (thread_objs (sample_sched True) t)" for t by (simp add: sample_sched_def)
  then show ?thesis
    using schedule_switches [OF sample_sched_threads _ sample_sched_cpu, of 0 True "0x4000"
      "\<lparr>fr_regs = (\<lambda>_. 0), fr_fp = 0, fr_lr = 0, fr_sp = 0x8000, fr_far = 0, fr_esr = 0, fr_elr = 0\<rparr>"]
    by auto
qed

text \<open>C38. The scheduler hangs when the next thread of the ring is inactive: the retry selects relative to
  the running thread again, so the loop never gets past it, also when other threads are active.\<close>

theorem schedule_hangs_on_inactive:
  assumes "on_threads env ts s" "i < length ts" "cpu_get_current env (machine_irq_disable s) = Inr cpu"
    and "cpu_active_thread cpu = ts ! i" "\<not> th_active (thread_objs s (ts ! (Suc i mod length ts)))"
  shows "schedule env elr frame s = Inl Diverges"
  using assms by (rule schedule_stuck)

theorem schedule_hangs_on_inactive_witness:
  "schedule sample_env 0x4000 \<lparr>fr_regs = (\<lambda>_. 0), fr_fp = 0, fr_lr = 0, fr_sp = 0x8000, fr_far = 0,
       fr_esr = 0, fr_elr = 0\<rparr> (sample_sched False) = Inl Diverges"
proof -
  have "\<not> th_active (thread_objs (sample_sched False) t)" for t by (simp add: sample_sched_def)
  then show ?thesis
    using schedule_hangs_on_inactive [OF sample_sched_threads _ sample_sched_cpu, of 0 False] by auto
qed

text \<open>After a switch, \<^verbatim>\<open>sched_tail\<close> makes the given thread and its stack the cpu's active ones and
  unmasks interrupts; a null thread panics.\<close>

theorem sched_tail_activates:
  assumes "machine_get_cpu_num env s = Inr n" "in_cpu_table n" "sint n \<le> sint (cpu_count s)"
  shows "sched_tail env thread s =
     (if thread = NULL then Inl (Panic ''cpu: failed to set cpu active thread: invalid thread'')
      else Inr (s\<lparr>cpu_data_entries := (cpu_data_entries s)(n := (cpu_data_entries s n)\<lparr>
             cpu_active_thread := thread, cpu_active_stack := th_stack (thread_objs s thread)\<rparr>),
           irq_masked := False\<rparr>))"
  using assms by (rule sched_tail_runs)

theorem sched_tail_activates_witness:
  "\<exists>s'. sched_tail sample_env 0xfffffff000220140 (sample_sched True) = Inr s' \<and>
     cpu_active_thread (cpu_data_entries s' 0) = 0xfffffff000220140"
proof -
  have "machine_get_cpu_num sample_env (sample_sched True) = Inr 0" "cpu_count (sample_sched True) = 0"
    by (simp_all add: machine_get_cpu_num_def sample_env_simps MPIDR_TO_CPU_NUM_def sample_sched_def reset_state_def)
  then show ?thesis
    using sched_tail_activates [of sample_env "sample_sched True" 0 "0xfffffff000220140"]
    by (auto simp: in_cpu_table_def)
qed

end
