(* ===== verification/Exception.thy ===== *)
theory Exception
  imports Gic Sched
begin

section \<open>Exception handling\<close>

text \<open>
  \<^verbatim>\<open>kern/exception.c\<close> with the exception classes and fault status codes of \<^verbatim>\<open>arch/arch.h\<close> and the
  syndrome fields of \<^verbatim>\<open>arch/proc_reg.h\<close>. A panic is the outcome \<^const>\<open>Panic\<close> with the format string
  the handler passes and, where it passes one, the number; what the panic handler prints is
  modelled separately. The interrupt handlers act on the kernel state and the interrupt controller.
\<close>

subsection \<open>Exception classes and fault status codes\<close>

datatype esr_exception_class =
    ESR_EC_UNCATEGORIZED | ESR_EC_WFI_WFE | ESR_EC_MCR_MRC_CP15_TRAP | ESR_EC_MCRR_MRRC_CP15_TRAP
  | ESR_EC_MCR_MRC_CP14_TRAP | ESR_EC_LDC_STC_CP14_TRAP | ESR_EC_TRAP_SIMD_FP | ESR_EC_PTRAUTH_INSTR_TRAP
  | ESR_EC_MCRR_MRRC_CP14_TRAP | ESR_EC_ILLEGAL_INSTR_SET | ESR_EC_SVC_32 | ESR_EC_HVC_32 | ESR_EC_SVC_64
  | ESR_EC_HVC_64 | ESR_EC_MSR_TRAP | ESR_EC_IABORT_EL0 | ESR_EC_IABORT_EL1 | ESR_EC_PC_ALIGN
  | ESR_EC_DABORT_EL0 | ESR_EC_DABORT_EL1 | ESR_EC_SP_ALIGN | ESR_EC_FLOATING_POINT_32
  | ESR_EC_FLOATING_POINT_64 | ESR_EC_SERROR_INTERRUPT | ESR_EC_BKPT_REG_MATCH_EL0
  | ESR_EC_BKPT_REG_MATCH_EL1 | ESR_EC_SW_STEP_DEBUG_EL0 | ESR_EC_SW_STEP_DEBUG_EL1
  | ESR_EC_WATCHPT_MATCH_EL0 | ESR_EC_WATCHPT_MATCH_EL1 | ESR_EC_BKPT_AARCH32 | ESR_EC_BRK_AARCH64

definition esr_exception_classes :: "(u32 \<times> esr_exception_class) list" where
  "esr_exception_classes =
    [(0x00, ESR_EC_UNCATEGORIZED), (0x01, ESR_EC_WFI_WFE), (0x03, ESR_EC_MCR_MRC_CP15_TRAP),
     (0x04, ESR_EC_MCRR_MRRC_CP15_TRAP), (0x05, ESR_EC_MCR_MRC_CP14_TRAP), (0x06, ESR_EC_LDC_STC_CP14_TRAP),
     (0x07, ESR_EC_TRAP_SIMD_FP), (0x09, ESR_EC_PTRAUTH_INSTR_TRAP), (0x0c, ESR_EC_MCRR_MRRC_CP14_TRAP),
     (0x0e, ESR_EC_ILLEGAL_INSTR_SET), (0x11, ESR_EC_SVC_32), (0x12, ESR_EC_HVC_32), (0x15, ESR_EC_SVC_64),
     (0x16, ESR_EC_HVC_64), (0x18, ESR_EC_MSR_TRAP), (0x20, ESR_EC_IABORT_EL0), (0x21, ESR_EC_IABORT_EL1),
     (0x22, ESR_EC_PC_ALIGN), (0x24, ESR_EC_DABORT_EL0), (0x25, ESR_EC_DABORT_EL1), (0x26, ESR_EC_SP_ALIGN),
     (0x28, ESR_EC_FLOATING_POINT_32), (0x2c, ESR_EC_FLOATING_POINT_64), (0x2f, ESR_EC_SERROR_INTERRUPT),
     (0x30, ESR_EC_BKPT_REG_MATCH_EL0), (0x31, ESR_EC_BKPT_REG_MATCH_EL1), (0x32, ESR_EC_SW_STEP_DEBUG_EL0),
     (0x33, ESR_EC_SW_STEP_DEBUG_EL1), (0x34, ESR_EC_WATCHPT_MATCH_EL0), (0x35, ESR_EC_WATCHPT_MATCH_EL1),
     (0x38, ESR_EC_BKPT_AARCH32), (0x3c, ESR_EC_BRK_AARCH64)]"

datatype fault_status =
    FSC_ADDRESS_SIZE_FAULT_L0 | FSC_ADDRESS_SIZE_FAULT_L1 | FSC_ADDRESS_SIZE_FAULT_L2 | FSC_ADDRESS_SIZE_FAULT_L3
  | FSC_TRANSLATION_FAULT_L0 | FSC_TRANSLATION_FAULT_L1 | FSC_TRANSLATION_FAULT_L2 | FSC_TRANSLATION_FAULT_L3
  | FSC_ACCESS_FLAG_FAULT_L1 | FSC_ACCESS_FLAG_FAULT_L2 | FSC_ACCESS_FLAG_FAULT_L3
  | FSC_PERMISSION_FAULT_L1 | FSC_PERMISSION_FAULT_L2 | FSC_PERMISSION_FAULT_L3
  | FSC_SYNC_EXT_ABORT | FSC_SYNC_EXT_ABORT_TT_L1 | FSC_SYNC_EXT_ABORT_TT_L2 | FSC_SYNC_EXT_ABORT_TT_L3
  | FSC_SYNC_PARITY | FSC_ASYNC_PARITY | FSC_SYNC_PARITY_TT_L1 | FSC_SYNC_PARITY_TT_L2 | FSC_SYNC_PARITY_TT_L3
  | FSC_ALIGNMENT_FAULT | FSC_DEBUG_FAULT

definition fault_statuses :: "(u32 \<times> fault_status) list" where
  "fault_statuses =
    [(0x00, FSC_ADDRESS_SIZE_FAULT_L0), (0x01, FSC_ADDRESS_SIZE_FAULT_L1), (0x02, FSC_ADDRESS_SIZE_FAULT_L2),
     (0x03, FSC_ADDRESS_SIZE_FAULT_L3), (0x04, FSC_TRANSLATION_FAULT_L0), (0x05, FSC_TRANSLATION_FAULT_L1),
     (0x06, FSC_TRANSLATION_FAULT_L2), (0x07, FSC_TRANSLATION_FAULT_L3), (0x09, FSC_ACCESS_FLAG_FAULT_L1),
     (0x0a, FSC_ACCESS_FLAG_FAULT_L2), (0x0b, FSC_ACCESS_FLAG_FAULT_L3), (0x0d, FSC_PERMISSION_FAULT_L1),
     (0x0e, FSC_PERMISSION_FAULT_L2), (0x0f, FSC_PERMISSION_FAULT_L3), (0x10, FSC_SYNC_EXT_ABORT),
     (0x15, FSC_SYNC_EXT_ABORT_TT_L1), (0x16, FSC_SYNC_EXT_ABORT_TT_L2), (0x17, FSC_SYNC_EXT_ABORT_TT_L3),
     (0x18, FSC_SYNC_PARITY), (0x19, FSC_ASYNC_PARITY), (0x1d, FSC_SYNC_PARITY_TT_L1),
     (0x1e, FSC_SYNC_PARITY_TT_L2), (0x1f, FSC_SYNC_PARITY_TT_L3), (0x21, FSC_ALIGNMENT_FAULT),
     (0x22, FSC_DEBUG_FAULT)]"

text \<open>A C enumeration variable can hold any value: the enumerator it is equal to, if any.\<close>

definition exception_class_of :: "u32 \<Rightarrow> esr_exception_class option" where
  "exception_class_of v = map_of esr_exception_classes v"

definition fault_status_of :: "u32 \<Rightarrow> fault_status option" where
  "fault_status_of v = map_of fault_statuses v"

subsection \<open>The syndrome register\<close>

text \<open>
  \<^verbatim>\<open>0x3f << 26\<close> is a negative \<^verbatim>\<open>int\<close>: widened to 64 bits it keeps all bits from 26 up, and the
  class is the low 32 bits of what the shift leaves.
\<close>

definition ESR_EC :: "u64 \<Rightarrow> u32" where
  "ESR_EC esr = ucast (drop_bit 26 (esr AND 0xfffffffffc000000))"

definition ESR_ISS :: "u64 \<Rightarrow> u32" where
  "ESR_ISS esr = ucast (esr AND 0x01ffffff)"

abbreviation ISS_DA_CM :: u32 where "ISS_DA_CM \<equiv> push_bit 8 1"
abbreviation ISS_DA_WNR :: u32 where "ISS_DA_WNR \<equiv> push_bit 6 1"

definition ISS_DA_FSC :: "u32 \<Rightarrow> u32" where "ISS_DA_FSC iss = iss AND 0x3f"
definition ISS_IA_FSC :: "u32 \<Rightarrow> u32" where "ISS_IA_FSC iss = iss AND 0x3f"

abbreviation VM_PROT_READ :: i32 where "VM_PROT_READ \<equiv> 1"
abbreviation VM_PROT_WRITE :: i32 where "VM_PROT_WRITE \<equiv> 2"
abbreviation VM_PROT_EXECUTE :: i32 where "VM_PROT_EXECUTE \<equiv> 3"

subsection \<open>Classification of faults\<close>

definition is_vm_fault :: "u32 \<Rightarrow> bool" where
  "is_vm_fault status \<longleftrightarrow> (case fault_status_of status of
       Some FSC_TRANSLATION_FAULT_L0 \<Rightarrow> True
     | Some FSC_TRANSLATION_FAULT_L1 \<Rightarrow> True
     | Some FSC_TRANSLATION_FAULT_L2 \<Rightarrow> True
     | Some FSC_TRANSLATION_FAULT_L3 \<Rightarrow> True
     | Some FSC_ACCESS_FLAG_FAULT_L1 \<Rightarrow> True
     | Some FSC_ACCESS_FLAG_FAULT_L2 \<Rightarrow> True
     | Some FSC_ACCESS_FLAG_FAULT_L3 \<Rightarrow> True
     | Some FSC_PERMISSION_FAULT_L1 \<Rightarrow> True
     | Some FSC_PERMISSION_FAULT_L2 \<Rightarrow> True
     | Some FSC_PERMISSION_FAULT_L3 \<Rightarrow> True
     | _ \<Rightarrow> False)"

definition is_translation_fault :: "u32 \<Rightarrow> bool" where
  "is_translation_fault status \<longleftrightarrow> (case fault_status_of status of
       Some FSC_TRANSLATION_FAULT_L0 \<Rightarrow> True
     | Some FSC_TRANSLATION_FAULT_L1 \<Rightarrow> True
     | Some FSC_TRANSLATION_FAULT_L2 \<Rightarrow> True
     | Some FSC_TRANSLATION_FAULT_L3 \<Rightarrow> True
     | _ \<Rightarrow> False)"

definition is_address_size_fault :: "u32 \<Rightarrow> bool" where
  "is_address_size_fault status \<longleftrightarrow> (case fault_status_of status of
       Some FSC_ADDRESS_SIZE_FAULT_L0 \<Rightarrow> True
     | Some FSC_ADDRESS_SIZE_FAULT_L1 \<Rightarrow> True
     | Some FSC_ADDRESS_SIZE_FAULT_L2 \<Rightarrow> True
     | Some FSC_ADDRESS_SIZE_FAULT_L3 \<Rightarrow> True
     | _ \<Rightarrow> False)"

definition is_permission_fault :: "u32 \<Rightarrow> bool" where
  "is_permission_fault status \<longleftrightarrow> (case fault_status_of status of
       Some FSC_PERMISSION_FAULT_L1 \<Rightarrow> True
     | Some FSC_PERMISSION_FAULT_L2 \<Rightarrow> True
     | Some FSC_PERMISSION_FAULT_L3 \<Rightarrow> True
     | _ \<Rightarrow> False)"

definition is_alignment_fault :: "u32 \<Rightarrow> bool" where
  "is_alignment_fault status \<longleftrightarrow> fault_status_of status = Some FSC_ALIGNMENT_FAULT"

definition vm_fault_get_level :: "u32 \<Rightarrow> int" where
  "vm_fault_get_level status = (case fault_status_of status of
       Some FSC_TRANSLATION_FAULT_L0 \<Rightarrow> 0
     | Some FSC_ADDRESS_SIZE_FAULT_L0 \<Rightarrow> 0
     | Some FSC_TRANSLATION_FAULT_L1 \<Rightarrow> 1
     | Some FSC_ADDRESS_SIZE_FAULT_L1 \<Rightarrow> 1
     | Some FSC_ACCESS_FLAG_FAULT_L1 \<Rightarrow> 1
     | Some FSC_PERMISSION_FAULT_L1 \<Rightarrow> 1
     | Some FSC_SYNC_EXT_ABORT_TT_L1 \<Rightarrow> 1
     | Some FSC_SYNC_PARITY_TT_L1 \<Rightarrow> 1
     | Some FSC_TRANSLATION_FAULT_L2 \<Rightarrow> 2
     | Some FSC_ADDRESS_SIZE_FAULT_L2 \<Rightarrow> 2
     | Some FSC_ACCESS_FLAG_FAULT_L2 \<Rightarrow> 2
     | Some FSC_PERMISSION_FAULT_L2 \<Rightarrow> 2
     | Some FSC_SYNC_EXT_ABORT_TT_L2 \<Rightarrow> 2
     | Some FSC_SYNC_PARITY_TT_L2 \<Rightarrow> 2
     | Some FSC_TRANSLATION_FAULT_L3 \<Rightarrow> 3
     | Some FSC_ADDRESS_SIZE_FAULT_L3 \<Rightarrow> 3
     | Some FSC_ACCESS_FLAG_FAULT_L3 \<Rightarrow> 3
     | Some FSC_PERMISSION_FAULT_L3 \<Rightarrow> 3
     | Some FSC_SYNC_EXT_ABORT_TT_L3 \<Rightarrow> 3
     | Some FSC_SYNC_PARITY_TT_L3 \<Rightarrow> 3
     | _ \<Rightarrow> - 1)"

subsection \<open>Abort handlers\<close>

text \<open>The inspectors return the fault code and the fault type.\<close>

definition inspect_data_abort :: "u32 \<Rightarrow> u32 \<times> i32" where
  "inspect_data_abort iss =
     (let fault_code = ISS_DA_FSC iss
      in (fault_code,
          if iss AND ISS_DA_WNR \<noteq> 0 \<and> (iss AND ISS_DA_CM = 0 \<or> is_permission_fault fault_code)
          then VM_PROT_READ OR VM_PROT_WRITE else VM_PROT_READ))"

definition inspect_instruction_abort :: "u32 \<Rightarrow> u32 \<times> i32" where
  "inspect_instruction_abort iss = (ISS_IA_FSC iss, VM_PROT_READ OR VM_PROT_EXECUTE)"

text \<open>
  \<^verbatim>\<open>panic\<close> and \<^verbatim>\<open>panic_with_thread_state\<close> take arguments for their format and hand on the format
  only, so the outcome is the format; \<^verbatim>\<open>cpu_halt\<close> is a branch to itself.
\<close>

definition panic :: "string \<Rightarrow> int list \<Rightarrow> unit outcome" where
  "panic fmt args = Inl (Panic fmt)"

definition panic_with_thread_state :: "exception_frame \<Rightarrow> string \<Rightarrow> int list \<Rightarrow> unit outcome" where
  "panic_with_thread_state frame fmt args = Inl (Panic fmt)"

definition cpu_halt :: "unit outcome" where
  "cpu_halt = Inl Diverges"

definition handle_data_abort :: "exception_frame \<Rightarrow> u64 \<Rightarrow> u32 \<Rightarrow> unit outcome" where
  "handle_data_abort frame fault_address fault_status =
     (if is_translation_fault fault_status
      then panic_with_thread_state frame ''Data Abort - Translation Fault Level %d'' [vm_fault_get_level fault_status]
      else if is_permission_fault fault_status
      then panic_with_thread_state frame ''Data Abort - Permissions Fault, Level %d'' [vm_fault_get_level fault_status]
      else if is_alignment_fault fault_status
      then panic_with_thread_state frame ''Alignment Fault'' []
      else if is_address_size_fault fault_status
      then panic_with_thread_state frame ''Data Abort - Address Size Fault, Level %d'' [vm_fault_get_level fault_status]
      else panic_with_thread_state frame ''Data Abort - Unknown (0x%lx)'' [uint fault_status])"

definition handle_instruction_abort :: "exception_frame \<Rightarrow> u64 \<Rightarrow> u32 \<Rightarrow> unit outcome" where
  "handle_instruction_abort frame fault_address fault_status =
     (if is_translation_fault fault_status
      then panic_with_thread_state frame ''Kernel Instruction Abort - Translation Fault, Level %d''
             [vm_fault_get_level fault_status]
      else panic_with_thread_state frame ''Kernel Instruction Abort - Unknwon (0x%x)'' [uint fault_status])"

definition handle_undefined_instruction :: "exception_frame \<Rightarrow> unit outcome" where
  "handle_undefined_instruction frame = panic_with_thread_state frame ''Undefined Instruction'' []"

definition handle_breakpoint :: "exception_frame \<Rightarrow> unit outcome" where
  "handle_breakpoint frame = panic ''Breakpoint 64'' []"

definition handle_svc :: "exception_frame \<Rightarrow> unit outcome" where
  "handle_svc frame = panic ''Supervisor Call (64)'' []"

text \<open>\<open>fault_address\<close> is a local of the C function that is never assigned.\<close>

definition handle_abort :: "u64 \<Rightarrow> exception_frame \<Rightarrow> (exception_frame \<Rightarrow> u64 \<Rightarrow> u32 \<Rightarrow> unit outcome) \<Rightarrow>
    (u32 \<Rightarrow> u32 \<times> i32) \<Rightarrow> unit outcome" where
  "handle_abort fault_address frame handler inspect =
     (case inspect (ESR_ISS (fr_esr frame)) of (fault_code, fault_type) \<Rightarrow> handler frame fault_address fault_code)"

text \<open>The handler passes the frame pointer where \<^verbatim>\<open>panic\<close> takes the format.\<close>

definition handle_msr_trap :: "exception_frame \<Rightarrow> unit outcome" where
  "handle_msr_trap frame = Inl (Undefined ''panic: the format is the frame pointer'')"

subsection \<open>First-stage handlers\<close>

definition arm64_handler_synchronous :: "u64 \<Rightarrow> exception_frame \<Rightarrow> unit outcome" where
  "arm64_handler_synchronous fault_address frame =
     (case exception_class_of (ESR_EC (fr_esr frame)) of
        Some ESR_EC_PC_ALIGN \<Rightarrow> andthen (panic_with_thread_state frame ''PC Alignment Fault'' []) (\<lambda>_. cpu_halt)
      | Some ESR_EC_DABORT_EL0 \<Rightarrow>
          andthen (handle_abort fault_address frame handle_data_abort inspect_data_abort) (\<lambda>_. cpu_halt)
      | Some ESR_EC_DABORT_EL1 \<Rightarrow>
          andthen (handle_abort fault_address frame handle_data_abort inspect_data_abort) (\<lambda>_. cpu_halt)
      | Some ESR_EC_BRK_AARCH64 \<Rightarrow> andthen (handle_breakpoint frame) (\<lambda>_. cpu_halt)
      | Some ESR_EC_SVC_64 \<Rightarrow> handle_svc frame
      | Some ESR_EC_MSR_TRAP \<Rightarrow> andthen (handle_msr_trap frame) (\<lambda>_. cpu_halt)
      | Some ESR_EC_IABORT_EL1 \<Rightarrow>
          andthen (handle_abort fault_address frame handle_instruction_abort inspect_instruction_abort) (\<lambda>_. cpu_halt)
      | Some ESR_EC_IABORT_EL0 \<Rightarrow>
          andthen (handle_abort fault_address frame handle_instruction_abort inspect_instruction_abort) (\<lambda>_. cpu_halt)
      | Some ESR_EC_UNCATEGORIZED \<Rightarrow> andthen (handle_undefined_instruction frame) (\<lambda>_. cpu_halt)
      | _ \<Rightarrow> andthen (panic_with_thread_state frame ''Unknown Exception'' []) (\<lambda>_. cpu_halt))"

definition arm64_handler_serror :: "exception_frame \<Rightarrow> unit outcome" where
  "arm64_handler_serror frame = panic (''arm64_handler_serror'' @ [CHR 0x0A]) []"

text \<open>The interrupt handlers: \<open>iar\<close> is what the acknowledge register reads.\<close>

record irq_state =
  irq_gic :: gic
  icc_eoir1_el1 :: "u64 list"
  irq_count :: i32

definition end_of_interrupt :: "u32 \<Rightarrow> irq_state \<Rightarrow> irq_state" where
  "end_of_interrupt intid g = g\<lparr>icc_eoir1_el1 := icc_eoir1_el1 g @ [ucast intid]\<rparr>"

definition arm64_handler_fiq :: "u64 \<Rightarrow> exception_frame \<Rightarrow> irq_state \<Rightarrow> irq_state" where
  "arm64_handler_fiq iar frame g = (let intid = (ucast iar :: u32) in end_of_interrupt intid g)"

text \<open>
  The timer's interrupt rearms the timer and switches to the next thread, whose address is part of
  the result; any other interrupt returns to the interrupted one. \<open>elr\<close> is the exception link register
  the scheduler reads.
\<close>

definition arm64_handler_irq :: "arch_env \<Rightarrow> u64 \<Rightarrow> u64 \<Rightarrow> exception_frame \<Rightarrow> kstate \<Rightarrow> irq_state \<Rightarrow>
    (addr option \<times> kstate \<times> irq_state) outcome" where
  "arm64_handler_irq env iar elr frame s g =
     (let intid = (ucast iar :: u32);
          g1 = end_of_interrupt intid g;
          s1 = machine_irq_disable s;
          g2 = g1\<lparr>irq_count := irq_count g1 + 1\<rparr>
      in if intid = 30
         then let g3 = g2\<lparr>irq_gic := machine_timer_reset MACHINE_TIMER_RESET_VALUE (irq_gic g2)\<rparr>
              in andthen (schedule env elr frame s1) (\<lambda>(thread, s2). Inr (Some thread, s2, g3))
         else Inr (None, s1, g2))"

subsection \<open>Classes and codes as bit fields\<close>

text \<open>
  The architecture encodes the fault in bits 5 to 2 of the status code and the level of the table
  walk in bits 1 and 0. A statement on codes below 64 can be checked code by code.
\<close>

lemma all_codes:
  assumes "list_all P (map word_of_nat [0 ..< 64])" "\<And>v. 64 \<le> v \<Longrightarrow> P v"
  shows "P (v :: u32)"
proof (cases "64 \<le> v")
  case False
  then have "unat v < 64" by (simp add: word_less_nat_alt not_le)
  then have "v \<in> set (map word_of_nat [0 ..< 64])" by (auto intro: image_eqI [of _ _ "unat v"])
  with assms(1) show ?thesis by (auto simp: list_all_iff simp del: set_map)
qed (rule assms(2))

lemma large_code:
  assumes "64 \<le> (v :: u32)"
  shows "fault_status_of v = None" "exception_class_of v = None" "v div 4 \<noteq> 0" "v div 4 \<noteq> 1" "v div 4 \<noteq> 2"
    "v div 4 \<noteq> 3" "v div 4 \<noteq> 5" "v div 4 \<noteq> 7" "v \<noteq> 0x21"
proof -
  from assms have v: "64 \<le> unat v" by (simp add: word_le_nat_alt)
  then show "fault_status_of v = None" "exception_class_of v = None"
    by (auto simp: fault_status_of_def fault_statuses_def exception_class_of_def esr_exception_classes_def)
  show "v div 4 \<noteq> 0" "v div 4 \<noteq> 1" "v div 4 \<noteq> 2" "v div 4 \<noteq> 3" "v div 4 \<noteq> 5" "v div 4 \<noteq> 7" "v \<noteq> 0x21"
    using v by (auto simp: word_unat_eq_iff unat_div)
qed

lemma upt_64: "[0 ..< 64] = [0, 1, 2, 3, 4, 5, 6, 7, 8, 9, 10, 11, 12, 13, 14, 15, 16, 17, 18, 19, 20, 21, 22, 23,
  24, 25, 26, 27, 28, 29, 30, 31, 32, 33, 34, 35, 36, 37, 38, 39, 40, 41, 42, 43, 44, 45, 46, 47, 48, 49, 50, 51, 52,
  53, 54, 55, 56, 57, 58, 59, 60, 61, 62, 63::nat]"
  by (simp add: upt_rec)

lemmas fault_code_simps = fault_status_of_def fault_statuses_def upt_64

lemma is_translation_fault_field:
  "is_translation_fault v \<longleftrightarrow> v div 4 = 1"
  by (rule all_codes [where P = "\<lambda>v. is_translation_fault v \<longleftrightarrow> v div 4 = 1"])
    (simp add: fault_code_simps is_translation_fault_def, simp add: large_code is_translation_fault_def)

lemma is_permission_fault_field:
  "is_permission_fault v \<longleftrightarrow> v div 4 = 3 \<and> v mod 4 \<noteq> 0"
  by (rule all_codes [where P = "\<lambda>v. is_permission_fault v \<longleftrightarrow> v div 4 = 3 \<and> v mod 4 \<noteq> 0"])
    (simp add: fault_code_simps is_permission_fault_def, simp add: large_code is_permission_fault_def)

lemma is_address_size_fault_field:
  "is_address_size_fault v \<longleftrightarrow> v div 4 = 0"
  by (rule all_codes [where P = "\<lambda>v. is_address_size_fault v \<longleftrightarrow> v div 4 = 0"])
    (simp add: fault_code_simps is_address_size_fault_def, simp add: large_code is_address_size_fault_def)

lemma is_alignment_fault_field:
  "is_alignment_fault v \<longleftrightarrow> v = 0x21"
  by (rule all_codes [where P = "\<lambda>v. is_alignment_fault v \<longleftrightarrow> v = 0x21"])
    (simp add: fault_code_simps is_alignment_fault_def, simp add: large_code is_alignment_fault_def)

lemma is_vm_fault_field:
  "is_vm_fault v \<longleftrightarrow> v div 4 = 1 \<or> (v div 4 = 2 \<or> v div 4 = 3) \<and> v mod 4 \<noteq> 0"
  by (rule all_codes [where P = "\<lambda>v. is_vm_fault v \<longleftrightarrow> v div 4 = 1 \<or> (v div 4 = 2 \<or> v div 4 = 3) \<and> v mod 4 \<noteq> 0"])
    (simp add: fault_code_simps is_vm_fault_def, simp add: large_code is_vm_fault_def)

text \<open>The level of a fault on a table walk, for the codes that have one.\<close>

definition fsc_level :: "u32 \<Rightarrow> int" where
  "fsc_level v = (if v div 4 \<in> {0, 1, 2, 3, 5, 7} then uint (v mod 4) else - 1)"

lemma vm_fault_get_level_field:
  "vm_fault_get_level v = (if v \<in> {0x08, 0x0c, 0x14, 0x1c} then - 1 else fsc_level v)"
  by (rule all_codes [where P = "\<lambda>v. vm_fault_get_level v = (if v \<in> {0x08, 0x0c, 0x14, 0x1c} then - 1 else fsc_level v)"])
    (simp add: fault_code_simps vm_fault_get_level_def fsc_level_def, simp add: large_code vm_fault_get_level_def fsc_level_def)

lemma esr_masks:
  "(0xfffffffffc000000 :: u64) = NOT (mask 26)" "(0x01ffffff :: u64) = mask 25" "(0x3f :: u32) = mask 6"
  by (simp_all add: mask_eq_exp_minus_1)

lemma unat_ESR_EC: "unat (ESR_EC esr) = unat esr div 2 ^ 26 mod 2 ^ 32"
proof -
  have "drop_bit 26 (esr AND 0xfffffffffc000000) = drop_bit 26 esr"
    unfolding esr_masks by (rule bit_word_eqI) (auto simp: bit_simps dest: bit_imp_le_length)
  then show ?thesis
    by (simp add: ESR_EC_def unsigned_ucast_eq unsigned_drop_bit_eq drop_bit_eq_div take_bit_eq_mod unat_div)
qed

lemma unat_fault_code: "unat (ISS_DA_FSC (ESR_ISS esr)) = unat esr mod 64"
proof -
  have "ISS_DA_FSC (ESR_ISS esr) = ucast (take_bit 6 esr)"
    unfolding ISS_DA_FSC_def ESR_ISS_def esr_masks by (rule bit_word_eqI) (auto simp: bit_simps)
  moreover have "unat esr mod 64 < 2 ^ 32" by (rule less_trans [of _ 64]) simp_all
  ultimately show ?thesis
    by (simp add: unsigned_ucast_eq unsigned_take_bit_eq take_bit_eq_mod unat_mod)
qed

lemma unat_instruction_fault_code: "unat (ISS_IA_FSC (ESR_ISS esr)) = unat esr mod 64"
  using unat_fault_code [of esr] by (simp add: ISS_DA_FSC_def ISS_IA_FSC_def)

text \<open>The panic of a data abort and of an instruction abort, by fault status code.\<close>

definition data_abort_message :: "nat \<Rightarrow> string" where
  "data_abort_message fsc =
     (if fsc div 4 = 1 then ''Data Abort - Translation Fault Level %d''
      else if fsc div 4 = 3 \<and> fsc mod 4 \<noteq> 0 then ''Data Abort - Permissions Fault, Level %d''
      else if fsc = 0x21 then ''Alignment Fault''
      else if fsc div 4 = 0 then ''Data Abort - Address Size Fault, Level %d''
      else ''Data Abort - Unknown (0x%lx)'')"

definition instruction_abort_message :: "nat \<Rightarrow> string" where
  "instruction_abort_message fsc =
     (if fsc div 4 = 1 then ''Kernel Instruction Abort - Translation Fault, Level %d''
      else ''Kernel Instruction Abort - Unknwon (0x%x)'')"

text \<open>The outcome of a synchronous exception, by class and fault status code.\<close>

definition synchronous_outcome :: "nat \<Rightarrow> nat \<Rightarrow> error" where
  "synchronous_outcome ec fsc =
     (if ec = 0x00 then Panic ''Undefined Instruction''
      else if ec = 0x15 then Panic ''Supervisor Call (64)''
      else if ec = 0x18 then Undefined ''panic: the format is the frame pointer''
      else if ec = 0x20 \<or> ec = 0x21 then Panic (instruction_abort_message fsc)
      else if ec = 0x22 then Panic ''PC Alignment Fault''
      else if ec = 0x24 \<or> ec = 0x25 then Panic (data_abort_message fsc)
      else if ec = 0x3c then Panic ''Breakpoint 64''
      else Panic ''Unknown Exception'')"

lemmas fault_fields = is_translation_fault_field is_permission_fault_field is_address_size_fault_field
  is_alignment_fault_field

lemma handle_data_abort_message:
  "handle_abort fa frame handle_data_abort inspect_data_abort
     = Inl (Panic (data_abort_message (unat (fr_esr frame) mod 64)))"
proof -
  define v where "v = ISS_DA_FSC (ESR_ISS (fr_esr frame))"
  have "handle_data_abort frame fa v = Inl (Panic (data_abort_message (unat v)))"
    by (simp add: handle_data_abort_def fault_fields panic_with_thread_state_def data_abort_message_def
        word_unat_eq_iff unat_div unat_mod)
  then show ?thesis
    by (simp add: handle_abort_def inspect_data_abort_def Let_def v_def unat_fault_code)
qed

lemma handle_instruction_abort_message:
  "handle_abort fa frame handle_instruction_abort inspect_instruction_abort
     = Inl (Panic (instruction_abort_message (unat (fr_esr frame) mod 64)))"
proof -
  define v where "v = ISS_IA_FSC (ESR_ISS (fr_esr frame))"
  have "handle_instruction_abort frame fa v = Inl (Panic (instruction_abort_message (unat v)))"
    by (simp add: handle_instruction_abort_def fault_fields panic_with_thread_state_def
        instruction_abort_message_def word_unat_eq_iff unat_div unat_mod)
  then show ?thesis
    by (simp add: handle_abort_def inspect_instruction_abort_def v_def unat_instruction_fault_code)
qed

lemma synchronous_by_class:
  "\<forall>frame. ESR_EC (fr_esr frame) = v \<longrightarrow>
     arm64_handler_synchronous fa frame = Inl (synchronous_outcome (unat v) (unat (fr_esr frame) mod 64))"
proof (rule all_codes [where P = "\<lambda>v. \<forall>frame. ESR_EC (fr_esr frame) = v \<longrightarrow>
     arm64_handler_synchronous fa frame = Inl (synchronous_outcome (unat v) (unat (fr_esr frame) mod 64))"])
  fix v :: u32 assume v: "64 \<le> v"
  then have "64 \<le> unat v" by (simp add: word_le_nat_alt)
  then show "\<forall>frame. ESR_EC (fr_esr frame) = v \<longrightarrow>
     arm64_handler_synchronous fa frame = Inl (synchronous_outcome (unat v) (unat (fr_esr frame) mod 64))"
    by (auto simp: arm64_handler_synchronous_def large_code [OF v] synchronous_outcome_def panic_with_thread_state_def)
qed (simp add: upt_64 arm64_handler_synchronous_def exception_class_of_def esr_exception_classes_def
    synchronous_outcome_def handle_data_abort_message handle_instruction_abort_message
    panic_with_thread_state_def handle_breakpoint_def handle_svc_def handle_msr_trap_def
    handle_undefined_instruction_def panic_def)

lemma schedule_masked: "schedule env elr frame (machine_irq_disable s) = schedule env elr frame s"
  by (simp add: schedule_def machine_irq_disable_def)

subsection \<open>Properties\<close>

text \<open>The switches over fault status codes agree with the bit fields of the architecture, for every
  32-bit code: the fault kind is in bits 5 to 2 and the level of the walk in bits 1 and 0. The level is
  reported for every kind that has one except the level-0 codes 0x08, 0x0c, 0x14 and 0x1c, which
  the enumeration lacks and which give -1.
\<close>

theorem fault_status_bit_fields:
  "(is_translation_fault v \<longleftrightarrow> v div 4 = 1) \<and> (is_address_size_fault v \<longleftrightarrow> v div 4 = 0) \<and>
   (is_permission_fault v \<longleftrightarrow> v div 4 = 3 \<and> v mod 4 \<noteq> 0) \<and> (is_alignment_fault v \<longleftrightarrow> v = 0x21) \<and>
   (is_vm_fault v \<longleftrightarrow> v div 4 = 1 \<or> (v div 4 = 2 \<or> v div 4 = 3) \<and> v mod 4 \<noteq> 0) \<and>
   vm_fault_get_level v = (if v \<in> {0x08, 0x0c, 0x14, 0x1c} then - 1 else fsc_level v)"
  by (intro conjI is_translation_fault_field is_address_size_fault_field is_permission_fault_field
      is_alignment_fault_field is_vm_fault_field vm_fault_get_level_field)

text \<open>C22. No synchronous exception returns, and its outcome is a function of the syndrome register: bits
  57 to 26 select the panic (and not the class field, bits 31 to 26, alone: an exception with a bit
  above 31 set is reported as unknown), and for aborts bits 5 to 0 select the message.
\<close>

theorem synchronous_exception_outcome:
  "arm64_handler_synchronous fault_address frame =
     Inl (synchronous_outcome (unat (fr_esr frame) div 2 ^ 26 mod 2 ^ 32) (unat (fr_esr frame) mod 64))"
  using synchronous_by_class [of "ESR_EC (fr_esr frame)" fault_address] unfolding unat_ESR_EC by blast

text \<open>The timer interrupt preempts: with the running thread at position \<open>i\<close> of the ring and the next
  thread active, the handler acknowledges the interrupt, counts it, rearms the timer, saves the
  interrupted thread's resume address and stack, and resumes the next thread of the ring with
  interrupts masked.
\<close>

theorem timer_interrupt_preempts:
  assumes "on_threads env ts s" "i < length ts" "cpu_get_current env (machine_irq_disable s) = Inr cpu"
    and "cpu_active_thread cpu = ts ! i" "th_active (thread_objs s (ts ! (Suc i mod length ts)))"
    and "ucast iar = (30 :: u32)"
  shows "\<exists>s'. arm64_handler_irq env iar elr frame s g = Inr (Some (ts ! (Suc i mod length ts)), s',
      g\<lparr>icc_eoir1_el1 := icc_eoir1_el1 g @ [30], irq_count := irq_count g + 1,
        irq_gic := (irq_gic g)\<lparr>cntp_tval_el0 := MACHINE_TIMER_RESET_VALUE\<rparr>\<rparr>) \<and>
      irq_masked s' \<and> current_task s' = th_task (thread_objs s (ts ! (Suc i mod length ts))) \<and>
      th_entry (thread_objs s' (ts ! i)) = elr \<and> th_stack (thread_objs s' (ts ! i)) = fr_sp frame"
  using schedule_switch_effect [OF assms(1-5), of elr frame] assms(6)
  by (auto simp: arm64_handler_irq_def schedule_masked end_of_interrupt_def machine_timer_reset_def
      arm64_timer_reset_def Let_def)

theorem timer_interrupt_preempts_witness:
  "\<exists>s' g'. arm64_handler_irq sample_env 30 0x4000 \<lparr>fr_regs = (\<lambda>_. 0), fr_fp = 0, fr_lr = 0, fr_sp = 0x8000,
       fr_far = 0, fr_esr = 0, fr_elr = 0\<rparr> (sample_sched True)
       \<lparr>irq_gic = sample_gic, icc_eoir1_el1 = [], irq_count = 0\<rparr> = Inr (Some 0xfffffff000220140, s', g') \<and>
     th_entry (thread_objs s' 0xfffffff000220010) = 0x4000 \<and> icc_eoir1_el1 g' = [30]"
proof -
  have "th_active (thread_objs (sample_sched True) t)" for t by (simp add: sample_sched_def)
  then show ?thesis
    using timer_interrupt_preempts [OF sample_sched_threads _ sample_sched_cpu, of 0 True 30 "0x4000"
      "\<lparr>fr_regs = (\<lambda>_. 0), fr_fp = 0, fr_lr = 0, fr_sp = 0x8000, fr_far = 0, fr_esr = 0, fr_elr = 0\<rparr>"
      "\<lparr>irq_gic = sample_gic, icc_eoir1_el1 = [], irq_count = 0\<rparr>"]
    by auto
qed

end
