(* ===== verification/Panic.thy ===== *)
theory Panic
  imports Printk Exception
begin

section \<open>The panic handler\<close>

text \<open>
  \<^verbatim>\<open>kern/panic.c\<close>: what a panic prints before it halts the processor. The messages go through the
  console's formatter; the result is the state in which the processor halts. The strings of the
  build (\<^verbatim>\<open>libkern/version.h\<close>, \<^verbatim>\<open>kern/defaults.h\<close>) are literals whose addresses are parameters, and
  the variable arguments \<^verbatim>\<open>__panic\<close> reads with \<^verbatim>\<open>va_start\<close> are those its callers do not pass: they
  are the parameter \<open>stale\<close>. A panic inside the handler halts at once; a failed assertion inside it
  is that outcome.
\<close>

subsection \<open>State\<close>

record panic_env =
  pe_machine :: u64
  pe_source_version :: u64
  pe_build_style :: u64
  pe_build_target :: u64
  pe_build_version :: u64
  pe_timestamp :: u64
  pe_kernel_init :: u64
  pe_currentel :: u64
  pe_frame_pointer :: u64

record panic_state =
  panic_active :: bool
  pn_kernel :: kstate
  pn_mem :: mem
  pn_console :: console

abbreviation LF :: char where "LF \<equiv> CHR 0x0A"
abbreviation PANIC_FLAG_CPUTRACE :: i32 where "PANIC_FLAG_CPUTRACE \<equiv> 1"
abbreviation OFF_TASK_NAME :: u64 where "OFF_TASK_NAME \<equiv> 8"

subsection \<open>Messages\<close>

datatype message = Kprintf string "u64 list" | Cont string "u64 list" | Vprintk "u8 list" "u64 list"

definition emit_message :: "device \<Rightarrow> u64 \<Rightarrow> u32 \<Rightarrow> message \<Rightarrow> mem \<Rightarrow> console \<Rightarrow> (i32 \<times> mem \<times> console) outcome" where
  "emit_message dev buf opts msg m s =
     (case msg of
        Kprintf fmt args \<Rightarrow> printk dev buf opts LOGLEVEL_DEFAULT 0 (map of_char (''[   0.0000] '' @ fmt)) args m s
      | Cont fmt args \<Rightarrow> printk dev buf opts LOGLEVEL_DEFAULT PK_FLAGS_CONT (map of_char fmt) args m s
      | Vprintk fmt args \<Rightarrow> vprintk dev buf opts fmt args m s)"

fun emit_messages :: "device \<Rightarrow> u64 \<Rightarrow> u32 \<Rightarrow> message list \<Rightarrow> panic_state \<Rightarrow> panic_state outcome" where
  "emit_messages dev buf opts [] st = Inr st"
| "emit_messages dev buf opts (msg # msgs) st =
     andthen (emit_message dev buf opts msg (pn_mem st) (pn_console st)) (\<lambda>(_, m, s).
       emit_messages dev buf opts msgs (st\<lparr>pn_mem := m, pn_console := s\<rparr>))"

text \<open>The header: the banner and the identification of the machine and kernel.\<close>

definition panic_header :: "panic_env \<Rightarrow> u8 list \<Rightarrow> u64 list \<Rightarrow> i32 \<Rightarrow> i32 \<Rightarrow> message list" where
  "panic_header pe fmt stale cpu pid =
    [Kprintf [LF] [],
     Kprintf ''--- Kernel Panic - '' [],
     Vprintk fmt stale,
     Cont [LF] [],
     Kprintf (''CPU: %d  PID: %d  %s:%s/%s_%s'' @ [LF])
       [ucast cpu, ucast pid, pe_machine pe, pe_source_version pe, pe_build_style pe, pe_build_target pe],
     Kprintf (''Machine: tiny-ex1'' @ [LF]) [],
     Kprintf (''Kernel:  Monix Kernel Version %s; %s'' @ [LF]) [pe_build_version pe, pe_timestamp pe]]"

text \<open>The records of the frames, at most twenty, until one has no parent.\<close>

fun backtrace_records :: "(addr \<Rightarrow> u64) \<Rightarrow> addr \<Rightarrow> nat \<Rightarrow> nat \<Rightarrow> message list" where
  "backtrace_records mem fr i 0 = []"
| "backtrace_records mem fr i (Suc n) =
     (if fr = NULL \<or> mem fr = NULL then []
      else Kprintf ([CHR 0x09] @ ''%d: 0x%lx'' @ [LF]) [word_of_nat i, mem (fr + 8)]
             # backtrace_records mem (mem fr) (Suc i) n)"

definition print_backtrace :: "panic_env \<Rightarrow> cpu_data \<Rightarrow> kstate \<Rightarrow> message list outcome" where
  "print_backtrace pe panic_cpu s =
     andthen (cpu_read_flag (cpu_num panic_cpu) CPU_FLAG_THREADING_ENABLED s) (\<lambda>r.
       let t = cpu_active_thread panic_cpu
       in Inr ((if r \<noteq> 0
                then [Kprintf (''Process name: %s  Thread ID: %d'' @ [LF])
                        [th_task (thread_objs s t) + OFF_TASK_NAME, ucast (th_thread_id (thread_objs s t))]]
                else [Kprintf (''Kernel faulted before main thread enabled'' @ [LF]) []])
               @ [Kprintf [LF] [], Kprintf (''Backtrace (CPU%d):'' @ [LF]) [ucast (cpu_num panic_cpu)]]
               @ backtrace_records (cells s) (pe_frame_pointer pe) 0 20
               @ [Kprintf [LF] []]))"

text \<open>The state of the processor, four registers to a line.\<close>

definition register_line :: "string \<Rightarrow> u64 list \<Rightarrow> message" where
  "register_line fmt regs = Kprintf (fmt @ [LF]) regs"

definition cpu_state :: "panic_env \<Rightarrow> exception_frame \<Rightarrow> kstate \<Rightarrow> message list" where
  "cpu_state pe frame s =
     (let r = fr_regs frame; elx = ucast (ucast (drop_bit 2 (pe_currentel pe)) :: u32)
      in [Kprintf (''CPU State:'' @ [LF]) [],
          register_line ''  x0: 0x%016llx   x1: 0x%016llx   x2: 0x%016llx   x3: 0x%016llx'' [r 0, r 1, r 2, r 3],
          register_line ''  x4: 0x%016llx   x5: 0x%016llx   x6: 0x%016llx   x7: 0x%016llx'' [r 4, r 5, r 6, r 7],
          register_line ''  x8: 0x%016llx   x9: 0x%016llx  x10: 0x%016llx  x11: 0x%016llx'' [r 8, r 9, r 10, r 11],
          register_line '' x12: 0x%016llx  x13: 0x%016llx  x14: 0x%016llx  x15: 0x%016llx'' [r 12, r 13, r 14, r 15],
          register_line '' x16: 0x%016llx  x17: 0x%016llx  x18: 0x%016llx  x19: 0x%016llx'' [r 16, r 17, r 18, r 19],
          register_line '' x20: 0x%016llx  x21: 0x%016llx  x22: 0x%016llx  x23: 0x%016llx'' [r 20, r 21, r 22, r 23],
          register_line '' x24: 0x%016llx  x25: 0x%016llx  x26: 0x%016llx  x27: 0x%016llx'' [r 24, r 25, r 26, r 27],
          register_line '' x28: 0x%016llx   fp: 0x%016llx   lr: 0x%016llx   sp: 0x%016llx''
            [r 28, fr_fp frame, fr_lr frame, fr_sp frame],
          Kprintf [LF] [],
          Kprintf (''Exception taken at EL%d'' @ [LF]) [elx],
          Kprintf (''  FAR_EL%d: 0x%016llx (0x%08lx)'' @ [LF]) [elx, ptokva s (fr_far frame), fr_far frame],
          Kprintf (''  ESR_EL%d: 0x%016llx'' @ [LF]) [elx, fr_esr frame],
          Kprintf [LF] []])"

definition panic_footer :: "panic_env \<Rightarrow> u8 list \<Rightarrow> u64 list \<Rightarrow> message list" where
  "panic_footer pe fmt stale =
    [Kprintf (''Kernel base: 0x%lx'' @ [LF]) [pe_kernel_init pe],
     Kprintf [LF] [],
     Kprintf ''---[end Kernel Panic - '' [],
     Vprintk fmt stale,
     Cont ('' ]'' @ [LF]) []]"

subsection \<open>The handler\<close>

text \<open>A panic raised while the handler is active ends it: the processor halts where it is.\<close>

definition in_panic :: "'a outcome \<Rightarrow> panic_state \<Rightarrow> ('a \<Rightarrow> panic_state outcome) \<Rightarrow> panic_state outcome" where
  "in_panic r st f = (case r of Inl (Panic _) \<Rightarrow> Inr st | Inl e \<Rightarrow> Inl e | Inr x \<Rightarrow> f x)"

lemma in_panic_simps [simp]:
  "in_panic (Inr x) st f = f x"
  "in_panic (Inl (Panic e)) st f = Inr st"
  by (simp_all add: in_panic_def)

definition panic_pid :: "kstate \<Rightarrow> i32" where
  "panic_pid s = (if get_current_task s \<noteq> 0 then tk_pid (task_objs s (get_current_task s)) else - 1)"

definition kpanic :: "device \<Rightarrow> u64 \<Rightarrow> u32 \<Rightarrow> arch_env \<Rightarrow> panic_env \<Rightarrow> i32 \<Rightarrow> exception_frame \<Rightarrow> u8 list \<Rightarrow> u64 list \<Rightarrow>
    panic_state \<Rightarrow> panic_state outcome" where
  "kpanic dev buf opts env pe flags frame fmt stale st =
     (if panic_active st then Inr st
      else
        let st1 = st\<lparr>panic_active := True, pn_kernel := machine_irq_disable (pn_kernel st)\<rparr>;
            s = pn_kernel st1
        in in_panic (cpu_get_current env s) st1 (\<lambda>panic_cpu.
             andthen (emit_messages dev buf opts (panic_header pe fmt stale (cpu_num panic_cpu) (panic_pid s)) st1) (\<lambda>st2.
               in_panic (print_backtrace pe panic_cpu s) st2 (\<lambda>trace.
                 emit_messages dev buf opts
                   (trace @ (if flags AND PANIC_FLAG_CPUTRACE \<noteq> 0 then cpu_state pe frame s else []) @
                    panic_footer pe fmt stale) st2))))"

subsection \<open>What is printed\<close>

definition message_text :: "message \<Rightarrow> u8 list" where
  "message_text msg = (case msg of
       Kprintf fmt args \<Rightarrow> map of_char (''[   0.0000] '' @ fmt)
     | Cont fmt args \<Rightarrow> map of_char fmt
     | Vprintk fmt args \<Rightarrow> fmt)"

definition message_args :: "message \<Rightarrow> u64 list" where
  "message_args msg = (case msg of Kprintf fmt args \<Rightarrow> args | Cont fmt args \<Rightarrow> args | Vprintk fmt args \<Rightarrow> args)"

fun render_messages :: "(u64 \<Rightarrow> u8 list option) \<Rightarrow> u32 \<Rightarrow> message list \<Rightarrow> u8 list option" where
  "render_messages strs opts [] = Some []"
| "render_messages strs opts (msg # msgs) =
     (case render_text strs (message_text msg) (message_args msg) opts 0 of
        None \<Rightarrow> None
      | Some (w, out) \<Rightarrow> map_option ((@) out) (render_messages strs opts msgs))"

lemma emit_message_printk:
  obtains flags where "emit_message dev buf opts msg m s =
     printk dev buf opts LOGLEVEL_DEFAULT flags (message_text msg) (message_args msg) m s"
  by (cases msg) (auto simp: emit_message_def message_text_def message_args_def vprintk_def printk_def)

text \<open>The console is up and the strings the messages name are in memory.\<close>

definition console_ready :: "device \<Rightarrow> u64 \<Rightarrow> (u64 \<Rightarrow> u8 list option) \<Rightarrow> panic_state \<Rightarrow> bool" where
  "console_ready dev buf strs st \<longleftrightarrow> console_initialised (pn_console st) \<and> uart_drains dev (pn_console st) \<and>
     strings_at strs buf (pn_mem st)"

lemma emit_messages_prints:
  assumes "console_ready dev buf strs st" "render_messages strs opts msgs = Some out"
  shows "\<exists>m s. emit_messages dev buf opts msgs st = Inr (st\<lparr>pn_mem := m, pn_console := s\<rparr>) \<and>
     uart_out s = uart_out (pn_console st) @ out \<and> console_ready dev buf strs (st\<lparr>pn_mem := m, pn_console := s\<rparr>)"
  using assms
proof (induction msgs arbitrary: st out)
  case Nil
  then show ?case by (intro exI [of _ "pn_mem st"] exI [of _ "pn_console st"]) simp
next
  case (Cons msg msgs)
  from Cons.prems(2) obtain w o1 o2 where
    r: "render_text strs (message_text msg) (message_args msg) opts 0 = Some (w, o1)"
      "render_messages strs opts msgs = Some o2" "out = o1 @ o2" by (auto split: option.splits)
  obtain flags where msg: "emit_message dev buf opts msg (pn_mem st) (pn_console st) =
     printk dev buf opts LOGLEVEL_DEFAULT flags (message_text msg) (message_args msg) (pn_mem st) (pn_console st)"
    by (rule emit_message_printk)
  have level: "sint (0 :: i32) \<le> 3" by simp
  from Cons.prems(1) have c: "console_initialised (pn_console st)" "uart_drains dev (pn_console st)"
    "strings_at strs buf (pn_mem st)" by (simp_all add: console_ready_def)
  from printk_prints [OF level c r(1), of flags] obtain m s where
    p: "emit_message dev buf opts msg (pn_mem st) (pn_console st) = Inr (w, m, s)"
      "uart_out s = uart_out (pn_console st) @ o1" "console_initialised s" "uart_drains dev s"
      "\<forall>b. off_buf buf b \<longrightarrow> m b = pn_mem st b" unfolding msg by blast
  let ?st = "st\<lparr>pn_mem := m, pn_console := s\<rparr>"
  have "console_ready dev buf strs ?st"
    using p c strings_at_cong [OF c(3)] by (simp add: console_ready_def)
  from Cons.IH [OF this r(2)] p r(3) show ?case by auto
qed

lemma emit_messages_append:
  "emit_messages dev buf opts (xs @ ys) st =
     andthen (emit_messages dev buf opts xs st) (emit_messages dev buf opts ys)"
  by (induction xs arbitrary: st) (simp_all add: andthen_assoc case_prod_unfold)

lemma render_messages_append:
  "render_messages strs opts (xs @ ys) = Some out \<longleftrightarrow>
     (\<exists>o1 o2. render_messages strs opts xs = Some o1 \<and> render_messages strs opts ys = Some o2 \<and> out = o1 @ o2)"
  by (induction xs arbitrary: out) (auto split: option.splits)

lemma print_backtrace_outcome:
  assumes "in_cpu_table (cpu_num cpu)"
  shows "if sint (cpu_count s) < sint (cpu_num cpu) then \<exists>e. print_backtrace pe cpu s = Inl (Panic e)
     else \<exists>trace. print_backtrace pe cpu s = Inr trace"
  using assms by (simp add: print_backtrace_def cpu_read_flag_def CPU_ASSERT_VALID_ID_def cpu_get_cpu_def Let_def)

subsection \<open>Properties\<close>

text \<open>C29. A first panic on a console that is set up masks interrupts, prints its messages and halts, and a
  later panic halts without printing. What is printed is the rendered header, and then, if the
  processor's number does not exceed the count of cpus, the backtrace, the processor state when asked
  for and the footer; on a processor above the count the handler panics in its own backtrace, so
  that the header is all that appears.
\<close>

theorem panic_prints_and_halts:
  assumes "\<not> panic_active st" "console_ready dev buf strs st" "s = machine_irq_disable (pn_kernel st)"
    and "cpu_get_current env s = Inr cpu" "in_cpu_table (cpu_num cpu)"
    and "rest = (case print_backtrace pe cpu s of
           Inl e \<Rightarrow> []
         | Inr trace \<Rightarrow> trace @ (if flags AND PANIC_FLAG_CPUTRACE \<noteq> 0 then cpu_state pe frame s else []) @
             panic_footer pe fmt stale)"
    and "render_messages strs opts (panic_header pe fmt stale (cpu_num cpu) (panic_pid s) @ rest) = Some out"
  shows "\<exists>st'. kpanic dev buf opts env pe flags frame fmt stale st = Inr st' \<and> irq_masked (pn_kernel st') \<and>
     uart_out (pn_console st') = uart_out (pn_console st) @ out \<and>
     (rest = [] \<longleftrightarrow> sint (cpu_count s) < sint (cpu_num cpu)) \<and>
     (\<forall>flags' frame' fmt'. kpanic dev buf opts env pe flags' frame' fmt' stale st' = Inr st')"
proof -
  let ?st = "st\<lparr>panic_active := True, pn_kernel := s\<rparr>" and ?header = "panic_header pe fmt stale (cpu_num cpu) (panic_pid s)"
  from assms(7) obtain o1 o2 where o: "render_messages strs opts ?header = Some o1"
    "render_messages strs opts rest = Some o2" "out = o1 @ o2" by (auto simp: render_messages_append)
  have "console_ready dev buf strs ?st" using assms(2) by (simp add: console_ready_def)
  from emit_messages_prints [OF this o(1)] obtain m c where
    h: "emit_messages dev buf opts ?header ?st = Inr (?st\<lparr>pn_mem := m, pn_console := c\<rparr>)"
      "uart_out c = uart_out (pn_console st) @ o1" "console_ready dev buf strs (?st\<lparr>pn_mem := m, pn_console := c\<rparr>)"
    by auto
  from emit_messages_prints [OF h(3) o(2)] obtain m' c' where
    t: "emit_messages dev buf opts rest (?st\<lparr>pn_mem := m, pn_console := c\<rparr>) = Inr (?st\<lparr>pn_mem := m', pn_console := c'\<rparr>)"
      "uart_out c' = uart_out c @ o2" by auto
  have step: "kpanic dev buf opts env pe flags frame fmt stale st =
      in_panic (print_backtrace pe cpu s) (?st\<lparr>pn_mem := m, pn_console := c\<rparr>) (\<lambda>trace. emit_messages dev buf opts
        (trace @ (if flags AND PANIC_FLAG_CPUTRACE \<noteq> 0 then cpu_state pe frame s else []) @ panic_footer pe fmt stale)
        (?st\<lparr>pn_mem := m, pn_console := c\<rparr>))"
    using assms(1,4) h(1) by (simp add: kpanic_def assms(3) [symmetric] Let_def)
  have "kpanic dev buf opts env pe flags frame fmt stale st = Inr (?st\<lparr>pn_mem := m', pn_console := c'\<rparr>) \<and>
      (rest = [] \<longleftrightarrow> sint (cpu_count s) < sint (cpu_num cpu))"
    using print_backtrace_outcome [OF assms(5), of s pe] t(1) unfolding step
    by (auto simp: assms(6) panic_footer_def split: if_splits)
  moreover have "irq_masked s" by (simp add: assms(3) machine_irq_disable_def)
  ultimately show ?thesis
    using h(2) t(2) o(3) by (intro exI [of _ "?st\<lparr>pn_mem := m', pn_console := c'\<rparr>"]) (simp add: kpanic_def)
qed

definition sample_panic :: panic_state where
  "sample_panic = \<lparr>panic_active = False, pn_kernel = reset_state, pn_mem = sample_mem, pn_console = sample_console\<rparr>"

definition sample_panic_env :: panic_env where
  "sample_panic_env = \<lparr>pe_machine = 0x10, pe_source_version = 0x10, pe_build_style = 0x10, pe_build_target = 0x10,
     pe_build_version = 0x10, pe_timestamp = 0x10, pe_kernel_init = 0xfffffff000000000, pe_currentel = 4,
     pe_frame_pointer = 0\<rparr>"

theorem panic_prints_and_halts_witness:
  "\<exists>st'. kpanic (\<lambda>_ _. 0) 0x1000 0 sample_env sample_panic_env 0 \<lparr>fr_regs = (\<lambda>_. 0), fr_fp = 0, fr_lr = 0, fr_sp = 0,
       fr_far = 0, fr_esr = 0, fr_elr = 0\<rparr> (map of_char ''Breakpoint 64'') [] sample_panic = Inr st' \<and>
     irq_masked (pn_kernel st')"
proof -
  define strs :: "u64 \<Rightarrow> u8 list option" where "strs = [0x10 \<mapsto> [97, 98, 99]]"
  define s where "s = machine_irq_disable (pn_kernel sample_panic)"
  have off: "off_buf 0x1000 (0x10 + word_of_nat i)" if "i \<le> 3" for i
    using that by (auto simp: off_buf_def le_Suc_eq numeral_3_eq_3)
  have ready: "console_ready (\<lambda>_ _. 0) 0x1000 strs sample_panic"
    using off by (simp add: console_ready_def sample_panic_def sample_console_def uart_drains_def clears_def
        strings_at_def strs_def sample_mem_def)
  have cpu: "cpu_get_current sample_env s = Inr zero_cpu_data" "in_cpu_table (cpu_num zero_cpu_data)"
    by (simp_all add: s_def sample_panic_def machine_irq_disable_def reset_state_def cpu_get_current_def
        machine_get_cpu_num_def MPIDR_TO_CPU_NUM_def sample_env_def cpu_get_cpu_def in_cpu_table_def zero_cpu_data_def)
  have pid: "panic_pid s = - 1"
    by (simp add: panic_pid_def s_def sample_panic_def machine_irq_disable_def reset_state_def get_current_task_def)
  have inactive: "\<not> panic_active sample_panic" by (simp add: sample_panic_def)
  define trace where "trace = [Kprintf (''Kernel faulted before main thread enabled'' @ [LF]) [],
      Kprintf [LF] [], Kprintf (''Backtrace (CPU%d):'' @ [LF]) [0], Kprintf [LF] []]"
  have trace: "print_backtrace sample_panic_env zero_cpu_data s = Inr trace"
    by (simp add: print_backtrace_def cpu_read_flag_def CPU_ASSERT_VALID_ID_def cpu_get_cpu_def in_cpu_table_def s_def
        sample_panic_def machine_irq_disable_def reset_state_def zero_cpu_data_def sample_panic_env_def trace_def
        numeral_eq_Suc)
  define fmt where "fmt = (map of_char ''Breakpoint 64'' :: u8 list)"
  define frame where "frame = \<lparr>fr_regs = (\<lambda>_. 0), fr_fp = 0, fr_lr = 0, fr_sp = 0, fr_far = 0, fr_esr = 0, fr_elr = 0\<rparr>"
  have "\<exists>out. render_messages strs 0 (panic_header sample_panic_env fmt [] (cpu_num zero_cpu_data) (- 1) @
      trace @ panic_footer sample_panic_env fmt []) = Some out"
    by (simp add: panic_header_def panic_footer_def trace_def message_text_def message_args_def directive_of_def
        strs_def sample_panic_env_def zero_cpu_data_def fmt_def)
  then obtain out where out: "render_messages strs 0 (panic_header sample_panic_env fmt [] (cpu_num zero_cpu_data) (- 1) @
      trace @ panic_footer sample_panic_env fmt []) = Some out" by blast
  have "render_messages strs 0 (panic_header sample_panic_env fmt [] (cpu_num zero_cpu_data) (panic_pid s) @
      (case print_backtrace sample_panic_env zero_cpu_data s of Inl e \<Rightarrow> []
       | Inr trace \<Rightarrow> trace @ (if 0 AND PANIC_FLAG_CPUTRACE \<noteq> 0 then cpu_state sample_panic_env frame s else []) @
           panic_footer sample_panic_env fmt [])) = Some out"
    using out by (simp add: trace pid)
  from panic_prints_and_halts [OF inactive ready s_def cpu refl this]
  show ?thesis unfolding fmt_def [symmetric] frame_def [symmetric] by blast
qed

end
