(* ===== verification/Fdt.thy ===== *)
theory Fdt
  imports Tiny_String
begin

section \<open>The flattened device tree\<close>

text \<open>
  \<^verbatim>\<open>libkern/libfdt/fdt.c\<close>: the header checks and the traversal of the structure block on which
  everything else of the library rests. The tree is a blob of bytes in memory at the address
  \<open>fdt\<close>; its numbers are big-endian. The build sets \<^verbatim>\<open>FDT_ASSUME_MASK\<close> to 0, so that all the
  library's checks are compiled in. An \<^verbatim>\<open>int\<close> is a 32-bit word read with \<^const>\<open>sint\<close>, and the signed
  additions the C code performs wrap. The loop over the characters of a name always ends and is a
  total function; the loop over tags need not, and has no result then.
\<close>

subsection \<open>The header\<close>

text \<open>\<^verbatim>\<open>fdt32_to_cpu\<close> of the four bytes at an address.\<close>

definition fdt32 :: "mem \<Rightarrow> addr \<Rightarrow> u32" where
  "fdt32 m a = push_bit 24 (ucast (m a)) OR push_bit 16 (ucast (m (a + 1))) OR
     push_bit 8 (ucast (m (a + 2))) OR ucast (m (a + 3))"

definition fdt_magic :: "mem \<Rightarrow> addr \<Rightarrow> u32" where "fdt_magic m fdt = fdt32 m fdt"
definition fdt_totalsize :: "mem \<Rightarrow> addr \<Rightarrow> u32" where "fdt_totalsize m fdt = fdt32 m (fdt + 4)"
definition fdt_off_dt_struct :: "mem \<Rightarrow> addr \<Rightarrow> u32" where "fdt_off_dt_struct m fdt = fdt32 m (fdt + 8)"
definition fdt_off_dt_strings :: "mem \<Rightarrow> addr \<Rightarrow> u32" where "fdt_off_dt_strings m fdt = fdt32 m (fdt + 12)"
definition fdt_off_mem_rsvmap :: "mem \<Rightarrow> addr \<Rightarrow> u32" where "fdt_off_mem_rsvmap m fdt = fdt32 m (fdt + 16)"
definition fdt_version :: "mem \<Rightarrow> addr \<Rightarrow> u32" where "fdt_version m fdt = fdt32 m (fdt + 20)"
definition fdt_last_comp_version :: "mem \<Rightarrow> addr \<Rightarrow> u32" where "fdt_last_comp_version m fdt = fdt32 m (fdt + 24)"
definition fdt_size_dt_strings :: "mem \<Rightarrow> addr \<Rightarrow> u32" where "fdt_size_dt_strings m fdt = fdt32 m (fdt + 32)"
definition fdt_size_dt_struct :: "mem \<Rightarrow> addr \<Rightarrow> u32" where "fdt_size_dt_struct m fdt = fdt32 m (fdt + 36)"

abbreviation FDT_MAGIC :: u32 where "FDT_MAGIC \<equiv> 0xd00dfeed"
abbreviation FDT_SW_MAGIC :: u32 where "FDT_SW_MAGIC \<equiv> NOT 0xd00dfeed"
abbreviation FDT_BEGIN_NODE :: u32 where "FDT_BEGIN_NODE \<equiv> 1"
abbreviation FDT_END_NODE :: u32 where "FDT_END_NODE \<equiv> 2"
abbreviation FDT_PROP :: u32 where "FDT_PROP \<equiv> 3"
abbreviation FDT_NOP :: u32 where "FDT_NOP \<equiv> 4"
abbreviation FDT_END :: u32 where "FDT_END \<equiv> 9"

abbreviation FDT_ERR_NOTFOUND :: i32 where "FDT_ERR_NOTFOUND \<equiv> 1"
abbreviation FDT_ERR_NOSPACE :: i32 where "FDT_ERR_NOSPACE \<equiv> 3"
abbreviation FDT_ERR_BADOFFSET :: i32 where "FDT_ERR_BADOFFSET \<equiv> 4"
abbreviation FDT_ERR_BADPATH :: i32 where "FDT_ERR_BADPATH \<equiv> 5"
abbreviation FDT_ERR_BADPHANDLE :: i32 where "FDT_ERR_BADPHANDLE \<equiv> 6"
abbreviation FDT_ERR_BADSTATE :: i32 where "FDT_ERR_BADSTATE \<equiv> 7"
abbreviation FDT_ERR_TRUNCATED :: i32 where "FDT_ERR_TRUNCATED \<equiv> 8"
abbreviation FDT_ERR_BADMAGIC :: i32 where "FDT_ERR_BADMAGIC \<equiv> 9"
abbreviation FDT_ERR_BADVERSION :: i32 where "FDT_ERR_BADVERSION \<equiv> 10"
abbreviation FDT_ERR_BADSTRUCTURE :: i32 where "FDT_ERR_BADSTRUCTURE \<equiv> 11"
abbreviation FDT_ERR_INTERNAL :: i32 where "FDT_ERR_INTERNAL \<equiv> 13"
abbreviation FDT_ERR_BADLAYOUT :: i32 where "FDT_ERR_BADLAYOUT \<equiv> 12"
abbreviation FDT_ERR_BADVALUE :: i32 where "FDT_ERR_BADVALUE \<equiv> 15"
abbreviation FDT_ERR_NOPHANDLES :: i32 where "FDT_ERR_NOPHANDLES \<equiv> 17"

abbreviation INT32_MAX :: u32 where "INT32_MAX \<equiv> 0x7fffffff"

definition fdt_ro_probe :: "mem \<Rightarrow> addr \<Rightarrow> i32" where
  "fdt_ro_probe m fdt =
     (let totalsize = fdt_totalsize m fdt;
          ok = (if totalsize < INT32_MAX then totalsize else - FDT_ERR_TRUNCATED)
      in if fdt_magic m fdt = FDT_MAGIC
         then (if fdt_version m fdt < 2 then - FDT_ERR_BADVERSION
               else if 0x11 < fdt_last_comp_version m fdt then - FDT_ERR_BADVERSION
               else ok)
         else if fdt_magic m fdt = FDT_SW_MAGIC
         then (if fdt_size_dt_struct m fdt = 0 then - FDT_ERR_BADSTATE else ok)
         else - FDT_ERR_BADMAGIC)"

definition check_off :: "u32 \<Rightarrow> u32 \<Rightarrow> u32 \<Rightarrow> bool" where
  "check_off hdrsize totalsize off \<longleftrightarrow> hdrsize \<le> off \<and> off \<le> totalsize"

definition check_block :: "u32 \<Rightarrow> u32 \<Rightarrow> u32 \<Rightarrow> u32 \<Rightarrow> bool" where
  "check_block hdrsize totalsize base sz \<longleftrightarrow>
     (if \<not> check_off hdrsize totalsize base then False
      else if base + sz < base then False
      else if \<not> check_off hdrsize totalsize (base + sz) then False
      else True)"

definition fdt_header_size_of :: "u32 \<Rightarrow> u32" where
  "fdt_header_size_of version =
     (if version \<le> 1 then 28 else if version \<le> 2 then 32 else if version \<le> 3 then 36
      else if version \<le> 16 then 36 else 40)"

definition fdt_header_size :: "mem \<Rightarrow> addr \<Rightarrow> u32" where
  "fdt_header_size m fdt = fdt_header_size_of (fdt_version m fdt)"

definition fdt_check_header :: "mem \<Rightarrow> addr \<Rightarrow> i32" where
  "fdt_check_header m fdt =
     (let hdrsize = fdt_header_size m fdt; totalsize = fdt_totalsize m fdt
      in if fdt_magic m fdt \<noteq> FDT_MAGIC then - FDT_ERR_BADMAGIC
         else if fdt_version m fdt < 2 \<or> 0x11 < fdt_last_comp_version m fdt then - FDT_ERR_BADVERSION
         else if fdt_version m fdt < fdt_last_comp_version m fdt then - FDT_ERR_BADVERSION
         else if totalsize < hdrsize \<or> INT32_MAX < totalsize then - FDT_ERR_TRUNCATED
         else if \<not> check_off hdrsize totalsize (fdt_off_mem_rsvmap m fdt) then - FDT_ERR_TRUNCATED
         else if (if fdt_version m fdt < 17 then \<not> check_off hdrsize totalsize (fdt_off_dt_struct m fdt)
                  else \<not> check_block hdrsize totalsize (fdt_off_dt_struct m fdt) (fdt_size_dt_struct m fdt))
         then - FDT_ERR_TRUNCATED
         else if \<not> check_block hdrsize totalsize (fdt_off_dt_strings m fdt) (fdt_size_dt_strings m fdt)
         then - FDT_ERR_TRUNCATED
         else 0)"

subsection \<open>Tags\<close>

text \<open>\<^verbatim>\<open>fdt_offset_ptr_\<close>: a position of the structure block, unchecked.\<close>

definition fdt_struct_ptr :: "mem \<Rightarrow> addr \<Rightarrow> i32 \<Rightarrow> addr" where
  "fdt_struct_ptr m fdt offset = fdt + ucast (fdt_off_dt_struct m fdt) + scast offset"

definition fdt_offset_ptr :: "mem \<Rightarrow> addr \<Rightarrow> i32 \<Rightarrow> u32 \<Rightarrow> addr option" where
  "fdt_offset_ptr m fdt offset len =
     (let absoffset = offset + fdt_off_dt_struct m fdt
      in if sint offset < 0 then None
         else if absoffset < offset \<or> absoffset + len < absoffset \<or> fdt_totalsize m fdt < absoffset + len then None
         else if 0x11 \<le> fdt_version m fdt \<and> (offset + len < offset \<or> fdt_size_dt_struct m fdt < offset + len)
         then None
         else Some (fdt_struct_ptr m fdt offset))"

text \<open>The loop over a node's name: whether it found the terminator, and the offset after it.\<close>

function skip_name :: "mem \<Rightarrow> addr \<Rightarrow> i32 \<Rightarrow> bool \<times> i32" where
  "skip_name m fdt offset =
     (case fdt_offset_ptr m fdt offset 1 of
        None \<Rightarrow> (False, offset + 1)
      | Some p \<Rightarrow> if m p \<noteq> 0 then skip_name m fdt (offset + 1) else (True, offset + 1))"
  by pat_completeness auto

lemma sint_nonneg_32:
  fixes w :: i32
  shows "0 \<le> sint w \<longleftrightarrow> unat w < 2 ^ 31" and "unat w < 2 ^ 31 \<Longrightarrow> sint w = int (unat w)"
proof -
  show small: "unat w < 2 ^ 31 \<Longrightarrow> sint w = int (unat w)"
    using sint_of_nat_32 [of "unat w"] by simp
  show "0 \<le> sint w \<longleftrightarrow> unat w < 2 ^ 31"
  proof (cases "unat w < 2 ^ 31")
    case False
    define n where "n = int (unat w)"
    have "unat w < 2 ^ LENGTH(32)" by (rule unsigned_less)
    with False have n: "2 ^ 31 \<le> n" "n < 2 ^ 32" by (simp_all add: n_def del: of_nat_unat)
    have "w = word_of_int (n - 2 ^ 32)" by (simp add: n_def)
    then have "sint w = sint (word_of_int (n - 2 ^ 32) :: i32)" by (rule arg_cong)
    also have "\<dots> = signed_take_bit 31 (n - 2 ^ 32)" by (simp only: signed_of_int) simp
    also have "\<dots> = n - 2 ^ 32" using n by (intro signed_take_bit_int_eq_self) auto
    finally show ?thesis using n False by simp
  qed (simp add: small)
qed

termination skip_name
proof (relation "measure (\<lambda>(m, fdt, offset). 2 ^ 32 - unat offset)")
  fix m fdt and offset :: i32 and p
  assume "fdt_offset_ptr m fdt offset 1 = Some p"
  then have "0 \<le> sint offset" by (simp add: fdt_offset_ptr_def Let_def split: if_splits)
  then have "unat offset < 2 ^ 31" by (simp only: sint_nonneg_32)
  then have "unat (offset + 1) = unat offset + 1" by (simp add: unat_add_no_wrap)
  then show "((m, fdt, offset + 1), m, fdt, offset) \<in> measure (\<lambda>(m, fdt, offset). 2 ^ 32 - unat offset)"
    using \<open>unat offset < 2 ^ 31\<close> by simp
qed simp

declare skip_name.simps [simp del]

text \<open>\<^verbatim>\<open>FDT_TAGALIGN\<close>: the next multiple of four.\<close>

definition FDT_TAGALIGN :: "i32 \<Rightarrow> i32" where
  "FDT_TAGALIGN x = (x + 3) AND NOT 3"

text \<open>The offset after a property: its header of 12 bytes, its value, and the padding of old versions.\<close>

definition skip_prop :: "mem \<Rightarrow> addr \<Rightarrow> i32 \<Rightarrow> u32 \<Rightarrow> i32" where
  "skip_prop m fdt offset len =
     (let offset = offset + 8 + len
      in if fdt_version m fdt < 0x10 \<and> 8 \<le> len \<and> (offset - len) mod 8 \<noteq> 0 then offset + 4 else offset)"

text \<open>The tag at an offset and the offset of the next one, which is an error code if there is none.\<close>

definition fdt_next_tag :: "mem \<Rightarrow> addr \<Rightarrow> i32 \<Rightarrow> u32 \<times> i32" where
  "fdt_next_tag m fdt startoffset =
     (case fdt_offset_ptr m fdt startoffset 4 of
        None \<Rightarrow> (FDT_END, - FDT_ERR_TRUNCATED)
      | Some tagp \<Rightarrow>
          let tag = fdt32 m tagp;
              offset = startoffset + 4;
              finish = (\<lambda>offset. if fdt_offset_ptr m fdt startoffset (offset - startoffset) = None
                                 then (FDT_END, - FDT_ERR_BADSTRUCTURE) else (tag, FDT_TAGALIGN offset))
          in if tag = FDT_BEGIN_NODE
             then (case skip_name m fdt offset of (found, offset) \<Rightarrow>
                     if \<not> found then (FDT_END, - FDT_ERR_BADSTRUCTURE) else finish offset)
             else if tag = FDT_PROP
             then (case fdt_offset_ptr m fdt offset 4 of
                     None \<Rightarrow> (FDT_END, - FDT_ERR_BADSTRUCTURE)
                   | Some lenp \<Rightarrow> finish (skip_prop m fdt offset (fdt32 m lenp)))
             else if tag = FDT_END \<or> tag = FDT_END_NODE \<or> tag = FDT_NOP then finish offset
             else (FDT_END, - FDT_ERR_BADSTRUCTURE))"

subsection \<open>Nodes\<close>

definition fdt_check_node_offset :: "mem \<Rightarrow> addr \<Rightarrow> i32 \<Rightarrow> i32" where
  "fdt_check_node_offset m fdt offset =
     (if sint offset < 0 \<or> offset mod 4 \<noteq> 0 \<or> fst (fdt_next_tag m fdt offset) \<noteq> FDT_BEGIN_NODE
      then - FDT_ERR_BADOFFSET else snd (fdt_next_tag m fdt offset))"

definition fdt_check_prop_offset :: "mem \<Rightarrow> addr \<Rightarrow> i32 \<Rightarrow> i32" where
  "fdt_check_prop_offset m fdt offset =
     (if sint offset < 0 \<or> offset mod 4 \<noteq> 0 \<or> fst (fdt_next_tag m fdt offset) \<noteq> FDT_PROP
      then - FDT_ERR_BADOFFSET else snd (fdt_next_tag m fdt offset))"

text \<open>The loop of \<^verbatim>\<open>fdt_next_node\<close>; the depth is present when the caller passes a pointer to it.\<close>

partial_function (option) next_node_loop :: "mem \<Rightarrow> addr \<Rightarrow> i32 \<Rightarrow> i32 option \<Rightarrow> (i32 \<times> i32 option) option" where
  "next_node_loop m fdt offset depth =
     (case fdt_next_tag m fdt offset of (tag, nextoffset) \<Rightarrow>
        if tag = FDT_PROP \<or> tag = FDT_NOP then next_node_loop m fdt nextoffset depth
        else if tag = FDT_BEGIN_NODE then Some (offset, map_option (\<lambda>d. d + 1) depth)
        else if tag = FDT_END_NODE
        then (case depth of
                None \<Rightarrow> next_node_loop m fdt nextoffset depth
              | Some d \<Rightarrow> if sint (d - 1) < 0 then Some (nextoffset, Some (d - 1))
                          else next_node_loop m fdt nextoffset (Some (d - 1)))
        else Some (if 0 \<le> sint nextoffset \<or> nextoffset = - FDT_ERR_TRUNCATED \<and> depth = None
                   then - FDT_ERR_NOTFOUND else nextoffset, depth))"

definition fdt_next_node :: "mem \<Rightarrow> addr \<Rightarrow> i32 \<Rightarrow> i32 option \<Rightarrow> (i32 \<times> i32 option) option" where
  "fdt_next_node m fdt offset depth =
     (let nextoffset = (if 0 \<le> sint offset then fdt_check_node_offset m fdt offset else 0)
      in if 0 \<le> sint offset \<and> sint nextoffset < 0 then Some (nextoffset, depth)
         else next_node_loop m fdt nextoffset depth)"

definition fdt_first_subnode :: "mem \<Rightarrow> addr \<Rightarrow> i32 \<Rightarrow> i32 option" where
  "fdt_first_subnode m fdt offset =
     (case fdt_next_node m fdt offset (Some 0) of
        None \<Rightarrow> None
      | Some (offset, depth) \<Rightarrow>
          Some (if sint offset < 0 \<or> depth \<noteq> Some 1 then - FDT_ERR_NOTFOUND else offset))"

partial_function (option) next_subnode_loop :: "mem \<Rightarrow> addr \<Rightarrow> i32 \<Rightarrow> i32 \<Rightarrow> i32 option" where
  "next_subnode_loop m fdt offset depth =
     (case fdt_next_node m fdt offset (Some depth) of
        None \<Rightarrow> None
      | Some (offset, depth) \<Rightarrow>
          if sint offset < 0 \<or> sint (the depth) < 1 then Some (- FDT_ERR_NOTFOUND)
          else if 1 < sint (the depth) then next_subnode_loop m fdt offset (the depth)
          else Some offset)"

definition fdt_next_subnode :: "mem \<Rightarrow> addr \<Rightarrow> i32 \<Rightarrow> i32 option" where
  "fdt_next_subnode m fdt offset = next_subnode_loop m fdt offset 1"

subsection \<open>Strings and moving\<close>

text \<open>The search for a string in a table of \<open>tabsize\<close> bytes; \<open>k\<close> positions are left to try.\<close>

fun find_string_loop :: "mem \<Rightarrow> addr \<Rightarrow> addr \<Rightarrow> nat \<Rightarrow> nat \<Rightarrow> addr option" where
  "find_string_loop m p s len 0 = None"
| "find_string_loop m p s len (Suc k) =
     (if memcmp p s len m = 0 then Some p else find_string_loop m (p + 1) s len k)"

definition fdt_find_string :: "mem \<Rightarrow> addr \<Rightarrow> i32 \<Rightarrow> addr \<Rightarrow> addr option option" where
  "fdt_find_string m strtab tabsize s =
     (case strlen s m of
        None \<Rightarrow> None
      | Some n \<Rightarrow>
          let len = (ucast (n + 1) :: i32); last = strtab + scast tabsize - scast len
          in Some (find_string_loop m strtab s (unat (scast len :: u64))
               (if strtab \<le> last then Suc (unat (last - strtab)) else 0)))"

definition fdt_move :: "addr \<Rightarrow> addr \<Rightarrow> i32 \<Rightarrow> mem \<Rightarrow> i32 \<times> mem" where
  "fdt_move fdt buf bufsize m =
     (if sint bufsize < 0 then (- FDT_ERR_NOSPACE, m)
      else if sint (fdt_ro_probe m fdt) < 0 then (fdt_ro_probe m fdt, m)
      else if bufsize < fdt_totalsize m fdt then (- FDT_ERR_NOSPACE, m)
      else (0, memmove buf fdt (ucast (fdt_totalsize m fdt)) m))"

subsection \<open>Offsets as numbers\<close>

lemma unat_u32_less: "unat (w :: u32) < 2 ^ 32"
proof -
  have "unat w < 2 ^ LENGTH(32)" by (rule unsigned_less)
  then show ?thesis by simp
qed

lemma no_wrap_iff: "x \<le> x + y \<longleftrightarrow> unat x + unat y < 2 ^ 32" for x y :: u32
proof (cases "unat x + unat y < 2 ^ 32")
  case True
  then have "unat (x + y) = unat x + unat y" by (intro unat_add_no_wrap) simp
  with True show ?thesis by (simp add: word_le_nat_alt)
next
  case False
  have "unat (x + y) = (unat x + unat y) mod 2 ^ 32" by (simp add: unat_word_ariths)
  also have "\<dots> = unat x + unat y - 2 ^ 32"
    using False unat_u32_less [of x] unat_u32_less [of y] by (simp add: le_mod_geq)
  finally show ?thesis using False unat_u32_less [of y] by (simp add: word_le_nat_alt)
qed

text \<open>A range of the structure block is accepted when it lies inside the tree and the block.\<close>

lemma fdt_offset_ptr_eq:
  "fdt_offset_ptr m fdt off len =
     (if unat off < 2 ^ 31 \<and> unat off + unat (fdt_off_dt_struct m fdt) + unat len \<le> unat (fdt_totalsize m fdt) \<and>
         (fdt_version m fdt < 0x11 \<or> unat off + unat len \<le> unat (fdt_size_dt_struct m fdt))
      then Some (fdt_struct_ptr m fdt off) else None)"
proof -
  let ?s = "fdt_off_dt_struct m fdt"
  have no_wrap: "x + y < x \<or> z < x + y \<longleftrightarrow> \<not> unat x + unat y \<le> unat z" for x y z :: u32
    using no_wrap_iff [of x y] unat_add_no_wrap [of x y] unat_u32_less [of z]
    by (auto simp: word_less_nat_alt word_le_nat_alt not_less)
  have "off + ?s < off \<or> off + ?s + len < off + ?s \<or> fdt_totalsize m fdt < off + ?s + len \<longleftrightarrow>
      \<not> unat off + unat ?s + unat len \<le> unat (fdt_totalsize m fdt)"
  proof (cases "unat off + unat ?s < 2 ^ 32")
    case True
    then have "unat (off + ?s) = unat off + unat ?s" by (intro unat_add_no_wrap) simp
    moreover from True have "\<not> off + ?s < off" by (simp add: not_less no_wrap_iff)
    ultimately show ?thesis using no_wrap [of "off + ?s" len "fdt_totalsize m fdt"] by simp
  next
    case False
    then have "off + ?s < off" using no_wrap_iff [of off ?s] by (simp add: not_le)
    then show ?thesis using False unat_u32_less [of "fdt_totalsize m fdt"] by auto
  qed
  then show ?thesis
    using no_wrap [of off len "fdt_size_dt_struct m fdt"] sint_nonneg_32(1) [of off]
    unfolding fdt_offset_ptr_def Let_def by (auto simp: not_less)
qed

lemma unat_TAGALIGN:
  assumes "unat x + 3 < 2 ^ 32"
  shows "unat (FDT_TAGALIGN x) = (unat x + 3) div 4 * 4"
proof -
  have "(3 :: i32) = mask 2" by (simp add: mask_eq_exp_minus_1)
  moreover have "y AND NOT (mask 2) = push_bit 2 (drop_bit 2 y)" for y :: i32
    by (rule bit_word_eqI) (auto simp: bit_simps not_less simp del: add_2_eq_Suc add_2_eq_Suc')
  ultimately have "FDT_TAGALIGN x = push_bit 2 (drop_bit 2 (x + 3))" by (simp only: FDT_TAGALIGN_def)
  also have "unat \<dots> = take_bit 32 (push_bit 2 (drop_bit 2 (unat (x + 3))))"
    using unat_u32_less [of "x + 3"]
    by (simp only: unsigned_push_bit_eq unsigned_drop_bit_eq) (simp add: take_bit_nat_eq_self)
  also have "\<dots> = unat (x + 3) div 4 * 4"
    using unat_u32_less [of "x + 3"] div_times_less_eq_dividend [of "unat (x + 3)" 4]
    by (simp add: push_bit_eq_mult drop_bit_eq_div take_bit_nat_eq_self)
  also have "unat (x + 3) = unat x + 3" using assms unat_add_no_wrap [of x 3] by simp
  finally show ?thesis .
qed

subsection \<open>Progress\<close>

lemma skip_name_bounds:
  assumes "skip_name m fdt off = (True, off')" "fdt_totalsize m fdt \<le> INT32_MAX"
  shows "unat off < unat off' \<and> unat off' \<le> unat INT32_MAX"
  using assms
proof (induction m fdt off rule: skip_name.induct)
  case (1 m fdt off)
  from "1.prems"(1) obtain p where p: "fdt_offset_ptr m fdt off 1 = Some p"
    by (subst (asm) skip_name.simps) (auto split: option.splits)
  from p have "unat off < unat (fdt_totalsize m fdt)"
    by (simp add: fdt_offset_ptr_eq split: if_splits)
  also have "\<dots> \<le> unat INT32_MAX" using "1.prems"(2) by (simp add: word_le_nat_alt)
  finally have less: "unat off < unat INT32_MAX" .
  then have "unat (off + 1) = unat off + 1" using unat_add_no_wrap [of off 1] by simp
  with "1.prems" "1.IH" [OF p] p less show ?case
    by (subst (asm) skip_name.simps) (auto split: if_splits)
qed

text \<open>The length of the property at an offset.\<close>

definition prop_len :: "mem \<Rightarrow> addr \<Rightarrow> i32 \<Rightarrow> u32" where
  "prop_len m fdt off = fdt32 m (fdt_struct_ptr m fdt (off + 4))"

text \<open>The end of the tag at \<open>off\<close>, before it is aligned.\<close>

lemma fdt_next_tag_cases:
  assumes "fdt_next_tag m fdt off = (tag, after)"
  obtains (error) "tag = FDT_END" "after = - FDT_ERR_TRUNCATED \<or> after = - FDT_ERR_BADSTRUCTURE"
  | (ok) p e where "fdt_offset_ptr m fdt off 4 = Some p" "tag = fdt32 m p"
      "fdt_offset_ptr m fdt off (e - off) \<noteq> None" "after = FDT_TAGALIGN e"
      "tag = FDT_BEGIN_NODE \<longrightarrow> skip_name m fdt (off + 4) = (True, e)"
      "tag = FDT_PROP \<longrightarrow> fdt_offset_ptr m fdt (off + 4) 4 \<noteq> None \<and> e = skip_prop m fdt (off + 4) (prop_len m fdt off)"
      "tag \<noteq> FDT_BEGIN_NODE \<and> tag \<noteq> FDT_PROP \<longrightarrow> e = off + 4"
proof (cases "fdt_offset_ptr m fdt off 4")
  case None
  with assms error show thesis by (simp add: fdt_next_tag_def)
next
  case (Some p)
  define t where "t = fdt32 m p"
  define finish where "finish = (\<lambda>e. if fdt_offset_ptr m fdt off (e - off) = None
      then (FDT_END, - FDT_ERR_BADSTRUCTURE) else (t, FDT_TAGALIGN e))"
  have finished: thesis if "finish e = (tag, after)" "t = FDT_BEGIN_NODE \<longrightarrow> skip_name m fdt (off + 4) = (True, e)"
    "t = FDT_PROP \<longrightarrow> fdt_offset_ptr m fdt (off + 4) 4 \<noteq> None \<and> e = skip_prop m fdt (off + 4) (prop_len m fdt off)"
    "t \<noteq> FDT_BEGIN_NODE \<and> t \<noteq> FDT_PROP \<longrightarrow> e = off + 4" for e
    using that ok [OF Some, of e] error by (auto simp: finish_def t_def split: if_splits)
  note step = assms [unfolded fdt_next_tag_def Some option.case Let_def, folded t_def, folded finish_def]
  consider "t = FDT_BEGIN_NODE" | "t = FDT_PROP" | "t \<noteq> FDT_BEGIN_NODE" "t \<noteq> FDT_PROP" by blast
  then show thesis
  proof cases
    case 1
    obtain found e where "skip_name m fdt (off + 4) = (found, e)" by (rule prod.exhaust)
    with 1 step finished [of e] error show thesis by (auto simp: finish_def split: if_splits)
  next
    case 2
    with step finished error show thesis
      by (auto simp: finish_def prop_len_def fdt_offset_ptr_eq [of _ _ "off + 4"] split: option.splits if_splits)
  next
    case 3
    with step finished [of "off + 4"] error show thesis by (auto simp: finish_def split: if_splits)
  qed
qed

lemma tag_end:
  assumes "fdt_totalsize m fdt \<le> INT32_MAX" "fdt_offset_ptr m fdt off (e - off) \<noteq> None"
  shows "unat e = unat off + unat (e - off)"
    and "unat e + unat (fdt_off_dt_struct m fdt) \<le> unat (fdt_totalsize m fdt)"
    and "unat (FDT_TAGALIGN e) = (unat e + 3) div 4 * 4"
proof -
  have total: "unat (fdt_totalsize m fdt) < 2 ^ 31" using assms(1) by (simp add: word_le_nat_alt)
  from assms(2) have le: "unat off + unat (fdt_off_dt_struct m fdt) + unat (e - off) \<le> unat (fdt_totalsize m fdt)"
    by (simp add: fdt_offset_ptr_eq split: if_splits)
  with total have "unat (off + (e - off)) = unat off + unat (e - off)" by (intro unat_add_no_wrap) simp
  then show e: "unat e = unat off + unat (e - off)" by simp
  with le show "unat e + unat (fdt_off_dt_struct m fdt) \<le> unat (fdt_totalsize m fdt)" by simp
  with total show "unat (FDT_TAGALIGN e) = (unat e + 3) div 4 * 4" by (intro unat_TAGALIGN) simp
qed

lemma skip_prop_moves:
  assumes "len < 0xfffffff0"
  shows "skip_prop m fdt (off + 4) len \<noteq> off"
proof -
  have "unat (12 + len) = 12 + unat len" "unat (16 + len) = 16 + unat len"
    using assms unat_add_no_wrap [of 12 len] unat_add_no_wrap [of 16 len] by (simp_all add: word_less_nat_alt)
  then have "12 + len \<noteq> 0" "16 + len \<noteq> 0" by (metis add_is_0 unat_0 zero_neq_numeral)+
  moreover have "skip_prop m fdt (off + 4) len = off + (12 + len) \<or> skip_prop m fdt (off + 4) len = off + (16 + len)"
    by (simp add: skip_prop_def Let_def ac_simps)
  ultimately show ?thesis by (metis add_cancel_right_right)
qed

text \<open>What an accepted header guarantees of the structure block.\<close>

lemma fdt_check_header_bounds:
  assumes "fdt_check_header m fdt = 0"
  shows "fdt_totalsize m fdt \<le> INT32_MAX" "28 \<le> unat (fdt_off_dt_struct m fdt)"
    "unat (fdt_off_dt_struct m fdt) \<le> unat (fdt_totalsize m fdt)"
proof -
  have "28 \<le> unat (fdt_header_size m fdt)"
    by (simp add: fdt_header_size_def fdt_header_size_of_def)
  with assms show "fdt_totalsize m fdt \<le> INT32_MAX" "28 \<le> unat (fdt_off_dt_struct m fdt)"
    "unat (fdt_off_dt_struct m fdt) \<le> unat (fdt_totalsize m fdt)"
    by (auto simp: fdt_check_header_def Let_def check_block_def check_off_def word_le_nat_alt not_less
        split: if_splits)
qed

text \<open>
  A tag that is read lies in the tree, and the next offset is a multiple of four that is not
  negative and, unless a property's length wraps around, larger.
\<close>

lemma fdt_next_tag_advances:
  assumes hdr: "fdt_check_header m fdt = 0" and tag: "fdt_next_tag m fdt off = (tag, after)"
    and found: "tag \<noteq> FDT_END \<or> 0 \<le> sint after"
    and len: "tag = FDT_PROP \<longrightarrow> prop_len m fdt off < 0xfffffff0"
  shows "unat off < unat after \<and> unat after < 2 ^ 31 \<and> 4 dvd unat after \<and>
     unat after + unat (fdt_off_dt_struct m fdt) \<le> unat (fdt_totalsize m fdt) + 3"
  using tag
proof (cases rule: fdt_next_tag_cases)
  case error
  with found show ?thesis by auto
next
  case (ok p e)
  note total = fdt_check_header_bounds [OF hdr]
  note e = tag_end [OF total(1) ok(3)]
  have off: "unat off < 2 ^ 31" using ok(1) by (simp add: fdt_offset_ptr_eq split: if_splits)
  then have off4: "unat (off + 4) = unat off + 4" using unat_add_no_wrap [of off 4] by simp
  have "unat off < unat e"
  proof (cases "tag = FDT_PROP")
    case True
    with ok(6) len skip_prop_moves have "e \<noteq> off" by auto
    then have "unat (e - off) \<noteq> 0" by (metis unat_eq_zero right_minus_eq)
    with e(1) show ?thesis by simp
  next
    case False
    with ok(5,7) off4 skip_name_bounds [OF _ total(1), of "off + 4" e] show ?thesis
      by (cases "tag = FDT_BEGIN_NODE") auto
  qed
  moreover have "unat (fdt_totalsize m fdt) < 2 ^ 31" using total(1) by (simp add: word_le_nat_alt)
  ultimately show ?thesis using e ok(4) total(2) by auto
qed

text \<open>The tree has no property whose length makes the offset wrap around.\<close>

definition props_ok :: "mem \<Rightarrow> addr \<Rightarrow> bool" where
  "props_ok m fdt \<longleftrightarrow> (\<forall>off. fst (fdt_next_tag m fdt off) = FDT_PROP \<longrightarrow> prop_len m fdt off < 0xfffffff0)"

text \<open>A node that is found lies behind the offset the search started from, and has a node's tag.\<close>

lemma next_node_loop_result:
  assumes "fdt_check_header m fdt = 0" "props_ok m fdt"
  shows "\<exists>off' depth'. next_node_loop m fdt off depth = Some (off', depth') \<and>
     (0 \<le> sint off' \<longrightarrow> unat off \<le> unat off' \<and>
        (fst (fdt_next_tag m fdt off') = FDT_BEGIN_NODE \<or> (\<exists>d. depth' = Some d \<and> sint d < 0))) \<and>
     (depth' = None \<longleftrightarrow> depth = None)"
proof (induction "2 ^ 32 - unat off" arbitrary: off depth rule: less_induct)
  case less
  obtain tag after where tag: "fdt_next_tag m fdt off = (tag, after)" by (rule prod.exhaust)
  have step: "unat off < unat after" if "tag \<noteq> FDT_END"
  proof -
    have "tag = FDT_PROP \<longrightarrow> prop_len m fdt off < 0xfffffff0"
      using assms(2) tag by (auto simp: props_ok_def dest: spec [of _ off])
    from fdt_next_tag_advances [OF assms(1) tag _ this] that show ?thesis by simp
  qed
  have "2 ^ 32 - unat after < 2 ^ 32 - unat off" if "tag \<noteq> FDT_END"
    using step [OF that] unat_u32_less [of after] by simp
  note IH = less [OF this]
  show ?case
  proof (cases "tag = FDT_PROP \<or> tag = FDT_NOP \<or> tag = FDT_END_NODE \<and> (\<forall>d. depth = Some d \<longrightarrow> \<not> sint (d - 1) < 0)")
    case True
    then have neq: "tag \<noteq> FDT_END" by auto
    have "\<exists>depth1. next_node_loop m fdt off depth = next_node_loop m fdt after depth1 \<and> (depth1 = None \<longleftrightarrow> depth = None)"
      using True by (cases depth; simp add: next_node_loop.simps [of m fdt off] tag) auto
    then obtain depth1 where d: "next_node_loop m fdt off depth = next_node_loop m fdt after depth1"
      "depth1 = None \<longleftrightarrow> depth = None" by blast
    from IH [OF neq, of depth1] step [OF neq] show ?thesis unfolding d by fastforce
  next
    case False
    from False tag show ?thesis
      by (cases depth) (auto simp: next_node_loop.simps [of m fdt off] tag step less_imp_le)
  qed
qed

text \<open>A property of length \<open>0xfffffff4\<close> is read as empty space: its own offset is the next one.\<close>

lemma next_node_loop_stuck:
  assumes "fdt_next_tag m fdt off = (FDT_PROP, off)"
  shows "next_node_loop m fdt off depth = None"
proof (cases "next_node_loop m fdt off depth")
  case (Some r)
  then have "fdt_next_tag m fdt off \<noteq> (FDT_PROP, off)"
    by (rule next_node_loop.raw_induct [where P = "\<lambda>m fdt off depth r. fdt_next_tag m fdt off \<noteq> (FDT_PROP, off)", rotated])
      (auto split: prod.splits if_splits)
  with assms show ?thesis by simp
qed

lemma fdt_next_node_result:
  assumes "fdt_check_header m fdt = 0" "props_ok m fdt"
  shows "\<exists>off' depth'. fdt_next_node m fdt off depth = Some (off', depth') \<and>
     (0 \<le> sint off' \<longrightarrow> (0 \<le> sint off \<longrightarrow> unat off < unat off') \<and>
        (fst (fdt_next_tag m fdt off') = FDT_BEGIN_NODE \<or> (\<exists>d. depth' = Some d \<and> sint d < 0))) \<and>
     (depth' = None \<longleftrightarrow> depth = None)"
proof (cases "0 \<le> sint off \<and> sint (fdt_check_node_offset m fdt off) < 0")
  case True
  then show ?thesis by (simp add: fdt_next_node_def Let_def)
next
  case False
  define start where "start = (if 0 \<le> sint off then fdt_check_node_offset m fdt off else 0)"
  have eq: "fdt_next_node m fdt off depth = next_node_loop m fdt start depth"
    using False by (simp add: fdt_next_node_def Let_def start_def)
  have "unat off < unat start" if "0 \<le> sint off"
  proof -
    obtain tag after where tag: "fdt_next_tag m fdt off = (tag, after)" by (rule prod.exhaust)
    with False that have "tag = FDT_BEGIN_NODE" "start = after"
      by (auto simp: fdt_check_node_offset_def start_def split: if_splits)
    with fdt_next_tag_advances [OF assms(1) tag] show ?thesis by simp
  qed
  with next_node_loop_result [OF assms, of start depth] show ?thesis unfolding eq by fastforce
qed

lemma next_subnode_loop_result:
  assumes "fdt_check_header m fdt = 0" "props_ok m fdt" "0 \<le> sint off"
  shows "\<exists>off'. next_subnode_loop m fdt off depth = Some off' \<and>
     (0 \<le> sint off' \<longrightarrow> unat off < unat off' \<and> fst (fdt_next_tag m fdt off') = FDT_BEGIN_NODE)"
  using assms(3)
proof (induction "2 ^ 32 - unat off" arbitrary: off depth rule: less_induct)
  case less
  from fdt_next_node_result [OF assms(1,2), of off "Some depth"] less.prems obtain o1 d1 where
    n: "fdt_next_node m fdt off (Some depth) = Some (o1, Some d1)"
      "0 \<le> sint o1 \<longrightarrow> unat off < unat o1 \<and> (fst (fdt_next_tag m fdt o1) = FDT_BEGIN_NODE \<or> sint d1 < 0)"
    by auto
  show ?case
  proof (cases "0 \<le> sint o1 \<and> 1 < sint d1")
    case True
    with n(2) have lt: "unat off < unat o1" by simp
    then have "2 ^ 32 - unat o1 < 2 ^ 32 - unat off" using unat_u32_less [of o1] by simp
    from less.hyps [OF this, of d1] True lt n(1) show ?thesis
      by (auto simp: next_subnode_loop.simps [of m fdt off])
  next
    case False
    with n show ?thesis by (auto simp: next_subnode_loop.simps [of m fdt off])
  qed
qed

lemma next_node_loop_at_stuck:
  assumes "fdt_check_node_offset m fdt node = off" "0 \<le> sint node" "0 \<le> sint off"
    and "fdt_next_tag m fdt off = (FDT_PROP, off)"
  shows "fdt_next_node m fdt node depth = None"
  using assms next_node_loop_stuck [OF assms(4)] by (simp add: fdt_next_node_def Let_def)

text \<open>A length that makes the end of the property its own start.\<close>

lemma fdt_next_tag_stuck:
  assumes "4 dvd unat off" "unat off < 2 ^ 31" "fdt_next_tag m fdt off = (FDT_PROP, after)"
    and "prop_len m fdt off = 0xfffffff4" "0x10 \<le> fdt_version m fdt"
  shows "after = off"
  using assms(3)
proof (cases rule: fdt_next_tag_cases)
  case (ok p e)
  have "\<not> fdt_version m fdt < 0x10" using assms(5) by (simp add: not_less)
  then have "e = off" using ok(6) assms(4) by (simp add: skip_prop_def Let_def)
  moreover have "unat (FDT_TAGALIGN off) = (unat off + 3) div 4 * 4" using assms(2) by (intro unat_TAGALIGN) simp
  then have "unat (FDT_TAGALIGN off) = unat off" using assms(1) by (auto simp: dvd_def)
  ultimately show ?thesis using ok(4) by (metis word_unat_eq_iff)
qed simp

subsection \<open>Properties\<close>


text \<open>A tree of one root node, whose only property claims a length of \<open>0xfffffff4\<close> bytes or of none.\<close>

definition blob_mem :: "u8 list \<Rightarrow> mem" where
  "blob_mem bs a = (if unat a < length bs then bs ! unat a else 0)"

definition sample_blob :: "u8 \<Rightarrow> u8 \<Rightarrow> u8 list" where
  "sample_blob hi lo =
     [0xd0, 0x0d, 0xfe, 0xed, 0, 0, 0, 70, 0, 0, 0, 40, 0, 0, 0, 68, 0, 0, 0, 40, 0, 0, 0, 17, 0, 0, 0, 16,
      0, 0, 0, 0, 0, 0, 0, 2, 0, 0, 0, 28] @
     [0, 0, 0, 1, 0, 0, 0, 0, 0, 0, 0, 3] @ [hi, hi, hi, lo] @ [0, 0, 0, 0, 0, 0, 0, 2, 0, 0, 0, 9] @ [120, 0]"

lemmas sample_blob_simps = sample_blob_def blob_mem_def fdt32_def fdt_check_header_def fdt_magic_def fdt_totalsize_def
  fdt_off_dt_struct_def fdt_off_dt_strings_def fdt_off_mem_rsvmap_def fdt_version_def fdt_last_comp_version_def
  fdt_size_dt_strings_def fdt_size_dt_struct_def fdt_header_size_def fdt_header_size_of_def check_off_def
  check_block_def Let_def

lemma sample_header: "fdt_check_header (blob_mem (sample_blob hi lo)) 0 = 0"
  by (simp add: sample_blob_simps)

lemma sample_tags:
  "fdt_next_tag (blob_mem (sample_blob 0 0)) 0 0 = (FDT_BEGIN_NODE, 8)"
  "fdt_next_tag (blob_mem (sample_blob 0 0)) 0 8 = (FDT_PROP, 20)"
  "fdt_next_tag (blob_mem (sample_blob 0xff 0xf4)) 0 0 = (FDT_BEGIN_NODE, 8)"
  "fdt_next_tag (blob_mem (sample_blob 0xff 0xf4)) 0 8 = (FDT_PROP, 8)"
  by (simp_all add: fdt_next_tag_def fdt_offset_ptr_def fdt_struct_ptr_def sample_blob_simps skip_name.simps
      skip_prop_def FDT_TAGALIGN_def)



lemma sample_prop_len: "\<forall>i \<in> set [0 ..< 28]. prop_len (blob_mem (sample_blob 0 0)) 0 (word_of_nat i) < 0xfffffff0"
  by (simp add: upt_conv_Cons prop_len_def fdt_struct_ptr_def sample_blob_simps)

lemma sample_props_ok: "props_ok (blob_mem (sample_blob 0 0)) 0"
proof (unfold props_ok_def, intro allI impI)
  fix off :: i32
  let ?m = "blob_mem (sample_blob 0 0)"
  assume is_prop: "fst (fdt_next_tag ?m 0 off) = FDT_PROP"
  obtain tag after where tag: "fdt_next_tag ?m 0 off = (tag, after)" by (rule prod.exhaust)
  with is_prop have "tag = FDT_PROP" by simp
  with tag have "fdt_offset_ptr ?m 0 off 4 \<noteq> None"
    by (cases rule: fdt_next_tag_cases [consumes 1, OF tag]) auto
  then have "unat off \<in> set [0 ..< 28]"
    by (simp add: fdt_offset_ptr_eq sample_blob_simps split: if_splits)
  from bspec [OF sample_prop_len this] show "prop_len ?m 0 off < 0xfffffff0" by simp
qed


text \<open>C33. A tree that passes \<open>fdt_check_header\<close> can still make the traversal run forever: if the first tag
  after a node's name is a property of length \<open>0xfffffff4\<close>, the offset of the next tag is the
  property's own, the bounds check of the empty range passes, and \<open>fdt_next_node\<close> never returns.
\<close>

theorem fdt_next_node_hangs:
  assumes "fdt_check_header m fdt = 0" "0x10 \<le> fdt_version m fdt"
    and "fdt_check_node_offset m fdt node = off" "0 \<le> sint off"
    and "fst (fdt_next_tag m fdt off) = FDT_PROP" "prop_len m fdt off = 0xfffffff4"
  shows "fdt_next_tag m fdt off = (FDT_PROP, off) \<and> fdt_next_node m fdt node depth = None"
proof -
  from assms(3,4) have node: "fdt_next_tag m fdt node = (FDT_BEGIN_NODE, off)" "0 \<le> sint node"
    by (auto simp: fdt_check_node_offset_def prod_eq_iff split: if_splits)
  from fdt_next_tag_advances [OF assms(1) node(1)] have off: "4 dvd unat off" "unat off < 2 ^ 31" by auto
  have "fdt_next_tag m fdt off = (FDT_PROP, snd (fdt_next_tag m fdt off))" using assms(5) by (simp add: prod_eq_iff)
  from this fdt_next_tag_stuck [OF off this assms(6,2)] have "fdt_next_tag m fdt off = (FDT_PROP, off)" by simp
  with next_node_loop_at_stuck [OF assms(3) node(2) assms(4)] show ?thesis by simp
qed

theorem fdt_next_node_hangs_witness:
  "fdt_check_header (blob_mem (sample_blob 0xff 0xf4)) 0 = 0 \<and>
   fdt_next_node (blob_mem (sample_blob 0xff 0xf4)) 0 0 None = None"
proof -
  let ?m = "blob_mem (sample_blob 0xff 0xf4)"
  have "0x10 \<le> fdt_version ?m 0" "prop_len ?m 0 8 = 0xfffffff4"
    by (simp_all add: prop_len_def fdt_struct_ptr_def sample_blob_simps)
  moreover have "fdt_check_node_offset ?m 0 0 = 8" by (simp add: fdt_check_node_offset_def sample_tags)
  ultimately show ?thesis
    using fdt_next_node_hangs [of ?m 0 0 8 None] sample_header by (simp add: sample_tags)
qed

end
