(* ===== verification/Fdt_Ro.thy ===== *)
theory Fdt_Ro
  imports Fdt
begin

section \<open>Reading the device tree\<close>

text \<open>
  \<^verbatim>\<open>libkern/libfdt/fdt_ro.c\<close>: names, strings, properties and lookups, as far as the kernel's device
  tree wrapper uses them. A name or path the caller passes is the list of its bytes; what is read
  from the tree stays an address into it. A function whose traversal may not end returns an option.
\<close>

subsection \<open>Names and strings\<close>

definition bytes_at :: "mem \<Rightarrow> addr \<Rightarrow> nat \<Rightarrow> u8 list" where
  "bytes_at m p n = map (\<lambda>i. m (p + word_of_nat i)) [0 ..< n]"

text \<open>
  The result is the name's address and the value the length variable receives: the length of the
  name, or an error with no address. \<^verbatim>\<open>strlen\<close> and \<^verbatim>\<open>strrchr\<close> may run past the tree.
\<close>

definition fdt_get_name :: "mem \<Rightarrow> addr \<Rightarrow> i32 \<Rightarrow> (addr option \<times> i32) option" where
  "fdt_get_name m fdt nodeoffset =
     (let nameptr = fdt_struct_ptr m fdt nodeoffset + 4
      in if sint (fdt_ro_probe m fdt) < 0 then Some (None, fdt_ro_probe m fdt)
         else if sint (fdt_check_node_offset m fdt nodeoffset) < 0
         then Some (None, fdt_check_node_offset m fdt nodeoffset)
         else if fdt_version m fdt < 0x10
         then (case strrchr nameptr (of_char CHR ''/'') m of
                 None \<Rightarrow> None
               | Some leaf \<Rightarrow>
                   if leaf = 0 then Some (None, - FDT_ERR_BADSTRUCTURE)
                   else (case strlen (leaf + 1) m of
                           None \<Rightarrow> None | Some n \<Rightarrow> Some (Some (leaf + 1), ucast n)))
         else (case strlen nameptr m of
                 None \<Rightarrow> None | Some n \<Rightarrow> Some (Some nameptr, ucast n)))"

definition fdt_nodename_eq :: "mem \<Rightarrow> addr \<Rightarrow> i32 \<Rightarrow> u8 list \<Rightarrow> bool option" where
  "fdt_nodename_eq m fdt offset s =
     (case fdt_get_name m fdt offset of
        None \<Rightarrow> None
      | Some (None, _) \<Rightarrow> Some False
      | Some (Some p, olen) \<Rightarrow>
          Some (if sint olen < int (length s) then False
                else if bytes_at m p (length s) \<noteq> s then False
                else if m (p + word_of_nat (length s)) = 0 then True
                else if of_char CHR ''@'' \<notin> set s \<and> m (p + word_of_nat (length s)) = of_char CHR ''@'' then True
                else False))"

definition fdt_get_string :: "mem \<Rightarrow> addr \<Rightarrow> i32 \<Rightarrow> addr option \<times> i32" where
  "fdt_get_string m fdt stroffset =
     (let totalsize = fdt_ro_probe m fdt;
          absoffset = stroffset + fdt_off_dt_strings m fdt;
          fail = (\<lambda>err. (None, err));
          scan = (\<lambda>len. let s = fdt + ucast absoffset; n = memchr s 0 (unat len) m
                         in if n = 0 then fail (- FDT_ERR_TRUNCATED) else (Some s, ucast (n - s)))
      in if sint totalsize < 0 then fail totalsize
         else if totalsize \<le> absoffset then fail (- FDT_ERR_BADOFFSET)
         else let len = (totalsize - absoffset :: u32)
              in if fdt_magic m fdt = FDT_MAGIC
                 then (if sint stroffset < 0 then fail (- FDT_ERR_BADOFFSET)
                       else if 17 \<le> fdt_version m fdt
                       then (if fdt_size_dt_strings m fdt \<le> stroffset then fail (- FDT_ERR_BADOFFSET)
                             else scan (if fdt_size_dt_strings m fdt - stroffset < len
                                        then fdt_size_dt_strings m fdt - stroffset else len))
                       else scan len)
                 else if fdt_magic m fdt = FDT_SW_MAGIC
                 then (if 0 \<le> sint stroffset \<or> fdt_size_dt_strings m fdt < - stroffset then fail (- FDT_ERR_BADOFFSET)
                       else scan (if - stroffset < len then - stroffset else len))
                 else fail (- FDT_ERR_INTERNAL))"

definition fdt_string :: "mem \<Rightarrow> addr \<Rightarrow> i32 \<Rightarrow> addr option" where
  "fdt_string m fdt stroffset = fst (fdt_get_string m fdt stroffset)"

definition fdt_string_eq :: "mem \<Rightarrow> addr \<Rightarrow> i32 \<Rightarrow> u8 list \<Rightarrow> bool" where
  "fdt_string_eq m fdt stroffset s =
     (case fdt_get_string m fdt stroffset of
        (None, _) \<Rightarrow> False
      | (Some p, slen) \<Rightarrow> sint slen = int (length s) \<and> bytes_at m p (length s) = s)"

subsection \<open>The memory reservation block\<close>

definition fdt64 :: "mem \<Rightarrow> addr \<Rightarrow> u64" where
  "fdt64 m a = push_bit 32 (ucast (fdt32 m a)) OR ucast (fdt32 m (a + 4))"

definition fdt_mem_rsv :: "mem \<Rightarrow> addr \<Rightarrow> i32 \<Rightarrow> addr option" where
  "fdt_mem_rsv m fdt n =
     (let offset = n * 16; absoffset = fdt_off_mem_rsvmap m fdt + offset
      in if absoffset < fdt_off_mem_rsvmap m fdt then None
         else if (ucast (fdt_totalsize m fdt) :: u64) - 16 < ucast absoffset then None
         else Some (fdt + ucast (fdt_off_mem_rsvmap m fdt) + 16 * scast n))"

definition fdt_get_mem_rsv :: "mem \<Rightarrow> addr \<Rightarrow> i32 \<Rightarrow> i32 + u64 \<times> u64" where
  "fdt_get_mem_rsv m fdt n =
     (if sint (fdt_ro_probe m fdt) < 0 then Inl (fdt_ro_probe m fdt)
      else case fdt_mem_rsv m fdt n of
        None \<Rightarrow> Inl (- FDT_ERR_BADOFFSET)
      | Some re \<Rightarrow> Inr (fdt64 m re, fdt64 m (re + 8)))"

partial_function (option) num_mem_rsv_loop :: "mem \<Rightarrow> addr \<Rightarrow> i32 \<Rightarrow> i32 option" where
  "num_mem_rsv_loop m fdt i =
     (case fdt_mem_rsv m fdt i of
        None \<Rightarrow> Some (- FDT_ERR_TRUNCATED)
      | Some re \<Rightarrow> if fdt64 m (re + 8) = 0 then Some i else num_mem_rsv_loop m fdt (i + 1))"

definition fdt_num_mem_rsv :: "mem \<Rightarrow> addr \<Rightarrow> i32 option" where
  "fdt_num_mem_rsv m fdt = num_mem_rsv_loop m fdt 0"

subsection \<open>Properties of a node\<close>

partial_function (option) nextprop :: "mem \<Rightarrow> addr \<Rightarrow> i32 \<Rightarrow> i32 option" where
  "nextprop m fdt offset =
     (case fdt_next_tag m fdt offset of (tag, nextoffset) \<Rightarrow>
        if tag = FDT_END then Some (if 0 \<le> sint nextoffset then - FDT_ERR_BADSTRUCTURE else nextoffset)
        else if tag = FDT_PROP then Some offset
        else if tag = FDT_NOP then nextprop m fdt nextoffset
        else Some (- FDT_ERR_NOTFOUND))"

definition fdt_first_property_offset :: "mem \<Rightarrow> addr \<Rightarrow> i32 \<Rightarrow> i32 option" where
  "fdt_first_property_offset m fdt nodeoffset =
     (let offset = fdt_check_node_offset m fdt nodeoffset
      in if sint offset < 0 then Some offset else nextprop m fdt offset)"

definition fdt_next_property_offset :: "mem \<Rightarrow> addr \<Rightarrow> i32 \<Rightarrow> i32 option" where
  "fdt_next_property_offset m fdt offset =
     (let offset = fdt_check_prop_offset m fdt offset
      in if sint offset < 0 then Some offset else nextprop m fdt offset)"

text \<open>A property by its offset: its address and length, or an error.\<close>

definition fdt_get_property_by_offset_unchecked :: "mem \<Rightarrow> addr \<Rightarrow> i32 \<Rightarrow> addr option \<times> i32" where
  "fdt_get_property_by_offset_unchecked m fdt offset =
     (let err = fdt_check_prop_offset m fdt offset
      in if sint err < 0 then (None, err)
         else let prop = fdt_struct_ptr m fdt offset in (Some prop, fdt32 m (prop + 4)))"

definition fdt_get_property_by_offset :: "mem \<Rightarrow> addr \<Rightarrow> i32 \<Rightarrow> addr option \<times> i32" where
  "fdt_get_property_by_offset m fdt offset =
     (if fdt_version m fdt < 0x10 then (None, - FDT_ERR_BADVERSION)
      else fdt_get_property_by_offset_unchecked m fdt offset)"

text \<open>The search for a property: its address, its length and its offset, or an error.\<close>

partial_function (option) property_search :: "mem \<Rightarrow> addr \<Rightarrow> u8 list \<Rightarrow> i32 \<Rightarrow> (i32 + addr \<times> i32 \<times> i32) option" where
  "property_search m fdt name offset =
     (if sint offset < 0 then Some (Inl offset)
      else case fdt_get_property_by_offset_unchecked m fdt offset of
        (None, _) \<Rightarrow> Some (Inl (- FDT_ERR_INTERNAL))
      | (Some prop, len) \<Rightarrow>
          if fdt_string_eq m fdt (fdt32 m (prop + 8)) name then Some (Inr (prop, len, offset))
          else (case fdt_next_property_offset m fdt offset of
                  None \<Rightarrow> None
                | Some offset \<Rightarrow> property_search m fdt name offset))"

definition fdt_get_property_search :: "mem \<Rightarrow> addr \<Rightarrow> i32 \<Rightarrow> u8 list \<Rightarrow> (i32 + addr \<times> i32 \<times> i32) option" where
  "fdt_get_property_search m fdt offset name =
     (case fdt_first_property_offset m fdt offset of
        None \<Rightarrow> None
      | Some offset \<Rightarrow> property_search m fdt name offset)"

definition fdt_get_property_namelen :: "mem \<Rightarrow> addr \<Rightarrow> i32 \<Rightarrow> u8 list \<Rightarrow> (i32 + addr \<times> i32 \<times> i32) option" where
  "fdt_get_property_namelen m fdt offset name =
     (if fdt_version m fdt < 0x10 then Some (Inl (- FDT_ERR_BADVERSION))
      else fdt_get_property_search m fdt offset name)"

text \<open>The value of a property and its length.\<close>

definition fdt_getprop :: "mem \<Rightarrow> addr \<Rightarrow> i32 \<Rightarrow> u8 list \<Rightarrow> (i32 + addr \<times> i32) option" where
  "fdt_getprop m fdt nodeoffset name =
     (case fdt_get_property_search m fdt nodeoffset name of
        None \<Rightarrow> None
      | Some (Inl err) \<Rightarrow> Some (Inl err)
      | Some (Inr (prop, len, poffset)) \<Rightarrow>
          Some (Inr (if fdt_version m fdt < 0x10 \<and> ((scast poffset :: u64) + 12) mod 8 \<noteq> 0 \<and> 8 \<le> fdt32 m (prop + 4)
                     then prop + 16 else prop + 12, len)))"

definition phandle_prop :: "mem \<Rightarrow> addr \<Rightarrow> i32 \<Rightarrow> string \<Rightarrow> u32 option option" where
  "phandle_prop m fdt nodeoffset name =
     (case fdt_getprop m fdt nodeoffset (map of_char name) of
        None \<Rightarrow> None
      | Some (Inl err) \<Rightarrow> Some None
      | Some (Inr (php, len)) \<Rightarrow> Some (if len \<noteq> 4 then None else Some (fdt32 m php)))"

definition fdt_get_phandle :: "mem \<Rightarrow> addr \<Rightarrow> i32 \<Rightarrow> u32 option" where
  "fdt_get_phandle m fdt nodeoffset =
     (case phandle_prop m fdt nodeoffset ''phandle'' of
        None \<Rightarrow> None
      | Some (Some ph) \<Rightarrow> Some ph
      | Some None \<Rightarrow> (case phandle_prop m fdt nodeoffset ''linux,phandle'' of
            None \<Rightarrow> None
          | Some None \<Rightarrow> Some 0
          | Some (Some ph) \<Rightarrow> Some ph))"

subsection \<open>Lookups\<close>

partial_function (option) subnode_search :: "mem \<Rightarrow> addr \<Rightarrow> u8 list \<Rightarrow> i32 \<Rightarrow> i32 \<Rightarrow> i32 option" where
  "subnode_search m fdt name offset depth =
     (if 0 \<le> sint offset \<and> 0 \<le> sint depth
      then (case (if depth = 1 then fdt_nodename_eq m fdt offset name else Some False) of
              None \<Rightarrow> None
            | Some found \<Rightarrow>
                if found then Some offset
                else (case fdt_next_node m fdt offset (Some depth) of
                        None \<Rightarrow> None
                      | Some (offset, depth) \<Rightarrow> subnode_search m fdt name offset (the depth)))
      else Some (if sint depth < 0 then - FDT_ERR_NOTFOUND else offset))"

definition fdt_subnode_offset_namelen :: "mem \<Rightarrow> addr \<Rightarrow> i32 \<Rightarrow> u8 list \<Rightarrow> i32 option" where
  "fdt_subnode_offset_namelen m fdt offset name =
     (if sint (fdt_ro_probe m fdt) < 0 then Some (fdt_ro_probe m fdt)
      else subnode_search m fdt name offset 0)"

text \<open>The components of a path, from its first slash.\<close>

lemma path_rest_shorter:
  assumes "dropWhile P path \<noteq> []" "\<And>c. P c \<Longrightarrow> \<not> Q c" "\<And>c. \<not> P c \<Longrightarrow> Q c"
  shows "length (dropWhile Q (dropWhile P path)) < length path"
proof -
  obtain c cs where c: "dropWhile P path = c # cs" using assms(1) by (cases "dropWhile P path") auto
  then have "\<not> P c" by (simp add: dropWhile_eq_Cons_conv)
  with c assms(3) have "length (dropWhile Q (dropWhile P path)) \<le> length cs"
    by (simp add: length_dropWhile_le)
  also have "length cs < length path" using c length_dropWhile_le [of P path] by simp
  finally show ?thesis .
qed

function path_walk :: "mem \<Rightarrow> addr \<Rightarrow> i32 \<Rightarrow> u8 list \<Rightarrow> i32 option" where
  "path_walk m fdt offset path =
     (let path' = dropWhile (\<lambda>c. c = of_char CHR ''/'') path
      in if path' = [] then Some offset
         else let name = takeWhile (\<lambda>c. c \<noteq> of_char CHR ''/'') path';
                  rest = dropWhile (\<lambda>c. c \<noteq> of_char CHR ''/'') path'
              in case fdt_subnode_offset_namelen m fdt offset name of
                   None \<Rightarrow> None
                 | Some offset \<Rightarrow> if sint offset < 0 then Some offset else path_walk m fdt offset rest)"
  by pat_completeness auto

termination
  by (relation "measure (\<lambda>(m, fdt, offset, path). length path)")
    (auto intro: path_rest_shorter)

declare path_walk.simps [simp del]

text \<open>
  The value of an alias: a property of \<^verbatim>\<open>/aliases\<close>, whose path starts with a slash. An alias may name a
  path that starts with another alias, so resolving one may not end.
\<close>

definition fdt_get_alias_namelen :: "mem \<Rightarrow> addr \<Rightarrow> u8 list \<Rightarrow> addr option option" where
  "fdt_get_alias_namelen m fdt name =
     (case (if sint (fdt_ro_probe m fdt) < 0 then Some (fdt_ro_probe m fdt)
            else path_walk m fdt 0 (map of_char ''/aliases'')) of
        None \<Rightarrow> None
      | Some aliasoffset \<Rightarrow>
          if sint aliasoffset < 0 then Some None
          else (case fdt_getprop m fdt aliasoffset name of
                  None \<Rightarrow> None
                | Some (Inl err) \<Rightarrow> Some None
                | Some (Inr (p, len)) \<Rightarrow> Some (Some p)))"

partial_function (option) fdt_path_offset :: "mem \<Rightarrow> addr \<Rightarrow> u8 list \<Rightarrow> i32 option" where
  "fdt_path_offset m fdt path =
     (if sint (fdt_ro_probe m fdt) < 0 then Some (fdt_ro_probe m fdt)
      else if path \<noteq> [] \<and> hd path = of_char CHR ''/'' then path_walk m fdt 0 path
      else (case fdt_get_alias_namelen m fdt (takeWhile (\<lambda>c. c \<noteq> of_char CHR ''/'') path) of
              None \<Rightarrow> None
            | Some alias \<Rightarrow>
                if alias = None then Some (- FDT_ERR_BADPATH)
                else (case strlen (the alias) m of
                        None \<Rightarrow> None
                      | Some n \<Rightarrow>
                          Option.bind (fdt_path_offset m fdt (bytes_at m (the alias) (unat n))) (\<lambda>offset.
                            path_walk m fdt offset (dropWhile (\<lambda>c. c \<noteq> of_char CHR ''/'') path)))))"

partial_function (option) phandle_search :: "mem \<Rightarrow> addr \<Rightarrow> u32 \<Rightarrow> i32 \<Rightarrow> i32 option" where
  "phandle_search m fdt phandle offset =
     (if sint offset < 0 then Some offset
      else case fdt_get_phandle m fdt offset of
        None \<Rightarrow> None
      | Some ph \<Rightarrow>
          if ph = phandle then Some offset
          else (case fdt_next_node m fdt offset None of
                  None \<Rightarrow> None
                | Some (offset, depth) \<Rightarrow> phandle_search m fdt phandle offset))"

definition fdt_node_offset_by_phandle :: "mem \<Rightarrow> addr \<Rightarrow> u32 \<Rightarrow> i32 option" where
  "fdt_node_offset_by_phandle m fdt phandle =
     (if phandle = 0 \<or> phandle = 0xffffffff then Some (- FDT_ERR_BADPHANDLE)
      else if sint (fdt_ro_probe m fdt) < 0 then Some (fdt_ro_probe m fdt)
      else case fdt_next_node m fdt (- 1) None of
        None \<Rightarrow> None
      | Some (offset, depth) \<Rightarrow> phandle_search m fdt phandle offset)"

end
