(* ===== verification/Fdt_Tree.thy ===== *)
theory Fdt_Tree
  imports Fdt_Ro
begin

section \<open>Device trees as token sequences\<close>

text \<open>
  The reference for the reading functions: the structure block is the encoding of a sequence of
  tokens, and the functions of \<^verbatim>\<open>fdt.c\<close> and \<^verbatim>\<open>fdt_ro.c\<close> are shown to find in the bytes what the
  sequence says. Offsets are natural numbers here.
\<close>

subsection \<open>Encoding\<close>

datatype token = Begin_node "u8 list" | End_node | Property u32 "u8 list" | Nop | End

fun token_tag :: "token \<Rightarrow> u32" where
  "token_tag (Begin_node name) = FDT_BEGIN_NODE"
| "token_tag End_node = FDT_END_NODE"
| "token_tag (Property nameoff value) = FDT_PROP"
| "token_tag Nop = FDT_NOP"
| "token_tag End = FDT_END"

definition be32 :: "u32 \<Rightarrow> u8 list" where
  "be32 w = [ucast (drop_bit 24 w), ucast (drop_bit 16 w), ucast (drop_bit 8 w), ucast w]"

fun token_body :: "token \<Rightarrow> u8 list" where
  "token_body (Begin_node name) = name @ [0]"
| "token_body (Property nameoff value) = be32 (word_of_nat (length value)) @ be32 nameoff @ value"
| "token_body _ = []"

text \<open>The size of a token in the block: its tag, its body and the padding to a multiple of four.\<close>

definition token_size :: "token \<Rightarrow> nat" where
  "token_size t = (4 + length (token_body t) + 3) div 4 * 4"

definition token_ok :: "token \<Rightarrow> bool" where
  "token_ok t = (case t of Begin_node name \<Rightarrow> 0 \<notin> set name | _ \<Rightarrow> True)"

definition stored :: "mem \<Rightarrow> addr \<Rightarrow> u8 list \<Rightarrow> bool" where
  "stored m p bs \<longleftrightarrow> bytes_at m p (length bs) = bs"

text \<open>A position of the structure block, and that a range of it lies inside the block and the tree.\<close>

definition struct_at :: "mem \<Rightarrow> addr \<Rightarrow> nat \<Rightarrow> addr" where
  "struct_at m fdt n = fdt + word_of_nat (unat (fdt_off_dt_struct m fdt) + n)"

definition fits :: "mem \<Rightarrow> addr \<Rightarrow> nat \<Rightarrow> nat \<Rightarrow> bool" where
  "fits m fdt n k \<longleftrightarrow> n + unat (fdt_off_dt_struct m fdt) + k \<le> unat (fdt_totalsize m fdt) \<and>
     (fdt_version m fdt < 0x11 \<or> n + k \<le> unat (fdt_size_dt_struct m fdt))"

definition token_at :: "mem \<Rightarrow> addr \<Rightarrow> nat \<Rightarrow> token \<Rightarrow> bool" where
  "token_at m fdt n t \<longleftrightarrow> 4 dvd n \<and> fits m fdt n (token_size t) \<and> token_ok t \<and>
     stored m (struct_at m fdt n) (be32 (token_tag t) @ token_body t)"

fun tokens_at :: "mem \<Rightarrow> addr \<Rightarrow> nat \<Rightarrow> token list \<Rightarrow> bool" where
  "tokens_at m fdt n [] = True"
| "tokens_at m fdt n (t # ts) \<longleftrightarrow> token_at m fdt n t \<and> tokens_at m fdt (n + token_size t) ts"

text \<open>
  A tree whose header is accepted, of a version without the padding of old properties. The size
  \<^verbatim>\<open>INT32_MAX\<close>, which \<^verbatim>\<open>fdt_check_header\<close> accepts and \<^verbatim>\<open>fdt_ro_probe_\<close> does not, is left out, and the tree
  does not wrap around the address space.
\<close>

definition tree_ok :: "mem \<Rightarrow> addr \<Rightarrow> bool" where
  "tree_ok m fdt \<longleftrightarrow> fdt_check_header m fdt = 0 \<and> 0x10 \<le> fdt_version m fdt \<and>
     fdt_totalsize m fdt < INT32_MAX \<and> unat fdt + unat (fdt_totalsize m fdt) \<le> 2 ^ 64"

subsection \<open>Reading stored bytes\<close>

lemma stored_nth: "stored m p bs \<longleftrightarrow> (\<forall>i < length bs. m (p + word_of_nat i) = bs ! i)"
  unfolding stored_def bytes_at_def by (subst list_eq_iff_nth_eq) simp

lemma stored_Nil [simp]: "stored m p []"
  by (simp add: stored_nth)

lemma stored_Cons [simp]: "stored m p (b # bs) \<longleftrightarrow> m p = b \<and> stored m (p + 1) bs"
  by (auto simp: stored_nth All_less_Suc2 add.assoc)

lemma stored_append [simp]: "stored m p (xs @ ys) \<longleftrightarrow> stored m p xs \<and> stored m (p + word_of_nat (length xs)) ys"
  by (induction xs arbitrary: p) (auto simp: add.assoc)

lemma length_be32 [simp]: "length (be32 w) = 4"
  by (simp add: be32_def)

lemma fdt32_be32: "stored m p (be32 w) \<Longrightarrow> fdt32 m p = w"
proof -
  assume s: "stored m p (be32 w)"
  define v where "v = (push_bit 24 (ucast (ucast (drop_bit 24 w) :: u8)) OR push_bit 16 (ucast (ucast (drop_bit 16 w) :: u8)) OR
      push_bit 8 (ucast (ucast (drop_bit 8 w) :: u8)) OR ucast (ucast w :: u8) :: u32)"
  have "v = w"
  proof (rule bit_word_eqI)
    fix n :: nat
    assume "n < LENGTH(32)"
    then consider "n < 8" | "8 \<le> n" "n < 16" | "16 \<le> n" "n < 24" | "24 \<le> n" "n < 32" by fastforce
    then show "bit v n = bit w n" by cases (simp_all add: v_def bit_simps less_diff_conv2)
  qed
  with s show ?thesis by (simp add: be32_def fdt32_def v_def add.assoc)
qed

lemma struct_at_add: "struct_at m fdt (n + k) = struct_at m fdt n + word_of_nat k"
  by (simp add: struct_at_def add.assoc)

subsection \<open>Tags\<close>

lemma fits_bound:
  assumes "tree_ok m fdt" "fits m fdt n k"
  shows "n + k < 2 ^ 31"
proof -
  from assms(1) have "fdt_totalsize m fdt \<le> INT32_MAX" by (simp add: tree_ok_def fdt_check_header_bounds(1))
  then have "unat (fdt_totalsize m fdt) < 2 ^ 31" by (simp add: word_le_nat_alt)
  with assms(2) show ?thesis by (simp add: fits_def)
qed

lemma fits_sub: "fits m fdt n k \<Longrightarrow> j + l \<le> k \<Longrightarrow> fits m fdt (n + j) l"
  by (auto simp: fits_def)

lemma unat_offset_nat: "n < 2 ^ 32 \<Longrightarrow> unat (word_of_nat n :: i32) = n"
  by (simp add: unat_of_nat take_bit_nat_eq_self)

lemma sint_offset_nat: "n < 2 ^ 31 \<Longrightarrow> 0 \<le> sint (word_of_nat n :: i32)"
  by (simp add: sint_nonneg_32(1) unat_offset_nat)

lemma struct_ptr_nat:
  assumes "n < 2 ^ 31"
  shows "fdt_struct_ptr m fdt (word_of_nat n) = struct_at m fdt n"
proof -
  have n: "unat (word_of_nat n :: i32) = n" using assms by (simp add: unat_offset_nat)
  then have "sint (word_of_nat n :: i32) = int n" using assms sint_nonneg_32(2) [of "word_of_nat n"] by simp
  then have "(scast (word_of_nat n :: i32) :: u64) = word_of_nat n" by (metis of_int_of_nat_eq of_int_sint)
  moreover have "(ucast (fdt_off_dt_struct m fdt) :: u64) = word_of_nat (unat (fdt_off_dt_struct m fdt))"
    by simp
  ultimately show ?thesis by (simp add: fdt_struct_ptr_def struct_at_def add.assoc)
qed

lemma offset_ptr_nat:
  assumes "n < 2 ^ 31" "k < 2 ^ 32"
  shows "fdt_offset_ptr m fdt (word_of_nat n) (word_of_nat k) =
     (if fits m fdt n k then Some (struct_at m fdt n) else None)"
  using assms by (simp add: fdt_offset_ptr_eq unat_offset_nat struct_ptr_nat fits_def)

lemma TAGALIGN_nat:
  assumes "n + 3 < 2 ^ 32"
  shows "FDT_TAGALIGN (word_of_nat n) = word_of_nat ((n + 3) div 4 * 4)"
proof -
  have "unat (FDT_TAGALIGN (word_of_nat n)) = (n + 3) div 4 * 4"
    using assms unat_TAGALIGN [of "word_of_nat n"] by (simp add: unat_offset_nat)
  moreover have "word_of_nat (unat x) = x" for x :: i32 by simp
  ultimately show ?thesis by metis
qed

lemma skip_name_nat:
  assumes "tree_ok m fdt" "fits m fdt n (length name + 1)" "0 \<notin> set name"
    and "stored m (struct_at m fdt n) (name @ [0])"
  shows "skip_name m fdt (word_of_nat n) = (True, word_of_nat (n + length name + 1))"
  using assms(2-)
proof (induction name arbitrary: n)
  case Nil
  then have "n < 2 ^ 31" using fits_bound [OF assms(1)] by fastforce
  with offset_ptr_nat [of n 1] Nil show ?case by (subst skip_name.simps) (simp add: add.commute)
next
  case (Cons c name)
  have n: "n < 2 ^ 31" using fits_bound [OF assms(1) Cons.prems(1)] by simp
  have "fits m fdt n 1" "fits m fdt (n + 1) (length name + 1)"
    using fits_sub [OF Cons.prems(1), of 0 1] fits_sub [OF Cons.prems(1), of 1 "length name + 1"] by simp_all
  with Cons.IH [of "n + 1"] Cons.prems(2,3) struct_at_add [of m fdt n 1]
  have "skip_name m fdt (word_of_nat n + 1) = (True, word_of_nat (n + length (c # name) + 1))"
    by (simp add: ac_simps)
  with offset_ptr_nat [of n 1] \<open>fits m fdt n 1\<close> n Cons.prems(2,3) show ?case
    by (subst skip_name.simps) simp
qed

lemma token_size_bounds: "4 + length (token_body t) \<le> token_size t" "4 dvd token_size t"
  unfolding token_size_def by presburger+

lemma token_end:
  assumes "4 dvd n"
  shows "(n + (4 + length (token_body t)) + 3) div 4 * 4 = n + token_size t"
  using assms unfolding token_size_def by presburger

text \<open>Reading the bytes of a token gives its tag and the offset of the next one.\<close>

lemma next_tag_token:
  assumes "tree_ok m fdt" "token_at m fdt n t"
  shows "fdt_next_tag m fdt (word_of_nat n) = (token_tag t, word_of_nat (n + token_size t))"
proof -
  from assms(2) have t: "4 dvd n" "fits m fdt n (token_size t)" "token_ok t"
    "stored m (struct_at m fdt n) (be32 (token_tag t))"
    "stored m (struct_at m fdt (n + 4)) (token_body t)"
    by (simp_all add: token_at_def struct_at_add)
  let ?k = "4 + length (token_body t)"
  have bound: "n + token_size t < 2 ^ 31" using fits_bound [OF assms(1) t(2)] .
  have part: "fits m fdt (n + j) l" if "j + l \<le> ?k" for j l
    using fits_sub [OF t(2), of j l] that token_size_bounds(1) [of t] by simp
  have tag: "fdt_offset_ptr m fdt (word_of_nat n) 4 = Some (struct_at m fdt n)" "fdt32 m (struct_at m fdt n) = token_tag t"
    using offset_ptr_nat [of n 4] part [of 0 4] bound fdt32_be32 [OF t(4)] by simp_all
  have four: "word_of_nat n + 4 = (word_of_nat (n + 4) :: i32)" by simp
  have fin: "fdt_offset_ptr m fdt (word_of_nat n) (word_of_nat (n + ?k) - word_of_nat n) \<noteq> None"
    "FDT_TAGALIGN (word_of_nat (n + ?k)) = word_of_nat (n + token_size t)"
  proof -
    show "fdt_offset_ptr m fdt (word_of_nat n) (word_of_nat (n + ?k) - word_of_nat n) \<noteq> None"
      using offset_ptr_nat [of n ?k] part [of 0 ?k] bound token_size_bounds(1) [of t] by simp
    show "FDT_TAGALIGN (word_of_nat (n + ?k)) = word_of_nat (n + token_size t)"
      using bound token_size_bounds(1) [of t] by (subst TAGALIGN_nat) (simp_all only: token_end [OF t(1)], simp)
  qed
  show ?thesis
  proof (cases t)
    case (Begin_node name)
    have "skip_name m fdt (word_of_nat (n + 4)) = (True, word_of_nat (n + ?k))"
      using skip_name_nat [OF assms(1) part [of 4 "length name + 1"]] t(3,5) by (simp add: Begin_node token_ok_def ac_simps)
    with tag fin show ?thesis unfolding fdt_next_tag_def Let_def four by (simp add: Begin_node)
  next
    case (Property nameoff v)
    have "fdt_offset_ptr m fdt (word_of_nat (n + 4)) 4 = Some (struct_at m fdt (n + 4))"
      using offset_ptr_nat [of "n + 4" 4] part [of 4 4] bound token_size_bounds(1) [of t] by (simp add: Property)
    moreover have "fdt32 m (struct_at m fdt (n + 4)) = word_of_nat (length v)"
      using t(5) fdt32_be32 by (simp add: Property)
    moreover have "\<not> fdt_version m fdt < 0x10" using assms(1) by (simp add: tree_ok_def not_less)
    then have "skip_prop m fdt (word_of_nat (n + 4)) (word_of_nat (length v)) = word_of_nat (n + ?k)"
      by (simp add: skip_prop_def Let_def Property add_ac)
    ultimately show ?thesis using tag fin unfolding fdt_next_tag_def Let_def four by (simp add: Property)
  qed (use tag fin in \<open>simp_all add: fdt_next_tag_def Let_def\<close>)
qed

subsection \<open>Trees\<close>

text \<open>A node: its name, its properties by the offset of their name and their value, its subnodes.\<close>

datatype dt_node = Node (node_name: "u8 list") (node_props: "(u32 \<times> u8 list) list") (node_subs: "dt_node list")

fun flatten :: "dt_node \<Rightarrow> token list" where
  "flatten (Node name properties subs) =
     Begin_node name # map (\<lambda>(nameoff, v). Property nameoff v) properties @ concat (map flatten subs) @ [End_node]"

definition tokens_size :: "token list \<Rightarrow> nat" where
  "tokens_size ts = sum_list (map token_size ts)"

lemma tokens_size_simps [simp]:
  "tokens_size [] = 0" "tokens_size (t # ts) = token_size t + tokens_size ts"
  "tokens_size (xs @ ys) = tokens_size xs + tokens_size ys"
  by (simp_all add: tokens_size_def)

lemma tokens_at_append [simp]:
  "tokens_at m fdt n (xs @ ys) \<longleftrightarrow> tokens_at m fdt n xs \<and> tokens_at m fdt (n + tokens_size xs) ys"
  by (induction xs arbitrary: n) (auto simp: add.assoc)

lemma tokens_at_bound:
  assumes "tree_ok m fdt"
  shows "tokens_at m fdt n ts \<Longrightarrow> n < 2 ^ 31 \<Longrightarrow> n + 4 * length ts < 2 ^ 31"
proof (induction ts arbitrary: n)
  case (Cons t ts)
  have "n + token_size t < 2 ^ 31" "4 \<le> token_size t"
    using Cons.prems(1) fits_bound [OF assms] token_size_bounds(1) [of t] by (auto simp: token_at_def)
  with Cons.IH [of "n + token_size t"] Cons.prems(1) show ?case by simp
qed simp

text \<open>
  A traversal that keeps a depth and goes on below a node at depth one passes over whole subtrees:
  what it does there is told by three laws, one per token of a tree.
\<close>

locale tree_walk =
  fixes resume :: "mem \<Rightarrow> addr \<Rightarrow> nat \<Rightarrow> nat \<Rightarrow> 'r"
  assumes at_property: "\<lbrakk>tree_ok m fdt; token_at m fdt n (Property nameoff v); k < 2 ^ 31\<rbrakk> \<Longrightarrow>
      resume m fdt n k = resume m fdt (n + token_size (Property nameoff v)) k"
    and at_end_node: "\<lbrakk>tree_ok m fdt; token_at m fdt n End_node; k + 1 < 2 ^ 31\<rbrakk> \<Longrightarrow>
      resume m fdt n (k + 1) = resume m fdt (n + token_size End_node) k"
    and at_inner_node: "\<lbrakk>tree_ok m fdt; token_at m fdt n (Begin_node name); 0 < k; k + 1 < 2 ^ 31\<rbrakk> \<Longrightarrow>
      resume m fdt n k = resume m fdt (n + token_size (Begin_node name)) (k + 1)"
begin

lemma skip_properties:
  assumes "tree_ok m fdt" "tokens_at m fdt n (map (\<lambda>(nameoff, v). Property nameoff v) properties)" "k < 2 ^ 31"
  shows "resume m fdt n k = resume m fdt (n + tokens_size (map (\<lambda>(nameoff, v). Property nameoff v) properties)) k"
  using assms(2)
proof (induction properties arbitrary: n)
  case (Cons p properties)
  obtain nameoff v where p: "p = (nameoff, v)" by (rule prod.exhaust)
  have "resume m fdt n k = resume m fdt (n + token_size (Property nameoff v)) k"
    using Cons.prems p by (intro at_property [OF assms(1) _ assms(3)]) simp
  also have "\<dots> = resume m fdt (n + tokens_size (map (\<lambda>(nameoff, v). Property nameoff v) (p # properties))) k"
    using Cons.IH [of "n + token_size (Property nameoff v)"] Cons.prems p by (simp add: add.assoc)
  finally show ?case .
qed simp

text \<open>The traversal passes over the tokens when it starts below the top.\<close>

definition passes :: "mem \<Rightarrow> addr \<Rightarrow> token list \<Rightarrow> bool" where
  "passes m fdt ts \<longleftrightarrow> (\<forall>n k. tokens_at m fdt n ts \<and> 0 < k \<and> k + length ts < 2 ^ 31 \<longrightarrow>
     resume m fdt n k = resume m fdt (n + tokens_size ts) k)"

lemma passesD:
  "passes m fdt ts \<Longrightarrow> tokens_at m fdt n ts \<Longrightarrow> 0 < k \<Longrightarrow> k + length ts < 2 ^ 31 \<Longrightarrow>
   resume m fdt n k = resume m fdt (n + tokens_size ts) k"
  by (auto simp: passes_def)

lemma passes_append:
  assumes "passes m fdt xs" "passes m fdt ys"
  shows "passes m fdt (xs @ ys)"
  unfolding passes_def
proof (intro allI impI, elim conjE)
  fix n k
  assume a: "tokens_at m fdt n (xs @ ys)" "0 < k" "k + length (xs @ ys) < 2 ^ 31"
  have "resume m fdt n k = resume m fdt (n + tokens_size xs) k" using a by (intro passesD [OF assms(1)]) simp_all
  also have "\<dots> = resume m fdt (n + tokens_size xs + tokens_size ys) k" using a by (intro passesD [OF assms(2)]) simp_all
  finally show "resume m fdt n k = resume m fdt (n + tokens_size (xs @ ys)) k" by (simp add: add.assoc)
qed

lemma passes_concat: "(\<And>x. x \<in> set xs \<Longrightarrow> passes m fdt (f x)) \<Longrightarrow> passes m fdt (concat (map f xs))"
  by (induction xs) (auto simp: passes_append, simp add: passes_def)

lemma passes_flatten:
  assumes tree: "tree_ok m fdt"
  shows "passes m fdt (flatten x)"
proof (induction x rule: flatten.induct)
  case (1 name properties subs)
  let ?props = "map (\<lambda>(nameoff, v). Property nameoff v) properties"
  let ?body = "?props @ concat (map flatten subs)"
  have "passes m fdt ?props" using skip_properties [OF tree] by (simp add: passes_def)
  moreover have "passes m fdt (concat (map flatten subs))" by (intro passes_concat 1)
  ultimately have body: "passes m fdt ?body" by (rule passes_append)
  show ?case unfolding passes_def
  proof (intro allI impI, elim conjE)
    fix n k :: nat
    assume a: "tokens_at m fdt n (flatten (Node name properties subs))" "0 < k"
      "k + length (flatten (Node name properties subs)) < 2 ^ 31"
    let ?n = "n + token_size (Begin_node name)"
    have "resume m fdt n k = resume m fdt ?n (k + 1)" using a by (intro at_inner_node [OF tree]) auto
    also have "\<dots> = resume m fdt (?n + tokens_size ?body) (k + 1)"
      using a by (intro passesD [OF body]) (auto simp: add.assoc)
    also have "\<dots> = resume m fdt (?n + tokens_size ?body + token_size End_node) k"
      using a by (intro at_end_node [OF tree]) (auto simp: add.assoc)
    finally show "resume m fdt n k = resume m fdt (n + tokens_size (flatten (Node name properties subs))) k"
      by (simp add: add.assoc)
  qed
qed

text \<open>After the tag of a node of the tree at depth one the traversal leaves the node.\<close>

lemma leave_node:
  assumes tree: "tree_ok m fdt" and at: "tokens_at m fdt n (flatten (Node name properties subs))" "n < 2 ^ 31"
  shows "resume m fdt (n + token_size (Begin_node name)) 1 = resume m fdt (n + tokens_size (flatten (Node name properties subs))) 0"
proof -
  let ?body = "map (\<lambda>(nameoff, v). Property nameoff v) properties @ concat (map flatten subs)"
  let ?n = "n + token_size (Begin_node name)"
  have "passes m fdt ?body"
    using skip_properties [OF tree] passes_concat [OF passes_flatten [OF tree]] by (intro passes_append) (simp_all add: passes_def)
  then have "resume m fdt ?n 1 = resume m fdt (?n + tokens_size ?body) 1"
    using at tokens_at_bound [OF tree at] by (intro passesD) auto
  also have "\<dots> = resume m fdt (?n + tokens_size ?body + token_size End_node) 0"
    using at at_end_node [OF tree, of "?n + tokens_size ?body" 0] by (simp add: add.assoc)
  finally show ?thesis by (simp add: add.assoc)
qed

end

subsection \<open>Nodes found in a tree\<close>

lemma sint_word_nat: "k < 2 ^ 31 \<Longrightarrow> sint (word_of_nat k :: i32) = int k"
  using sint_nonneg_32(2) [of "word_of_nat k"] by (simp add: unat_offset_nat)

lemma next_node_loop_tokens:
  assumes "tree_ok m fdt"
  shows "token_at m fdt n (Property nameoff v) \<Longrightarrow> next_node_loop m fdt (word_of_nat n) depth =
      next_node_loop m fdt (word_of_nat (n + token_size (Property nameoff v))) depth"
    and "token_at m fdt n (Begin_node name) \<Longrightarrow> next_node_loop m fdt (word_of_nat n) depth =
      Some (word_of_nat n, map_option (\<lambda>d. d + 1) depth)"
    and "token_at m fdt n End_node \<Longrightarrow> k + 1 < 2 ^ 31 \<Longrightarrow> next_node_loop m fdt (word_of_nat n) (Some (word_of_nat (k + 1))) =
      next_node_loop m fdt (word_of_nat (n + token_size End_node)) (Some (word_of_nat k))"
    and "token_at m fdt n End_node \<Longrightarrow> next_node_loop m fdt (word_of_nat n) (Some 0) =
      Some (word_of_nat (n + token_size End_node), Some (- 1))"
  using sint_word_nat [of k]
  by (simp_all add: next_node_loop.simps [of m fdt "word_of_nat n"] next_tag_token [OF assms] del: of_nat_add)

lemma node_offset_token:
  assumes "tree_ok m fdt" "token_at m fdt n (Begin_node name)"
  shows "fdt_check_node_offset m fdt (word_of_nat n) = word_of_nat (n + token_size (Begin_node name))"
    and "n + token_size (Begin_node name) < 2 ^ 31"
proof -
  from assms(2) have "4 dvd n" "fits m fdt n (token_size (Begin_node name))" by (simp_all add: token_at_def)
  with fits_bound [OF assms(1)] show n: "n + token_size (Begin_node name) < 2 ^ 31" by simp
  then have "(word_of_nat n :: i32) mod 4 = 0"
    using \<open>4 dvd n\<close> unat_offset_nat [of n] by (simp add: word_unat_eq_iff unat_mod_distrib)
  with n sint_word_nat [of n] show "fdt_check_node_offset m fdt (word_of_nat n) = word_of_nat (n + token_size (Begin_node name))"
    by (simp add: fdt_check_node_offset_def next_tag_token [OF assms] del: of_nat_add)
qed

lemma fdt_next_node_token:
  assumes "tree_ok m fdt" "token_at m fdt n (Begin_node name)"
  shows "fdt_next_node m fdt (word_of_nat n) depth =
     next_node_loop m fdt (word_of_nat (n + token_size (Begin_node name))) depth"
  using node_offset_token [OF assms] sint_word_nat [of n] sint_word_nat [of "n + token_size (Begin_node name)"]
  by (simp add: fdt_next_node_def Let_def del: of_nat_add)

text \<open>What is left to do of \<^verbatim>\<open>fdt_next_subnode\<close> at an offset of the block, at some depth.\<close>

definition resume_next :: "mem \<Rightarrow> addr \<Rightarrow> nat \<Rightarrow> nat \<Rightarrow> i32 option" where
  "resume_next m fdt n k =
     (case next_node_loop m fdt (word_of_nat n) (Some (word_of_nat k)) of
        None \<Rightarrow> None
      | Some (offset, depth) \<Rightarrow>
          if sint offset < 0 \<or> sint (the depth) < 1 then Some (- FDT_ERR_NOTFOUND)
          else if 1 < sint (the depth) then next_subnode_loop m fdt offset (the depth)
          else Some offset)"

lemma next_subnode_loop_token:
  assumes "tree_ok m fdt" "token_at m fdt n (Begin_node name)"
  shows "next_subnode_loop m fdt (word_of_nat n) (word_of_nat k) = resume_next m fdt (n + token_size (Begin_node name)) k"
  by (simp add: next_subnode_loop.simps [of m fdt "word_of_nat n"] resume_next_def fdt_next_node_token [OF assms] del: of_nat_add)

lemma resume_next_node:
  assumes "tree_ok m fdt" "token_at m fdt n (Begin_node name)" "k + 1 < 2 ^ 31"
  shows "resume_next m fdt n k = (if k = 0 then Some (word_of_nat n)
     else resume_next m fdt (n + token_size (Begin_node name)) (k + 1))"
proof -
  have n: "sint (word_of_nat n :: i32) = int n" "sint (word_of_nat (k + 1) :: i32) = int (k + 1)"
    using node_offset_token(2) [OF assms(1,2)] assms(3) sint_word_nat [of n] sint_word_nat [of "k + 1"] by simp_all
  have "(word_of_nat k + 1 :: i32) = word_of_nat (k + 1)" by simp
  then show ?thesis
    using n next_subnode_loop_token [OF assms(1,2), of "k + 1"]
    by (simp add: resume_next_def [of m fdt n] next_node_loop_tokens(2) [OF assms(1,2)] del: of_nat_add of_nat_Suc)
qed

interpretation next_walk: tree_walk resume_next
proof
  fix m fdt n nameoff v and k :: nat
  assume t: "tree_ok m fdt"
  show "token_at m fdt n (Property nameoff v) \<Longrightarrow>
      resume_next m fdt n k = resume_next m fdt (n + token_size (Property nameoff v)) k"
    unfolding resume_next_def by (subst next_node_loop_tokens(1) [OF t]) simp_all
  show "token_at m fdt n End_node \<Longrightarrow> k + 1 < 2 ^ 31 \<Longrightarrow>
      resume_next m fdt n (k + 1) = resume_next m fdt (n + token_size End_node) k"
    unfolding resume_next_def by (subst next_node_loop_tokens(3) [OF t]) simp_all
qed (simp add: resume_next_node)

text \<open>A node of the tree among its siblings, in front of more siblings or the end of their parent.\<close>

lemma next_subnode_tree:
  assumes "tree_ok m fdt" "tokens_at m fdt n (flatten x)" "n < 2 ^ 31"
  shows "fdt_next_subnode m fdt (word_of_nat n) = resume_next m fdt (n + tokens_size (flatten x)) 0"
proof (cases x)
  case (Node name properties subs)
  have "fdt_next_subnode m fdt (word_of_nat n) = resume_next m fdt (n + token_size (Begin_node name)) 1"
    using next_subnode_loop_token [OF assms(1), of n name 1] assms(2) by (simp add: fdt_next_subnode_def Node)
  also have "\<dots> = resume_next m fdt (n + tokens_size (flatten x)) 0"
    using next_walk.leave_node [OF assms(1), of n name properties subs] assms(2,3) by (simp add: Node)
  finally show ?thesis .
qed

text \<open>At depth zero the search stops at the next node, or at the end of the parent.\<close>

lemma resume_next_top:
  assumes "tree_ok m fdt"
  shows "token_at m fdt n (Begin_node name) \<Longrightarrow> resume_next m fdt n 0 = Some (word_of_nat n)"
    and "token_at m fdt n End_node \<Longrightarrow> resume_next m fdt n 0 = Some (- FDT_ERR_NOTFOUND)"
  using next_node_loop_tokens(4) [OF assms, of n]
  by (simp_all add: resume_next_node [OF assms]) (simp add: resume_next_def)

lemma next_node_loop_zero:
  assumes "next_node_loop m fdt off (Some 0) = Some (off', depth')"
  shows "sint off' < 0 \<or> depth' = Some 1 \<or> depth' = Some (- 1)"
proof -
  have "depth = Some 0 \<longrightarrow> sint (fst r) < 0 \<or> snd r = Some 1 \<or> snd r = Some (- 1)"
    if "next_node_loop m fdt off depth = Some r" for depth r
    using that by (rule next_node_loop.raw_induct [rotated]) (auto split: prod.splits if_splits)
  from this [OF assms] show ?thesis by simp
qed

lemma first_subnode_tree:
  assumes "tree_ok m fdt" "tokens_at m fdt n (flatten (Node name properties subs))"
  shows "fdt_first_subnode m fdt (word_of_nat n) =
     resume_next m fdt (n + tokens_size (Begin_node name # map (\<lambda>(nameoff, v). Property nameoff v) properties)) 0"
proof -
  let ?n = "n + token_size (Begin_node name)"
  have "fdt_first_subnode m fdt (word_of_nat n) = resume_next m fdt ?n 0"
    using fdt_next_node_token [OF assms(1), of n name "Some 0"] assms(2)
      next_node_loop_zero [of m fdt "word_of_nat ?n"]
    by (auto simp: fdt_first_subnode_def resume_next_def split: option.splits)
  also have "\<dots> = resume_next m fdt (n + tokens_size (Begin_node name # map (\<lambda>(nameoff, v). Property nameoff v) properties)) 0"
    using next_walk.skip_properties [OF assms(1), of ?n properties 0] assms(2) by (simp add: add.assoc)
  finally show ?thesis .
qed

text \<open>The offsets of the subnodes of a node that starts at an offset.\<close>

fun node_offsets :: "nat \<Rightarrow> dt_node list \<Rightarrow> nat list" where
  "node_offsets n [] = []"
| "node_offsets n (x # xs) = n # node_offsets (n + tokens_size (flatten x)) xs"

definition subs_start :: "nat \<Rightarrow> dt_node \<Rightarrow> nat" where
  "subs_start n x = n + tokens_size (Begin_node (node_name x) # map (\<lambda>(nameoff, v). Property nameoff v) (node_props x))"

definition sub_offsets :: "nat \<Rightarrow> dt_node \<Rightarrow> nat list" where
  "sub_offsets n x = node_offsets (subs_start n x) (node_subs x)"

text \<open>The first of a list of offsets as the library returns it.\<close>

definition offset_result :: "nat list \<Rightarrow> i32" where
  "offset_result offs = (case offs of [] \<Rightarrow> - FDT_ERR_NOTFOUND | n # _ \<Rightarrow> word_of_nat n)"

lemma length_node_offsets [simp]: "length (node_offsets n xs) = length xs"
  by (induction xs arbitrary: n) simp_all

lemma subs_at:
  assumes "tokens_at m fdt n (flatten x)"
  shows "token_at m fdt n (Begin_node (node_name x))"
    and "tokens_at m fdt (n + token_size (Begin_node (node_name x))) (map (\<lambda>(nameoff, v). Property nameoff v) (node_props x))"
    and "tokens_at m fdt (subs_start n x) (concat (map flatten (node_subs x)) @ [End_node])"
  using assms by (cases x; simp add: subs_start_def add.assoc)+

lemma siblings_bound:
  assumes "tree_ok m fdt" "tokens_at m fdt n (concat (map flatten xs) @ [End_node])"
  shows "n < 2 ^ 31"
  using assms(2) by (cases xs; cases "hd xs") (auto simp: token_at_def dest!: fits_bound [OF assms(1)])

lemma resume_next_siblings:
  assumes "tree_ok m fdt" "tokens_at m fdt n (concat (map flatten xs) @ [End_node])"
  shows "resume_next m fdt n 0 = Some (offset_result (node_offsets n xs))"
proof (cases xs)
  case Nil
  with assms resume_next_top(2) show ?thesis by (simp add: offset_result_def)
next
  case (Cons x xs')
  with assms subs_at(1) [of m fdt n x] have "token_at m fdt n (Begin_node (node_name x))" by simp
  with Cons resume_next_top(1) [OF assms(1)] show ?thesis by (simp add: offset_result_def)
qed

lemma next_subnode_siblings:
  assumes "tree_ok m fdt" "tokens_at m fdt n (concat (map flatten xs) @ [End_node])" "n < 2 ^ 31"
  shows "i < length xs \<Longrightarrow> fdt_next_subnode m fdt (word_of_nat (node_offsets n xs ! i)) =
     Some (offset_result (drop (Suc i) (node_offsets n xs)))"
  using assms(2,3)
proof (induction xs arbitrary: n i)
  case (Cons x xs)
  let ?n = "n + tokens_size (flatten x)"
  have at: "tokens_at m fdt n (flatten x)" "tokens_at m fdt ?n (concat (map flatten xs) @ [End_node])"
    using Cons.prems(2) by (simp_all add: add.assoc)
  show ?case
  proof (cases i)
    case 0
    with next_subnode_tree [OF assms(1) at(1) Cons.prems(3)] resume_next_siblings [OF assms(1) at(2)] show ?thesis by simp
  next
    case (Suc j)
    from siblings_bound [OF assms(1) at(2)] Cons.IH [of j ?n] Cons.prems(1) at(2) Suc show ?thesis by (simp add: add.commute)
  qed
qed simp

subsection \<open>Names\<close>

text \<open>A name as the caller gives it names a node with or without its unit address.\<close>

definition name_matches :: "u8 list \<Rightarrow> u8 list \<Rightarrow> bool" where
  "name_matches s name \<longleftrightarrow> s = name \<or> of_char CHR ''@'' \<notin> set s \<and> take (length s + 1) name = s @ [of_char CHR ''@'']"

lemma ro_probe_tree:
  assumes "tree_ok m fdt"
  shows "\<not> sint (fdt_ro_probe m fdt) < 0" "fdt_ro_probe m fdt = fdt_totalsize m fdt"
proof -
  from assms show probe: "fdt_ro_probe m fdt = fdt_totalsize m fdt"
    by (auto simp: tree_ok_def fdt_ro_probe_def fdt_check_header_def Let_def split: if_splits)
  have "unat (fdt_totalsize m fdt) < 2 ^ 31" using assms by (simp add: tree_ok_def word_less_nat_alt)
  with probe show "\<not> sint (fdt_ro_probe m fdt) < 0" using sint_nonneg_32(1) [of "fdt_totalsize m fdt"] by simp
qed

lemma cstring_stored: "stored m p (s @ [0]) \<Longrightarrow> 0 \<notin> set s \<Longrightarrow> cstring m p s"
  by (induction s arbitrary: p) auto

lemma get_name_tree:
  assumes "tree_ok m fdt" "token_at m fdt n (Begin_node name)"
  shows "fdt_get_name m fdt (word_of_nat n) = Some (Some (struct_at m fdt (n + 4)), word_of_nat (length name))"
    and "stored m (struct_at m fdt (n + 4)) (name @ [0])" and "length name < 2 ^ 31"
proof -
  note node = node_offset_token [OF assms]
  have n: "n < 2 ^ 31" using node(2) by simp
  show st: "stored m (struct_at m fdt (n + 4)) (name @ [0])"
    using assms(2) by (simp add: token_at_def struct_at_add add.assoc)
  show len: "length name < 2 ^ 31" using node(2) token_size_bounds(1) [of "Begin_node name"] by simp
  have "cstring m (struct_at m fdt (n + 4)) name"
    using st assms(2) by (intro cstring_stored) (simp_all add: token_at_def token_ok_def)
  then have "strlen (struct_at m fdt (n + 4)) m = Some (word_of_nat (length name))" by (rule strlen_cstring)
  moreover have "ucast (word_of_nat k :: u64) = (word_of_nat k :: i32)" for k
    by (simp add: unsigned_of_nat take_bit_word_eq_self) 
  moreover have "\<not> fdt_version m fdt < 0x10" using assms(1) by (simp add: tree_ok_def not_less)
  moreover have "\<not> sint (word_of_nat (n + token_size (Begin_node name)) :: i32) < 0"
    using sint_word_nat [OF node(2)] by simp
  ultimately show "fdt_get_name m fdt (word_of_nat n) = Some (Some (struct_at m fdt (n + 4)), word_of_nat (length name))"
    using ro_probe_tree(1) [OF assms(1)] struct_ptr_nat [OF n, of m fdt]
    by (simp add: fdt_get_name_def Let_def node(1) struct_at_add del: of_nat_add)
qed

lemma nodename_eq_tree:
  assumes "tree_ok m fdt" "token_at m fdt n (Begin_node name)"
  shows "fdt_nodename_eq m fdt (word_of_nat n) s = Some (name_matches s name)"
proof (cases "length name < length s")
  case True
  then have "\<not> name_matches s name" by (auto simp: name_matches_def dest: arg_cong [of _ _ length])
  with True get_name_tree [OF assms(1,2)] show ?thesis by (simp add: fdt_nodename_eq_def sint_word_nat)
next
  case False
  let ?p = "struct_at m fdt (n + 4)"
  have st: "stored m ?p (name @ [0])" by (rule get_name_tree(2) [OF assms(1,2)])
  have at: "m (?p + word_of_nat i) = (name @ [0]) ! i" if "i \<le> length name" for i
    using st that by (simp only: stored_nth) simp
  have bytes: "bytes_at m ?p (length s) = take (length s) name"
    using False at by (intro nth_equalityI) (simp_all add: bytes_at_def nth_append)
  have result: "fdt_nodename_eq m fdt (word_of_nat n) s = Some (take (length s) name = s \<and>
      (m (?p + word_of_nat (length s)) = 0 \<or>
       of_char CHR ''@'' \<notin> set s \<and> m (?p + word_of_nat (length s)) = of_char CHR ''@''))"
    using False get_name_tree [OF assms(1,2)] by (simp add: fdt_nodename_eq_def sint_word_nat bytes)
  show ?thesis
  proof (cases "length s = length name")
    case True
    then have "take (length s + 1) name \<noteq> s @ [of_char CHR ''@'']" by (auto dest: arg_cong [of _ _ length])
    with True at [of "length s"] show ?thesis by (auto simp: result name_matches_def)
  next
    case neq: False
    with False have less: "length s < length name" by simp
    have "0 \<notin> set name" using assms(2) by (simp add: token_at_def token_ok_def)
    with less have "name ! length s \<noteq> 0" by (metis nth_mem)
    moreover have "s \<noteq> name" using neq by auto
    ultimately show ?thesis
      using less at [of "length s"] by (auto simp: result name_matches_def nth_append take_Suc_conv_app_nth)
  qed
qed

subsection \<open>Finding nodes by name\<close>

text \<open>What is left to do of \<^verbatim>\<open>fdt_subnode_offset_namelen\<close> at an offset of the block, at some depth.\<close>

definition resume_find :: "u8 list \<Rightarrow> mem \<Rightarrow> addr \<Rightarrow> nat \<Rightarrow> nat \<Rightarrow> i32 option" where
  "resume_find s m fdt n k =
     (case next_node_loop m fdt (word_of_nat n) (Some (word_of_nat k)) of
        None \<Rightarrow> None
      | Some (offset, depth) \<Rightarrow> subnode_search m fdt s offset (the depth))"

lemma subnode_search_token:
  assumes "tree_ok m fdt" "token_at m fdt n (Begin_node name)" "k < 2 ^ 31"
  shows "subnode_search m fdt s (word_of_nat n) (word_of_nat k) =
     (if k = 1 \<and> name_matches s name then Some (word_of_nat n)
      else resume_find s m fdt (n + token_size (Begin_node name)) k)"
proof -
  have n: "0 \<le> sint (word_of_nat n :: i32)" "0 \<le> sint (word_of_nat k :: i32)"
    using node_offset_token(2) [OF assms(1,2)] sint_word_nat [of n] sint_word_nat [of k] assms(3) by simp_all
  have k: "(word_of_nat k :: i32) = 1 \<longleftrightarrow> k = 1"
    using assms(3) sint_word_nat [of k] by (auto dest: arg_cong [of _ _ sint])
  show ?thesis
    using n nodename_eq_tree [OF assms(1,2), of s]
    by (simp add: subnode_search.simps [of m fdt s "word_of_nat n"] k fdt_next_node_token [OF assms(1,2)] resume_find_def
        del: of_nat_add)
qed

lemma resume_find_node:
  assumes "tree_ok m fdt" "token_at m fdt n (Begin_node name)" "k + 1 < 2 ^ 31"
  shows "resume_find s m fdt n k =
     (if k = 0 \<and> name_matches s name then Some (word_of_nat n)
      else resume_find s m fdt (n + token_size (Begin_node name)) (k + 1))"
proof -
  have "(word_of_nat k + 1 :: i32) = word_of_nat (k + 1)" by simp
  then show ?thesis
    using subnode_search_token [OF assms, of s]
    by (simp add: resume_find_def [of s m fdt n] next_node_loop_tokens(2) [OF assms(1,2)] del: of_nat_add of_nat_Suc)
qed

interpretation find_walk: tree_walk "resume_find s" for s
proof
  fix m fdt n nameoff v and k :: nat
  assume t: "tree_ok m fdt"
  show "token_at m fdt n (Property nameoff v) \<Longrightarrow>
      resume_find s m fdt n k = resume_find s m fdt (n + token_size (Property nameoff v)) k"
    unfolding resume_find_def by (subst next_node_loop_tokens(1) [OF t]) simp_all
  show "token_at m fdt n End_node \<Longrightarrow> k + 1 < 2 ^ 31 \<Longrightarrow>
      resume_find s m fdt n (k + 1) = resume_find s m fdt (n + token_size End_node) k"
    unfolding resume_find_def by (subst next_node_loop_tokens(3) [OF t]) simp_all
qed (simp add: resume_find_node)

text \<open>The nodes of a list, with their offsets, whose names match.\<close>

definition matching :: "u8 list \<Rightarrow> nat \<Rightarrow> dt_node list \<Rightarrow> (nat \<times> dt_node) list" where
  "matching s n xs = filter (\<lambda>(off, x). name_matches s (node_name x)) (zip (node_offsets n xs) xs)"

lemma resume_find_siblings:
  assumes "tree_ok m fdt" "tokens_at m fdt n (concat (map flatten xs) @ [End_node])" "n < 2 ^ 31"
  shows "resume_find s m fdt n 0 = Some (offset_result (map fst (matching s n xs)))"
  using assms(2,3)
proof (induction xs arbitrary: n)
  case Nil
  then show ?case
    using next_node_loop_tokens(4) [OF assms(1), of n]
    by (simp add: resume_find_def subnode_search.simps offset_result_def matching_def)
next
  case (Cons x xs)
  let ?n = "n + tokens_size (flatten x)"
  have at: "tokens_at m fdt n (flatten x)" "tokens_at m fdt ?n (concat (map flatten xs) @ [End_node])"
    using Cons.prems(1) by (simp_all add: add.assoc)
  have n: "?n < 2 ^ 31" by (rule siblings_bound [OF assms(1) at(2)])
  obtain name properties subs where x: "x = Node name properties subs" by (cases x)
  have "resume_find s m fdt (n + token_size (Begin_node name)) 1 = resume_find s m fdt ?n 0"
    using find_walk.leave_node [OF assms(1) _ Cons.prems(2)] at(1) by (simp add: x)
  with resume_find_node [OF assms(1) subs_at(1) [OF at(1)], of 0 s] Cons.IH [OF at(2) n]
  show ?case by (simp add: x matching_def offset_result_def)
qed

lemma subnode_offset_tree:
  assumes "tree_ok m fdt" "tokens_at m fdt n (flatten x)"
  shows "fdt_subnode_offset_namelen m fdt (word_of_nat n) s =
     Some (offset_result (map fst (matching s (subs_start n x) (node_subs x))))"
proof -
  note at = subs_at [OF assms(2)]
  from resume_find_siblings [OF assms(1) at(3) siblings_bound [OF assms(1) at(3)]]
  have "resume_find s m fdt (n + token_size (Begin_node (node_name x))) 0 =
      Some (offset_result (map fst (matching s (subs_start n x) (node_subs x))))"
    using find_walk.skip_properties [OF assms(1) at(2), of 0 s] by (simp add: subs_start_def add.assoc)
  with subnode_search_token [OF assms(1) at(1), of 0 s] ro_probe_tree [OF assms(1)] show ?thesis
    by (simp add: fdt_subnode_offset_namelen_def)
qed

text \<open>The names of a path between its slashes, and the node they lead to below a node.\<close>

function path_names :: "u8 list \<Rightarrow> u8 list list" where
  "path_names path =
     (let path' = dropWhile (\<lambda>c. c = of_char CHR ''/'') path
      in if path' = [] then []
         else takeWhile (\<lambda>c. c \<noteq> of_char CHR ''/'') path' # path_names (dropWhile (\<lambda>c. c \<noteq> of_char CHR ''/'') path'))"
  by pat_completeness auto

termination
  by (relation "measure length") (auto intro: path_rest_shorter)

declare path_names.simps [simp del]

fun find_path :: "nat \<Rightarrow> dt_node \<Rightarrow> u8 list list \<Rightarrow> (nat \<times> dt_node) option" where
  "find_path n x [] = Some (n, x)"
| "find_path n x (s # names) =
     (case matching s (subs_start n x) (node_subs x) of
        [] \<Rightarrow> None
      | (off, y) # _ \<Rightarrow> find_path off y names)"

definition node_result :: "(nat \<times> dt_node) option \<Rightarrow> i32" where
  "node_result r = (case r of None \<Rightarrow> - FDT_ERR_NOTFOUND | Some (off, x) \<Rightarrow> word_of_nat off)"

lemma matching_at:
  assumes "(off, y) \<in> set (matching s n xs)" "tokens_at m fdt n (concat (map flatten xs))"
  shows "tokens_at m fdt off (flatten y)"
  using assms by (induction xs arbitrary: n) (auto simp: matching_def split: if_splits)

lemma find_path_at:
  "tokens_at m fdt n (flatten x) \<Longrightarrow> find_path n x names = Some (off, y) \<Longrightarrow> tokens_at m fdt off (flatten y)"
proof (induction names arbitrary: n x)
  case (Cons s names)
  from Cons.prems(2) obtain o1 y1 rest where m: "matching s (subs_start n x) (node_subs x) = (o1, y1) # rest"
    "find_path o1 y1 names = Some (off, y)" by (auto split: list.splits)
  have "tokens_at m fdt o1 (flatten y1)"
    using subs_at(3) [OF Cons.prems(1)] m(1) by (intro matching_at [of _ _ s "subs_start n x" "node_subs x"]) simp_all
  with Cons.IH m(2) show ?case by blast
qed simp

lemma node_at_bound:
  assumes "tree_ok m fdt" "tokens_at m fdt n (flatten x)"
  shows "n < 2 ^ 31"
  using assms(2) by (cases x) (auto simp: token_at_def dest!: fits_bound [OF assms(1)])

lemma path_walk_tree:
  assumes "tree_ok m fdt"
  shows "tokens_at m fdt n (flatten x) \<Longrightarrow>
     path_walk m fdt (word_of_nat n) path = Some (node_result (find_path n x (path_names path)))"
proof (induction path arbitrary: n x rule: path_names.induct)
  case (1 path)
  define path' where "path' = dropWhile (\<lambda>c. c = of_char CHR ''/'') path"
  show ?case
  proof (cases "path' = []")
    case True
    then show ?thesis
      by (subst path_walk.simps, subst path_names.simps) (simp add: path'_def node_result_def)
  next
    case False
    define s where "s = takeWhile (\<lambda>c. c \<noteq> of_char CHR ''/'') path'"
    define rest where "rest = dropWhile (\<lambda>c. c \<noteq> of_char CHR ''/'') path'"
    have names: "path_names path = s # path_names rest"
      using False by (subst path_names.simps) (simp only: Let_def path'_def [symmetric] s_def rest_def if_False)
    have walk: "path_walk m fdt (word_of_nat n) path =
        (case fdt_subnode_offset_namelen m fdt (word_of_nat n) s of None \<Rightarrow> None
         | Some offset \<Rightarrow> if sint offset < 0 then Some offset else path_walk m fdt offset rest)"
      using False by (subst path_walk.simps) (simp only: Let_def path'_def [symmetric] s_def rest_def if_False)
    note found = subnode_offset_tree [OF assms "1.prems", of s]
    show ?thesis
    proof (cases "matching s (subs_start n x) (node_subs x)")
      case Nil
      then show ?thesis by (simp add: walk found names offset_result_def node_result_def)
    next
      case (Cons hit hits)
      obtain off y where hit: "hit = (off, y)" by (rule prod.exhaust)
      have at: "tokens_at m fdt off (flatten y)"
        using subs_at(3) [OF "1.prems"] Cons hit by (intro matching_at [of _ _ s "subs_start n x" "node_subs x"]) simp_all
      have "path_walk m fdt (word_of_nat off) rest = Some (node_result (find_path off y (path_names rest)))"
        using "1.IH" [OF path'_def False at] by (simp only: rest_def)
      with Cons hit sint_word_nat [OF node_at_bound [OF assms at]] show ?thesis
        by (simp add: walk found names offset_result_def)
    qed
  qed
qed

subsection \<open>Finding properties\<close>

text \<open>The first of the properties from an offset on whose name is accepted, and its value.\<close>

fun find_property :: "(u32 \<Rightarrow> bool) \<Rightarrow> nat \<Rightarrow> (u32 \<times> u8 list) list \<Rightarrow> (nat \<times> u8 list) option" where
  "find_property P n [] = None"
| "find_property P n ((nameoff, v) # ps) =
     (if P nameoff then Some (n, v) else find_property P (n + token_size (Property nameoff v)) ps)"

definition property_result :: "mem \<Rightarrow> addr \<Rightarrow> (nat \<times> u8 list) option \<Rightarrow> i32 + addr \<times> i32 \<times> i32" where
  "property_result m fdt r = (case r of
       None \<Rightarrow> Inl (- FDT_ERR_NOTFOUND)
     | Some (n, v) \<Rightarrow> Inr (struct_at m fdt n, word_of_nat (length v), word_of_nat n))"

definition props_start :: "nat \<Rightarrow> dt_node \<Rightarrow> nat" where
  "props_start n x = n + token_size (Begin_node (node_name x))"

lemma nextprop_token:
  assumes "tree_ok m fdt" "token_at m fdt n t"
  shows "nextprop m fdt (word_of_nat n) = (case t of
       Property nameoff v \<Rightarrow> Some (word_of_nat n)
     | Nop \<Rightarrow> nextprop m fdt (word_of_nat (n + token_size Nop))
     | End \<Rightarrow> Some (- FDT_ERR_BADSTRUCTURE)
     | _ \<Rightarrow> Some (- FDT_ERR_NOTFOUND))"
proof -
  have "n + token_size t < 2 ^ 31" using assms(2) fits_bound [OF assms(1)] by (simp add: token_at_def)
  then show ?thesis
    using sint_word_nat [of "n + token_size t"]
    by (simp add: nextprop.simps [of m fdt "word_of_nat n"] next_tag_token [OF assms] split: token.split del: of_nat_add)
qed

lemma property_token:
  assumes "tree_ok m fdt" "token_at m fdt n (Property nameoff v)"
  shows "fdt_get_property_by_offset_unchecked m fdt (word_of_nat n) = (Some (struct_at m fdt n), word_of_nat (length v))"
    and "fdt32 m (struct_at m fdt n + 8) = nameoff"
    and "stored m (struct_at m fdt n + 12) v"
    and "fdt_next_property_offset m fdt (word_of_nat n) = nextprop m fdt (word_of_nat (n + token_size (Property nameoff v)))"
    and "n < 2 ^ 31"
proof -
  let ?k = "n + token_size (Property nameoff v)"
  from assms(2) have at: "4 dvd n" "stored m (struct_at m fdt n + 4) (be32 (word_of_nat (length v)))"
    "stored m (struct_at m fdt n + 8) (be32 nameoff)" "stored m (struct_at m fdt n + 12) v" "?k < 2 ^ 31"
    using fits_bound [OF assms(1)] by (simp_all add: token_at_def add.assoc)
  then have "(word_of_nat n :: i32) mod 4 = 0"
    using unat_offset_nat [of n] by (simp add: word_unat_eq_iff unat_mod_distrib)
  then have check: "fdt_check_prop_offset m fdt (word_of_nat n) = word_of_nat ?k"
    using at(5) sint_word_nat [of n] by (simp add: fdt_check_prop_offset_def next_tag_token [OF assms] del: of_nat_add)
  show "fdt_get_property_by_offset_unchecked m fdt (word_of_nat n) = (Some (struct_at m fdt n), word_of_nat (length v))"
    using sint_word_nat [OF at(5)] fdt32_be32 [OF at(2)] struct_ptr_nat [of n m fdt] at(5)
    by (simp add: fdt_get_property_by_offset_unchecked_def check Let_def del: of_nat_add)
  show "fdt_next_property_offset m fdt (word_of_nat n) = nextprop m fdt (word_of_nat ?k)"
    using sint_word_nat [OF at(5)] by (simp add: fdt_next_property_offset_def check Let_def del: of_nat_add)
  show "fdt32 m (struct_at m fdt n + 8) = nameoff" "stored m (struct_at m fdt n + 12) v" "n < 2 ^ 31"
    using fdt32_be32 [OF at(3)] at(4,5) by simp_all
qed

lemma property_search_tree:
  assumes "tree_ok m fdt" "tokens_at m fdt n (map (\<lambda>(nameoff, v). Property nameoff v) ps)"
    and "token_at m fdt (n + tokens_size (map (\<lambda>(nameoff, v). Property nameoff v) ps)) t"
      "t = End_node \<or> (\<exists>name. t = Begin_node name)"
  shows "Option.bind (nextprop m fdt (word_of_nat n)) (property_search m fdt s) =
     Some (property_result m fdt (find_property (\<lambda>nameoff. fdt_string_eq m fdt nameoff s) n ps))"
  using assms(2,3)
proof (induction ps arbitrary: n)
  case Nil
  with nextprop_token [OF assms(1), of n t] assms(4) show ?case
    by (auto simp: property_result_def property_search.simps)
next
  case (Cons p ps)
  obtain nameoff v where p: "p = (nameoff, v)" by (rule prod.exhaust)
  let ?n = "n + token_size (Property nameoff v)"
  have at: "token_at m fdt n (Property nameoff v)" using Cons.prems(1) by (simp add: p)
  note prop_at = property_token [OF assms(1) at]
  have "property_search m fdt s (word_of_nat n) =
      (if fdt_string_eq m fdt nameoff s then Some (Inr (struct_at m fdt n, word_of_nat (length v), word_of_nat n))
       else Option.bind (nextprop m fdt (word_of_nat ?n)) (property_search m fdt s))"
    using prop_at sint_word_nat [of n]
    by (simp add: property_search.simps [of m fdt s "word_of_nat n"] Option.bind_def split: option.split del: of_nat_add)
  with Cons.IH [of ?n] Cons.prems nextprop_token [OF assms(1) at] show ?case
    by (simp add: p property_result_def add.assoc)
qed

lemma props_end:
  assumes "tokens_at m fdt n (flatten x)"
  obtains t where "token_at m fdt (subs_start n x) t" "t = End_node \<or> (\<exists>name. t = Begin_node name)"
  using subs_at(3) [OF assms] by (cases "node_subs x") (auto dest: subs_at(1))

lemma first_property_tree:
  assumes "tree_ok m fdt" "tokens_at m fdt n (flatten x)"
  shows "fdt_first_property_offset m fdt (word_of_nat n) = nextprop m fdt (word_of_nat (props_start n x))"
  using node_offset_token [OF assms(1) subs_at(1) [OF assms(2)]] sint_word_nat [of "props_start n x"]
  by (simp add: fdt_first_property_offset_def props_start_def Let_def del: of_nat_add)

lemma get_property_search_tree:
  assumes "tree_ok m fdt" "tokens_at m fdt n (flatten x)"
  shows "fdt_get_property_search m fdt (word_of_nat n) s = Some (property_result m fdt
     (find_property (\<lambda>nameoff. fdt_string_eq m fdt nameoff s) (props_start n x) (node_props x)))"
proof -
  note at = subs_at [OF assms(2)]
  obtain t where t: "token_at m fdt (subs_start n x) t" "t = End_node \<or> (\<exists>name. t = Begin_node name)"
    by (rule props_end [OF assms(2)])
  note first_property_tree [OF assms]
  moreover have "Option.bind (nextprop m fdt (word_of_nat (props_start n x))) (property_search m fdt s) =
      Some (property_result m fdt (find_property (\<lambda>nameoff. fdt_string_eq m fdt nameoff s) (props_start n x) (node_props x)))"
    using property_search_tree [OF assms(1) at(2) _ t(2), of s] t(1) by (simp add: props_start_def subs_start_def add.assoc)
  ultimately show ?thesis by (auto simp: fdt_get_property_search_def bind_eq_Some_conv split: option.splits)
qed

lemma getprop_tree:
  assumes "tree_ok m fdt" "tokens_at m fdt n (flatten x)"
  shows "fdt_getprop m fdt (word_of_nat n) s =
     Some (case find_property (\<lambda>nameoff. fdt_string_eq m fdt nameoff s) (props_start n x) (node_props x) of
             None \<Rightarrow> Inl (- FDT_ERR_NOTFOUND)
           | Some (off, v) \<Rightarrow> Inr (struct_at m fdt off + 12, word_of_nat (length v)))"
proof -
  have "\<not> fdt_version m fdt < 0x10" using assms(1) by (simp add: tree_ok_def not_less)
  with get_property_search_tree [OF assms] show ?thesis
    by (auto simp: fdt_getprop_def property_result_def split: option.splits)
qed

text \<open>The string of a property's name: it ends inside the strings block.\<close>

definition string_in :: "mem \<Rightarrow> addr \<Rightarrow> u32 \<Rightarrow> u8 list \<Rightarrow> bool" where
  "string_in m fdt off s \<longleftrightarrow> 0 \<notin> set s \<and> unat off + length s < unat (fdt_size_dt_strings m fdt) \<and>
     stored m (fdt + word_of_nat (unat (fdt_off_dt_strings m fdt) + unat off)) (s @ [0])"

lemma memchr_stored:
  assumes "stored m p (s @ [0])" "0 \<notin> set s" "length s < k"
  shows "memchr p 0 k m = p + word_of_nat (length s)"
  using assms
proof (induction s arbitrary: p k)
  case Nil
  then show ?case by (cases k) simp_all
next
  case (Cons c s)
  then show ?case by (cases k) (auto simp: add.assoc)
qed

lemma check_header_strings:
  assumes "tree_ok m fdt"
  shows "unat (fdt_off_dt_strings m fdt) + unat (fdt_size_dt_strings m fdt) \<le> unat (fdt_totalsize m fdt)"
    and "0 < unat (fdt_off_dt_strings m fdt)"
proof -
  let ?o = "fdt_off_dt_strings m fdt" and ?s = "fdt_size_dt_strings m fdt"
  from assms have c: "?o \<le> ?o + ?s" "?o + ?s \<le> fdt_totalsize m fdt" "fdt_header_size m fdt \<le> ?o"
    by (auto simp: tree_ok_def fdt_check_header_def Let_def check_block_def check_off_def not_less split: if_splits)
  from c(1) have "unat (?o + ?s) = unat ?o + unat ?s" using no_wrap_iff [of ?o ?s] by (intro unat_add_no_wrap) simp
  with c(2) show "unat ?o + unat ?s \<le> unat (fdt_totalsize m fdt)" by (simp add: word_le_nat_alt)
  have "0 < unat (fdt_header_size m fdt)" by (simp add: fdt_header_size_def fdt_header_size_of_def)
  with c(3) show "0 < unat ?o" by (simp add: word_le_nat_alt)
qed

lemma get_string_tree:
  assumes "tree_ok m fdt" "17 \<le> fdt_version m fdt" "string_in m fdt off s"
  shows "fdt_get_string m fdt off =
     (Some (fdt + word_of_nat (unat (fdt_off_dt_strings m fdt) + unat off)), word_of_nat (length s))"
proof -
  let ?o = "fdt_off_dt_strings m fdt" and ?z = "fdt_size_dt_strings m fdt" and ?t = "fdt_totalsize m fdt"
  let ?p = "fdt + word_of_nat (unat ?o + unat off)"
  from assms(3) have st: "0 \<notin> set s" "unat off + length s < unat ?z" "stored m ?p (s @ [0])" by (simp_all add: string_in_def)
  have t: "unat ?t < 2 ^ 31" using assms(1) by (simp add: tree_ok_def word_less_nat_alt)
  note blk = check_header_strings [OF assms(1)]
  have abs: "unat (off + ?o) = unat off + unat ?o" using blk st(2) t by (intro unat_add_no_wrap) simp
  have ptr: "fdt + ucast (off + ?o) = ?p"
  proof -
    have "(ucast (off + ?o) :: u64) = word_of_nat (unat (off + ?o))" by simp
    then show ?thesis by (simp add: abs add.commute)
  qed
  have len: "unat (?t - (off + ?o)) = unat ?t - (unat off + unat ?o)" "unat (?z - off) = unat ?z - unat off"
    using blk st(2) abs by (auto simp: unat_sub word_le_nat_alt)
  define k where "k = (if ?z - off < ?t - (off + ?o) then ?z - off else ?t - (off + ?o))"
  have "length s < unat k" unfolding k_def using len st(2) blk by auto
  with memchr_stored [OF st(3,1)] have scan: "memchr ?p 0 (unat k) m = ?p + word_of_nat (length s)" by blast
  have "unat (?p + word_of_nat (length s)) = unat fdt + (unat ?o + unat off + length s)"
    using assms(1) blk st(2) by (simp add: add.assoc unat_offset tree_ok_def flip: of_nat_add)
  with blk(2) have nz: "?p + word_of_nat (length s) \<noteq> 0" by (metis add_is_0 less_irrefl unat_0)
  have off: "\<not> ?t \<le> off + ?o" "\<not> ?z \<le> off" "0 \<le> sint off"
    using abs blk st(2) t sint_nonneg_32(1) [of off] by (simp_all add: word_le_nat_alt)
  have "(ucast (word_of_nat (length s) :: u64) :: i32) = word_of_nat (length s)"
    by (simp add: unsigned_of_nat take_bit_word_eq_self)
  moreover have "fdt_magic m fdt = FDT_MAGIC"
    using assms(1) by (auto simp: tree_ok_def fdt_check_header_def Let_def split: if_splits)
  moreover define p where "p = ?p"
  moreover note off(2)
  moreover have "\<not> sint off < 0" "\<not> sint ?t < 0" using off(3) ro_probe_tree [OF assms(1)] by simp_all
  ultimately show ?thesis
    using off(1) nz scan assms(2) unfolding fdt_get_string_def Let_def ro_probe_tree(2) [OF assms(1)] ptr k_def [symmetric]
    by (simp only: if_True if_False simp_thms p_def [symmetric] add_diff_cancel_left')
qed

lemma string_eq_tree:
  assumes "tree_ok m fdt" "17 \<le> fdt_version m fdt" "string_in m fdt off name"
  shows "fdt_string_eq m fdt off s \<longleftrightarrow> name = s"
proof -
  have len: "length name < 2 ^ 31"
    using assms(1,3) check_header_strings [OF assms(1)] by (simp add: string_in_def tree_ok_def word_less_nat_alt)
  define p where "p = fdt + word_of_nat (unat (fdt_off_dt_strings m fdt) + unat off)"
  have "stored m p name" using assms(3) by (simp only: string_in_def stored_append p_def)
  then have "bytes_at m p (length name) = name" by (simp only: stored_def)
  moreover have "fdt_string_eq m fdt off s \<longleftrightarrow> length name = length s \<and> bytes_at m p (length s) = s"
    unfolding fdt_string_eq_def get_string_tree [OF assms] prod.case option.case p_def [symmetric] sint_word_nat [OF len] by simp
  ultimately show ?thesis by metis
qed

subsection \<open>Encoding whole trees\<close>

definition token_bytes :: "token \<Rightarrow> u8 list" where
  "token_bytes t = be32 (token_tag t) @ token_body t @ replicate (token_size t - (4 + length (token_body t))) 0"

definition struct_bytes :: "dt_node \<Rightarrow> u8 list" where
  "struct_bytes x = concat (map token_bytes (flatten x @ [End]))"

text \<open>
  The blob of a tree in version 17: the header, an empty memory reservation block, the structure
  block and the strings.
\<close>

definition encode :: "dt_node \<Rightarrow> u8 list \<Rightarrow> u8 list" where
  "encode x strs =
     (let z = length (struct_bytes x)
      in be32 FDT_MAGIC @ be32 (word_of_nat (56 + z + length strs)) @ be32 56 @ be32 (word_of_nat (56 + z)) @ be32 40 @
         be32 17 @ be32 16 @ be32 0 @ be32 (word_of_nat (length strs)) @ be32 (word_of_nat z) @
         replicate 16 0 @ struct_bytes x @ strs)"

lemma length_token_bytes: "length (token_bytes t) = token_size t"
  using token_size_bounds(1) [of t] by (simp add: token_bytes_def)

lemma length_concat_token_bytes: "length (concat (map token_bytes ts)) = tokens_size ts"
  by (induction ts) (simp_all add: length_token_bytes)

lemma length_encode: "length (encode x strs) = 56 + length (struct_bytes x) + length strs"
  by (simp add: encode_def Let_def)

lemma tokens_at_stored:
  assumes "stored m (struct_at m fdt n) (concat (map token_bytes ts))" "fits m fdt n (tokens_size ts)" "4 dvd n"
    and "\<forall>t \<in> set ts. token_ok t"
  shows "tokens_at m fdt n ts"
  using assms
proof (induction ts arbitrary: n)
  case (Cons t ts)
  have "fits m fdt n (token_size t)" "fits m fdt (n + token_size t) (tokens_size ts)"
    using fits_sub [OF Cons.prems(2), of 0 "token_size t"] fits_sub [OF Cons.prems(2), of "token_size t" "tokens_size ts"] by simp_all
  moreover have "stored m (struct_at m fdt n) (token_bytes t)"
    "stored m (struct_at m fdt (n + token_size t)) (concat (map token_bytes ts))"
    using Cons.prems(1) by (simp_all add: length_token_bytes struct_at_add)
  moreover have "4 dvd n + token_size t" using Cons.prems(3) token_size_bounds(2) by (intro dvd_add)
  ultimately show ?case
    using Cons.IH [of "n + token_size t"] Cons.prems(3,4) by (simp add: token_at_def token_bytes_def [of t])
qed simp

lemma header_stored:
  assumes "stored m fdt (be32 w0 @ be32 w1 @ be32 w2 @ be32 w3 @ be32 w4 @ be32 w5 @ be32 w6 @ be32 w7 @ be32 w8 @ be32 w9 @
     replicate 16 0 @ bs)"
  shows "fdt_magic m fdt = w0" "fdt_totalsize m fdt = w1" "fdt_off_dt_struct m fdt = w2" "fdt_off_dt_strings m fdt = w3"
    "fdt_off_mem_rsvmap m fdt = w4" "fdt_version m fdt = w5" "fdt_last_comp_version m fdt = w6"
    "fdt_size_dt_strings m fdt = w8" "fdt_size_dt_struct m fdt = w9" "stored m (fdt + 56) bs"
  using assms
  by (simp_all add: add.assoc fdt_magic_def fdt_version_def fdt_last_comp_version_def fdt_off_dt_struct_def
      fdt_off_mem_rsvmap_def fdt_totalsize_def fdt_off_dt_strings_def fdt_size_dt_strings_def fdt_size_dt_struct_def fdt32_be32)

lemma encode_tree_ok:
  assumes "stored m fdt (encode x strs)" "length (encode x strs) < 2 ^ 31 - 1" "unat fdt + length (encode x strs) \<le> 2 ^ 64"
    and "\<forall>t \<in> set (flatten x). token_ok t"
  shows "tree_ok m fdt" "fdt_version m fdt = 17" "tokens_at m fdt 0 (flatten x @ [End])"
    "unat (fdt_size_dt_strings m fdt) = length strs"
    "stored m (fdt + word_of_nat (unat (fdt_off_dt_strings m fdt))) strs"
proof -
  let ?z = "length (struct_bytes x)"
  note h = header_stored [OF assms(1) [unfolded encode_def Let_def]]
  have len: "56 + ?z + length strs < 2 ^ 31 - 1" using assms(2) by (simp add: length_encode)
  have u: "unat (fdt_totalsize m fdt) = 56 + ?z + length strs" "unat (fdt_off_dt_strings m fdt) = 56 + ?z"
    "unat (fdt_size_dt_strings m fdt) = length strs" "unat (fdt_size_dt_struct m fdt) = ?z"
    unfolding h(2,4,8,9) by (rule unat_offset_nat, use len in simp)+
  have blocks: "check_block 40 (fdt_totalsize m fdt) (fdt_off_dt_struct m fdt) (fdt_size_dt_struct m fdt)"
    "check_block 40 (fdt_totalsize m fdt) (fdt_off_dt_strings m fdt) (fdt_size_dt_strings m fdt)"
    using len u h(3) unat_add_no_wrap [of "fdt_off_dt_struct m fdt" "fdt_size_dt_struct m fdt"]
      unat_add_no_wrap [of "fdt_off_dt_strings m fdt" "fdt_size_dt_strings m fdt"]
    by (simp_all add: check_block_def check_off_def word_le_nat_alt word_less_nat_alt)
  have "fdt_header_size m fdt = 40" by (simp add: fdt_header_size_def fdt_header_size_of_def h(6) word_le_nat_alt)
  moreover have "check_off 40 (fdt_totalsize m fdt) 40" using len u by (simp add: check_off_def word_le_nat_alt)
  moreover have "\<not> fdt_totalsize m fdt < 40" "\<not> INT32_MAX < fdt_totalsize m fdt"
    using len u by (simp_all add: word_less_nat_alt)
  ultimately have "fdt_check_header m fdt = 0"
    using blocks h by (simp add: fdt_check_header_def Let_def del: of_nat_add)
  then show ok: "tree_ok m fdt"
    using assms(3) len u h(6) by (simp add: tree_ok_def length_encode word_less_nat_alt)
  show "fdt_version m fdt = 17" "unat (fdt_size_dt_strings m fdt) = length strs" using h(6) u(3) by simp_all
  show "stored m (fdt + word_of_nat (unat (fdt_off_dt_strings m fdt))) strs"
    unfolding u(2) using h(10) by (simp add: add.assoc)
  show "tokens_at m fdt 0 (flatten x @ [End])"
  proof (rule tokens_at_stored)
    show "stored m (struct_at m fdt 0) (concat (map token_bytes (flatten x @ [End])))"
      using h(3,10) unfolding struct_at_def struct_bytes_def by (simp del: map_append concat_append)
    show "fits m fdt 0 (tokens_size (flatten x @ [End]))"
      using u h(3) unfolding fits_def length_concat_token_bytes [symmetric] struct_bytes_def [symmetric] by simp
  qed (use assms(4) in \<open>auto simp: token_ok_def\<close>)
qed

subsection \<open>Lookups in a whole tree\<close>

lemma subnodes_tree:
  assumes "tree_ok m fdt" "tokens_at m fdt n (flatten x)"
  shows "fdt_first_subnode m fdt (word_of_nat n) = Some (offset_result (sub_offsets n x)) \<and>
     (\<forall>i < length (node_subs x). fdt_next_subnode m fdt (word_of_nat (sub_offsets n x ! i)) =
        Some (offset_result (drop (Suc i) (sub_offsets n x))))"
proof -
  note at = subs_at(3) [OF assms(2)]
  have "fdt_first_subnode m fdt (word_of_nat n) = resume_next m fdt (subs_start n x) 0"
    using first_subnode_tree [OF assms(1), of n "node_name x" "node_props x" "node_subs x"] assms(2)
    by (simp add: subs_start_def)
  with resume_next_siblings [OF assms(1) at] next_subnode_siblings [OF assms(1) at siblings_bound [OF assms(1) at]]
  show ?thesis by (simp add: sub_offsets_def)
qed

lemma path_offset_tree:
  assumes "tree_ok m fdt" "tokens_at m fdt 0 (flatten root)" "path \<noteq> []" "hd path = of_char CHR ''/''"
  shows "fdt_path_offset m fdt path = Some (node_result (find_path 0 root (path_names path))) \<and>
     (\<forall>off x. find_path 0 root (path_names path) = Some (off, x) \<longrightarrow> tokens_at m fdt off (flatten x) \<and>
        (\<exists>p. fdt_get_name m fdt (word_of_nat off) = Some (Some p, word_of_nat (length (node_name x))) \<and>
           bytes_at m p (length (node_name x)) = node_name x))"
proof (intro conjI allI impI)
  show "fdt_path_offset m fdt path = Some (node_result (find_path 0 root (path_names path)))"
    using path_walk_tree [OF assms(1,2), of path] ro_probe_tree(1) [OF assms(1)] assms(3,4)
    by (simp add: fdt_path_offset.simps [of m fdt path])
  fix off x
  assume "find_path 0 root (path_names path) = Some (off, x)"
  with find_path_at [OF assms(2)] show at: "tokens_at m fdt off (flatten x)" .
  note name = get_name_tree(1,2) [OF assms(1) subs_at(1) [OF at]]
  from name(2) have "stored m (struct_at m fdt (off + 4)) (node_name x)" by simp
  with name(1) show "\<exists>p. fdt_get_name m fdt (word_of_nat off) = Some (Some p, word_of_nat (length (node_name x))) \<and>
      bytes_at m p (length (node_name x)) = node_name x"
    by (auto simp: stored_def)
qed

lemma find_property_names:
  assumes "tree_ok m fdt" "17 \<le> fdt_version m fdt"
  shows "\<forall>(nameoff, v) \<in> set ps. string_in m fdt nameoff (names nameoff) \<Longrightarrow>
     tokens_at m fdt k (map (\<lambda>(nameoff, v). Property nameoff v) ps) \<Longrightarrow>
     (case map_of (map (\<lambda>(nameoff, v). (names nameoff, v)) ps) s of
        None \<Rightarrow> find_property (\<lambda>nameoff. fdt_string_eq m fdt nameoff s) k ps = None
      | Some v \<Rightarrow> \<exists>off. find_property (\<lambda>nameoff. fdt_string_eq m fdt nameoff s) k ps = Some (off, v) \<and>
          stored m (struct_at m fdt off + 12) v)"
proof (induction ps arbitrary: k)
  case (Cons p ps)
  obtain nameoff v where p: "p = (nameoff, v)" by (rule prod.exhaust)
  have eq: "fdt_string_eq m fdt nameoff s \<longleftrightarrow> names nameoff = s"
    using Cons.prems(1) by (intro string_eq_tree [OF assms]) (auto simp: p)
  have st: "stored m (struct_at m fdt k + 12) v"
    using Cons.prems(2) by (intro property_token(3) [OF assms(1), of k nameoff]) (simp add: p)
  show ?case
  proof (cases "names nameoff = s")
    case True
    with eq st show ?thesis by (auto simp: p)
  next
    case False
    with Cons.IH [of "k + token_size (Property nameoff v)"] Cons.prems eq show ?thesis
      by (auto simp: p split: option.splits)
  qed
qed simp

lemma getprop_named_tree:
  assumes "tree_ok m fdt" "17 \<le> fdt_version m fdt" "tokens_at m fdt n (flatten x)"
    and "\<forall>(nameoff, v) \<in> set (node_props x). string_in m fdt nameoff (names nameoff)"
  shows "case map_of (map (\<lambda>(nameoff, v). (names nameoff, v)) (node_props x)) s of
       None \<Rightarrow> fdt_getprop m fdt (word_of_nat n) s = Some (Inl (- FDT_ERR_NOTFOUND))
     | Some v \<Rightarrow> \<exists>p. fdt_getprop m fdt (word_of_nat n) s = Some (Inr (p, word_of_nat (length v))) \<and>
         bytes_at m p (length v) = v"
proof -
  from find_property_names [OF assms(1,2,4) subs_at(2) [OF assms(3)], of s] getprop_tree [OF assms(1,3), of s] show ?thesis
    by (auto simp: props_start_def stored_def split: option.splits)
qed

subsection \<open>Properties\<close>

text \<open>A small tree: a root with one property and two subnodes, the first with a unit address.\<close>

definition sample_tree :: dt_node where
  "sample_tree = Node [] [(0, [1, 2, 3])] [Node (map of_char ''cpu@0'') [] [], Node (map of_char ''mem'') [(0, [4])] []]"

definition sample_tree_mem :: mem where
  "sample_tree_mem = blob_mem (encode sample_tree (map of_char ''reg'' @ [0]))"

lemma stored_blob_mem:
  assumes "length bs < 2 ^ 64"
  shows "stored (blob_mem bs) 0 bs"
proof -
  have "unat (word_of_nat i :: addr) = i" if "i < length bs" for i
    using that assms by (intro unat_of_nat_no_wrap) simp
  then show ?thesis by (simp add: stored_nth blob_mem_def)
qed

lemma blob_tree_at:
  assumes "length (encode x (s @ [0])) < 2 ^ 31 - 1" "\<forall>t \<in> set (flatten x). token_ok t" "0 \<notin> set s"
  defines "m \<equiv> blob_mem (encode x (s @ [0]))"
  shows "tree_ok m 0" "fdt_version m 0 = 17" "tokens_at m 0 0 (flatten x)" "string_in m 0 0 s"
proof -
  have "stored m 0 (encode x (s @ [0]))" unfolding m_def by (rule stored_blob_mem) (use assms(1) in simp)
  note enc = encode_tree_ok [OF this assms(1) _ assms(2)]
  have le: "unat (0 :: addr) + length (encode x (s @ [0])) \<le> 2 ^ 64" using assms(1) by simp
  from enc(1-3) [OF le] show "tree_ok m 0" "fdt_version m 0 = 17" "tokens_at m 0 0 (flatten x)" by simp_all
  from enc(4,5) [OF le] assms(3) show "string_in m 0 0 s" by (simp add: string_in_def)
qed

lemma sample_tree_at:
  "tree_ok sample_tree_mem 0" "fdt_version sample_tree_mem 0 = 17" "tokens_at sample_tree_mem 0 0 (flatten sample_tree)"
  "string_in sample_tree_mem 0 0 (map of_char ''reg'')"
  unfolding sample_tree_mem_def
  by (rule blob_tree_at; simp add: length_encode struct_bytes_def length_token_bytes token_size_def sample_tree_def token_ok_def)+

text \<open>In the encoding of a tree, \<open>fdt_first_subnode\<close> and \<open>fdt_next_subnode\<close> enumerate the subnodes of a
  node: the offset of the first one, for each subnode that of the next one, however deep the subtrees
  between them are, and \<open>FDT_ERR_NOTFOUND\<close> after the last.
\<close>

theorem fdt_subnodes_enumerated:
  assumes "tree_ok m fdt" "tokens_at m fdt n (flatten x)"
  shows "fdt_first_subnode m fdt (word_of_nat n) = Some (offset_result (sub_offsets n x)) \<and>
     (\<forall>i < length (node_subs x). fdt_next_subnode m fdt (word_of_nat (sub_offsets n x ! i)) =
        Some (offset_result (drop (Suc i) (sub_offsets n x))))"
  using assms by (rule subnodes_tree)

theorem fdt_subnodes_enumerated_witness:
  "fdt_first_subnode sample_tree_mem 0 0 = Some 24 \<and> fdt_next_subnode sample_tree_mem 0 24 = Some 40 \<and>
   fdt_next_subnode sample_tree_mem 0 40 = Some (- FDT_ERR_NOTFOUND)"
proof -
  have "sub_offsets 0 sample_tree = [24, 40]" "length (node_subs sample_tree) = 2"
    by (simp_all add: sub_offsets_def subs_start_def sample_tree_def token_size_def)
  with fdt_subnodes_enumerated [OF sample_tree_at(1,3)] show ?thesis
    by (auto simp: offset_result_def All_less_Suc numeral_2_eq_2)
qed



text \<open>C20. In the encoding of a tree whose property names are strings of the strings block, \<open>fdt_getprop\<close>
  returns the value of the first property of the node with exactly that name, at an address where its
  bytes are stored and with its length, and \<open>FDT_ERR_NOTFOUND\<close> if the node has none.
\<close>

theorem fdt_getprop_finds:
  assumes "tree_ok m fdt" "17 \<le> fdt_version m fdt" "tokens_at m fdt n (flatten x)"
    and "\<forall>(nameoff, v) \<in> set (node_props x). string_in m fdt nameoff (names nameoff)"
  shows "case map_of (map (\<lambda>(nameoff, v). (names nameoff, v)) (node_props x)) s of
       None \<Rightarrow> fdt_getprop m fdt (word_of_nat n) s = Some (Inl (- FDT_ERR_NOTFOUND))
     | Some v \<Rightarrow> \<exists>p. fdt_getprop m fdt (word_of_nat n) s = Some (Inr (p, word_of_nat (length v))) \<and>
         bytes_at m p (length v) = v"
  using assms by (rule getprop_named_tree)

theorem fdt_getprop_finds_witness:
  "\<exists>p. fdt_getprop sample_tree_mem 0 0 (map of_char ''reg'') = Some (Inr (p, 3)) \<and> bytes_at sample_tree_mem p 3 = [1, 2, 3]"
proof -
  have names: "\<forall>(nameoff, v) \<in> set (node_props sample_tree). string_in sample_tree_mem 0 nameoff (map of_char ''reg'')"
    using sample_tree_at(4) by (simp add: sample_tree_def)
  have version: "17 \<le> fdt_version sample_tree_mem 0" by (simp add: sample_tree_at(2))
  from fdt_getprop_finds [OF sample_tree_at(1) version sample_tree_at(3) names, of "map of_char ''reg''"]
  show ?thesis by (simp add: sample_tree_def numeral_3_eq_3)
qed

end
