(* ===== verification/Devicetree.thy ===== *)
theory Devicetree
  imports Fdt_Tree
begin

section \<open>The kernel's device tree interface\<close>

text \<open>
  \<^verbatim>\<open>platform/devicetree.c\<close>, the wrapper through which the kernel uses libfdt, and
  \<^verbatim>\<open>platform/platform.c\<close>. A structure the caller passes by address is an argument and a
  result. The names the kernel passes are lists of bytes. Messages are left out. A traversal that never
  ends is the outcome \<^const>\<open>Diverges\<close>, and a name that does not fit its array, which
  \<^verbatim>\<open>memcpy\<close> writes past the end of, is \<^const>\<open>Undefined\<close>.
\<close>

subsection \<open>State\<close>

record DTNode =
  dt_name :: "u8 list"
  dt_offset :: i32
  nChildren :: i32
  nProperties :: i32

record DeviceTreeIterator =
  baseNode :: DTNode
  currentNode :: DTNode
  it_index :: i32
  it_count :: i32

record boot_device_tree =
  bdt_base :: addr
  bdt_size :: u64
  bdt_root :: DTNode
  bdt_initialised :: i32

abbreviation kDeviceTreeSuccess :: i32 where "kDeviceTreeSuccess \<equiv> 0"
abbreviation kDeviceTreeFailure :: i32 where "kDeviceTreeFailure \<equiv> 1"
abbreviation kPropNameLength :: nat where "kPropNameLength \<equiv> 32"
abbreviation ROOT_DEVICE_TREE_DEAD :: i32 where "ROOT_DEVICE_TREE_DEAD \<equiv> 0"
abbreviation ROOT_DEVICE_TREE_INIT :: i32 where "ROOT_DEVICE_TREE_INIT \<equiv> 1"

subsection \<open>Counting\<close>

partial_function (option) count_children_loop :: "mem \<Rightarrow> addr \<Rightarrow> i32 \<Rightarrow> i32 \<Rightarrow> i32 option" where
  "count_children_loop m fdt cur count =
     (if 0 \<le> sint cur
      then Option.bind (fdt_next_subnode m fdt cur) (\<lambda>cur. count_children_loop m fdt cur (count + 1))
      else Some count)"

definition node_offset_count_children :: "mem \<Rightarrow> boot_device_tree \<Rightarrow> i32 \<Rightarrow> i32 option" where
  "node_offset_count_children m bdt node_offset =
     Option.bind (fdt_first_subnode m (bdt_base bdt) node_offset) (\<lambda>cur. count_children_loop m (bdt_base bdt) cur 0)"

partial_function (option) count_properties_loop :: "mem \<Rightarrow> addr \<Rightarrow> i32 \<Rightarrow> i32 \<Rightarrow> i32 option" where
  "count_properties_loop m fdt cur count =
     (if 0 \<le> sint cur
      then Option.bind (fdt_next_property_offset m fdt cur) (\<lambda>cur. count_properties_loop m fdt cur (count + 1))
      else Some count)"

definition node_offset_count_properties :: "mem \<Rightarrow> boot_device_tree \<Rightarrow> i32 \<Rightarrow> i32 option" where
  "node_offset_count_properties m bdt node_offset =
     Option.bind (fdt_first_property_offset m (bdt_base bdt) node_offset) (\<lambda>cur. count_properties_loop m (bdt_base bdt) cur 0)"

subsection \<open>Nodes\<close>

text \<open>\<^verbatim>\<open>memcpy (node->name, name, len+1)\<close> into the array of 32 bytes.\<close>

definition copy_name :: "mem \<Rightarrow> addr option \<Rightarrow> i32 \<Rightarrow> DTNode \<Rightarrow> DTNode outcome" where
  "copy_name m name len node =
     (case name of
        None \<Rightarrow> Inl (Undefined ''memcpy from NULL'')
      | Some p \<Rightarrow>
          if sint len < 0 \<or> int kPropNameLength < sint len + 1 then Inl (Undefined ''node->name overflow'')
          else let n = nat (sint len) + 1
               in Inr (node\<lparr>dt_name := bytes_at m p n @ drop n (dt_name node)\<rparr>))"

text \<open>The two counts, taken at the offset the node has by then.\<close>

definition count_node :: "mem \<Rightarrow> boot_device_tree \<Rightarrow> DTNode \<Rightarrow> DTNode outcome" where
  "count_node m bdt node =
     andthen (terminates (node_offset_count_children m bdt (dt_offset node))) (\<lambda>children.
     andthen (terminates (node_offset_count_properties m bdt (dt_offset node))) (\<lambda>properties.
       Inr (node\<lparr>nChildren := children, nProperties := properties\<rparr>)))"

definition DeviceTreeNodeExists :: "mem \<Rightarrow> boot_device_tree \<Rightarrow> u8 list \<Rightarrow> i32 outcome" where
  "DeviceTreeNodeExists m bdt name =
     andthen (terminates (fdt_path_offset m (bdt_base bdt) name)) (\<lambda>res.
       Inr (if sint res < 0 then kDeviceTreeFailure else kDeviceTreeSuccess))"

definition DeviceTreeLookupNode :: "mem \<Rightarrow> boot_device_tree \<Rightarrow> u8 list \<Rightarrow> DTNode \<Rightarrow> (i32 \<times> DTNode) outcome" where
  "DeviceTreeLookupNode m bdt lookup node =
     andthen (terminates (fdt_path_offset m (bdt_base bdt) lookup)) (\<lambda>res.
       if sint res < 0 then Inr (kDeviceTreeFailure, node)
       else andthen (terminates (fdt_get_name m (bdt_base bdt) res)) (\<lambda>(name, len).
         if sint len < 0 then Inr (kDeviceTreeFailure, node)
         else andthen (copy_name m name len (node\<lparr>dt_offset := res\<rparr>)) (\<lambda>node.
              andthen (count_node m bdt node) (\<lambda>node.
                Inr (kDeviceTreeSuccess, node)))))"

definition DeviceTreeLookupNodeByOffset :: "mem \<Rightarrow> boot_device_tree \<Rightarrow> i32 \<Rightarrow> DTNode \<Rightarrow> (i32 \<times> DTNode) outcome" where
  "DeviceTreeLookupNodeByOffset m bdt off node =
     (let node = node\<lparr>dt_offset := off\<rparr>
      in andthen (terminates (fdt_get_name m (bdt_base bdt) off)) (\<lambda>(name, len).
           if sint len < 0 then Inr (kDeviceTreeFailure, node)
           else andthen (copy_name m name len node) (\<lambda>node.
                andthen (count_node m bdt node) (\<lambda>node.
                  Inr (kDeviceTreeSuccess, node)))))"

definition DeviceTreeNodeFirstSubnode :: "mem \<Rightarrow> boot_device_tree \<Rightarrow> DTNode \<Rightarrow> DTNode \<Rightarrow> (i32 \<times> DTNode) outcome" where
  "DeviceTreeNodeFirstSubnode m bdt node first =
     andthen (terminates (fdt_first_subnode m (bdt_base bdt) (dt_offset node))) (\<lambda>res.
       if res = - FDT_ERR_NOTFOUND then Inr (kDeviceTreeFailure, first)
       else DeviceTreeLookupNodeByOffset m bdt res first)"

definition DeviceTreeNodeNextSubnode :: "mem \<Rightarrow> boot_device_tree \<Rightarrow> DTNode \<Rightarrow> DTNode \<Rightarrow> (i32 \<times> DTNode) outcome" where
  "DeviceTreeNodeNextSubnode m bdt node nxt =
     andthen (terminates (fdt_next_subnode m (bdt_base bdt) (dt_offset node))) (\<lambda>res.
       if res = - FDT_ERR_NOTFOUND then Inr (kDeviceTreeFailure, nxt)
       else DeviceTreeLookupNodeByOffset m bdt res nxt)"

text \<open>The phandle is cut to 32 bits. The length of the name is not checked here.\<close>

definition DeviceTreeLookupNodeByPhandle :: "mem \<Rightarrow> boot_device_tree \<Rightarrow> u64 \<Rightarrow> DTNode \<Rightarrow> (i32 \<times> DTNode) outcome" where
  "DeviceTreeLookupNodeByPhandle m bdt phandle node =
     andthen (terminates (fdt_node_offset_by_phandle m (bdt_base bdt) (ucast phandle))) (\<lambda>res.
       if sint res < 0 then Inr (kDeviceTreeFailure, node)
       else andthen (terminates (fdt_get_name m (bdt_base bdt) res)) (\<lambda>(name, len).
            andthen (copy_name m name len (node\<lparr>dt_offset := res\<rparr>)) (\<lambda>node.
            andthen (count_node m bdt node) (\<lambda>node.
              Inr (kDeviceTreeSuccess, node)))))"

subsection \<open>Initialisation\<close>

definition DeviceTreeInit :: "mem \<Rightarrow> addr \<Rightarrow> u64 \<Rightarrow> boot_device_tree \<Rightarrow> (i32 \<times> boot_device_tree) outcome" where
  "DeviceTreeInit m base sz bdt =
     (let bdt = bdt\<lparr>bdt_initialised := ROOT_DEVICE_TREE_DEAD, bdt_base := base, bdt_size := sz\<rparr>
      in if fdt_check_header m base \<noteq> 0 then Inr (kDeviceTreeFailure, bdt)
         else andthen (DeviceTreeLookupNode m bdt [of_char CHR ''/''] (bdt_root bdt)) (\<lambda>(res, root).
                let bdt = bdt\<lparr>bdt_root := root\<rparr>
                in if res = kDeviceTreeFailure then Inr (kDeviceTreeFailure, bdt)
                   else Inr (kDeviceTreeSuccess, bdt\<lparr>bdt_initialised := ROOT_DEVICE_TREE_INIT\<rparr>)))"

definition DeviceTreeVerify :: "boot_device_tree \<Rightarrow> i32" where
  "DeviceTreeVerify bdt =
     (if bdt_initialised bdt \<noteq> ROOT_DEVICE_TREE_INIT then kDeviceTreeFailure else kDeviceTreeSuccess)"

definition BootDeviceTreeGetRootNode :: "boot_device_tree \<Rightarrow> DTNode" where
  "BootDeviceTreeGetRootNode bdt = bdt_root bdt"

subsection \<open>Iterating over the subnodes of a node\<close>

definition DeviceTreeIteratorInit ::
  "boot_device_tree \<Rightarrow> DTNode option \<Rightarrow> DeviceTreeIterator \<Rightarrow> i32 \<times> DeviceTreeIterator" where
  "DeviceTreeIteratorInit bdt start iter =
     (if bdt_initialised bdt = 0 then (kDeviceTreeFailure, iter)
      else let node = (case start of None \<Rightarrow> bdt_root bdt | Some node \<Rightarrow> node)
           in (kDeviceTreeSuccess, iter\<lparr>baseNode := node, currentNode := node, it_count := nChildren node, it_index := 0\<rparr>))"

definition DeviceTreeIterateNodes ::
  "mem \<Rightarrow> boot_device_tree \<Rightarrow> DeviceTreeIterator \<Rightarrow> DTNode \<Rightarrow> (i32 \<times> DeviceTreeIterator \<times> DTNode) outcome" where
  "DeviceTreeIterateNodes m bdt iter nxt =
     (if sint (it_count iter) \<le> sint (it_index iter) then Inr (kDeviceTreeFailure, iter, nxt)
      else let iter = iter\<lparr>it_index := it_index iter + 1\<rparr>
           in andthen (if it_index iter = 1 then DeviceTreeNodeFirstSubnode m bdt (currentNode iter) (currentNode iter)
                       else DeviceTreeNodeNextSubnode m bdt (currentNode iter) (currentNode iter)) (\<lambda>(res, node).
                Inr (kDeviceTreeSuccess, iter\<lparr>currentNode := node\<rparr>, node)))"

subsection \<open>Properties of nodes\<close>

definition DeviceTreeLookupPropertyValue ::
  "mem \<Rightarrow> boot_device_tree \<Rightarrow> DTNode \<Rightarrow> u8 list \<Rightarrow> addr \<times> i32 \<Rightarrow> (i32 \<times> addr \<times> i32) outcome" where
  "DeviceTreeLookupPropertyValue m bdt node propName out =
     andthen (terminates (fdt_getprop m (bdt_base bdt) (dt_offset node) propName)) (\<lambda>r.
       case r of
         Inl err \<Rightarrow> Inr (kDeviceTreeFailure, out)
       | Inr (v, len) \<Rightarrow> if sint len < 0 then Inr (kDeviceTreeFailure, out) else Inr (kDeviceTreeSuccess, v, len))"

definition DeviceTreeLookupReg :: "mem \<Rightarrow> boot_device_tree \<Rightarrow> DTNode \<Rightarrow> i32 outcome" where
  "DeviceTreeLookupReg m bdt node =
     andthen (terminates (fdt_getprop m (bdt_base bdt) (dt_offset node) (map of_char ''reg''))) (\<lambda>r.
       case r of
         Inl err \<Rightarrow> Inr kDeviceTreeFailure
       | Inr (v, len) \<Rightarrow> Inr (if sint len < 0 then kDeviceTreeFailure else kDeviceTreeSuccess))"

definition load32 :: "mem \<Rightarrow> addr \<Rightarrow> u32" where
  "load32 m a = ucast (m a) OR push_bit 8 (ucast (m (a + 1))) OR push_bit 16 (ucast (m (a + 2))) OR
     push_bit 24 (ucast (m (a + 3)))"

definition store32 :: "addr \<Rightarrow> u32 \<Rightarrow> mem \<Rightarrow> mem" where
  "store32 a w m = m(a := ucast w, a + 1 := ucast (drop_bit 8 w), a + 2 := ucast (drop_bit 16 w),
     a + 3 := ucast (drop_bit 24 w))"

definition bswap_32 :: "u32 \<Rightarrow> u32" where
  "bswap_32 x = drop_bit 24 (x AND 0xff000000) OR drop_bit 8 (x AND 0x00ff0000) OR
     push_bit 8 (x AND 0x0000ff00) OR push_bit 24 (x AND 0x000000ff)"

text \<open>The loop that swaps \<open>k\<close> cells in place, inside the tree.\<close>

fun swap_cells :: "nat \<Rightarrow> addr \<Rightarrow> mem \<Rightarrow> mem" where
  "swap_cells 0 cells m = m"
| "swap_cells (Suc k) cells m = swap_cells k (cells + 4) (store32 cells (bswap_32 (load32 m cells)) m)"

text \<open>
  The result is \<open>None\<close> when the function returns \<^verbatim>\<open>kDeviceTreeFailure\<close>; when it succeeds it returns
  nothing, and stores the address and the size.
\<close>

definition DeviceTreeLookupRegValue ::
  "mem \<Rightarrow> boot_device_tree \<Rightarrow> DTNode \<Rightarrow> ((u64 \<times> u64) option \<times> mem) outcome" where
  "DeviceTreeLookupRegValue m bdt node =
     andthen (terminates (fdt_getprop m (bdt_base bdt) (dt_offset node) (map of_char ''reg''))) (\<lambda>r.
       case r of
         Inl err \<Rightarrow> Inr (None, m)
       | Inr (reg, len) \<Rightarrow>
           if sint len < 0 then Inr (None, m)
           else let m = swap_cells (2 * 2) reg m
                in Inr (Some (push_bit 32 (ucast (load32 m reg)) + ucast (load32 m (reg + 4)),
                              push_bit 32 (ucast (load32 m (reg + 8))) + ucast (load32 m (reg + 12))), m))"

subsection \<open>The platform\<close>

text \<open>
  \<^verbatim>\<open>platform_get_memory\<close>: \<open>addr\<close> and \<open>size\<close> are not initialised when the node has no \<^verbatim>\<open>reg\<close>.
  \<open>mem_node\<close> is what the stack held.
\<close>

definition platform_get_memory :: "mem \<Rightarrow> boot_device_tree \<Rightarrow> DTNode \<Rightarrow> ((u64 \<times> u64) \<times> mem) outcome" where
  "platform_get_memory m bdt mem_node =
     andthen (DeviceTreeLookupNode m bdt (map of_char ''/memory'') mem_node) (\<lambda>(res, mem_node).
       if res \<noteq> kDeviceTreeSuccess then Inl (AssertFailed ''res == kDeviceTreeSuccess'')
       else andthen (DeviceTreeLookupRegValue m bdt mem_node) (\<lambda>(r, m).
              case r of
                None \<Rightarrow> Inl (Undefined ''addr and size'')
              | Some (base, sz) \<Rightarrow> Inr ((base, sz), m)))"

subsection \<open>Counts in a tree\<close>

lemma node_offsets_at:
  assumes "tokens_at m fdt n (concat (map flatten xs))" "i < length xs"
  shows "tokens_at m fdt (node_offsets n xs ! i) (flatten (xs ! i))"
  using assms
proof (induction xs arbitrary: n i)
  case (Cons x xs)
  then show ?case by (cases i) simp_all
qed simp

lemma sub_at:
  assumes "tokens_at m fdt n (flatten x)" "i < length (node_subs x)"
  shows "tokens_at m fdt (sub_offsets n x ! i) (flatten (node_subs x ! i))"
  using node_offsets_at [of m fdt "subs_start n x" "node_subs x"] subs_at(3) [OF assms(1)] assms(2)
  by (simp add: sub_offsets_def)

lemma length_sub_offsets [simp]: "length (sub_offsets n x) = length (node_subs x)"
  by (simp add: sub_offsets_def)

lemma offset_result_drop:
  assumes "tree_ok m fdt" "tokens_at m fdt n (flatten x)" "i < length (node_subs x)"
  shows "offset_result (drop i (sub_offsets n x)) = word_of_nat (sub_offsets n x ! i)"
    and "0 \<le> sint (offset_result (drop i (sub_offsets n x)))"
proof -
  show eq: "offset_result (drop i (sub_offsets n x)) = word_of_nat (sub_offsets n x ! i)"
    using assms(3) by (simp add: offset_result_def Cons_nth_drop_Suc [symmetric])
  show "0 \<le> sint (offset_result (drop i (sub_offsets n x)))"
    unfolding eq using sint_word_nat [OF node_at_bound [OF assms(1) sub_at [OF assms(2,3)]]] by simp
qed

lemma count_children_loop_tree:
  assumes "tree_ok m fdt" "tokens_at m fdt n (flatten x)"
  shows "i \<le> length (node_subs x) \<Longrightarrow> count_children_loop m fdt (offset_result (drop i (sub_offsets n x))) count =
     Some (count + word_of_nat (length (node_subs x) - i))"
proof (induction "length (node_subs x) - i" arbitrary: i count)
  case 0
  then have "offset_result (drop i (sub_offsets n x)) = - FDT_ERR_NOTFOUND" by (simp add: offset_result_def)
  with 0 show ?case by (subst count_children_loop.simps) simp
next
  case (Suc k)
  then have i: "i < length (node_subs x)" by simp
  from Suc.hyps(2) have k: "length (node_subs x) - i = Suc (length (node_subs x) - Suc i)" by simp
  note off = offset_result_drop [OF assms i]
  have "fdt_next_subnode m fdt (offset_result (drop i (sub_offsets n x))) =
      Some (offset_result (drop (Suc i) (sub_offsets n x)))"
    using subnodes_tree [OF assms] i unfolding off(1) by blast
  with off(2) Suc.hyps(1) [of "Suc i" "count + 1"] Suc.hyps(2) i show ?case
    by (subst count_children_loop.simps) (simp add: k)
qed

lemma count_children_tree:
  assumes "tree_ok m (bdt_base bdt)" "tokens_at m (bdt_base bdt) n (flatten x)"
  shows "node_offset_count_children m bdt (word_of_nat n) = Some (word_of_nat (length (node_subs x)))"
  using subnodes_tree [OF assms] count_children_loop_tree [OF assms, of 0 0]
  by (simp add: node_offset_count_children_def)

lemma count_properties_loop_tree:
  assumes "tree_ok m fdt" "tokens_at m fdt n (map (\<lambda>(nameoff, v). Property nameoff v) ps)"
    and "token_at m fdt (n + tokens_size (map (\<lambda>(nameoff, v). Property nameoff v) ps)) t"
      "t = End_node \<or> (\<exists>name. t = Begin_node name)"
  shows "Option.bind (nextprop m fdt (word_of_nat n)) (\<lambda>cur. count_properties_loop m fdt cur count) =
     Some (count + word_of_nat (length ps))"
  using assms(2,3)
proof (induction ps arbitrary: n count)
  case Nil
  with nextprop_token [OF assms(1), of n t] assms(4) show ?case by (auto simp: count_properties_loop.simps)
next
  case (Cons p ps)
  obtain nameoff v where p: "p = (nameoff, v)" by (rule prod.exhaust)
  let ?n = "n + token_size (Property nameoff v)"
  have at: "token_at m fdt n (Property nameoff v)" using Cons.prems(1) by (simp add: p)
  note prop_at = property_token [OF assms(1) at]
  have "count_properties_loop m fdt (word_of_nat n) count =
      Option.bind (nextprop m fdt (word_of_nat ?n)) (\<lambda>cur. count_properties_loop m fdt cur (count + 1))"
    using prop_at(4) sint_word_nat [OF prop_at(5)] by (subst count_properties_loop.simps) simp
  with Cons.IH [of ?n "count + 1"] Cons.prems nextprop_token [OF assms(1) at] show ?case
    by (simp add: p add.assoc)
qed

lemma count_properties_tree:
  assumes "tree_ok m (bdt_base bdt)" "tokens_at m (bdt_base bdt) n (flatten x)"
  shows "node_offset_count_properties m bdt (word_of_nat n) = Some (word_of_nat (length (node_props x)))"
proof -
  note at = subs_at [OF assms(2)]
  obtain t where t: "token_at m (bdt_base bdt) (subs_start n x) t" "t = End_node \<or> (\<exists>name. t = Begin_node name)"
    by (rule props_end [OF assms(2)])
  from count_properties_loop_tree [OF assms(1) at(2) _ t(2), of 0] t(1) first_property_tree [OF assms] show ?thesis
    by (simp add: node_offset_count_properties_def subs_start_def props_start_def add.assoc)
qed

subsection \<open>Nodes of a tree\<close>

text \<open>What a lookup stores of a node: its name goes over the start of the array.\<close>

definition describe :: "nat \<Rightarrow> dt_node \<Rightarrow> DTNode \<Rightarrow> DTNode" where
  "describe off x node = node\<lparr>dt_name := node_name x @ 0 # drop (length (node_name x) + 1) (dt_name node),
     dt_offset := word_of_nat off, nChildren := word_of_nat (length (node_subs x)),
     nProperties := word_of_nat (length (node_props x))\<rparr>"

lemma describe_simps [simp]:
  "dt_offset (describe off x node) = word_of_nat off"
  "nChildren (describe off x node) = word_of_nat (length (node_subs x))"
  by (simp_all add: describe_def)

text \<open>The effect of a lookup on a node that is found.\<close>

definition found :: "nat \<Rightarrow> dt_node \<Rightarrow> DTNode \<Rightarrow> (i32 \<times> DTNode) outcome" where
  "found off x node =
     (if length (node_name x) < kPropNameLength then Inr (kDeviceTreeSuccess, describe off x node)
      else Inl (Undefined ''node->name overflow''))"

lemma describe_found:
  assumes "tree_ok m (bdt_base bdt)" "tokens_at m (bdt_base bdt) off (flatten x)"
  shows "andthen (terminates (fdt_get_name m (bdt_base bdt) (word_of_nat off))) (\<lambda>(name, len).
       if sint len < 0 then Inr (kDeviceTreeFailure, other)
       else andthen (copy_name m name len (node\<lparr>dt_offset := word_of_nat off\<rparr>)) (\<lambda>node.
            andthen (count_node m bdt node) (\<lambda>node.
              Inr (kDeviceTreeSuccess, node)))) = found off x node"
proof -
  let ?p = "struct_at m (bdt_base bdt) (off + 4)" and ?k = "length (node_name x)"
  note name = get_name_tree [OF assms(1) subs_at(1) [OF assms(2)]]
  from name(2) have "bytes_at m ?p (?k + 1) = node_name x @ [0]" by (simp add: stored_def)
  moreover have len: "sint (word_of_nat ?k :: i32) = int ?k" by (rule sint_word_nat [OF name(3)])
  ultimately have "copy_name m (Some ?p) (word_of_nat ?k) (node\<lparr>dt_offset := word_of_nat off\<rparr>) =
      (if ?k < kPropNameLength
       then Inr (node\<lparr>dt_offset := word_of_nat off, dt_name := node_name x @ 0 # drop (?k + 1) (dt_name node)\<rparr>)
       else Inl (Undefined ''node->name overflow''))"
    by (simp add: copy_name_def Let_def)
  then show ?thesis
    using count_children_tree [OF assms] count_properties_tree [OF assms] len
    by (simp add: name(1) found_def describe_def count_node_def)
qed

lemma lookup_by_offset_tree:
  assumes "tree_ok m (bdt_base bdt)" "tokens_at m (bdt_base bdt) off (flatten x)"
  shows "DeviceTreeLookupNodeByOffset m bdt (word_of_nat off) node = found off x node"
  unfolding DeviceTreeLookupNodeByOffset_def Let_def by (rule describe_found [OF assms])

lemma lookup_node_tree:
  assumes "tree_ok m (bdt_base bdt)" "tokens_at m (bdt_base bdt) 0 (flatten root)" "path \<noteq> []" "hd path = of_char CHR ''/''"
  shows "DeviceTreeLookupNode m bdt path node =
     (case find_path 0 root (path_names path) of
        None \<Rightarrow> Inr (kDeviceTreeFailure, node)
      | Some (off, x) \<Rightarrow> found off x node)"
proof (cases "find_path 0 root (path_names path)")
  case None
  with path_offset_tree [OF assms] show ?thesis by (simp add: DeviceTreeLookupNode_def node_result_def)
next
  case (Some r)
  obtain off x where r: "r = (off, x)" by (rule prod.exhaust)
  with Some path_offset_tree [OF assms] have at: "tokens_at m (bdt_base bdt) off (flatten x)" by simp
  have "\<not> sint (word_of_nat off :: i32) < 0" using sint_word_nat [OF node_at_bound [OF assms(1) at]] by simp
  with describe_found [OF assms(1) at] Some r path_offset_tree [OF assms] show ?thesis
    by (simp add: DeviceTreeLookupNode_def node_result_def)
qed

subsection \<open>Loops over the subnodes of a node\<close>

text \<open>
  \<^verbatim>\<open>while (DeviceTreeIterateNodes(&iter, &node) == kDeviceTreeSuccess)\<close> with a loop body that does not
  touch the iterator.
\<close>

lemma iterate_success:
  assumes "DeviceTreeIterateNodes m bdt iter nxt = Inr (res, iter', nxt')" "res = kDeviceTreeSuccess"
  shows "it_count iter' = it_count iter" "sint (it_index iter) < sint (it_count iter)" "it_index iter' = it_index iter + 1"
  using assms by (auto simp: DeviceTreeIterateNodes_def Let_def split: if_splits)

lemma sint_succ:
  fixes i k :: i32
  assumes "sint i < sint k"
  shows "sint (i + 1) = sint i + 1"
proof -
  have "sint k < 2 ^ 31" "- (2 ^ 31) \<le> sint i" using sint_less [of k] sint_greater_eq [of i] by simp_all
  with assms show ?thesis by (simp add: sint_word_ariths signed_take_bit_int_eq_self)
qed

function for_each_node :: "mem \<Rightarrow> boot_device_tree \<Rightarrow> (DTNode \<Rightarrow> 's \<Rightarrow> 's outcome) \<Rightarrow> DeviceTreeIterator \<Rightarrow> DTNode \<Rightarrow> 's \<Rightarrow>
    's outcome" where
  "for_each_node m bdt body iter node s =
     (case DeviceTreeIterateNodes m bdt iter node of
        Inl e \<Rightarrow> Inl e
      | Inr (res, iter, node) \<Rightarrow>
          if res = kDeviceTreeSuccess
          then (case body node s of Inl e \<Rightarrow> Inl e | Inr s \<Rightarrow> for_each_node m bdt body iter node s)
          else Inr s)"
  by pat_completeness auto

termination
proof (relation "measure (\<lambda>(m, bdt, body, iter, node, s). nat (sint (it_count iter) - sint (it_index iter)))")
  fix m bdt body iter node and s :: 's and r res r' iter' node' s'
  assume "DeviceTreeIterateNodes m bdt iter node = Inr r" "(res, r') = r" "(iter', node') = r'" "res = kDeviceTreeSuccess"
  then have "DeviceTreeIterateNodes m bdt iter node = Inr (res, iter', node')" by auto
  from iterate_success [OF this] \<open>res = kDeviceTreeSuccess\<close> sint_succ [of "it_index iter" "it_count iter"]
  show "((m, bdt, body, iter', node', s'), m, bdt, body, iter, node, s) \<in>
      measure (\<lambda>(m, bdt, body, iter, node, s). nat (sint (it_count iter) - sint (it_index iter)))"
    by simp
qed simp

declare for_each_node.simps [simp del]

text \<open>The same loop over the subnodes of a tree: \<open>cur\<close> is the node before, whose name array is written over.\<close>

fun for_each_sub :: "(DTNode \<Rightarrow> 's \<Rightarrow> 's outcome) \<Rightarrow> DTNode \<Rightarrow> (nat \<times> dt_node) list \<Rightarrow> 's \<Rightarrow> 's outcome" where
  "for_each_sub body cur [] s = Inr s"
| "for_each_sub body cur ((off, x) # subs) s =
     (if length (node_name x) < kPropNameLength
      then andthen (body (describe off x cur) s) (for_each_sub body (describe off x cur) subs)
      else Inl (Undefined ''node->name overflow''))"

lemma iterate_tree:
  assumes "tree_ok m (bdt_base bdt)" "tokens_at m (bdt_base bdt) n (flatten x)" "i < length (node_subs x)"
    and "it_count iter = word_of_nat (length (node_subs x))" "it_index iter = word_of_nat i"
    and "dt_offset (currentNode iter) = word_of_nat (case i of 0 \<Rightarrow> n | Suc j \<Rightarrow> sub_offsets n x ! j)"
    and "length (node_subs x) < 2 ^ 31"
  shows "DeviceTreeIterateNodes m bdt iter nxt =
     andthen (found (sub_offsets n x ! i) (node_subs x ! i) (currentNode iter)) (\<lambda>(res, node).
       Inr (kDeviceTreeSuccess, iter\<lparr>it_index := word_of_nat (Suc i), currentNode := node\<rparr>, node))"
proof -
  note subs = subnodes_tree [OF assms(1,2)] and off = offset_result_drop [OF assms(1-3)]
  have more: "\<not> sint (it_count iter) \<le> sint (it_index iter)"
    using assms(3-5,7) sint_word_nat [of i] sint_word_nat [of "length (node_subs x)"] by simp
  have idx: "it_index iter + 1 = word_of_nat (Suc i)" using assms(5) by simp
  have one: "(word_of_nat (Suc i) :: i32) = 1 \<longleftrightarrow> i = 0"
  proof
    assume "(word_of_nat (Suc i) :: i32) = 1"
    then have "sint (word_of_nat (Suc i) :: i32) = sint (1 :: i32)" by (rule arg_cong)
    with sint_word_nat [of "Suc i"] assms(3,7) show "i = 0" by simp
  qed simp
  let ?off = "word_of_nat (sub_offsets n x ! i) :: i32"
  have "?off \<noteq> - FDT_ERR_NOTFOUND" using off by (auto dest!: arg_cong [of _ _ sint])
  moreover have "DeviceTreeLookupNodeByOffset m bdt ?off node = found (sub_offsets n x ! i) (node_subs x ! i) node" for node
    by (rule lookup_by_offset_tree [OF assms(1) sub_at [OF assms(2,3)]])
  moreover have "if i = 0 then fdt_first_subnode m (bdt_base bdt) (dt_offset (currentNode iter)) = Some ?off
      else fdt_next_subnode m (bdt_base bdt) (dt_offset (currentNode iter)) = Some ?off"
    using subs off(1) assms(3,6) by (cases i) auto
  ultimately show ?thesis
    using more unfolding DeviceTreeIterateNodes_def Let_def
    by (simp add: idx one DeviceTreeNodeFirstSubnode_def DeviceTreeNodeNextSubnode_def del: of_nat_Suc split: if_splits)
qed

lemma for_each_node_tree:
  assumes "tree_ok m (bdt_base bdt)" "tokens_at m (bdt_base bdt) n (flatten x)" "length (node_subs x) < 2 ^ 31"
  shows "i \<le> length (node_subs x) \<Longrightarrow> it_index iter = word_of_nat i \<Longrightarrow> it_count iter = word_of_nat (length (node_subs x)) \<Longrightarrow>
     dt_offset (currentNode iter) = word_of_nat (case i of 0 \<Rightarrow> n | Suc j \<Rightarrow> sub_offsets n x ! j) \<Longrightarrow>
     for_each_node m bdt body iter nxt s =
       for_each_sub body (currentNode iter) (drop i (zip (sub_offsets n x) (node_subs x))) s"
proof (induction "length (node_subs x) - i" arbitrary: i iter nxt s)
  case 0
  then have "sint (it_count iter) \<le> sint (it_index iter)" by simp
  with 0 show ?case by (simp add: for_each_node.simps [of m bdt body iter] DeviceTreeIterateNodes_def)
next
  case (Suc k)
  then have i: "i < length (node_subs x)" by simp
  let ?off = "sub_offsets n x ! i" and ?y = "node_subs x ! i"
  note step = iterate_tree [OF assms(1,2) i Suc.prems(3,2,4) assms(3), of nxt]
  have rest: "drop i (zip (sub_offsets n x) (node_subs x)) = (?off, ?y) # drop (Suc i) (zip (sub_offsets n x) (node_subs x))"
    using i by (simp add: Cons_nth_drop_Suc [symmetric])
  show ?case
  proof (cases "length (node_name ?y) < kPropNameLength")
    case True
    let ?node = "describe ?off ?y (currentNode iter)"
    let ?iter = "iter\<lparr>it_index := word_of_nat (Suc i), currentNode := ?node\<rparr>"
    have "for_each_node m bdt body ?iter nxt' s' =
        for_each_sub body ?node (drop (Suc i) (zip (sub_offsets n x) (node_subs x))) s'" for nxt' s'
      using Suc.hyps(1) [of "Suc i" ?iter nxt' s'] Suc.hyps(2) Suc.prems(3) i by simp
    with True show ?thesis
      by (simp add: for_each_node.simps [of m bdt body iter] step rest found_def andthen_def del: of_nat_Suc split: sum.split)
  next
    case False
    then show ?thesis
      by (simp add: for_each_node.simps [of m bdt body iter] step rest found_def del: of_nat_Suc)
  qed
qed

subsection \<open>Cells\<close>

lemma load32_store32 [simp]: "load32 (store32 a w m) a = w"
proof -
  have "ucast (ucast w :: u8) OR push_bit 8 (ucast (ucast (drop_bit 8 w) :: u8)) OR
      push_bit 16 (ucast (ucast (drop_bit 16 w) :: u8)) OR push_bit 24 (ucast (ucast (drop_bit 24 w) :: u8)) = w"
    using fdt32_be32 [of "(\<lambda>_. 0)(0 := ucast (drop_bit 24 w), 1 := ucast (drop_bit 16 w), 2 := ucast (drop_bit 8 w), 3 := ucast w)" 0 w]
    by (simp add: be32_def fdt32_def or.commute or.left_commute)
  then show ?thesis by (simp add: load32_def store32_def)
qed

lemma bit_bswap_32:
  assumes "n < 32"
  shows "bit (bswap_32 x) n \<longleftrightarrow> (if n < 8 then bit x (n + 24) else if n < 16 then bit x (n + 8)
     else if n < 24 then bit x (n - 8) else bit x (n - 24))"
proof -
  have masks: "(0xff000000 :: u32) = push_bit 24 (mask 8)" "(0x00ff0000 :: u32) = push_bit 16 (mask 8)"
    "(0x0000ff00 :: u32) = push_bit 8 (mask 8)" "(0x000000ff :: u32) = mask 8" by (simp_all add: mask_eq_exp_minus_1)
  from assms consider "n < 8" | "8 \<le> n" "n < 16" | "16 \<le> n" "n < 24" | "24 \<le> n" "n < 32" by fastforce
  then show ?thesis
    unfolding bswap_32_def masks by cases (auto simp: bit_simps add.commute dest: bit_imp_le_length)
qed

lemma bswap_load32: "bswap_32 (load32 m a) = fdt32 m a"
proof (rule bit_word_eqI)
  fix n :: nat
  assume "n < LENGTH(32)"
  then consider "n < 8" | "8 \<le> n" "n < 16" | "16 \<le> n" "n < 24" | "24 \<le> n" "n < 32" by fastforce
  then show "bit (bswap_32 (load32 m a)) n = bit (fdt32 m a) n"
    by cases (auto simp: bit_bswap_32 load32_def fdt32_def bit_simps dest: bit_imp_le_length)
qed

lemma bswap_bswap: "bswap_32 (bswap_32 x) = x"
  by (rule bit_word_eqI) (auto simp: bit_bswap_32)

lemma store32_frame:
  assumes "4 \<le> unat (b - a)"
  shows "store32 a w m b = m b"
proof -
  have neq: "b \<noteq> a + word_of_nat j" if "j < 4" for j
    using assms that by (auto simp: unat_of_nat_no_wrap)
  have "b \<noteq> a" "b \<noteq> a + 1" "b \<noteq> a + 2" "b \<noteq> a + 3" using neq [of 0] neq [of 1] neq [of 2] neq [of 3] by simp_all
  then show ?thesis by (simp only: store32_def fun_upd_apply if_False)
qed

lemma load32_store32_other:
  assumes "unat (b - a) \<in> {4 ..< 2 ^ 64 - 3}"
  shows "load32 (store32 a w m) b = load32 m b"
proof -
  have byte: "store32 a w m (b + word_of_nat i) = m (b + word_of_nat i)" if "i < 4" for i
  proof (rule store32_frame)
    have "unat (b - a + word_of_nat i) = unat (b - a) + i" using assms that by (intro unat_offset) auto
    with assms show "4 \<le> unat (b + word_of_nat i - a)" unfolding diff_add_eq by simp
  qed
  have "store32 a w m b = m b" "store32 a w m (b + 1) = m (b + 1)" "store32 a w m (b + 2) = m (b + 2)"
    "store32 a w m (b + 3) = m (b + 3)" using byte [of 0] byte [of 1] byte [of 2] byte [of 3] by simp_all
  then show ?thesis by (simp only: load32_def)
qed

text \<open>The swap turns the four big-endian cells into numbers of the machine and touches nothing else.\<close>

lemma swap_cells_4:
  "swap_cells 4 reg m = (let m = store32 reg (fdt32 m reg) m; m = store32 (reg + 4) (fdt32 m (reg + 4)) m;
      m = store32 (reg + 8) (fdt32 m (reg + 8)) m in store32 (reg + 12) (fdt32 m (reg + 12)) m)"
proof -
  have "swap_cells (Suc (Suc (Suc (Suc 0)))) reg m = (let m = store32 reg (fdt32 m reg) m; m = store32 (reg + 4) (fdt32 m (reg + 4)) m;
      m = store32 (reg + 8) (fdt32 m (reg + 8)) m in store32 (reg + 12) (fdt32 m (reg + 12)) m)"
    by (simp add: Let_def bswap_load32 add.assoc)
  moreover have "4 = Suc (Suc (Suc (Suc 0)))" by simp
  ultimately show ?thesis by presburger
qed

lemma fdt32_store32_other:
  "unat (b - a) \<in> {4 ..< 2 ^ 64 - 3} \<Longrightarrow> fdt32 (store32 a w m) b = fdt32 m b"
  using load32_store32_other [of b a w m] by (metis bswap_load32)

lemma swap_cells_effect:
  "load32 (swap_cells 4 reg m) reg = fdt32 m reg" "load32 (swap_cells 4 reg m) (reg + 4) = fdt32 m (reg + 4)"
  "load32 (swap_cells 4 reg m) (reg + 8) = fdt32 m (reg + 8)" "load32 (swap_cells 4 reg m) (reg + 12) = fdt32 m (reg + 12)"
  by (simp_all add: swap_cells_4 Let_def load32_store32_other fdt32_store32_other)

lemma swap_cells_frame:
  assumes "16 \<le> unat (b - reg)"
  shows "swap_cells 4 reg m b = m b"
proof -
  have "4 \<le> unat (b - (reg + word_of_nat k))" if "k \<le> 12" for k
  proof -
    have "unat (word_of_nat k :: addr) = k" using that by (intro unat_of_nat_no_wrap) simp
    with that assms have "unat (b - reg - word_of_nat k) = unat (b - reg) - k"
      by (simp add: unat_sub word_le_nat_alt)
    with that assms show ?thesis by (simp add: diff_diff_eq)
  qed
  from this [of 0] this [of 4] this [of 8] this [of 12] show ?thesis
    by (simp add: swap_cells_4 Let_def store32_frame)
qed

text \<open>Two cells as one number, as they are in memory for the machine.\<close>

definition pair64 :: "mem \<Rightarrow> addr \<Rightarrow> u64" where
  "pair64 m a = push_bit 32 (ucast (load32 m a)) OR ucast (load32 m (a + 4))"

lemma cells_plus: "push_bit 32 (ucast x) + ucast y = (push_bit 32 (ucast x) OR ucast y :: u64)" for x y :: u32
  by (rule disjunctive_add) (auto simp: bit_simps dest: bit_imp_le_length)

lemma reg_value:
  assumes "fdt_getprop m (bdt_base bdt) (dt_offset node) (map of_char ''reg'') = Some (Inr (reg, len))" "0 \<le> sint len"
  shows "DeviceTreeLookupRegValue m bdt node = Inr (Some (fdt64 m reg, fdt64 m (reg + 8)), swap_cells 4 reg m)"
  using assms swap_cells_effect [of reg m]
  by (simp add: DeviceTreeLookupRegValue_def Let_def cells_plus fdt64_def add.assoc)

lemma fdt64_swapped: "fdt64 (swap_cells 4 reg m) reg = pair64 m reg" "fdt64 (swap_cells 4 reg m) (reg + 8) = pair64 m (reg + 8)"
proof -
  have "fdt32 (swap_cells 4 reg m) a = load32 m a" if "load32 (swap_cells 4 reg m) a = fdt32 m a" for a
    using that by (metis bswap_bswap bswap_load32)
  with swap_cells_effect [of reg m]
  show "fdt64 (swap_cells 4 reg m) reg = pair64 m reg" "fdt64 (swap_cells 4 reg m) (reg + 8) = pair64 m (reg + 8)"
    by (simp_all add: fdt64_def pair64_def add.assoc)
qed

definition be64 :: "u64 \<Rightarrow> u8 list" where
  "be64 w = be32 (ucast (drop_bit 32 w)) @ be32 (ucast w)"

lemma fdt64_be64:
  assumes "stored m p (be64 w)"
  shows "fdt64 m p = w"
proof -
  have "fdt32 m p = ucast (drop_bit 32 w)" "fdt32 m (p + 4) = ucast w"
    using assms by (simp_all add: be64_def fdt32_be32)
  moreover have "push_bit 32 (ucast (ucast (drop_bit 32 w) :: u32)) OR ucast (ucast w :: u32) = w"
  proof (rule bit_word_eqI)
    fix n :: nat
    assume "n < LENGTH(64)"
    then show "bit (push_bit 32 (ucast (ucast (drop_bit 32 w) :: u32)) OR ucast (ucast w :: u32) :: u64) n = bit w n"
      by (cases "n < 32") (simp_all add: bit_simps less_diff_conv2)
  qed
  ultimately show ?thesis by (simp add: fdt64_def)
qed

lemma subs_bound:
  assumes "tree_ok m fdt" "tokens_at m fdt n (flatten x)"
  shows "length (node_subs x) < 2 ^ 31"
proof -
  obtain name properties subs where x: "x = Node name properties subs" by (cases x)
  have "length xs \<le> length (concat (map flatten xs))" for xs
  proof (induction xs)
    case (Cons y ys)
    then show ?case by (cases y) simp
  qed simp
  from this [of subs] tokens_at_bound [OF assms node_at_bound [OF assms]] show ?thesis by (simp add: x)
qed

lemma name_of_describe:
  assumes "tokens_at m fdt n (flatten x)"
  shows "takeWhile (\<lambda>c. c \<noteq> 0) (dt_name (describe off x node)) = node_name x"
proof -
  have "0 \<notin> set (node_name x)" using subs_at(1) [OF assms] by (simp add: token_at_def token_ok_def)
  then have "takeWhile (\<lambda>c. c \<noteq> 0) (node_name x @ 0 # rest) = node_name x" for rest
    by (subst takeWhile_append2) auto
  then show ?thesis by (simp add: describe_def)
qed

subsection \<open>Properties\<close>

text \<open>Looking a node up by an absolute path in an encoded tree: it fails, leaving the caller's node
  alone, when the path leads nowhere; otherwise the node receives the name, the offset and the numbers of
  subnodes and properties, if the name is shorter than 32 bytes, and a name of 32 bytes or more is
  written past the array. \<open>DeviceTreeNodeExists\<close> gives the same verdict.
\<close>

theorem device_tree_lookup_node:
  assumes "tree_ok m (bdt_base bdt)" "tokens_at m (bdt_base bdt) 0 (flatten root)" "path \<noteq> []" "hd path = of_char CHR ''/''"
  shows "case find_path 0 root (path_names path) of
       None \<Rightarrow> DeviceTreeLookupNode m bdt path node = Inr (kDeviceTreeFailure, node) \<and>
         DeviceTreeNodeExists m bdt path = Inr kDeviceTreeFailure
     | Some (off, x) \<Rightarrow>
         (if length (node_name x) < kPropNameLength
          then \<exists>node'. DeviceTreeLookupNode m bdt path node = Inr (kDeviceTreeSuccess, node') \<and>
            takeWhile (\<lambda>c. c \<noteq> 0) (dt_name node') = node_name x \<and> dt_offset node' = word_of_nat off \<and>
            nChildren node' = word_of_nat (length (node_subs x)) \<and> nProperties node' = word_of_nat (length (node_props x))
          else DeviceTreeLookupNode m bdt path node = Inl (Undefined ''node->name overflow'')) \<and>
         DeviceTreeNodeExists m bdt path = Inr kDeviceTreeSuccess"
proof (cases "find_path 0 root (path_names path)")
  case None
  with lookup_node_tree [OF assms] path_offset_tree [OF assms] show ?thesis
    by (simp add: DeviceTreeNodeExists_def node_result_def)
next
  case (Some r)
  obtain off x where r: "r = (off, x)" by (rule prod.exhaust)
  with Some path_offset_tree [OF assms] have at: "tokens_at m (bdt_base bdt) off (flatten x)" by simp
  note name_of_describe [OF at, of off node]
  moreover have "\<not> sint (word_of_nat off :: i32) < 0" using sint_word_nat [OF node_at_bound [OF assms(1) at]] by simp
  ultimately show ?thesis
    using Some r lookup_node_tree [OF assms, of node] path_offset_tree [OF assms]
    by (simp add: DeviceTreeNodeExists_def node_result_def found_def describe_def)
qed

definition zero_node :: DTNode where
  "zero_node = \<lparr>dt_name = replicate 32 0, dt_offset = 0, nChildren = 0, nProperties = 0\<rparr>"

definition sample_bdt :: boot_device_tree where
  "sample_bdt = \<lparr>bdt_base = 0, bdt_size = 136, bdt_root = zero_node, bdt_initialised = 1\<rparr>"

theorem device_tree_lookup_node_witness:
  "\<exists>node. DeviceTreeLookupNode sample_tree_mem sample_bdt (map of_char ''/mem'') zero_node = Inr (kDeviceTreeSuccess, node) \<and>
     dt_offset node = 40 \<and> nProperties node = 1"
proof -
  have names: "path_names (map of_char ''/mem'') = [map of_char ''mem'']"
    by (subst path_names.simps, simp, subst path_names.simps, simp)
  have path: "find_path 0 sample_tree (path_names (map of_char ''/mem'')) = Some (40, Node (map of_char ''mem'') [(0, [4])] [])"
    unfolding names by (simp add: matching_def subs_start_def sample_tree_def token_size_def name_matches_def)
  from device_tree_lookup_node [of sample_tree_mem sample_bdt sample_tree "map of_char ''/mem''" zero_node, unfolded path]
    sample_tree_at show ?thesis by (auto simp: sample_bdt_def)
qed

text \<open>What a node structure says: its name up to the terminator, its offset and its counts.\<close>

definition node_view :: "DTNode \<Rightarrow> u8 list \<times> i32 \<times> i32 \<times> i32" where
  "node_view node = (takeWhile (\<lambda>c. c \<noteq> 0) (dt_name node), dt_offset node, nChildren node, nProperties node)"

definition tree_view :: "nat \<times> dt_node \<Rightarrow> u8 list \<times> i32 \<times> i32 \<times> i32" where
  "tree_view = (\<lambda>(off, x). (node_name x, word_of_nat off, word_of_nat (length (node_subs x)), word_of_nat (length (node_props x))))"

lemma for_each_sub_collect:
  assumes "\<forall>(off, x) \<in> set subs. length (node_name x) < kPropNameLength \<and> (\<exists>n. tokens_at m fdt n (flatten x))"
  shows "\<exists>nodes. for_each_sub (\<lambda>node s. Inr (s @ [node])) cur subs s = Inr (s @ nodes) \<and> map node_view nodes = map tree_view subs"
  using assms
proof (induction subs arbitrary: cur s)
  case (Cons p subs)
  obtain off x where p: "p = (off, x)" by (rule prod.exhaust)
  from Cons.prems p obtain n where at: "tokens_at m fdt n (flatten x)" and len: "length (node_name x) < kPropNameLength" by auto
  have "node_view (describe off x cur) = tree_view (off, x)"
    using name_of_describe [OF at, of off cur] by (simp add: node_view_def tree_view_def) (simp add: describe_def)
  moreover obtain nodes where "for_each_sub (\<lambda>node s. Inr (s @ [node])) (describe off x cur) subs (s @ [describe off x cur]) =
      Inr ((s @ [describe off x cur]) @ nodes)" "map node_view nodes = map tree_view subs"
    using Cons.IH [of "describe off x cur" "s @ [describe off x cur]"] Cons.prems by auto
  ultimately show ?case using len by (intro exI [of _ "describe off x cur # nodes"]) (simp add: p)
qed simp

text \<open>C17. Iterating over a node of an encoded tree with \<open>DeviceTreeIteratorInit\<close> and
  \<open>DeviceTreeIterateNodes\<close> ends, and visits exactly the node's subnodes, once and in order, with their
  names, offsets and counts, if their names fit the array; without an initialised tree there is no iterator.
\<close>

theorem device_tree_iteration:
  assumes "tree_ok m (bdt_base bdt)" "tokens_at m (bdt_base bdt) n (flatten x)"
    and "dt_offset start = word_of_nat n" "nChildren start = word_of_nat (length (node_subs x))"
    and "\<forall>y \<in> set (node_subs x). length (node_name y) < kPropNameLength"
  shows "case DeviceTreeIteratorInit bdt (Some start) iter of (res, iter') \<Rightarrow>
     if bdt_initialised bdt = 0 then res = kDeviceTreeFailure \<and> iter' = iter
     else res = kDeviceTreeSuccess \<and>
       (\<exists>nodes. for_each_node m bdt (\<lambda>node s. Inr (s @ [node])) iter' nxt [] = Inr nodes \<and>
          map node_view nodes = map tree_view (zip (sub_offsets n x) (node_subs x)))"
proof (cases "bdt_initialised bdt = 0")
  case False
  let ?iter = "snd (DeviceTreeIteratorInit bdt (Some start) iter)" and ?subs = "zip (sub_offsets n x) (node_subs x)"
  have iter: "it_index ?iter = word_of_nat 0" "it_count ?iter = word_of_nat (length (node_subs x))"
    "dt_offset (currentNode ?iter) = word_of_nat n"
    using False assms(3,4) by (simp_all add: DeviceTreeIteratorInit_def)
  have "\<forall>(off, y) \<in> set ?subs. length (node_name y) < kPropNameLength \<and> (\<exists>n. tokens_at m (bdt_base bdt) n (flatten y))"
    using assms(5) sub_at [OF assms(2)] by (fastforce simp: in_set_zip)
  from for_each_sub_collect [OF this, of "currentNode ?iter" "[]"]
    for_each_node_tree [OF assms(1,2) subs_bound [OF assms(1,2)], of 0 ?iter "\<lambda>node s. Inr (s @ [node])" nxt "[]"] iter
  show ?thesis using False by (auto simp: DeviceTreeIteratorInit_def)
qed (simp add: DeviceTreeIteratorInit_def)

theorem device_tree_iteration_witness:
  "\<exists>nodes. for_each_node sample_tree_mem sample_bdt (\<lambda>node s. Inr (s @ [node]))
       (snd (DeviceTreeIteratorInit sample_bdt (Some (zero_node\<lparr>nChildren := 2\<rparr>))
         \<lparr>baseNode = zero_node, currentNode = zero_node, it_index = 0, it_count = 0\<rparr>)) zero_node [] = Inr nodes \<and>
     map node_view nodes = [(map of_char ''cpu@0'', 24, 0, 0), (map of_char ''mem'', 40, 0, 1)]"
proof -
  let ?start = "zero_node\<lparr>nChildren := 2\<rparr>"
  let ?iter = "\<lparr>baseNode = zero_node, currentNode = zero_node, it_index = 0, it_count = 0\<rparr>"
  have tree: "tree_ok sample_tree_mem (bdt_base sample_bdt)" "tokens_at sample_tree_mem (bdt_base sample_bdt) 0 (flatten sample_tree)"
    using sample_tree_at by (simp_all add: sample_bdt_def)
  have start: "dt_offset ?start = word_of_nat 0" "nChildren ?start = word_of_nat (length (node_subs sample_tree))"
    "\<forall>y \<in> set (node_subs sample_tree). length (node_name y) < kPropNameLength"
    by (simp_all add: zero_node_def sample_tree_def)
  have subs: "zip (sub_offsets 0 sample_tree) (node_subs sample_tree) =
      [(24, Node (map of_char ''cpu@0'') [] []), (40, Node (map of_char ''mem'') [(0, [4])] [])]"
    by (simp add: sub_offsets_def subs_start_def sample_tree_def token_size_def)
  from device_tree_iteration [OF tree start, of ?iter zero_node, unfolded subs]
  show ?thesis by (auto simp: DeviceTreeIteratorInit_def sample_bdt_def tree_view_def)
qed


text \<open>A tree with a memory node whose \<open>reg\<close> is one entry of two pairs of cells.\<close>

definition memory_tree :: dt_node where
  "memory_tree = Node [] [] [Node (map of_char ''memory'') [(0, be64 0x40000000 @ be64 0x80000000)] []]"

definition memory_tree_mem :: mem where
  "memory_tree_mem = blob_mem (encode memory_tree (map of_char ''reg'' @ [0]))"

lemma memory_tree_at:
  "tree_ok memory_tree_mem 0" "fdt_version memory_tree_mem 0 = 17" "tokens_at memory_tree_mem 0 0 (flatten memory_tree)"
  "string_in memory_tree_mem 0 0 (map of_char ''reg'')"
  unfolding memory_tree_mem_def
  by (rule blob_tree_at; simp add: length_encode struct_bytes_def length_token_bytes token_size_def memory_tree_def token_ok_def
      be64_def)+

lemma memory_reg:
  assumes "tree_ok m (bdt_base bdt)" "17 \<le> fdt_version m (bdt_base bdt)" "tokens_at m (bdt_base bdt) n (flatten x)"
    and "\<forall>(nameoff, v) \<in> set (node_props x). string_in m (bdt_base bdt) nameoff (names nameoff)"
    and "map_of (map (\<lambda>(nameoff, v). (names nameoff, v)) (node_props x)) (map of_char ''reg'') = Some (be64 base @ be64 sz @ extra)"
    and "length extra < 2 ^ 30" "dt_offset node = word_of_nat n"
  shows "\<exists>reg. DeviceTreeLookupRegValue m bdt node = Inr (Some (base, sz), swap_cells 4 reg m)"
proof -
  let ?v = "be64 base @ be64 sz @ extra"
  have len: "length ?v = 16 + length extra" by (simp add: be64_def)
  from getprop_named_tree [OF assms(1-4), of "map of_char ''reg''"] assms(5)
  obtain p where p: "fdt_getprop m (bdt_base bdt) (word_of_nat n) (map of_char ''reg'') = Some (Inr (p, word_of_nat (length ?v)))"
    "bytes_at m p (length ?v) = ?v" by auto
  have eight: "length (be64 w) = 8" for w by (simp add: be64_def)
  from p(2) have "stored m p ?v" by (simp only: stored_def)
  then have "stored m p (be64 base)" "stored m (p + 8) (be64 sz)" by (simp_all add: eight)
  then have "fdt64 m p = base" "fdt64 m (p + 8) = sz" by (simp_all add: fdt64_be64)
  moreover have "0 \<le> sint (word_of_nat (length ?v) :: i32)"
    using sint_word_nat [of "length ?v"] assms(6) by (simp only: len) simp
  ultimately show ?thesis using reg_value [of m bdt node p] p(1) assms(7) by auto
qed

text \<open>C18. From a tree with a node \<open>/memory\<close> whose \<open>reg\<close> starts with a 64-bit base and a 64-bit size in
  big-endian cells, \<open>platform_get_memory\<close> obtains exactly these numbers; without such a node its
  assertion fails.
\<close>

theorem platform_get_memory_reads:
  assumes "tree_ok m (bdt_base bdt)" "17 \<le> fdt_version m (bdt_base bdt)" "tokens_at m (bdt_base bdt) 0 (flatten root)"
  shows "case find_path 0 root [map of_char ''memory''] of
       None \<Rightarrow> platform_get_memory m bdt node = Inl (AssertFailed ''res == kDeviceTreeSuccess'')
     | Some (off, x) \<Rightarrow> length (node_name x) < kPropNameLength \<and>
         (\<forall>(nameoff, v) \<in> set (node_props x). string_in m (bdt_base bdt) nameoff (names nameoff)) \<and>
         map_of (map (\<lambda>(nameoff, v). (names nameoff, v)) (node_props x)) (map of_char ''reg'') =
           Some (be64 base @ be64 sz @ extra) \<and> length extra < 2 ^ 30 \<longrightarrow>
         (\<exists>m'. platform_get_memory m bdt node = Inr ((base, sz), m'))"
proof -
  let ?path = "map of_char ''/memory''"
  have names: "path_names ?path = [map of_char ''memory'']"
    by (subst path_names.simps, simp, subst path_names.simps, simp)
  have lookup: "DeviceTreeLookupNode m bdt ?path node = (case find_path 0 root [map of_char ''memory''] of
      None \<Rightarrow> Inr (kDeviceTreeFailure, node) | Some (off, x) \<Rightarrow> found off x node)"
    unfolding names [symmetric] by (rule lookup_node_tree [OF assms(1,3)]) simp_all
  show ?thesis
  proof (cases "find_path 0 root [map of_char ''memory'']")
    case None
    then show ?thesis using lookup by (simp add: platform_get_memory_def)
  next
    case (Some r)
    obtain off x where r: "r = (off, x)" by (rule prod.exhaust)
    have at: "tokens_at m (bdt_base bdt) off (flatten x)" by (rule find_path_at [OF assms(3) Some [unfolded r]])
    show ?thesis unfolding Some r option.case prod.case
    proof (intro impI, elim conjE)
      assume h: "length (node_name x) < kPropNameLength"
        "\<forall>(nameoff, v) \<in> set (node_props x). string_in m (bdt_base bdt) nameoff (names nameoff)"
        "map_of (map (\<lambda>(nameoff, v). (names nameoff, v)) (node_props x)) (map of_char ''reg'') = Some (be64 base @ be64 sz @ extra)"
        "length extra < 2 ^ 30"
      from memory_reg [OF assms(1,2) at h(2-4), of "describe off x node"]
      obtain reg where "DeviceTreeLookupRegValue m bdt (describe off x node) = Inr (Some (base, sz), swap_cells 4 reg m)" by auto
      with h(1) lookup Some r show "\<exists>m'. platform_get_memory m bdt node = Inr ((base, sz), m')"
        unfolding platform_get_memory_def by (simp add: found_def del: list.map)
    qed
  qed
qed

lemma memory_path:
  "find_path 0 memory_tree [map of_char ''memory''] =
     Some (8, Node (map of_char ''memory'') [(0, be64 0x40000000 @ be64 0x80000000 @ [])] [])"
  by (simp add: matching_def subs_start_def memory_tree_def token_size_def name_matches_def)

theorem platform_get_memory_reads_witness:
  "\<exists>m'. platform_get_memory memory_tree_mem sample_bdt zero_node = Inr ((0x40000000, 0x80000000), m')"
proof -
  have tree: "tree_ok memory_tree_mem (bdt_base sample_bdt)" "17 \<le> fdt_version memory_tree_mem (bdt_base sample_bdt)"
    "tokens_at memory_tree_mem (bdt_base sample_bdt) 0 (flatten memory_tree)"
    "string_in memory_tree_mem (bdt_base sample_bdt) 0 (map of_char ''reg'')"
    using memory_tree_at by (simp_all add: sample_bdt_def)
  from platform_get_memory_reads [OF tree(1-3), where node = zero_node and names = "\<lambda>_. map of_char ''reg''" and base = "0x40000000"
      and sz = "0x80000000" and extra = "[]", unfolded memory_path option.case prod.case] tree(4)
  show ?thesis by simp
qed


end
