(* ===== verification/Fdt_Phandle.thy ===== *)
theory Fdt_Phandle
  imports Fdt_Tree
begin

section \<open>Finding nodes by phandle\<close>

text \<open>
  \<^verbatim>\<open>fdt_node_offset_by_phandle\<close> walks over all nodes of the tree, without a depth. In the encoding of a
  tree these are its nodes in preorder. The locale \<open>node_search\<close> is the contract of such searches; it is interpreted on this one
  here and on the others in \<open>Fdt_Query\<close>.
\<close>

subsection \<open>All nodes of a tree\<close>

fun begin_offsets :: "nat \<Rightarrow> token list \<Rightarrow> nat list" where
  "begin_offsets n [] = []"
| "begin_offsets n (t # ts) =
     (case t of Begin_node name \<Rightarrow> n # begin_offsets (n + token_size t) ts | _ \<Rightarrow> begin_offsets (n + token_size t) ts)"

lemma begin_offsets_append: "begin_offsets n (xs @ ys) = begin_offsets n xs @ begin_offsets (n + tokens_size xs) ys"
  by (induction xs arbitrary: n) (simp_all add: add.assoc split: token.split)

text \<open>The nodes of a tree with their offsets, in preorder.\<close>

fun tree_nodes :: "nat \<Rightarrow> dt_node \<Rightarrow> (nat \<times> dt_node) list"
  and forest_nodes :: "nat \<Rightarrow> dt_node list \<Rightarrow> (nat \<times> dt_node) list" where
  "tree_nodes n (Node name properties subs) =
     (n, Node name properties subs) # forest_nodes (subs_start n (Node name properties subs)) subs"
| "forest_nodes n [] = []"
| "forest_nodes n (x # xs) = tree_nodes n x @ forest_nodes (n + tokens_size (flatten x)) xs"

lemma begin_offsets_properties: "begin_offsets n (map (\<lambda>(nameoff, v). Property nameoff v) ps) = []"
  by (induction ps arbitrary: n) auto

lemma begin_offsets_tree:
  "begin_offsets n (flatten x) = map fst (tree_nodes n x)"
  "begin_offsets n (concat (map flatten xs)) = map fst (forest_nodes n xs)"
proof (induction n x and n xs rule: tree_nodes_forest_nodes.induct)
  case (1 n name properties subs)
  then show ?case
    by (simp add: begin_offsets_append begin_offsets_properties subs_start_def add.assoc)
qed (simp_all add: begin_offsets_append)

lemma tree_nodes_at:
  "tokens_at m fdt n (flatten x) \<Longrightarrow> (off, y) \<in> set (tree_nodes n x) \<Longrightarrow> tokens_at m fdt off (flatten y)"
  "tokens_at m fdt n (concat (map flatten xs)) \<Longrightarrow> (off, y) \<in> set (forest_nodes n xs) \<Longrightarrow> tokens_at m fdt off (flatten y)"
proof (induction n x and n xs rule: tree_nodes_forest_nodes.induct)
  case (1 n name properties subs)
  then show ?case using subs_at(3) [OF "1.prems"(1)] by auto
qed auto

lemma End_not_in_tree: "End \<notin> set (flatten x)"
  by (induction x rule: flatten.induct) auto

subsection \<open>The walk\<close>

lemma next_node_from:
  assumes "tree_ok m fdt"
  shows "tokens_at m fdt n (ts @ [End]) \<Longrightarrow> End \<notin> set ts \<Longrightarrow>
     next_node_loop m fdt (word_of_nat n) None = Some (offset_result (begin_offsets n ts), None)"
proof (induction ts arbitrary: n)
  case Nil
  then have at: "token_at m fdt n End" by simp
  from at have "n + token_size End < 2 ^ 31" using fits_bound [OF assms] by (simp add: token_at_def)
  from sint_word_nat [OF this] show ?case
    by (simp add: next_node_loop.simps [of m fdt "word_of_nat n"] next_tag_token [OF assms at] offset_result_def del: of_nat_add)
next
  case (Cons t ts)
  have at: "token_at m fdt n t" using Cons.prems by simp
  have IH: "next_node_loop m fdt (word_of_nat (n + token_size t)) None =
      Some (offset_result (begin_offsets (n + token_size t) ts), None)"
    using Cons.prems by (intro Cons.IH) (simp_all add: add.assoc)
  have bound: "n + token_size t < 2 ^ 31" using at fits_bound [OF assms] by (simp add: token_at_def)
  show ?case
    using IH sint_word_nat [OF bound] Cons.prems(2)
    by (cases t) (simp_all add: next_node_loop.simps [of m fdt "word_of_nat n"] next_tag_token [OF assms at] offset_result_def
        del: of_nat_add)
qed

lemma node_result_find: "node_result (List.find P ps) = offset_result (map fst (dropWhile (\<lambda>p. \<not> P p) ps))"
  by (induction ps) (auto simp: node_result_def offset_result_def)

text \<open>The node after a node of the sequence.\<close>

lemma next_node_after:
  assumes "tree_ok m fdt"
  shows "tokens_at m fdt n (ts @ [End]) \<Longrightarrow> End \<notin> set ts \<Longrightarrow> k < length (begin_offsets n ts) \<Longrightarrow>
     fdt_next_node m fdt (word_of_nat (begin_offsets n ts ! k)) None =
       Some (offset_result (drop (Suc k) (begin_offsets n ts)), None) \<and> begin_offsets n ts ! k < 2 ^ 31"
proof (induction ts arbitrary: n k)
  case (Cons t ts)
  let ?n = "n + token_size t"
  have at: "token_at m fdt n t" and rest: "tokens_at m fdt ?n (ts @ [End])" "End \<notin> set ts"
    using Cons.prems by (simp_all add: add.assoc)
  show ?case
  proof (cases "(\<exists>name. t = Begin_node name) \<and> k = 0")
    case True
    then obtain name where t: "t = Begin_node name" by blast
    have "fdt_next_node m fdt (word_of_nat n) None = Some (offset_result (begin_offsets ?n ts), None)"
      using fdt_next_node_token [OF assms at [unfolded t]] next_node_from [OF assms rest] by (simp add: t)
    with True node_offset_token(2) [OF assms at [unfolded t]] show ?thesis by (simp add: t)
  next
    case False
    with Cons.IH [OF rest] Cons.prems(3) show ?thesis by (cases t; cases k) simp_all
  qed
qed simp

text \<open>
  A search over all nodes: it stops at the first node that passes a test. The contract is what the loops of the library
  have in common.
\<close>

locale node_search =
  fixes search :: "mem \<Rightarrow> addr \<Rightarrow> i32 \<Rightarrow> i32 option" and test :: "mem \<Rightarrow> addr \<Rightarrow> i32 \<Rightarrow> bool option"
  assumes search_end: "sint off < 0 \<Longrightarrow> search m fdt off = Some off"
    and search_found: "0 \<le> sint off \<Longrightarrow> test m fdt off = Some True \<Longrightarrow> search m fdt off = Some off"
    and search_next: "0 \<le> sint off \<Longrightarrow> test m fdt off = Some False \<Longrightarrow> fdt_next_node m fdt off None = Some (off', d) \<Longrightarrow>
      search m fdt off = search m fdt off'"
begin

lemma search_nodes:
  assumes "tree_ok m fdt" "tokens_at m fdt n (ts @ [End])" "End \<notin> set ts"
    and "\<forall>off \<in> set (begin_offsets n ts). test m fdt (word_of_nat off) = Some (P off)"
  shows "search m fdt (offset_result (drop k (begin_offsets n ts))) =
     Some (offset_result (dropWhile (\<lambda>off. \<not> P off) (drop k (begin_offsets n ts))))"
proof (induction "length (begin_offsets n ts) - k" arbitrary: k)
  case 0
  then show ?case by (simp add: offset_result_def search_end)
next
  case (Suc l)
  let ?o = "begin_offsets n ts ! k" and ?r = "drop (Suc k) (begin_offsets n ts)"
  have k: "k < length (begin_offsets n ts)" using Suc.hyps(2) by simp
  then have drop: "drop k (begin_offsets n ts) = ?o # ?r" by (rule Cons_nth_drop_Suc [symmetric])
  note after = next_node_after [OF assms(1-3) k]
  then have pos: "0 \<le> sint (word_of_nat ?o :: i32)" by (simp add: sint_word_nat)
  have "test m fdt (word_of_nat ?o) = Some (P ?o)" using assms(4) nth_mem [OF k] by blast
  moreover have "search m fdt (offset_result ?r) = Some (offset_result (dropWhile (\<lambda>off. \<not> P off) ?r))"
    using Suc.hyps(2) by (intro Suc.hyps(1)) simp
  ultimately show ?case
    using search_found [OF pos] search_next [OF pos] after unfolding drop
    by (cases "P ?o") (simp_all add: offset_result_def [of "?o # _"])
qed

text \<open>The search from the \<open>k\<close>-th node of a tree on, for a test that the tree decides.\<close>

lemma search_tree:
  assumes "tree_ok m fdt" "tokens_at m fdt 0 (flatten root @ [End])"
    and "\<forall>(off, x) \<in> set (tree_nodes 0 root). test m fdt (word_of_nat off) = Some (P x)"
  shows "search m fdt (offset_result (drop k (map fst (tree_nodes 0 root)))) =
     Some (node_result (List.find (\<lambda>(off, x). P x) (drop k (tree_nodes 0 root))))"
proof -
  let ?ns = "tree_nodes 0 root" and ?P = "\<lambda>off. the (test m fdt (word_of_nat off))"
  have all: "\<forall>off \<in> set (begin_offsets 0 (flatten root)). test m fdt (word_of_nat off) = Some (?P off)"
    using assms(3) by (fastforce simp: begin_offsets_tree)
  have "dropWhile (\<lambda>p. \<not> ?P (fst p)) (drop k ?ns) = dropWhile (\<lambda>p. \<not> (case p of (off, x) \<Rightarrow> P x)) (drop k ?ns)"
    using assms(3) by (intro dropWhile_cong) (auto dest!: in_set_dropD)
  then show ?thesis
    using search_nodes [OF assms(1,2) End_not_in_tree all, of k]
    by (simp add: begin_offsets_tree node_result_find drop_map dropWhile_map comp_def)
qed

end

text \<open>Where a search from the start or from the \<open>k\<close>-th node begins.\<close>

lemma next_node_tree:
  assumes "tree_ok m fdt" "tokens_at m fdt 0 (flatten root @ [End])"
  shows "fdt_next_node m fdt (- 1) None = Some (offset_result (map fst (tree_nodes 0 root)), None)"
    and "k < length (tree_nodes 0 root) \<Longrightarrow> fdt_next_node m fdt (word_of_nat (fst (tree_nodes 0 root ! k))) None =
      Some (offset_result (drop (Suc k) (map fst (tree_nodes 0 root))), None)"
  using next_node_from [OF assms End_not_in_tree] next_node_after [OF assms End_not_in_tree, of k]
  by (simp_all add: fdt_next_node_def begin_offsets_tree)

definition has_phandle :: "u32 \<Rightarrow> mem \<Rightarrow> addr \<Rightarrow> i32 \<Rightarrow> bool option" where
  "has_phandle phandle m fdt off = map_option (\<lambda>ph. ph = phandle) (fdt_get_phandle m fdt off)"

interpretation phandle: node_search "\<lambda>m fdt. phandle_search m fdt ph" "has_phandle ph" for ph
  by unfold_locales (auto simp: has_phandle_def phandle_search.simps)

subsection \<open>The phandle of a node\<close>

fun bytes32 :: "u8 list \<Rightarrow> u32" where
  "bytes32 [a, b, c, d] = push_bit 24 (ucast a) OR push_bit 16 (ucast b) OR push_bit 8 (ucast c) OR ucast d"
| "bytes32 _ = 0"

text \<open>The property \<open>phandle\<close>, or else \<open>linux,phandle\<close>, if it has four bytes.\<close>

definition node_phandle :: "(u32 \<Rightarrow> u8 list) \<Rightarrow> dt_node \<Rightarrow> u32" where
  "node_phandle names x =
     (let ps = map_of (map (\<lambda>(nameoff, v). (names nameoff, v)) (node_props x));
          p = (\<lambda>s. case ps (map of_char s) of None \<Rightarrow> None | Some v \<Rightarrow> if length v = 4 then Some (bytes32 v) else None)
      in case p ''phandle'' of Some ph \<Rightarrow> ph | None \<Rightarrow> (case p ''linux,phandle'' of Some ph \<Rightarrow> ph | None \<Rightarrow> 0))"

lemma fdt32_bytes:
  assumes "bytes_at m p (length v) = v" "length v = 4"
  shows "fdt32 m p = bytes32 v"
proof -
  from assms have "v = [m p, m (p + 1), m (p + 2), m (p + 3)]" by (simp add: bytes_at_def upt_conv_Cons)
  then show ?thesis by (simp add: fdt32_def)
qed

lemma phandle_prop_tree:
  assumes "tree_ok m fdt" "17 \<le> fdt_version m fdt" "tokens_at m fdt n (flatten x)"
    and "\<forall>(nameoff, v) \<in> set (node_props x). string_in m fdt nameoff (names nameoff) \<and> length v < 2 ^ 31"
  shows "phandle_prop m fdt (word_of_nat n) s =
     Some (case map_of (map (\<lambda>(nameoff, v). (names nameoff, v)) (node_props x)) (map of_char s) of
       None \<Rightarrow> None | Some v \<Rightarrow> if length v = 4 then Some (bytes32 v) else None)"
proof (cases "map_of (map (\<lambda>(nameoff, v). (names nameoff, v)) (node_props x)) (map of_char s)")
  case None
  have strings: "\<forall>(nameoff, v) \<in> set (node_props x). string_in m fdt nameoff (names nameoff)" using assms(4) by fastforce
  from getprop_named_tree [OF assms(1-3) strings, of "map of_char s"] None show ?thesis by (simp add: phandle_prop_def)
next
  case (Some v)
  have strings: "\<forall>(nameoff, v) \<in> set (node_props x). string_in m fdt nameoff (names nameoff)" using assms(4) by fastforce
  from getprop_named_tree [OF assms(1-3) strings, of "map of_char s"] Some obtain p where
    p: "fdt_getprop m fdt (word_of_nat n) (map of_char s) = Some (Inr (p, word_of_nat (length v)))" "bytes_at m p (length v) = v"
    by auto
  from Some have "length v < 2 ^ 31" using assms(4) by (auto dest!: map_of_SomeD)
  then have "(word_of_nat (length v) :: i32) = 4 \<longleftrightarrow> length v = 4"
    using sint_word_nat [of "length v"] by (auto dest: arg_cong [of _ _ sint])
  with p Some show ?thesis using fdt32_bytes [OF p(2)] by (simp add: phandle_prop_def)
qed

lemma property_length:
  assumes "tree_ok m fdt" "tokens_at m fdt n (flatten x)" "(nameoff, v) \<in> set (node_props x)"
  shows "length v < 2 ^ 31"
proof -
  have "length v < 2 ^ 31" if "tokens_at m fdt k (map (\<lambda>(nameoff, v). Property nameoff v) ps)" "(nameoff, v) \<in> set ps" for k ps
    using that
  proof (induction ps arbitrary: k)
    case (Cons p ps)
    show ?case
    proof (cases "p = (nameoff, v)")
      case True
      with Cons.prems(1) have "k + token_size (Property nameoff v) < 2 ^ 31"
        using fits_bound [OF assms(1)] by (simp add: token_at_def)
      with token_size_bounds(1) [of "Property nameoff v"] show ?thesis by simp
    qed (use Cons in auto)
  qed simp
  from this [OF subs_at(2) [OF assms(2)] assms(3)] show ?thesis .
qed

text \<open>All names of properties in the tree are strings of the strings block.\<close>

definition strings_ok :: "mem \<Rightarrow> addr \<Rightarrow> (u32 \<Rightarrow> u8 list) \<Rightarrow> dt_node \<Rightarrow> bool" where
  "strings_ok m fdt names root \<longleftrightarrow>
     (\<forall>(off, x) \<in> set (tree_nodes 0 root). \<forall>(nameoff, v) \<in> set (node_props x). string_in m fdt nameoff (names nameoff))"

lemma get_phandle_tree:
  assumes "tree_ok m fdt" "17 \<le> fdt_version m fdt" "tokens_at m fdt n (flatten x)"
    and "\<forall>(nameoff, v) \<in> set (node_props x). string_in m fdt nameoff (names nameoff)"
  shows "fdt_get_phandle m fdt (word_of_nat n) = Some (node_phandle names x)"
proof -
  have "\<forall>(nameoff, v) \<in> set (node_props x). string_in m fdt nameoff (names nameoff) \<and> length v < 2 ^ 31"
    using assms(4) property_length [OF assms(1,3)] by fastforce
  note phandle_prop_tree [OF assms(1-3) this]
  from this [of "''phandle''"] this [of "''linux,phandle''"] show ?thesis
    unfolding fdt_get_phandle_def node_phandle_def Let_def by (simp only:) (simp split: option.split)
qed

text \<open>The first node, in preorder, with the phandle.\<close>

lemma by_phandle_tree:
  assumes "tree_ok m fdt" "17 \<le> fdt_version m fdt" "tokens_at m fdt 0 (flatten root @ [End])" "strings_ok m fdt names root"
    and "phandle \<noteq> 0" "phandle \<noteq> 0xffffffff"
  shows "fdt_node_offset_by_phandle m fdt phandle =
     Some (node_result (List.find (\<lambda>(off, x). node_phandle names x = phandle) (tree_nodes 0 root)))"
proof -
  have "has_phandle phandle m fdt (word_of_nat off) = Some (node_phandle names x = phandle)" if "(off, x) \<in> set (tree_nodes 0 root)" for off x
    using get_phandle_tree [OF assms(1,2)] tree_nodes_at(1) [of m fdt 0 root off x] that assms(3,4)
    by (fastforce simp: strings_ok_def has_phandle_def)
  with phandle.search_tree [OF assms(1,3), of phandle "\<lambda>x. node_phandle names x = phandle" 0] next_node_tree(1) [OF assms(1,3)]
    ro_probe_tree(1) [OF assms(1)] assms(5,6)
  show ?thesis by (auto simp: fdt_node_offset_by_phandle_def)
qed

text \<open>A tree as a block of bytes, with one string.\<close>

lemma blob_nodes_at:
  assumes "length (encode x (s @ [0])) < 2 ^ 31 - 1" "\<forall>t \<in> set (flatten x). token_ok t" "0 \<notin> set s"
    and "\<forall>(off, y) \<in> set (tree_nodes 0 x). \<forall>(nameoff, v) \<in> set (node_props y). nameoff = 0"
  defines "m \<equiv> blob_mem (encode x (s @ [0]))"
  shows "tokens_at m 0 0 (flatten x @ [End])" "strings_ok m 0 (\<lambda>_. s) x"
proof -
  have "stored m 0 (encode x (s @ [0]))" unfolding m_def by (rule stored_blob_mem) (use assms(1) in simp)
  from encode_tree_ok(3) [OF this assms(1) _ assms(2)] assms(1) show "tokens_at m 0 0 (flatten x @ [End])" by simp
  show "strings_ok m 0 (\<lambda>_. s) x"
    using assms(4) blob_tree_at(4) [OF assms(1-3)] by (fastforce simp: strings_ok_def m_def)
qed

end
