(* ===== verification/Machine.thy ===== *)
theory Machine
  imports Cpu Devicetree Fdt_Phandle
begin

section \<open>The machine's topology\<close>

text \<open>
  \<^verbatim>\<open>machine_parse_cpu_topology\<close> of \<^verbatim>\<open>kern/machine.c\<close>: the clusters and cpus the device tree lists under
  \<^verbatim>\<open>/cpus/cpu-map\<close> go into the topology. The default configuration looks the map up among the
  subnodes of \<^verbatim>\<open>/cpus\<close>. Structures on the stack are not initialised: \<open>junk\<close> and \<open>junk_iter\<close> are what they
  hold, and reading a variable that was never written is \<^const>\<open>Undefined\<close>, as is a write past one of the
  two arrays.
\<close>

subsection \<open>Reading the topology\<close>

abbreviation DEFAULTS_MACHINE_MAX_CPUS :: u32 where "DEFAULTS_MACHINE_MAX_CPUS \<equiv> 16"
abbreviation DEFAULTS_MACHINE_MAX_CPU_CLUSTERS :: u32 where "DEFAULTS_MACHINE_MAX_CPU_CLUSTERS \<equiv> 4"

definition machine_get_num_clusters :: "kstate \<Rightarrow> u32" where
  "machine_get_num_clusters s = ti_num_clusters (topology s)"

definition machine_get_max_cpu_num :: "kstate \<Rightarrow> u32" where
  "machine_get_max_cpu_num s = ti_max_cpu_id (topology s)"

definition machine_get_num_cpus :: "kstate \<Rightarrow> u32" where
  "machine_get_num_cpus s = ti_num_cpus (topology s)"

definition machine_get_name :: "mem \<Rightarrow> boot_device_tree \<Rightarrow> addr outcome" where
  "machine_get_name m bdt =
     andthen (DeviceTreeLookupPropertyValue m bdt (BootDeviceTreeGetRootNode bdt) (map of_char ''compatible'') (0, 0)) (\<lambda>(res, v, len).
       if res = kDeviceTreeSuccess then Inr v else Inl (Undefined ''machine''))"

definition machine_read_prop :: "DTNode \<Rightarrow> u8 list \<Rightarrow> u64" where
  "machine_read_prop node prop_name = 0"

text \<open>The body of the loop over the cpus of a cluster; the pair holds the topology and \<^verbatim>\<open>cluster.num_cpus\<close>.\<close>

definition topology_add_cpu ::
  "mem \<Rightarrow> boot_device_tree \<Rightarrow> DTNode \<Rightarrow> i32 \<Rightarrow> u32 \<Rightarrow> DTNode \<Rightarrow> topology_info \<times> u32 \<Rightarrow> (topology_info \<times> u32) outcome" where
  "topology_add_cpu m bdt junk boot_cpu cluster subnode = (\<lambda>(t, num_cpus).
     let cpu_id = ti_num_cpus t;
         t = t\<lparr>ti_max_cpu_id := (if cpu_id < ti_max_cpu_id t then ti_max_cpu_id t else cpu_id)\<rparr>
     in andthen (DeviceTreeLookupPropertyValue m bdt subnode (map of_char ''cpu'') (0, 0)) (\<lambda>(res, entry, len).
          if res \<noteq> kDeviceTreeSuccess then Inl (Undefined ''entry'')
          else andthen (DeviceTreeLookupNodeByPhandle m bdt (ucast (bswap_32 (load32 m entry))) junk) (\<lambda>(res, cpu_node).
            let cpu = \<lparr>tc_phys_id = ucast (machine_read_prop cpu_node (map of_char ''reg'')), tc_cpu_id = cpu_id,
                       tc_cluster_id = cluster\<rparr>;
                t = (if cpu_id = boot_cpu
                     then t\<lparr>ti_boot_cpu := Some (unat (ti_num_cpus t)), ti_boot_cluster := Some (unat (ti_num_clusters t))\<rparr>
                     else t)
            in if DEFAULTS_MACHINE_MAX_CPUS \<le> ti_num_cpus t then Inl (Undefined ''cpus[] overflow'')
               else Inr (t\<lparr>ti_cpus := (ti_cpus t)[unat (ti_num_cpus t) := cpu], ti_num_cpus := ti_num_cpus t + 1\<rparr>,
                         num_cpus + 1))))"

text \<open>The body of the loop over the clusters.\<close>

definition topology_add_cluster ::
  "mem \<Rightarrow> boot_device_tree \<Rightarrow> DTNode \<Rightarrow> DeviceTreeIterator \<Rightarrow> i32 \<Rightarrow> DTNode \<Rightarrow> topology_info \<Rightarrow> topology_info outcome" where
  "topology_add_cluster m bdt junk junk_iter boot_cpu node t =
     (let cluster = ti_num_clusters t
      in case DeviceTreeIteratorInit bdt (Some node) junk_iter of (res, subiter) \<Rightarrow>
         if res \<noteq> kDeviceTreeSuccess then Inl (AssertFailed ''res == kDeviceTreeSuccess'')
         else andthen (for_each_node m bdt (topology_add_cpu m bdt junk boot_cpu cluster) subiter junk (t, 0)) (\<lambda>(t, num_cpus).
                if DEFAULTS_MACHINE_MAX_CPU_CLUSTERS \<le> ti_num_clusters t then Inl (Undefined ''clusters[] overflow'')
                else Inr (t\<lparr>ti_clusters := (ti_clusters t)[unat (ti_num_clusters t) :=
                              \<lparr>tcl_cluster_id = cluster, tcl_num_cpus = num_cpus\<rparr>],
                            ti_num_clusters := ti_num_clusters t + 1,
                            ti_max_cluster_id := (if cluster < ti_max_cluster_id t then ti_max_cluster_id t else cluster)\<rparr>)))"

text \<open>The loop that looks for the map; a node's name always ends inside its array.\<close>

definition find_cpu_map :: "DTNode \<Rightarrow> DTNode \<Rightarrow> DTNode outcome" where
  "find_cpu_map node parent =
     Inr (if takeWhile (\<lambda>c. c \<noteq> 0) (dt_name node) = map of_char ''cpu-map'' then node else parent)"

definition machine_parse_cpu_topology ::
  "arch_env \<Rightarrow> mem \<Rightarrow> boot_device_tree \<Rightarrow> DTNode \<Rightarrow> DeviceTreeIterator \<Rightarrow> kstate \<Rightarrow> (i32 \<times> kstate) outcome" where
  "machine_parse_cpu_topology env m bdt junk junk_iter s =
     (let boot_cpu = ucast (MPIDR_TO_CPU_NUM (mpidr_el1 env))
      in andthen (DeviceTreeLookupNode m bdt (map of_char ''/cpus'') junk) (\<lambda>(res, parent).
         if res \<noteq> kDeviceTreeSuccess then Inl (AssertFailed ''res == kDeviceTreeSuccess'')
         else case DeviceTreeIteratorInit bdt (Some parent) junk_iter of (res, iter) \<Rightarrow>
         if res \<noteq> kDeviceTreeSuccess then Inl (Undefined ''iter'')
         else andthen (for_each_node m bdt find_cpu_map iter junk parent) (\<lambda>parent.
              case DeviceTreeIteratorInit bdt (Some parent) iter of (res, iter) \<Rightarrow>
              if res \<noteq> kDeviceTreeSuccess then Inl (AssertFailed ''res == kDeviceTreeSuccess'')
              else andthen (for_each_node m bdt (topology_add_cluster m bdt junk junk_iter boot_cpu) iter junk
                              ((topology s)\<lparr>ti_num_clusters := 0, ti_num_cpus := 0\<rparr>)) (\<lambda>t.
                   if ti_boot_cpu t = None then Inl (AssertFailed ''topology_info.boot_cpu != NULL'')
                   else Inr (KERN_RETURN_SUCCESS, s\<lparr>topology := t\<rparr>)))))"

subsection \<open>Nodes below nodes\<close>

lemma node_offsets_in_forest:
  "(off, x) \<in> set (zip (node_offsets n xs) xs) \<Longrightarrow> (off, x) \<in> set (forest_nodes n xs)"
proof (induction xs arbitrary: n)
  case (Cons y ys)
  then show ?case by (cases y) auto
qed simp

lemma subs_in_tree:
  "(off, y) \<in> set (tree_nodes n x) \<Longrightarrow> (off', z) \<in> set (zip (sub_offsets off y) (node_subs y)) \<Longrightarrow> (off', z) \<in> set (tree_nodes n x)"
  "(off, y) \<in> set (forest_nodes n xs) \<Longrightarrow> (off', z) \<in> set (zip (sub_offsets off y) (node_subs y)) \<Longrightarrow> (off', z) \<in> set (forest_nodes n xs)"
proof (induction n x and n xs rule: tree_nodes_forest_nodes.induct)
  case (1 n name properties subs)
  then show ?case by (auto simp: sub_offsets_def dest: node_offsets_in_forest)
qed auto

lemma tree_nodes_root: "(n, x) \<in> set (tree_nodes n x)"
  by (cases x) simp

lemma find_path_in_tree:
  "(off, y) \<in> set (tree_nodes n x) \<Longrightarrow> find_path off y names = Some (off', z) \<Longrightarrow> (off', z) \<in> set (tree_nodes n x)"
proof (induction names arbitrary: off y)
  case (Cons s names)
  from Cons.prems(2) obtain o1 y1 rest where m: "matching s (subs_start off y) (node_subs y) = (o1, y1) # rest"
    "find_path o1 y1 names = Some (off', z)" by (auto split: list.splits)
  have "(o1, y1) \<in> set (matching s (subs_start off y) (node_subs y))" using m(1) by simp
  then have "(o1, y1) \<in> set (zip (sub_offsets off y) (node_subs y))" by (simp add: matching_def sub_offsets_def)
  from subs_in_tree(1) [OF Cons.prems(1) this] m(2) Cons.IH show ?case by blast
qed simp

subsection \<open>A readable device tree\<close>

text \<open>
  A tree as the boot loader passes it: encoded with all its strings, names that fit their arrays, and
  recorded by \<^verbatim>\<open>DeviceTreeInit\<close>.
\<close>

definition boot_tree_ok :: "mem \<Rightarrow> boot_device_tree \<Rightarrow> (u32 \<Rightarrow> u8 list) \<Rightarrow> dt_node \<Rightarrow> bool" where
  "boot_tree_ok m bdt names root \<longleftrightarrow> tree_ok m (bdt_base bdt) \<and> 17 \<le> fdt_version m (bdt_base bdt) \<and>
     tokens_at m (bdt_base bdt) 0 (flatten root @ [End]) \<and> strings_ok m (bdt_base bdt) names root \<and>
     (\<forall>(off, x) \<in> set (tree_nodes 0 root). length (node_name x) < kPropNameLength) \<and> bdt_initialised bdt \<noteq> 0"

lemma boot_treeD:
  assumes "boot_tree_ok m bdt names root" "(off, x) \<in> set (tree_nodes 0 root)"
  shows "tree_ok m (bdt_base bdt)" "17 \<le> fdt_version m (bdt_base bdt)" "tokens_at m (bdt_base bdt) off (flatten x)"
    "\<forall>(nameoff, v) \<in> set (node_props x). string_in m (bdt_base bdt) nameoff (names nameoff)"
    "length (node_name x) < kPropNameLength"
proof -
  from assms(1) have root: "tokens_at m (bdt_base bdt) 0 (flatten root)" by (simp add: boot_tree_ok_def)
  show "tokens_at m (bdt_base bdt) off (flatten x)" by (rule tree_nodes_at(1) [OF root assms(2)])
qed (use assms in \<open>auto simp: boot_tree_ok_def strings_ok_def\<close>)

lemma find_in_set: "List.find P xs = Some x \<Longrightarrow> x \<in> set xs"
  by (induction xs) (auto split: if_splits)

lemma lookup_by_phandle_tree:
  assumes "boot_tree_ok m bdt names root"
  shows "DeviceTreeLookupNodeByPhandle m bdt phandle node =
     (if ucast phandle = (0 :: u32) \<or> ucast phandle = (0xffffffff :: u32) then Inr (kDeviceTreeFailure, node)
      else case List.find (\<lambda>(off, x). node_phandle names x = ucast phandle) (tree_nodes 0 root) of
        None \<Rightarrow> Inr (kDeviceTreeFailure, node)
      | Some (off, x) \<Rightarrow> found off x node)"
proof (cases "ucast phandle = (0 :: u32) \<or> ucast phandle = (0xffffffff :: u32)")
  case True
  then show ?thesis by (auto simp: DeviceTreeLookupNodeByPhandle_def fdt_node_offset_by_phandle_def)
next
  case False
  let ?hit = "List.find (\<lambda>(off, x). node_phandle names x = ucast phandle) (tree_nodes 0 root)"
  from assms have hit: "fdt_node_offset_by_phandle m (bdt_base bdt) (ucast phandle) = Some (node_result ?hit)"
    using False by (intro by_phandle_tree) (simp_all add: boot_tree_ok_def)
  show ?thesis
  proof (cases ?hit)
    case None
    with hit False show ?thesis by (simp add: DeviceTreeLookupNodeByPhandle_def node_result_def)
  next
    case (Some r)
    obtain off x where r: "r = (off, x)" by (rule prod.exhaust)
    with Some have "(off, x) \<in> set (tree_nodes 0 root)" by (auto dest: find_in_set)
    note at = boot_treeD [OF assms this]
    note name = get_name_tree [OF at(1) subs_at(1) [OF at(3)]]
    have "\<not> sint (word_of_nat off :: i32) < 0" "\<not> sint (word_of_nat (length (node_name x)) :: i32) < 0"
      using sint_word_nat [OF node_at_bound [OF at(1,3)]] sint_word_nat [OF name(3)] by simp_all
    with describe_found [OF at(1,3), of node node] Some r hit False show ?thesis
      by (simp add: DeviceTreeLookupNodeByPhandle_def node_result_def name(1))
  qed
qed

lemma lookup_by_phandle_returns:
  assumes "boot_tree_ok m bdt names root"
  shows "\<exists>r. DeviceTreeLookupNodeByPhandle m bdt phandle node = Inr r"
proof -
  have "\<exists>r. found off x node = Inr r" if "List.find (\<lambda>(off, x). node_phandle names x = ucast phandle) (tree_nodes 0 root) = Some (off, x)" for off x
    using boot_treeD(5) [OF assms find_in_set [OF that]] by (simp add: found_def)
  then show ?thesis by (auto simp: lookup_by_phandle_tree [OF assms] split: option.split)
qed

subsection \<open>What is recorded\<close>

text \<open>The entry a cpu of a cluster adds to the topology.\<close>

definition put_cpu :: "i32 \<Rightarrow> u32 \<Rightarrow> topology_info \<times> u32 \<Rightarrow> topology_info \<times> u32" where
  "put_cpu boot_cpu cluster = (\<lambda>(t, k).
     let n = ti_num_cpus t
     in (t\<lparr>ti_max_cpu_id := (if n < ti_max_cpu_id t then ti_max_cpu_id t else n),
           ti_boot_cpu := (if n = boot_cpu then Some (unat n) else ti_boot_cpu t),
           ti_boot_cluster := (if n = boot_cpu then Some (unat (ti_num_clusters t)) else ti_boot_cluster t),
           ti_cpus := (ti_cpus t)[unat n := \<lparr>tc_phys_id = 0, tc_cpu_id = n, tc_cluster_id = cluster\<rparr>],
           ti_num_cpus := n + 1\<rparr>, k + 1))"

definition has_property :: "(u32 \<Rightarrow> u8 list) \<Rightarrow> string \<Rightarrow> dt_node \<Rightarrow> bool" where
  "has_property names s x \<longleftrightarrow> map of_char s \<in> names ` fst ` set (node_props x)"

lemma has_property_value:
  assumes "has_property names s x"
  obtains v where "map_of (map (\<lambda>(nameoff, v). (names nameoff, v)) (node_props x)) (map of_char s) = Some v"
    "\<exists>nameoff. (nameoff, v) \<in> set (node_props x)"
proof -
  let ?ps = "map (\<lambda>(nameoff, v). (names nameoff, v)) (node_props x)"
  have "map of_char s \<in> fst ` set ?ps" using assms by (force simp: has_property_def)
  then obtain v where v: "map_of ?ps (map of_char s) = Some v" by (metis map_of_eq_None_iff not_None_eq)
  from map_of_SomeD [OF v] have "\<exists>nameoff. (nameoff, v) \<in> set (node_props x)" by auto
  with v that show thesis by blast
qed

lemma add_cpu_tree:
  assumes "boot_tree_ok m bdt names root" "(off, x) \<in> set (tree_nodes 0 root)" "has_property names ''cpu'' x"
  shows "topology_add_cpu m bdt junk boot_cpu cluster (describe off x cur) (t, k) =
     (if 16 \<le> ti_num_cpus t then Inl (Undefined ''cpus[] overflow'') else Inr (put_cpu boot_cpu cluster (t, k)))"
proof -
  note at = boot_treeD [OF assms(1,2)]
  from assms(3) obtain v where v: "map_of (map (\<lambda>(nameoff, v). (names nameoff, v)) (node_props x)) (map of_char ''cpu'') = Some v"
    "\<exists>nameoff. (nameoff, v) \<in> set (node_props x)" by (rule has_property_value)
  from getprop_named_tree [OF at(1-4), of "map of_char ''cpu''"] v(1) obtain p where
    p: "fdt_getprop m (bdt_base bdt) (word_of_nat off) (map of_char ''cpu'') = Some (Inr (p, word_of_nat (length v)))" by auto
  have "length v < 2 ^ 31" using v(2) property_length [OF at(1,3)] by blast
  then have "\<not> sint (word_of_nat (length v) :: i32) < 0" using sint_word_nat [of "length v"] by simp
  with p have "DeviceTreeLookupPropertyValue m bdt (describe off x cur) (map of_char ''cpu'') (0, 0) =
      Inr (kDeviceTreeSuccess, p, word_of_nat (length v))"
    by (simp add: DeviceTreeLookupPropertyValue_def)
  moreover obtain r where "DeviceTreeLookupNodeByPhandle m bdt (ucast (bswap_32 (load32 m p))) junk = Inr r"
    using lookup_by_phandle_returns [OF assms(1)] by blast
  ultimately show ?thesis
    by (simp add: topology_add_cpu_def put_cpu_def Let_def machine_read_prop_def case_prod_unfold)
qed

text \<open>The cpus recorded so far, by the clusters they are in; \<open>b\<close> is the boot cpu and cluster from before.\<close>

definition cpus_recorded :: "nat option \<times> nat option \<Rightarrow> i32 \<Rightarrow> nat list \<Rightarrow> topology_info \<Rightarrow> bool" where
  "cpus_recorded b boot_cpu cs t \<longleftrightarrow> length (ti_cpus t) = 16 \<and> ti_num_cpus t = word_of_nat (length cs) \<and>
     (\<forall>i < length cs. ti_cpus t ! i = \<lparr>tc_phys_id = 0, tc_cpu_id = word_of_nat i, tc_cluster_id = word_of_nat (cs ! i)\<rparr>) \<and>
     ti_boot_cpu t = (if unat boot_cpu < length cs then Some (unat boot_cpu) else fst b) \<and>
     ti_boot_cluster t = (if unat boot_cpu < length cs then Some (cs ! unat boot_cpu) else snd b) \<and>
     length cs \<le> unat (ti_max_cpu_id t) + 1"

lemma put_cpu_recorded:
  assumes "cpus_recorded b boot_cpu cs t" "length cs < 16" "ti_num_clusters t = word_of_nat c" "c < 2 ^ 32"
  shows "cpus_recorded b boot_cpu (cs @ [c]) (fst (put_cpu boot_cpu (word_of_nat c) (t, k)))"
proof -
  have n: "unat (word_of_nat (length cs) :: u32) = length cs" using assms(2) by (intro unat_of_nat_no_wrap) simp
  have c: "unat (word_of_nat c :: u32) = c" using assms(4) by (intro unat_of_nat_no_wrap) simp
  have boot: "(word_of_nat (length cs) :: u32) = boot_cpu \<longleftrightarrow> length cs = unat boot_cpu"
    using n by (metis word_eq_of_nat)
  have m: "length cs + 1 \<le> unat (if (word_of_nat (length cs) :: u32) < w then w else word_of_nat (length cs)) + 1" for w
    using n by (simp add: word_less_nat_alt)
  from assms(1-3) show ?thesis
    using n c boot m [of "ti_max_cpu_id t"]
    by (auto simp: cpus_recorded_def put_cpu_def Let_def nth_append nth_list_update less_Suc_eq)
qed

lemma add_cpus_tree:
  assumes tree: "boot_tree_ok m bdt names root"
  shows "\<forall>(off, x) \<in> set subs. (off, x) \<in> set (tree_nodes 0 root) \<and> has_property names ''cpu'' x \<Longrightarrow>
     cpus_recorded b boot_cpu cs t \<Longrightarrow> length cs + length subs \<le> 16 \<Longrightarrow> ti_num_clusters t = word_of_nat c \<Longrightarrow> c < 2 ^ 32 \<Longrightarrow>
     \<exists>t'. for_each_sub (topology_add_cpu m bdt junk boot_cpu (word_of_nat c)) cur subs (t, k) = Inr (t', k + word_of_nat (length subs)) \<and>
       cpus_recorded b boot_cpu (cs @ replicate (length subs) c) t' \<and> ti_clusters t' = ti_clusters t \<and>
       ti_num_clusters t' = ti_num_clusters t \<and> ti_max_cluster_id t' = ti_max_cluster_id t"
proof (induction subs arbitrary: cs t k cur)
  case (Cons p subs)
  obtain off x where p: "p = (off, x)" by (rule prod.exhaust)
  from Cons.prems(1) p have x: "(off, x) \<in> set (tree_nodes 0 root)" "has_property names ''cpu'' x" by auto
  let ?t = "fst (put_cpu boot_cpu (word_of_nat c) (t, k))"
  have "unat (ti_num_cpus t) = length cs"
    using Cons.prems(2,3) by (simp add: cpus_recorded_def unat_of_nat_no_wrap)
  then have "\<not> 16 \<le> ti_num_cpus t" using Cons.prems(3) by (simp add: word_le_nat_alt)
  then have step: "topology_add_cpu m bdt junk boot_cpu (word_of_nat c) (describe off x cur) (t, k) = Inr (?t, k + 1)"
    using add_cpu_tree [OF tree x] by (simp add: put_cpu_def Let_def)
  have "cpus_recorded b boot_cpu (cs @ [c]) ?t"
    using put_cpu_recorded [OF Cons.prems(2) _ Cons.prems(4,5)] Cons.prems(3) by simp
  moreover have "ti_num_clusters ?t = word_of_nat c" "ti_clusters ?t = ti_clusters t" "ti_max_cluster_id ?t = ti_max_cluster_id t"
    using Cons.prems(4) by (simp_all add: put_cpu_def Let_def)
  ultimately show ?case
    using Cons.IH [of "cs @ [c]" ?t "describe off x cur" "k + 1"] Cons.prems step boot_treeD(5) [OF tree x(1)]
    by (simp add: p add.assoc replicate_app_Cons_same [symmetric])
qed simp

text \<open>The clusters recorded so far, by their numbers of cpus, and the cluster of each cpu.\<close>

definition clusters_recorded :: "nat list \<Rightarrow> topology_info \<Rightarrow> bool" where
  "clusters_recorded ks t \<longleftrightarrow> length (ti_clusters t) = 4 \<and> ti_num_clusters t = word_of_nat (length ks) \<and>
     (\<forall>j < length ks. ti_clusters t ! j = \<lparr>tcl_cluster_id = word_of_nat j, tcl_num_cpus = word_of_nat (ks ! j)\<rparr>) \<and>
     length ks \<le> unat (ti_max_cluster_id t) + 1"

definition cpu_clusters :: "nat list \<Rightarrow> nat list" where
  "cpu_clusters ks = concat (map (\<lambda>(j, k). replicate k j) (enumerate 0 ks))"

lemma cpu_clusters_append: "cpu_clusters (ks @ [k]) = cpu_clusters ks @ replicate k (length ks)"
  by (simp add: cpu_clusters_def enumerate_append_eq)

lemma length_cpu_clusters: "length (cpu_clusters ks) = sum_list ks"
proof (induction ks rule: rev_induct)
  case (snoc k ks)
  then show ?case by (simp add: cpu_clusters_append)
qed (simp add: cpu_clusters_def)

lemma for_each_from_init:
  assumes "boot_tree_ok m bdt names root" "(off, x) \<in> set (tree_nodes 0 root)"
    and "dt_offset node = word_of_nat off" "nChildren node = word_of_nat (length (node_subs x))"
  shows "case DeviceTreeIteratorInit bdt (Some node) iter of (res, iter') \<Rightarrow> res = kDeviceTreeSuccess \<and>
     for_each_node m bdt body iter' nd s = for_each_sub body node (zip (sub_offsets off x) (node_subs x)) s"
proof -
  note at = boot_treeD [OF assms(1,2)]
  have "bdt_initialised bdt \<noteq> 0" using assms(1) by (simp add: boot_tree_ok_def)
  with for_each_node_tree [OF at(1,3) subs_bound [OF at(1,3)], of 0 "snd (DeviceTreeIteratorInit bdt (Some node) iter)" body nd s]
    assms(3,4) show ?thesis
    by (simp add: DeviceTreeIteratorInit_def)
qed

lemma add_cluster_tree:
  assumes tree: "boot_tree_ok m bdt names root" and x: "(off, x) \<in> set (tree_nodes 0 root)"
    and subs: "\<forall>y \<in> set (node_subs x). has_property names ''cpu'' y"
    and rec: "clusters_recorded ks t" "cpus_recorded b boot_cpu (cpu_clusters ks) t"
    and fit: "length ks < 4" "sum_list ks + length (node_subs x) \<le> 16"
  shows "\<exists>t'. topology_add_cluster m bdt junk junk_iter boot_cpu (describe off x cur) t = Inr t' \<and>
     clusters_recorded (ks @ [length (node_subs x)]) t' \<and>
     cpus_recorded b boot_cpu (cpu_clusters (ks @ [length (node_subs x)])) t'"
proof -
  let ?zs = "zip (sub_offsets off x) (node_subs x)" and ?node = "describe off x cur"
  let ?body = "topology_add_cpu m bdt junk boot_cpu (ti_num_clusters t)"
  have num: "ti_num_clusters t = word_of_nat (length ks)" "length ks < 2 ^ 32" using rec(1) fit(1) by (simp_all add: clusters_recorded_def)
  have "\<forall>(off', y) \<in> set ?zs. (off', y) \<in> set (tree_nodes 0 root) \<and> has_property names ''cpu'' y"
    using subs subs_in_tree(1) [OF x] by (auto dest: set_zip_rightD)
  from add_cpus_tree [OF tree this rec(2) _ num, of junk ?node 0] fit(2) obtain t1 where
    t1: "for_each_sub ?body ?node ?zs (t, 0) = Inr (t1, word_of_nat (length (node_subs x)))"
      "cpus_recorded b boot_cpu (cpu_clusters ks @ replicate (length (node_subs x)) (length ks)) t1"
      "ti_clusters t1 = ti_clusters t" "ti_num_clusters t1 = ti_num_clusters t" "ti_max_cluster_id t1 = ti_max_cluster_id t"
    by (auto simp: num(1) length_cpu_clusters)
  let ?t = "t1\<lparr>ti_clusters := (ti_clusters t1)[unat (ti_num_clusters t1) :=
      \<lparr>tcl_cluster_id = ti_num_clusters t, tcl_num_cpus = word_of_nat (length (node_subs x))\<rparr>],
      ti_num_clusters := ti_num_clusters t1 + 1,
      ti_max_cluster_id := (if ti_num_clusters t < ti_max_cluster_id t1 then ti_max_cluster_id t1 else ti_num_clusters t)\<rparr>"
  have n: "unat (word_of_nat (length ks) :: u32) = length ks" using fit(1) by (intro unat_of_nat_no_wrap) simp
  then have "\<not> 4 \<le> ti_num_clusters t1" using fit(1) t1(4) num(1) by (simp add: word_le_nat_alt)
  then have "topology_add_cluster m bdt junk junk_iter boot_cpu ?node t = Inr ?t"
    using for_each_from_init [OF tree x, where node = ?node and iter = junk_iter and body = ?body and nd = junk and s = "(t, 0)"] t1(1)
    by (simp add: topology_add_cluster_def Let_def case_prod_unfold)
  moreover have "clusters_recorded (ks @ [length (node_subs x)]) ?t"
    using rec(1) t1 num n fit(1)
    by (auto simp: clusters_recorded_def nth_append nth_list_update less_Suc_eq word_less_nat_alt)
  moreover have "cpus_recorded b boot_cpu (cpu_clusters (ks @ [length (node_subs x)])) ?t"
    using t1(2) by (simp add: cpus_recorded_def cpu_clusters_append)
  ultimately show ?thesis by blast
qed

lemma add_clusters_tree:
  assumes tree: "boot_tree_ok m bdt names root"
  shows "\<forall>(off, x) \<in> set subs. (off, x) \<in> set (tree_nodes 0 root) \<and> (\<forall>y \<in> set (node_subs x). has_property names ''cpu'' y) \<Longrightarrow>
     clusters_recorded ks t \<Longrightarrow> cpus_recorded b boot_cpu (cpu_clusters ks) t \<Longrightarrow>
     length ks + length subs \<le> 4 \<Longrightarrow> sum_list ks + sum_list (map (\<lambda>(off, x). length (node_subs x)) subs) \<le> 16 \<Longrightarrow>
     \<exists>t'. for_each_sub (topology_add_cluster m bdt junk junk_iter boot_cpu) cur subs t = Inr t' \<and>
       clusters_recorded (ks @ map (\<lambda>(off, x). length (node_subs x)) subs) t' \<and>
       cpus_recorded b boot_cpu (cpu_clusters (ks @ map (\<lambda>(off, x). length (node_subs x)) subs)) t'"
proof (induction subs arbitrary: ks t cur)
  case (Cons p subs)
  obtain off x where p: "p = (off, x)" by (rule prod.exhaust)
  from Cons.prems(1) p have x: "(off, x) \<in> set (tree_nodes 0 root)" "\<forall>y \<in> set (node_subs x). has_property names ''cpu'' y" by auto
  let ?ks = "ks @ [length (node_subs x)]"
  from add_cluster_tree [OF tree x Cons.prems(2,3)] Cons.prems(4,5) p obtain t1 where
    t1: "topology_add_cluster m bdt junk junk_iter boot_cpu (describe off x cur) t = Inr t1"
      "clusters_recorded ?ks t1" "cpus_recorded b boot_cpu (cpu_clusters ?ks) t1" by fastforce
  from Cons.IH [OF _ t1(2,3), of "describe off x cur"] Cons.prems(1,4,5) boot_treeD(5) [OF tree x(1)] t1(1)
  show ?case by (simp add: p)
qed simp

text \<open>The node whose subnodes are taken for the clusters: the last \<^verbatim>\<open>cpu-map\<close> below \<^verbatim>\<open>/cpus\<close>, or \<^verbatim>\<open>/cpus\<close> itself.\<close>

definition is_cpu_map :: "nat \<times> dt_node \<Rightarrow> bool" where
  "is_cpu_map = (\<lambda>(off, x). node_name x = map of_char ''cpu-map'')"

definition cpu_map_node :: "nat \<Rightarrow> dt_node \<Rightarrow> nat \<times> dt_node" where
  "cpu_map_node off x = last ((off, x) # filter is_cpu_map (zip (sub_offsets off x) (node_subs x)))"

lemma cpu_map_node_in_tree:
  assumes "(off, x) \<in> set (tree_nodes n root)"
  shows "cpu_map_node off x \<in> set (tree_nodes n root)"
proof -
  have "cpu_map_node off x \<in> set ((off, x) # filter is_cpu_map (zip (sub_offsets off x) (node_subs x)))"
    unfolding cpu_map_node_def by (rule last_in_set) simp
  then have "cpu_map_node off x = (off, x) \<or> cpu_map_node off x \<in> set (zip (sub_offsets off x) (node_subs x))" by auto
  moreover have "z \<in> set (tree_nodes n root)" if "z \<in> set (zip (sub_offsets off x) (node_subs x))" for z
    using subs_in_tree(1) [OF assms] that by (cases z) simp
  ultimately show ?thesis using assms by metis
qed

lemma find_cpu_map_tree:
  assumes tree: "boot_tree_ok m bdt names root"
  shows "\<forall>z \<in> set subs. z \<in> set (tree_nodes 0 root) \<Longrightarrow>
     \<exists>node. parent = describe (fst p) (snd p) node \<Longrightarrow>
     \<exists>node. for_each_sub find_cpu_map cur subs parent =
       Inr (describe (fst (last (p # filter is_cpu_map subs))) (snd (last (p # filter is_cpu_map subs))) node)"
proof (induction subs arbitrary: p parent cur)
  case (Cons z subs)
  obtain off x where z: "z = (off, x)" by (rule prod.exhaust)
  with Cons.prems(1) have x: "(off, x) \<in> set (tree_nodes 0 root)" by simp
  note at = boot_treeD [OF tree x]
  have step: "find_cpu_map (describe off x cur) parent = Inr (if is_cpu_map z then describe off x cur else parent)"
    using name_of_describe [OF at(3), of off cur] by (simp add: find_cpu_map_def is_cpu_map_def z)
  have "\<exists>node. (if is_cpu_map z then describe off x cur else parent) =
      describe (fst (if is_cpu_map z then z else p)) (snd (if is_cpu_map z then z else p)) node"
    using Cons.prems(2) z by auto
  from Cons.IH [OF _ this, of "describe off x cur"] Cons.prems(1) step at(5) show ?case
    by (auto simp: z split: if_splits)
qed auto


lemma cpus_path: "path_names (map of_char ''/cpus'') = [map of_char ''cpus'']"
  by (subst path_names.simps, simp, subst path_names.simps, simp)

lemma parse_topology_tree:
  assumes tree: "boot_tree_ok m bdt names root" and cpus: "find_path 0 root [map of_char ''cpus''] = Some (off, x)"
    and cpu: "\<forall>c \<in> set (node_subs (snd (cpu_map_node off x))). \<forall>y \<in> set (node_subs c). has_property names ''cpu'' y"
    and ks: "ks = map (\<lambda>c. length (node_subs c)) (node_subs (snd (cpu_map_node off x)))"
    and fit: "length ks \<le> 4" "sum_list ks \<le> 16" "length (ti_cpus (topology s)) = 16" "length (ti_clusters (topology s)) = 4"
  shows "\<exists>t. clusters_recorded ks t \<and>
     cpus_recorded (ti_boot_cpu (topology s), ti_boot_cluster (topology s)) (ucast (MPIDR_TO_CPU_NUM (mpidr_el1 env))) (cpu_clusters ks) t \<and>
     machine_parse_cpu_topology env m bdt junk junk_iter s =
       (if ti_boot_cpu t = None then Inl (AssertFailed ''topology_info.boot_cpu != NULL'')
        else Inr (KERN_RETURN_SUCCESS, s\<lparr>topology := t\<rparr>))"
proof -
  let ?b = "(ti_boot_cpu (topology s), ti_boot_cluster (topology s))" and ?boot = "ucast (MPIDR_TO_CPU_NUM (mpidr_el1 env)) :: i32"
  let ?t = "(topology s)\<lparr>ti_num_clusters := 0, ti_num_cpus := 0\<rparr>"
  let ?subs = "\<lambda>p. zip (sub_offsets (fst p) (snd p)) (node_subs (snd p))"
  let ?map = "cpu_map_node off x"
  have x: "(off, x) \<in> set (tree_nodes 0 root)" by (rule find_path_in_tree [OF tree_nodes_root cpus])
  note map = cpu_map_node_in_tree [OF x]
  have lookup: "DeviceTreeLookupNode m bdt (map of_char ''/cpus'') junk = Inr (kDeviceTreeSuccess, describe off x junk)"
    using lookup_node_tree [of m bdt root "map of_char ''/cpus''" junk, unfolded cpus_path cpus] tree boot_treeD(5) [OF tree x]
    by (simp add: found_def boot_tree_ok_def)
  have "\<forall>z \<in> set (?subs (off, x)). z \<in> set (tree_nodes 0 root)" using subs_in_tree(1) [OF x] by auto
  from find_cpu_map_tree [OF tree this, of "describe off x junk" "(off, x)" "describe off x junk"] obtain node where
    search: "for_each_sub find_cpu_map (describe off x junk) (?subs (off, x)) (describe off x junk) =
      Inr (describe (fst ?map) (snd ?map) node)" by (auto simp: cpu_map_node_def)
  have map': "(fst ?map, snd ?map) \<in> set (tree_nodes 0 root)" using map by simp
  have sub: "\<forall>(off', c) \<in> set (?subs ?map). (off', c) \<in> set (tree_nodes 0 root) \<and> (\<forall>y \<in> set (node_subs c). has_property names ''cpu'' y)"
    using subs_in_tree(1) [OF map'] cpu by (auto dest: set_zip_rightD)
  have ks': "map (\<lambda>(off, c). length (node_subs c)) (?subs ?map) = ks"
    unfolding ks by (rule nth_equalityI) simp_all
  have "clusters_recorded [] ?t" "cpus_recorded ?b ?boot (cpu_clusters []) ?t"
    using fit(3,4) by (simp_all add: clusters_recorded_def cpus_recorded_def cpu_clusters_def)
  from add_clusters_tree [OF tree sub this, of junk junk_iter "describe (fst ?map) (snd ?map) node"] fit(1,2)
  obtain t where t: "for_each_sub (topology_add_cluster m bdt junk junk_iter ?boot) (describe (fst ?map) (snd ?map) node) (?subs ?map) ?t = Inr t"
    "clusters_recorded ks t" "cpus_recorded ?b ?boot (cpu_clusters ks) t"
    by (auto simp: ks' ks)
  let ?iter = "snd (DeviceTreeIteratorInit bdt (Some (describe off x junk)) junk_iter)"
  have first: "for_each_node m bdt find_cpu_map ?iter junk (describe off x junk) = Inr (describe (fst ?map) (snd ?map) node)"
    "fst (DeviceTreeIteratorInit bdt (Some (describe off x junk)) junk_iter) = kDeviceTreeSuccess"
    using for_each_from_init [OF tree x, where node = "describe off x junk" and iter = junk_iter and body = find_cpu_map and nd = junk
        and s = "describe off x junk"] search by (simp_all add: case_prod_unfold)
  have second: "case DeviceTreeIteratorInit bdt (Some (describe (fst ?map) (snd ?map) node)) ?iter of (res, iter) \<Rightarrow>
      res = kDeviceTreeSuccess \<and> for_each_node m bdt (topology_add_cluster m bdt junk junk_iter ?boot) iter junk ?t = Inr t"
    using for_each_from_init [OF tree map', where node = "describe (fst ?map) (snd ?map) node" and iter = ?iter
        and body = "topology_add_cluster m bdt junk junk_iter ?boot" and nd = junk and s = ?t] t(1)
    by (simp add: case_prod_unfold)
  from t(2,3) show ?thesis
    by (intro exI [of _ t]) (use lookup first second in \<open>simp add: machine_parse_cpu_topology_def Let_def case_prod_unfold\<close>)
qed

subsection \<open>Properties\<close>

text \<open>C19. Parsing the cpu topology of an encoded device tree that has a \<^verbatim>\<open>/cpus\<close> node: the subnodes of
  \<^verbatim>\<open>cpu-map\<close> (or of \<^verbatim>\<open>/cpus\<close> itself if there is no map) become the clusters and their subnodes the cpus,
  both numbered from zero in the order of the tree, each cpu with the number of its cluster and with physical id
  zero; the boot cpu and its cluster are those of the number in \<^verbatim>\<open>mpidr_el1\<close>, and the assertion at
  the end fails exactly if that number is not below the number of cpus. The arrays must be large enough and each
  cpu must have a \<^verbatim>\<open>cpu\<close> property.
\<close>

theorem machine_parse_cpu_topology_records:
  assumes boot: "boot = unat (ucast (MPIDR_TO_CPU_NUM (mpidr_el1 env)) :: i32)"
    and "boot_tree_ok m bdt names root" "find_path 0 root [map of_char ''cpus''] = Some (off, x)"
    and "\<forall>c \<in> set (node_subs (snd (cpu_map_node off x))). \<forall>y \<in> set (node_subs c). has_property names ''cpu'' y"
    and "ks = map (\<lambda>c. length (node_subs c)) (node_subs (snd (cpu_map_node off x)))"
    and "length ks \<le> 4" "sum_list ks \<le> 16" "length (ti_cpus (topology s)) = 16" "length (ti_clusters (topology s)) = 4"
    and "ti_boot_cpu (topology s) = None"
  shows "if boot < sum_list ks
     then \<exists>t. machine_parse_cpu_topology env m bdt junk junk_iter s = Inr (KERN_RETURN_SUCCESS, s\<lparr>topology := t\<rparr>) \<and>
       ti_num_clusters t = word_of_nat (length ks) \<and> ti_num_cpus t = word_of_nat (sum_list ks) \<and>
       (\<forall>j < length ks. ti_clusters t ! j = \<lparr>tcl_cluster_id = word_of_nat j, tcl_num_cpus = word_of_nat (ks ! j)\<rparr>) \<and>
       (\<forall>i < sum_list ks. ti_cpus t ! i = \<lparr>tc_phys_id = 0, tc_cpu_id = word_of_nat i, tc_cluster_id = word_of_nat (cpu_clusters ks ! i)\<rparr>) \<and>
       ti_boot_cpu t = Some boot \<and> ti_boot_cluster t = Some (cpu_clusters ks ! boot)
     else machine_parse_cpu_topology env m bdt junk junk_iter s = Inl (AssertFailed ''topology_info.boot_cpu != NULL'')"
proof -
  from parse_topology_tree [OF assms(2-9), of env junk junk_iter] obtain t where t: "clusters_recorded ks t"
    "cpus_recorded (ti_boot_cpu (topology s), ti_boot_cluster (topology s)) (ucast (MPIDR_TO_CPU_NUM (mpidr_el1 env))) (cpu_clusters ks) t"
    "machine_parse_cpu_topology env m bdt junk junk_iter s =
       (if ti_boot_cpu t = None then Inl (AssertFailed ''topology_info.boot_cpu != NULL'') else Inr (KERN_RETURN_SUCCESS, s\<lparr>topology := t\<rparr>))"
    by blast
  note rec = t(1) [unfolded clusters_recorded_def] t(2) [unfolded cpus_recorded_def length_cpu_clusters boot [symmetric]]
  show ?thesis
  proof (cases "boot < sum_list ks")
    case True
    then show ?thesis using t(3) rec by auto
  next
    case False
    then show ?thesis using t(3) rec assms(10) by simp
  qed
qed

lemma blob_boot_tree:
  assumes "length (encode x (s @ [0])) < 2 ^ 31 - 1" "\<forall>t \<in> set (flatten x). token_ok t" "0 \<notin> set s"
    and "\<forall>(off, y) \<in> set (tree_nodes 0 x). length (node_name y) < kPropNameLength \<and> (\<forall>(nameoff, v) \<in> set (node_props y). nameoff = 0)"
    and "bdt_base bdt = 0" "bdt_initialised bdt \<noteq> 0"
  shows "boot_tree_ok (blob_mem (encode x (s @ [0]))) bdt (\<lambda>_. s) x"
proof -
  have "\<forall>(off, y) \<in> set (tree_nodes 0 x). \<forall>(nameoff, v) \<in> set (node_props y). nameoff = 0" using assms(4) by auto
  from blob_nodes_at [OF assms(1-3) this] blob_tree_at(1,2) [OF assms(1-3)] assms(4-6) show ?thesis
    by (auto simp: boot_tree_ok_def)
qed

definition core_node :: "string \<Rightarrow> dt_node" where
  "core_node s = Node (map of_char s) [(0, [0, 0, 0, 1])] []"

definition cpus_node :: dt_node where
  "cpus_node = Node (map of_char ''cpus'') [] [Node (map of_char ''cpu-map'') []
     [Node (map of_char ''cluster0'') [] [core_node ''core0'', core_node ''core1''],
      Node (map of_char ''cluster1'') [] [core_node ''core0'']]]"

definition topology_mem :: mem where
  "topology_mem = blob_mem (encode (Node [] [] [cpus_node]) (map of_char ''cpu'' @ [0]))"

lemma topology_tree_ok: "boot_tree_ok topology_mem sample_bdt (\<lambda>_. map of_char ''cpu'') (Node [] [] [cpus_node])"
  unfolding topology_mem_def
  by (rule blob_boot_tree) (simp_all add: length_encode struct_bytes_def length_token_bytes token_size_def token_ok_def
      cpus_node_def core_node_def sample_bdt_def)

theorem machine_parse_cpu_topology_records_witness:
  "\<exists>t. machine_parse_cpu_topology (sample_env\<lparr>mpidr_el1 := 1\<rparr>) topology_mem sample_bdt zero_node
       \<lparr>baseNode = zero_node, currentNode = zero_node, it_index = 0, it_count = 0\<rparr> reset_state =
         Inr (KERN_RETURN_SUCCESS, reset_state\<lparr>topology := t\<rparr>) \<and>
     ti_num_clusters t = 2 \<and> ti_num_cpus t = 3 \<and> ti_boot_cpu t = Some 1 \<and> ti_boot_cluster t = Some 0 \<and>
     ti_cpus t ! 2 = \<lparr>tc_phys_id = 0, tc_cpu_id = 2, tc_cluster_id = 1\<rparr>"
proof -
  let ?iter = "\<lparr>baseNode = zero_node, currentNode = zero_node, it_index = 0, it_count = 0\<rparr>"
  have path: "find_path 0 (Node [] [] [cpus_node]) [map of_char ''cpus''] = Some (8, cpus_node)"
    by (simp add: matching_def subs_start_def cpus_node_def token_size_def name_matches_def)
  have subs: "node_subs (snd (cpu_map_node 8 cpus_node)) =
      [Node (map of_char ''cluster0'') [] [core_node ''core0'', core_node ''core1''], Node (map of_char ''cluster1'') [] [core_node ''core0'']]"
    by (simp add: cpu_map_node_def is_cpu_map_def sub_offsets_def cpus_node_def)
  have cpu: "\<forall>c \<in> set (node_subs (snd (cpu_map_node 8 cpus_node))). \<forall>y \<in> set (node_subs c). has_property (\<lambda>_. map of_char ''cpu'') ''cpu'' y"
    by (simp add: subs has_property_def core_node_def)
  have ks: "[2, 1] = map (\<lambda>c. length (node_subs c)) (node_subs (snd (cpu_map_node 8 cpus_node)))" by (simp add: subs)
  have boot: "1 = unat (ucast (MPIDR_TO_CPU_NUM (mpidr_el1 (sample_env\<lparr>mpidr_el1 := 1\<rparr>))) :: i32)" by (simp add: MPIDR_TO_CPU_NUM_def)
  have "cpu_clusters [2, 1] = [0, 0, 1]" by (simp add: cpu_clusters_def numeral_2_eq_2)
  then show ?thesis
    using machine_parse_cpu_topology_records [OF boot topology_tree_ok path cpu ks, where s = reset_state
        and junk = zero_node and junk_iter = ?iter]
    by (auto simp: reset_state_def)
qed

end
