(* ===== verification/Fdt_Update.thy ===== *)
theory Fdt_Update
  imports Machine
begin

section \<open>Writing a property's value\<close>

text \<open>
  \<^verbatim>\<open>DeviceTreeLookupRegValue\<close> swaps the cells of a \<^verbatim>\<open>reg\<close> inside the tree. What is left is again the
  encoding of a tree, the one with that value exchanged, if the structure and the strings block do not overlap:
  the header, every other token and the strings keep their bytes. So the lookups that follow read the tree they
  would have read before, but for this one property.
\<close>

subsection \<open>Bytes outside a range\<close>

definition same_outside :: "mem \<Rightarrow> mem \<Rightarrow> addr \<Rightarrow> nat \<Rightarrow> bool" where
  "same_outside m m' p k \<longleftrightarrow> (\<forall>b. k \<le> unat (b - p) \<longrightarrow> m' b = m b)"

lemma offset_apart:
  fixes fdt :: addr
  assumes "j + k \<le> i \<or> i < j" "i < 2 ^ 33" "j + k < 2 ^ 33"
  shows "k \<le> unat (fdt + word_of_nat i - (fdt + word_of_nat j))"
proof (rule ccontr)
  define x where "x = fdt + word_of_nat i - (fdt + word_of_nat j)"
  assume "\<not> k \<le> unat (fdt + word_of_nat i - (fdt + word_of_nat j))"
  then have x: "unat x < k" by (simp add: x_def)
  have "word_of_nat i = (word_of_nat (j + unat x) :: addr)" by (simp add: x_def)
  then have "unat (word_of_nat i :: addr) = unat (word_of_nat (j + unat x) :: addr)" by simp
  then have "i = j + unat x" using assms(2,3) x by (simp add: unat_of_nat_no_wrap del: of_nat_add)
  with x assms(1) show False by simp
qed

lemma same_stored:
  fixes fdt :: addr
  assumes "same_outside m m' (fdt + word_of_nat j) k" "stored m (fdt + word_of_nat i) bs"
    and "j + k \<le> i \<or> i + length bs \<le> j" "i + length bs < 2 ^ 33" "j + k < 2 ^ 33"
  shows "stored m' (fdt + word_of_nat i) bs"
  unfolding stored_nth
proof (intro allI impI)
  fix l
  assume l: "l < length bs"
  have "fdt + word_of_nat i + word_of_nat l = fdt + (word_of_nat (i + l) :: addr)" by (simp add: add.assoc)
  moreover have "m' (fdt + word_of_nat (i + l)) = m (fdt + word_of_nat (i + l))"
    using assms(1) offset_apart [of j k "i + l" fdt] assms(3-5) l by (auto simp: same_outside_def simp del: of_nat_add)
  ultimately show "m' (fdt + word_of_nat i + word_of_nat l) = bs ! l"
    using assms(2) l by (simp add: stored_nth add.assoc)
qed


lemma same_header:
  assumes "same_outside m m' (fdt + word_of_nat j) k" "40 \<le> j" "j + k < 2 ^ 33"
  shows "fdt_magic m' fdt = fdt_magic m fdt" "fdt_totalsize m' fdt = fdt_totalsize m fdt"
    "fdt_off_dt_struct m' fdt = fdt_off_dt_struct m fdt" "fdt_off_dt_strings m' fdt = fdt_off_dt_strings m fdt"
    "fdt_off_mem_rsvmap m' fdt = fdt_off_mem_rsvmap m fdt" "fdt_version m' fdt = fdt_version m fdt"
    "fdt_last_comp_version m' fdt = fdt_last_comp_version m fdt" "fdt_size_dt_strings m' fdt = fdt_size_dt_strings m fdt"
    "fdt_size_dt_struct m' fdt = fdt_size_dt_struct m fdt"
proof -
  have "m' (fdt + word_of_nat i) = m (fdt + word_of_nat i)" if "i < 40" for i
    using assms offset_apart [of j k i fdt] that by (simp add: same_outside_def)
  then have "\<forall>i \<in> set [0 ..< 40]. m' (fdt + word_of_nat i) = m (fdt + word_of_nat i)" by simp
  then have b: "\<And>i. i \<in> {0, 4, 8, 12, 16, 20, 24, 32, 36} \<Longrightarrow> fdt32 m' (fdt + i) = fdt32 m (fdt + i)"
    by (auto simp: upt_rec fdt32_def add.assoc)
  from b show "fdt_magic m' fdt = fdt_magic m fdt" "fdt_totalsize m' fdt = fdt_totalsize m fdt"
    "fdt_off_dt_struct m' fdt = fdt_off_dt_struct m fdt" "fdt_off_dt_strings m' fdt = fdt_off_dt_strings m fdt"
    "fdt_off_mem_rsvmap m' fdt = fdt_off_mem_rsvmap m fdt" "fdt_version m' fdt = fdt_version m fdt"
    "fdt_last_comp_version m' fdt = fdt_last_comp_version m fdt" "fdt_size_dt_strings m' fdt = fdt_size_dt_strings m fdt"
    "fdt_size_dt_struct m' fdt = fdt_size_dt_struct m fdt"
    using b [of 0] by (simp_all add: fdt_magic_def fdt_totalsize_def fdt_off_dt_struct_def fdt_off_dt_strings_def fdt_off_mem_rsvmap_def
      fdt_version_def fdt_last_comp_version_def fdt_size_dt_strings_def fdt_size_dt_struct_def)
qed

lemma struct_after_header:
  assumes "tree_ok m fdt" "17 \<le> fdt_version m fdt"
  shows "40 \<le> unat (fdt_off_dt_struct m fdt)"
proof -
  have "fdt_header_size m fdt = 40" using assms(2) by (auto simp: fdt_header_size_def fdt_header_size_of_def word_le_nat_alt)
  with assms(1) show ?thesis
    by (auto simp: tree_ok_def fdt_check_header_def Let_def check_block_def check_off_def word_le_nat_alt split: if_splits)
qed

text \<open>A write inside the structure block.\<close>

definition struct_write :: "mem \<Rightarrow> mem \<Rightarrow> addr \<Rightarrow> nat \<Rightarrow> nat \<Rightarrow> bool" where
  "struct_write m m' fdt j k \<longleftrightarrow> tree_ok m fdt \<and> 17 \<le> fdt_version m fdt \<and> fits m fdt j k \<and>
     same_outside m m' (struct_at m fdt j) k"

lemma struct_writeD:
  assumes "struct_write m m' fdt j k"
  shows "tree_ok m fdt" "17 \<le> fdt_version m fdt" "fits m fdt j k"
    "same_outside m m' (fdt + word_of_nat (unat (fdt_off_dt_struct m fdt) + j)) k"
  using assms by (simp_all add: struct_write_def struct_at_def)

lemma struct_write_bounds:
  assumes "struct_write m m' fdt j k"
  shows "unat (fdt_off_dt_struct m fdt) + j + k < 2 ^ 31" "unat (fdt_totalsize m fdt) < 2 ^ 31"
proof -
  have "unat (fdt_totalsize m fdt) < 2 ^ 31" using struct_writeD(1) [OF assms] by (simp add: tree_ok_def word_less_nat_alt)
  then show "unat (fdt_off_dt_struct m fdt) + j + k < 2 ^ 31" "unat (fdt_totalsize m fdt) < 2 ^ 31"
    using struct_writeD(3) [OF assms] by (simp_all add: fits_def)
qed

lemma header_same:
  assumes "struct_write m m' fdt j k"
  shows "fdt_off_dt_struct m' fdt = fdt_off_dt_struct m fdt" "fdt_off_dt_strings m' fdt = fdt_off_dt_strings m fdt"
  "fdt_size_dt_strings m' fdt = fdt_size_dt_strings m fdt" "fdt_version m' fdt = fdt_version m fdt"
  "fdt_check_header m' fdt = fdt_check_header m fdt" "fdt_totalsize m' fdt = fdt_totalsize m fdt"
  "fdt_size_dt_struct m' fdt = fdt_size_dt_struct m fdt"
proof -
  have "40 \<le> unat (fdt_off_dt_struct m fdt) + j" "unat (fdt_off_dt_struct m fdt) + j + k < 2 ^ 33"
    using struct_after_header [OF struct_writeD(1,2) [OF assms]] struct_write_bounds(1) [OF assms] by simp_all
  note h = same_header [OF struct_writeD(4) [OF assms] this]
  show "fdt_off_dt_struct m' fdt = fdt_off_dt_struct m fdt" "fdt_off_dt_strings m' fdt = fdt_off_dt_strings m fdt"
    "fdt_size_dt_strings m' fdt = fdt_size_dt_strings m fdt" "fdt_version m' fdt = fdt_version m fdt"
    "fdt_totalsize m' fdt = fdt_totalsize m fdt" "fdt_size_dt_struct m' fdt = fdt_size_dt_struct m fdt"
    by (rule h)+
  show "fdt_check_header m' fdt = fdt_check_header m fdt"
    by (simp only: fdt_check_header_def fdt_header_size_def h)
qed

lemma tree_same:
  assumes "struct_write m m' fdt j k"
  shows "tree_ok m' fdt" "fits m' fdt = fits m fdt" "struct_at m' fdt = struct_at m fdt"
  using struct_writeD(1) [OF assms] by (simp_all add: tree_ok_def fits_def struct_at_def header_same [OF assms] fun_eq_iff)

lemma token_same:
  assumes w: "struct_write m m' fdt j k" and "token_at m fdt n t" "n + token_size t \<le> j \<or> j + k \<le> n"
  shows "token_at m' fdt n t"
proof -
  let ?bs = "be32 (token_tag t) @ token_body t" and ?o = "unat (fdt_off_dt_struct m fdt)"
  have len: "length ?bs \<le> token_size t" by (simp add: token_size_def)
  from assms(2) have at: "fits m fdt n (token_size t)" "stored m (fdt + word_of_nat (?o + n)) ?bs" by (simp_all add: token_at_def struct_at_def)
  have "?o + n + length ?bs < 2 ^ 33" using at(1) len struct_write_bounds(2) [OF w] by (simp add: fits_def)
  then have "stored m' (fdt + word_of_nat (?o + n)) ?bs"
    using struct_write_bounds(1) [OF w] assms(3) len by (intro same_stored [OF struct_writeD(4) [OF w] at(2)]) auto
  with assms(2) show ?thesis by (simp add: token_at_def tree_same [OF w]) (simp add: struct_at_def)
qed

lemma tokens_same:
  assumes "struct_write m m' fdt j k"
  shows "tokens_at m fdt n ts \<Longrightarrow> n + tokens_size ts \<le> j \<or> j + k \<le> n \<Longrightarrow> tokens_at m' fdt n ts"
proof (induction ts arbitrary: n)
  case (Cons t ts)
  then show ?case using token_same [OF assms, of n t] Cons.IH [of "n + token_size t"] by auto
qed simp

subsection \<open>The tree after the write\<close>

text \<open>The structure block does not overlap the strings block.\<close>

definition blocks_apart :: "mem \<Rightarrow> addr \<Rightarrow> bool" where
  "blocks_apart m fdt \<longleftrightarrow>
     unat (fdt_off_dt_struct m fdt) + unat (fdt_size_dt_struct m fdt) \<le> unat (fdt_off_dt_strings m fdt) \<or>
     unat (fdt_off_dt_strings m fdt) + unat (fdt_size_dt_strings m fdt) \<le> unat (fdt_off_dt_struct m fdt)"

lemma string_same:
  assumes w: "struct_write m m' fdt j k" and "blocks_apart m fdt" "string_in m fdt off s"
  shows "string_in m' fdt off s"
proof -
  let ?o = "unat (fdt_off_dt_struct m fdt)" and ?p = "unat (fdt_off_dt_strings m fdt)"
  from assms(3) have st: "0 \<notin> set s" "unat off + length s < unat (fdt_size_dt_strings m fdt)"
    "stored m (fdt + word_of_nat (?p + unat off)) (s @ [0])" by (simp_all add: string_in_def)
  have "\<not> fdt_version m fdt < 0x11" using struct_writeD(2) [OF w] by (simp add: not_less)
  then have "j + k \<le> unat (fdt_size_dt_struct m fdt)" using struct_writeD(3) [OF w] by (simp add: fits_def)
  then have "?o + j + k \<le> ?p + unat off \<or> ?p + unat off + length (s @ [0]) \<le> ?o + j"
    using assms(2) st(2) by (auto simp: blocks_apart_def)
  moreover have "?p + unat off + length (s @ [0]) < 2 ^ 33"
    using check_header_strings(1) [OF struct_writeD(1) [OF w]] struct_write_bounds(2) [OF w] st(2) by simp
  ultimately have "stored m' (fdt + word_of_nat (?p + unat off)) (s @ [0])"
    using struct_write_bounds(1) [OF w] by (intro same_stored [OF struct_writeD(4) [OF w] st(3)]) auto
  with st show ?thesis by (simp add: string_in_def header_same [OF w])
qed

lemma property_written:
  assumes "tree_ok m fdt" "17 \<le> fdt_version m fdt"
    and at: "tokens_at m fdt 0 (ts @ Property nameoff v # us)"
    and same: "same_outside m m' (struct_at m fdt (tokens_size ts) + 12) (length v)"
    and v': "stored m' (struct_at m fdt (tokens_size ts) + 12) v'" "length v' = length v"
  shows "struct_write m m' fdt (tokens_size ts + 12) (length v)" "tokens_at m' fdt 0 (ts @ Property nameoff v' # us)"
proof -
  let ?n = "tokens_size ts"
  have tok: "token_at m fdt ?n (Property nameoff v)" using at by simp
  have size: "token_size (Property nameoff v') = token_size (Property nameoff v)" using v'(2) by (simp add: token_size_def)
  have pos: "struct_at m fdt (?n + 12) = struct_at m fdt ?n + 12" by (simp add: struct_at_add)
  have fit: "12 + length v \<le> token_size (Property nameoff v)" using token_size_bounds(1) [of "Property nameoff v"] by simp
  with tok have "fits m fdt (?n + 12) (length v)" by (intro fits_sub) (auto simp: token_at_def)
  with assms(1,2) same pos show w: "struct_write m m' fdt (?n + 12) (length v)" by (simp add: struct_write_def)
  have before: "tokens_at m' fdt 0 ts" using tokens_same [OF w, of 0 ts] at by simp
  have after: "tokens_at m' fdt (?n + token_size (Property nameoff v)) us" using tokens_same [OF w] at fit by simp
  let ?hd = "be32 FDT_PROP @ be32 (word_of_nat (length v)) @ be32 nameoff" and ?o = "unat (fdt_off_dt_struct m fdt)"
  have "stored m (fdt + word_of_nat (?o + ?n)) ?hd" using tok by (simp add: token_at_def struct_at_def)
  then have "stored m' (fdt + word_of_nat (?o + ?n)) ?hd"
    using struct_write_bounds(1) [OF w] by (intro same_stored [OF struct_writeD(4) [OF w]]) auto
  then have "stored m' (struct_at m fdt ?n) ?hd" by (simp only: struct_at_def)
  then have "token_at m' fdt ?n (Property nameoff v')"
    using tok v' size by (simp add: token_at_def tree_same [OF w] token_ok_def add.assoc)
  with before after size show "tokens_at m' fdt 0 (ts @ Property nameoff v' # us)" by simp
qed

text \<open>What holds of all names and strings of a tree is a matter of its tokens.\<close>

lemma tree_nodes_tokens:
  "(\<forall>(off, x) \<in> set (tree_nodes n root). P (node_name x) \<and> (\<forall>(nameoff, v) \<in> set (node_props x). Q nameoff)) \<longleftrightarrow>
     (\<forall>t \<in> set (flatten root). case t of Begin_node name \<Rightarrow> P name | Property nameoff v \<Rightarrow> Q nameoff | _ \<Rightarrow> True)"
  "(\<forall>(off, x) \<in> set (forest_nodes n xs). P (node_name x) \<and> (\<forall>(nameoff, v) \<in> set (node_props x). Q nameoff)) \<longleftrightarrow>
     (\<forall>t \<in> set (concat (map flatten xs)). case t of Begin_node name \<Rightarrow> P name | Property nameoff v \<Rightarrow> Q nameoff | _ \<Rightarrow> True)"
proof (induction n root and n xs rule: tree_nodes_forest_nodes.induct)
  case (1 n name properties subs)
  then show ?case by (simp add: ball_Un case_prod_unfold)
next
  case (3 n x xs)
  then show ?case by (simp add: ball_Un)
qed simp

subsection \<open>Where a property is\<close>

abbreviation property_tokens :: "(u32 \<times> u8 list) list \<Rightarrow> token list" where
  "property_tokens ps \<equiv> map (\<lambda>(nameoff, v). Property nameoff v) ps"

lemma find_property_split:
  "find_property P k ps = Some (off, v) \<Longrightarrow>
   \<exists>ps1 nameoff ps2. ps = ps1 @ (nameoff, v) # ps2 \<and> off = k + tokens_size (property_tokens ps1)"
proof (induction ps arbitrary: k)
  case (Cons p ps)
  obtain no w where p: "p = (no, w)" by (rule prod.exhaust)
  show ?case
  proof (cases "P no")
    case True
    with Cons.prems p show ?thesis by (intro exI [of _ "[]"]) simp
  next
    case False
    with Cons.prems p Cons.IH [of "k + token_size (Property no w)"] obtain ps1 nameoff ps2 where
      "ps = ps1 @ (nameoff, v) # ps2" "off = k + token_size (Property no w) + tokens_size (property_tokens ps1)" by auto
    then show ?thesis by (intro exI [of _ "p # ps1"]) (simp add: p add.assoc)
  qed
qed simp

lemma getprop_split:
  assumes "tree_ok m fdt" "17 \<le> fdt_version m fdt" "tokens_at m fdt n (flatten x)"
    and "\<forall>(nameoff, v) \<in> set (node_props x). string_in m fdt nameoff (names nameoff)"
    and "map_of (map (\<lambda>(nameoff, v). (names nameoff, v)) (node_props x)) s = Some v"
  obtains ps1 nameoff ps2 where "node_props x = ps1 @ (nameoff, v) # ps2"
    "fdt_getprop m fdt (word_of_nat n) s =
       Some (Inr (struct_at m fdt (props_start n x + tokens_size (property_tokens ps1)) + 12, word_of_nat (length v)))"
proof -
  from find_property_names [OF assms(1,2,4) subs_at(2) [OF assms(3)], of s] assms(5) obtain off where
    off: "find_property (\<lambda>nameoff. fdt_string_eq m fdt nameoff s) (props_start n x) (node_props x) = Some (off, v)"
    by (auto simp: props_start_def)
  from find_property_split [OF this] obtain ps1 nameoff ps2 where
    "node_props x = ps1 @ (nameoff, v) # ps2" "off = props_start n x + tokens_size (property_tokens ps1)" by blast
  with getprop_tree [OF assms(1,3), of s] off that show thesis by simp
qed

lemma node_offsets_append:
  "node_offsets n (xs @ ys) = node_offsets n xs @ node_offsets (n + tokens_size (concat (map flatten xs))) ys"
  by (induction xs arbitrary: n) (simp_all add: add.assoc)

lemma matching_split:
  assumes "matching s n xs = (off, x) # rest"
  shows "\<exists>ys zs. xs = ys @ x # zs \<and> off = n + tokens_size (concat (map flatten ys)) \<and> name_matches s (node_name x)"
  using assms
proof (induction xs arbitrary: n)
  case (Cons y xs)
  show ?case
  proof (cases "name_matches s (node_name y)")
    case True
    with Cons.prems show ?thesis by (intro exI [of _ "[]"] exI [of _ xs]) (simp add: matching_def)
  next
    case False
    with Cons.prems have "matching s (n + tokens_size (flatten y)) xs = (off, x) # rest" by (simp add: matching_def)
    from Cons.IH [OF this] obtain ys zs where "xs = ys @ x # zs" "name_matches s (node_name x)"
      "off = n + tokens_size (flatten y) + tokens_size (concat (map flatten ys))" by blast
    then show ?thesis by (intro exI [of _ "y # ys"] exI [of _ zs]) (auto simp: add.assoc)
  qed
qed (simp add: matching_def)

lemma matching_other:
  assumes "\<not> name_matches s (node_name x)" "node_name x' = node_name x" "tokens_size (flatten x') = tokens_size (flatten x)"
  shows "matching s n (ys @ x' # zs) = matching s n (ys @ x # zs)"
  using assms by (simp add: matching_def node_offsets_append)

lemma name_matches_hd: "name_matches s name \<Longrightarrow> s \<noteq> [] \<Longrightarrow> hd name = hd s"
  by (cases name; cases s) (auto simp: name_matches_def)

text \<open>The subnode of the root with one value exchanged.\<close>

lemma flatten_exchange:
  assumes "node_subs root = ys @ x # zs" "node_props x = ps1 @ (nameoff, v) # ps2"
  defines "x' \<equiv> \<lambda>w. Node (node_name x) (ps1 @ (nameoff, w) # ps2) (node_subs x)"
  obtains ts us where "flatten root = ts @ Property nameoff v # us"
    "\<forall>w. flatten (Node (node_name root) (node_props root) (ys @ x' w # zs)) = ts @ Property nameoff w # us"
    "tokens_size ts = props_start (subs_start 0 root + tokens_size (concat (map flatten ys))) x + tokens_size (property_tokens ps1)"
proof
  let ?ts = "Begin_node (node_name root) # property_tokens (node_props root) @ concat (map flatten ys) @
      Begin_node (node_name x) # property_tokens ps1"
  let ?us = "property_tokens ps2 @ concat (map flatten (node_subs x)) @ End_node # concat (map flatten zs) @ [End_node]"
  show "flatten root = ?ts @ Property nameoff v # ?us"
    using assms(1,2) by (cases root; cases x) simp
  show "\<forall>w. flatten (Node (node_name root) (node_props root) (ys @ x' w # zs)) = ?ts @ Property nameoff w # ?us"
    by (simp add: x'_def)
  show "tokens_size ?ts = props_start (subs_start 0 root + tokens_size (concat (map flatten ys))) x + tokens_size (property_tokens ps1)"
    by (simp add: props_start_def subs_start_def add.assoc)
qed


lemma boot_tree_tokens:
  "boot_tree_ok m bdt names root \<longleftrightarrow> tree_ok m (bdt_base bdt) \<and> 17 \<le> fdt_version m (bdt_base bdt) \<and>
     tokens_at m (bdt_base bdt) 0 (flatten root @ [End]) \<and> bdt_initialised bdt \<noteq> 0 \<and>
     (\<forall>t \<in> set (flatten root). case t of Begin_node name \<Rightarrow> length name < kPropNameLength
        | Property nameoff v \<Rightarrow> string_in m (bdt_base bdt) nameoff (names nameoff) | _ \<Rightarrow> True)"
  unfolding tree_nodes_tokens(1) [where n = 0, symmetric] boot_tree_ok_def strings_ok_def by fast

text \<open>
  A write into the value of a property of a subnode of the root leaves a readable tree, with other subnodes
  of the root where they were.
\<close>

lemma exchange_tokens:
  assumes tree: "boot_tree_ok m bdt names root" and apart: "blocks_apart m (bdt_base bdt)"
    and ts: "flatten root = ts @ Property nameoff v # us"
    and same: "same_outside m m' (struct_at m (bdt_base bdt) (tokens_size ts) + 12) (length v)"
  obtains v' where "length v' = length v"
    "\<forall>root'. flatten root' = ts @ Property nameoff v' # us \<longrightarrow> boot_tree_ok m' bdt names root'"
proof
  let ?fdt = "bdt_base bdt" and ?p = "struct_at m (bdt_base bdt) (tokens_size ts) + 12"
  let ?v = "bytes_at m' ?p (length v)"
  let ?ok = "\<lambda>m t. case t of Begin_node name \<Rightarrow> length name < kPropNameLength
      | Property nameoff v \<Rightarrow> string_in m ?fdt nameoff (names nameoff) | _ \<Rightarrow> True"
  show len: "length ?v = length v" by (simp add: bytes_at_def)
  have st: "stored m' ?p ?v" by (simp add: stored_def bytes_at_def)
  have all: "tokens_at m ?fdt 0 (ts @ Property nameoff v # us @ [End])" using tree ts by (simp add: boot_tree_ok_def)
  have ok: "tree_ok m ?fdt" "17 \<le> fdt_version m ?fdt" using tree by (simp_all add: boot_tree_ok_def)
  note written = property_written [OF ok all same st len]
  note string = string_same [OF written(1) apart]
  have mono: "?ok m' t" if "?ok m t" for t using that string by (cases t) simp_all
  have "\<forall>t \<in> set (ts @ Property nameoff v # us). ?ok m t" using tree unfolding boot_tree_tokens ts by simp
  then have "\<forall>t \<in> set (ts @ Property nameoff ?v # us). ?ok m' t" using mono string by (simp add: ball_Un)
  with tree tree_same(1) [OF written(1)] header_same(4) [OF written(1)] written(2)
  have "boot_tree_ok m' bdt names root'" if "flatten root' = ts @ Property nameoff ?v # us" for root'
    unfolding boot_tree_tokens that by simp
  then show "\<forall>root'. flatten root' = ts @ Property nameoff ?v # us \<longrightarrow> boot_tree_ok m' bdt names root'" by blast
qed

lemma exchange_value:
  assumes tree: "boot_tree_ok m bdt names root" and apart: "blocks_apart m (bdt_base bdt)"
    and path: "find_path 0 root [s] = Some (off, x)" and s: "s \<noteq> []"
    and val: "map_of (map (\<lambda>(nameoff, v). (names nameoff, v)) (node_props x)) pname = Some v"
  obtains p where "fdt_getprop m (bdt_base bdt) (word_of_nat off) pname = Some (Inr (p, word_of_nat (length v)))" "stored m p v"
    "\<forall>m'. same_outside m m' p (length v) \<longrightarrow> (\<exists>root'. boot_tree_ok m' bdt names root' \<and> node_props root' = node_props root \<and>
       (\<forall>t ss. t \<noteq> [] \<and> hd t \<noteq> hd s \<longrightarrow> find_path 0 root' (t # ss) = find_path 0 root (t # ss)))"
proof -
  let ?fdt = "bdt_base bdt"
  note at = boot_treeD [OF tree find_path_in_tree [OF tree_nodes_root path]]
  obtain ps1 nameoff ps2 where ps: "node_props x = ps1 @ (nameoff, v) # ps2" "fdt_getprop m ?fdt (word_of_nat off) pname =
      Some (Inr (struct_at m ?fdt (props_start off x + tokens_size (property_tokens ps1)) + 12, word_of_nat (length v)))"
    by (rule getprop_split [OF at(1-4) val])
  obtain rest where "matching s (subs_start 0 root) (node_subs root) = (off, x) # rest"
    using path by (auto split: list.splits)
  from matching_split [OF this] obtain ys zs where ys: "node_subs root = ys @ x # zs"
    "off = subs_start 0 root + tokens_size (concat (map flatten ys))" "name_matches s (node_name x)" by blast
  let ?x = "\<lambda>w. Node (node_name x) (ps1 @ (nameoff, w) # ps2) (node_subs x)"
  let ?root = "\<lambda>w. Node (node_name root) (node_props root) (ys @ ?x w # zs)"
  obtain ts us where ts: "flatten root = ts @ Property nameoff v # us" "\<forall>w. flatten (?root w) = ts @ Property nameoff w # us"
    "tokens_size ts = props_start off x + tokens_size (property_tokens ps1)"
    unfolding ys(2) by (rule flatten_exchange [OF ys(1) ps(1)])
  let ?p = "struct_at m ?fdt (tokens_size ts) + 12"
  have "fdt_getprop m ?fdt (word_of_nat off) pname = Some (Inr (?p, word_of_nat (length v)))" using ps(2) ts(3) by simp
  moreover have "stored m ?p v" using tree by (simp add: boot_tree_ok_def ts(1) token_at_def add.assoc)
  moreover have "\<exists>root'. boot_tree_ok m' bdt names root' \<and> node_props root' = node_props root \<and>
      (\<forall>t ss. t \<noteq> [] \<and> hd t \<noteq> hd s \<longrightarrow> find_path 0 root' (t # ss) = find_path 0 root (t # ss))"
    if same: "same_outside m m' ?p (length v)" for m'
  proof -
    obtain v' where v': "length v' = length v" "\<forall>root'. flatten root' = ts @ Property nameoff v' # us \<longrightarrow> boot_tree_ok m' bdt names root'"
      by (rule exchange_tokens [OF tree apart ts(1) same])
    have "tokens_size (flatten (?x v')) = tokens_size (flatten x)" using ps(1) v'(1) by (cases x) (simp add: token_size_def)
    moreover have "\<not> name_matches t (node_name x)" if "t \<noteq> []" "hd t \<noteq> hd s" for t
      using name_matches_hd [OF ys(3) s] name_matches_hd [of t "node_name x"] that by auto
    ultimately have "find_path 0 (?root v') (t # ss) = find_path 0 root (t # ss)" if "t \<noteq> []" "hd t \<noteq> hd s" for t ss
      using that matching_other [of t x "?x v'"] by (simp add: subs_start_def ys(1))
    with v'(2) ts(2) show ?thesis by (intro exI [of _ "?root v'"]) simp
  qed
  ultimately show thesis using that by blast
qed

lemma lookup_memory:
  assumes "boot_tree_ok m bdt names root" "find_path 0 root [map of_char ''memory''] = Some (off, x)"
  shows "DeviceTreeLookupNode m bdt (map of_char ''/memory'') node = found off x node"
proof -
  have names: "path_names (map of_char ''/memory'') = [map of_char ''memory'']"
    by (subst path_names.simps, simp, subst path_names.simps, simp)
  from lookup_node_tree [of m bdt root "map of_char ''/memory''" node, unfolded names assms(2)] assms(1) show ?thesis
    by (simp add: boot_tree_ok_def)
qed

lemma platform_memory_tree:
  assumes tree: "boot_tree_ok m bdt names root" and apart: "blocks_apart m (bdt_base bdt)"
    and path: "find_path 0 root [map of_char ''memory''] = Some (off, x)"
    and reg: "map_of (map (\<lambda>(nameoff, v). (names nameoff, v)) (node_props x)) (map of_char ''reg'') = Some (be64 base @ be64 sz @ extra)"
    and extra: "length extra < 2 ^ 30"
  shows "\<exists>m' root'. platform_get_memory m bdt node = Inr ((base, sz), m') \<and> boot_tree_ok m' bdt names root' \<and> node_props root' = node_props root \<and>
     (\<forall>s ss. s \<noteq> [] \<and> hd s \<noteq> of_char CHR ''m'' \<longrightarrow> find_path 0 root' (s # ss) = find_path 0 root (s # ss))"
proof -
  let ?v = "be64 base @ be64 sz @ extra"
  have len: "length ?v = 16 + length extra" and eight: "length (be64 w) = 8" for w by (simp_all add: be64_def)
  obtain p where p: "fdt_getprop m (bdt_base bdt) (word_of_nat off) (map of_char ''reg'') = Some (Inr (p, word_of_nat (length ?v)))" "stored m p ?v"
    "\<forall>m'. same_outside m m' p (length ?v) \<longrightarrow> (\<exists>root'. boot_tree_ok m' bdt names root' \<and> node_props root' = node_props root \<and>
       (\<forall>t ss. t \<noteq> [] \<and> hd t \<noteq> hd (map of_char ''memory'') \<longrightarrow> find_path 0 root' (t # ss) = find_path 0 root (t # ss)))"
    by (rule exchange_value [OF tree apart path _ reg]) simp_all
  have "same_outside m (swap_cells 4 p m) p (length ?v)"
    unfolding same_outside_def len by (auto intro: swap_cells_frame)
  moreover from p(2) have "stored m p (be64 base)" "stored m (p + 8) (be64 sz)" by (simp_all add: eight)
  then have num: "fdt64 m p = base" "fdt64 m (p + 8) = sz" by (simp_all add: fdt64_be64)
  have "0 \<le> sint (word_of_nat (length ?v) :: i32)" using sint_word_nat [of "length ?v"] extra by (simp only: len) simp
  then have "DeviceTreeLookupRegValue m bdt (describe off x node) = Inr (Some (base, sz), swap_cells 4 p m)"
    using reg_value [of m bdt "describe off x node" p] p(1) num by simp
  moreover have "DeviceTreeLookupNode m bdt (map of_char ''/memory'') node = Inr (kDeviceTreeSuccess, describe off x node)"
    using lookup_memory [OF tree path] boot_treeD(5) [OF tree find_path_in_tree [OF tree_nodes_root path]] by (simp add: found_def)
  ultimately show ?thesis
    using p(3) unfolding platform_get_memory_def by simp
qed

end
