(* ===== verification/Boot.thy ===== *)
theory Boot
  imports Panic Fdt_Update
begin

section \<open>The boot sequence\<close>

text \<open>
  \<^verbatim>\<open>kernel_init\<close> and the kernel thread of \<^verbatim>\<open>kern/main.c\<close>: the order in which the parts of the kernel are
  brought up, with the results the code ignores ignored. The state joins those of the parts: the kernel's
  objects, the bytes of the device tree, the console and the interrupt controller. The two devices, the
  addresses of the stacks and of the thread's function and what the stack holds in variables that are not
  initialised come from the surroundings. Messages are left out.
\<close>

record boot_env =
  be_arch :: arch_env
  be_uart :: device
  be_gic :: device
  be_intstack_top :: addr
  be_excepstack_top :: addr
  be_kernel_thread_main :: addr
  be_test_thread_1 :: addr
  be_node :: DTNode
  be_iter :: DeviceTreeIterator
  be_len :: u64

record boot_state =
  bs_kernel :: kstate
  bs_mem :: mem
  bs_tree :: boot_device_tree
  bs_console :: console
  bs_gic :: gic
  bs_boot_cpu_id :: u32

abbreviation BOOT_ARGS_VERSION_1_1 :: u32 where "BOOT_ARGS_VERSION_1_1 \<equiv> 0x11"
abbreviation THREAD_PRIORITY_MAX :: i32 where "THREAD_PRIORITY_MAX \<equiv> 4"

subsection \<open>Kernel initialisation\<close>

definition relocate_fdt :: "boot_args \<Rightarrow> boot_args" where
  "relocate_fdt args =
     (if ba_fdtbase args < ba_virtbase args
      then args\<lparr>ba_fdtbase := ba_virtbase args + (ba_fdtbase args - ba_physbase args)\<rparr> else args)"

text \<open>Up to \<^verbatim>\<open>cpu_init\<close>. The boot arguments are read through two addresses of the same structure.\<close>

definition kernel_init_platform :: "boot_env \<Rightarrow> boot_args \<Rightarrow> boot_state \<Rightarrow> boot_state outcome" where
  "kernel_init_platform be args b =
     andthen (cpu_create (be_arch be) (be_intstack_top be) (be_excepstack_top be) (bs_kernel b)) (\<lambda>(boot_cpu, _, s).
     if ba_version args \<noteq> BOOT_ARGS_VERSION_1_1 then Inl (Panic ''boot_args version mismatch'')
     else let args = relocate_fdt args in
     andthen (DeviceTreeInit (bs_mem b) (ba_fdtbase args) (ba_fdtsize args) (bs_tree b)) (\<lambda>(_, bdt).
     andthen (platform_get_memory (bs_mem b) bdt (be_node be)) (\<lambda>((membase, memsize), m).
     andthen (arm_vm_init (be_arch be) args membase memsize s) (\<lambda>s.
     andthen (terminates (console_setup (be_uart be) (bs_console b))) (\<lambda>con.
     andthen (machine_parse_cpu_topology (be_arch be) m bdt (be_node be) (be_iter be) s) (\<lambda>(_, s).
     andthen (machine_get_boot_cpu_num s) (\<lambda>n.
     let boot_cpu = boot_cpu\<lparr>cpu_num := n\<rparr> in
     if machine_get_max_cpu_num s < n then Inl (AssertFailed ''boot_cpu.cpu_num <= machine_get_max_cpu_num()'')
     else andthen (cpu_register (Some boot_cpu) s) (\<lambda>(_, s).
     andthen (cpu_set_boot_cpu (Some boot_cpu) s) (\<lambda>(_, s).
     Inr (b\<lparr>bs_kernel := s, bs_mem := m, bs_tree := bdt, bs_console := con, bs_boot_cpu_id := n\<rparr>))))))))))"

text \<open>The lookup of the machine's name for the banner, and the page and map layers.\<close>

definition kernel_init_memory :: "boot_env \<Rightarrow> boot_state \<Rightarrow> boot_state outcome" where
  "kernel_init_memory be b =
     andthen (machine_get_name (bs_mem b) (bs_tree b)) (\<lambda>_.
     andthen (vm_configure (be_arch be) (bs_kernel b)) (\<lambda>s. Inr (b\<lparr>bs_kernel := s\<rparr>)))"

text \<open>From \<^verbatim>\<open>zone_init\<close> to the switch to the kernel thread, which is the result.\<close>

definition kernel_init_threads :: "boot_env \<Rightarrow> boot_state \<Rightarrow> (addr \<times> boot_state) outcome" where
  "kernel_init_threads be b =
     (let env = be_arch be; s = snd (zone_init env (bs_kernel b)) in
      andthen (machine_init_interrupts (be_gic be) env s (bs_gic b)) (\<lambda>(_, s, g).
      andthen (processor_init env s) (\<lambda>s.
      andthen (task_init env s) (\<lambda>s.
      andthen (thread_init env s) (\<lambda>s.
      andthen (kernel_thread_create env (be_len be) (be_kernel_thread_main be) THREAD_PRIORITY_MAX NULL s) (\<lambda>(thread, s).
      Inr (thread, b\<lparr>bs_kernel := thread_load_context env thread s, bs_gic := g\<rparr>)))))))"

definition kernel_init :: "boot_env \<Rightarrow> boot_args \<Rightarrow> boot_state \<Rightarrow> (addr \<times> boot_state) outcome" where
  "kernel_init be args b =
     andthen (kernel_init_platform be args b) (\<lambda>b. andthen (kernel_init_memory be b) (kernel_init_threads be))"

subsection \<open>The kernel thread\<close>

text \<open>Up to the loop; the result is the test thread.\<close>

definition kernel_thread_main :: "boot_env \<Rightarrow> boot_state \<Rightarrow> (addr \<times> boot_state) outcome" where
  "kernel_thread_main be b =
     (let env = be_arch be in
      andthen (cpu_set_flag (bs_boot_cpu_id b) CPU_FLAG_THREADING_ENABLED (bs_kernel b)) (\<lambda>(_, s).
      andthen (thread_create env (be_len be) (kernel_task s) THREAD_PRIORITY_LOW (be_test_thread_1 be) ''test_thread_1'' s)
        (\<lambda>(test_thread, s).
      andthen (machine_init_timers (be_gic be) env (bs_gic b)) (\<lambda>g.
      andthen (cpu_get_current env s) (\<lambda>_.
      Inr (test_thread, b\<lparr>bs_kernel := s, bs_gic := g\<rparr>))))))"

text \<open>One round of the loop: the test thread is destroyed once, when it has counted to five.\<close>

definition kernel_thread_round :: "arch_env \<Rightarrow> addr \<Rightarrow> i32 \<Rightarrow> i32 \<times> kstate \<Rightarrow> (i32 \<times> kstate) outcome" where
  "kernel_thread_round env test_thread counter = (\<lambda>(thread_destroyed, s).
     if 5 \<le> sint counter \<and> thread_destroyed = 0
     then andthen (thread_destroy env test_thread s) (\<lambda>s. Inr (1, s)) else Inr (thread_destroyed, s))"

subsection \<open>The parts in their order\<close>

lemma boot_tree_cong:
  "bdt_base b = bdt_base c \<Longrightarrow> bdt_initialised b \<noteq> 0 \<Longrightarrow> boot_tree_ok m c names root \<Longrightarrow> boot_tree_ok m b names root"
  by (simp add: boot_tree_ok_def)

lemma device_tree_init_tree:
  assumes "boot_tree_ok m (bdt\<lparr>bdt_base := base, bdt_initialised := ROOT_DEVICE_TREE_INIT\<rparr>) names root"
  shows "DeviceTreeInit m base sz bdt = Inr (kDeviceTreeSuccess, bdt\<lparr>bdt_base := base, bdt_size := sz,
     bdt_root := describe 0 root (bdt_root bdt), bdt_initialised := ROOT_DEVICE_TREE_INIT\<rparr>)"
proof -
  let ?b = "bdt\<lparr>bdt_initialised := ROOT_DEVICE_TREE_DEAD, bdt_base := base, bdt_size := sz\<rparr>"
  have path: "path_names [of_char CHR ''/''] = []" by (subst path_names.simps) simp
  have tree: "tree_ok m (bdt_base ?b)" "tokens_at m (bdt_base ?b) 0 (flatten root)" using assms by (simp_all add: boot_tree_ok_def)
  have "length (node_name root) < kPropNameLength" using boot_treeD(5) [OF assms tree_nodes_root] .
  with lookup_node_tree [OF tree, of "[of_char CHR ''/'']" "bdt_root bdt"] path
  have "DeviceTreeLookupNode m ?b [of_char CHR ''/''] (bdt_root bdt) = Inr (kDeviceTreeSuccess, describe 0 root (bdt_root bdt))"
    by (simp add: found_def)
  moreover have "fdt_check_header m base = 0" using tree(1) by (simp add: tree_ok_def)
  ultimately show ?thesis by (simp add: DeviceTreeInit_def Let_def)
qed

lemma get_name_root:
  assumes "boot_tree_ok m bdt names root" "has_property names ''compatible'' root" "dt_offset (bdt_root bdt) = 0"
  shows "\<exists>v. machine_get_name m bdt = Inr v"
proof -
  note at = boot_treeD [OF assms(1) tree_nodes_root]
  from assms(2) obtain v where v: "map_of (map (\<lambda>(nameoff, v). (names nameoff, v)) (node_props root)) (map of_char ''compatible'') = Some v"
    "\<exists>nameoff. (nameoff, v) \<in> set (node_props root)" by (rule has_property_value)
  from getprop_named_tree [OF at(1-4), of "map of_char ''compatible''"] v(1) obtain p where
    p: "fdt_getprop m (bdt_base bdt) 0 (map of_char ''compatible'') = Some (Inr (p, word_of_nat (length v)))" by auto
  have "length v < 2 ^ 31" using v(2) property_length [OF at(1,3)] by blast
  then have "\<not> sint (word_of_nat (length v) :: i32) < 0" using sint_word_nat [of "length v"] by simp
  with p assms(3) show ?thesis
    by (simp add: machine_get_name_def BootDeviceTreeGetRootNode_def DeviceTreeLookupPropertyValue_def)
qed

lemma small_cpu_valid:
  assumes "unat (cpu_num c) < 16"
  shows "CPU_ASSERT_VALID (Some c) = Inr c" "in_cpu_table (cpu_num c)"
proof -
  have "sint (cpu_num c) = int (unat (cpu_num c))" using assms by (intro sint_nonneg_32(2)) simp
  then have i: "sint (cpu_num c) = uint (cpu_num c)" by simp
  have "int (unat (cpu_num c)) < 16" using assms by linarith
  then have u: "uint (cpu_num c) < 16" by (simp only: uint_nat)
  then have "uint (scast (cpu_num c) :: u64) = uint (cpu_num c)"
    unfolding scast_eq using u by (simp add: i unsigned_ucast_eq take_bit_int_eq_self)
  then have "(scast (cpu_num c) :: u64) < 16" using u by (simp add: word_less_def)
  then show "CPU_ASSERT_VALID (Some c) = Inr c" by (simp add: CPU_ASSERT_VALID_def not_le)
  show "in_cpu_table (cpu_num c)" using u by (simp add: in_cpu_table_def i)
qed

lemma register_valid:
  assumes "unat (cpu_num c) < 16"
  shows "cpu_register (Some c) s = Inr (KERN_RETURN_SUCCESS, s\<lparr>cpu_data_entries := (cpu_data_entries s)(cpu_num c := c)\<rparr>)"
    "cpu_set_boot_cpu (Some c) s = Inr (KERN_RETURN_SUCCESS, s\<lparr>boot_cpu_data := c\<rparr>)"
  using small_cpu_valid [OF assms] by (simp_all add: cpu_register_def cpu_set_boot_cpu_def update_cpu_def)

lemma cpu_create_first:
  assumes "ti_num_cpus (topology s) = 0" "n = ucast (MPIDR_TO_CPU_NUM (mpidr_el1 env))" "unat n < 16"
  shows "\<exists>c. cpu_create env e i s = Inr (c, KERN_RETURN_SUCCESS, s\<lparr>cpu_data_entries := (cpu_data_entries s)(n := c)\<rparr>) \<and>
     cpu_num c = n \<and> cpu_excepstack_top c = e \<and> cpu_intstack_top c = i"
  using assms register_valid(1) [of "zero_cpu_data\<lparr>cpu_flags := 0, cpu_reset_handler := kvtop env (sym_LowResetVector env),
      cpu_excepstack_top := e, cpu_intstack_top := i, cpu_num := n\<rparr>" s]
  by (simp add: cpu_create_def machine_get_cpu_num_def Let_def)

definition cpu_part :: "kstate \<Rightarrow> topology_info \<times> (i32 \<Rightarrow> cpu_data) \<times> cpu_data" where
  "cpu_part s = (topology s, cpu_data_entries s, boot_cpu_data s)"

lemma create_pages_cpu: "cpu_part (snd (vm_page_create_pages env n p s)) = cpu_part s"
proof (induction n arbitrary: p s)
  case (Suc n)
  have "cpu_part (snd (vm_page_alloc_internal env p b s)) = cpu_part s" for p b s
    by (simp add: vm_page_alloc_internal_def Let_def vm_page_region_cursor_inc_def cpu_part_def)
  with Suc show ?case by (auto simp: split_def Let_def)
qed simp

lemma mark_kernel_cpu: "cpu_part (fold vm_page_mark_kernel is s) = cpu_part s"
  by (induction "is" arbitrary: s) (simp_all add: vm_page_mark_kernel_def Let_def cpu_part_def)

lemma memset_zero_cpu [simp]: "cpu_part (memset_zero a n s) = cpu_part s"
  by (simp add: memset_zero_def cpu_part_def)

lemma vm_configure_cpu:
  assumes "vm_configure env s = Inr s'"
  shows "cpu_part s' = cpu_part s"
proof -
  let ?n = "unat (memory_phys_size s div VM_PAGE_SIZE)"
  let ?s = "vm_page_region_init env (kernel_phys_base s) (memory_phys_size s div VM_PAGE_SIZE) s"
  have init: "cpu_part ?s = cpu_part s"
    by (simp add: vm_page_region_init_def Let_def vm_page_region_cursor_inc_def cpu_part_def)
  from assms obtain s1 where s1: "vm_page_bootstrap env (kernel_phys_base s) (memory_phys_size s) (kernel_phys_size s) s = Inr s1"
    "cpu_part s' = cpu_part s1"
    by (auto simp: vm_configure_def andthen_def Let_def vm_map_entry_create_def vm_map_create_def vm_map_init_def map_lock_defs
        cpu_part_def memset_zero_def split: sum.splits)
  from s1(1) obtain i s2 k where "vm_page_create_pages env ?n (kernel_phys_base s + VM_PAGE_SIZE) ?s = (i, s2)"
    "s1 = fold vm_page_mark_kernel [0 ..< k] s2"
    unfolding vm_page_bootstrap_def Let_def by (auto split: prod.splits if_splits)
  with create_pages_cpu [of env ?n "kernel_phys_base s + VM_PAGE_SIZE" ?s] mark_kernel_cpu [of "[0 ..< k]" s2] init s1(2)
  show ?thesis by simp
qed

definition cpus_described :: "(u32 \<Rightarrow> u8 list) \<Rightarrow> dt_node \<Rightarrow> nat list \<Rightarrow> bool" where
  "cpus_described names root ks \<longleftrightarrow> (\<exists>off x. find_path 0 root [map of_char ''cpus''] = Some (off, x) \<and>
     (\<forall>c \<in> set (node_subs (snd (cpu_map_node off x))). \<forall>y \<in> set (node_subs c). has_property names ''cpu'' y) \<and>
     ks = map (\<lambda>c. length (node_subs c)) (node_subs (snd (cpu_map_node off x))))"

text \<open>
  What the device tree says of the machine: its memory, the numbers of cpus of the clusters, and that it has a name.
\<close>

definition tree_describes :: "(u32 \<Rightarrow> u8 list) \<Rightarrow> dt_node \<Rightarrow> u64 \<Rightarrow> u64 \<Rightarrow> nat list \<Rightarrow> bool" where
  "tree_describes names root membase memsize ks \<longleftrightarrow>
     (\<exists>off x extra. find_path 0 root [map of_char ''memory''] = Some (off, x) \<and> length extra < 2 ^ 30 \<and>
        map_of (map (\<lambda>(nameoff, v). (names nameoff, v)) (node_props x)) (map of_char ''reg'') =
          Some (be64 membase @ be64 memsize @ extra)) \<and>
     cpus_described names root ks \<and> has_property names ''compatible'' root"

lemma relocate_simps [simp]:
  "boot_args_ok (relocate_fdt args) = boot_args_ok args" "boot_tables_ok env (relocate_fdt args) s = boot_tables_ok env args s"
  "ba_virtbase (relocate_fdt args) = ba_virtbase args" "ba_kernsize (relocate_fdt args) = ba_kernsize args"
  "ba_kernbase (relocate_fdt args) = ba_kernbase args"
  by (simp_all add: relocate_fdt_def boot_args_ok_def boot_tables_ok_def)

lemma boot_tables_cpu [simp]: "boot_tables_ok env args (s\<lparr>cpu_data_entries := e\<rparr>) = boot_tables_ok env args s"
  by (simp add: boot_tables_ok_def)

text \<open>The state after the first stage, as the following ones need it.\<close>

definition platform_up :: "boot_env \<Rightarrow> boot_args \<Rightarrow> u64 \<Rightarrow> nat list \<Rightarrow> u32 \<Rightarrow> kstate \<Rightarrow> bool" where
  "platform_up be args memsize ks n s \<longleftrightarrow>
     kernel_virt_base s = ba_virtbase args \<and> kernel_phys_base s = ba_kernbase args \<and>
     kernel_phys_size s = ba_kernsize args \<and> memory_phys_size s = memsize \<and>
     clusters_recorded ks (topology s) \<and> ti_num_cpus (topology s) = word_of_nat (sum_list ks) \<and>
     cpu_data_entries s n = boot_cpu_data s \<and> cpu_num (boot_cpu_data s) = n \<and>
     cpu_excepstack_top (boot_cpu_data s) = be_intstack_top be \<and> cpu_intstack_top (boot_cpu_data s) = be_excepstack_top be"

lemma read_memory_tree:
  assumes tree: "boot_tree_ok m bdt names root" and apart: "blocks_apart m (bdt_base bdt)"
    and desc: "tree_describes names root membase memsize ks"
  obtains m' root' where "platform_get_memory m bdt node = Inr ((membase, memsize), m')" "boot_tree_ok m' bdt names root'"
    "cpus_described names root' ks" "has_property names ''compatible'' root'"
proof -
  from desc [unfolded tree_describes_def] obtain off x extra where
    memory: "find_path 0 root [map of_char ''memory''] = Some (off, x)" "length extra < 2 ^ 30"
      "map_of (map (\<lambda>(nameoff, v). (names nameoff, v)) (node_props x)) (map of_char ''reg'') = Some (be64 membase @ be64 memsize @ extra)"
    and rest: "cpus_described names root ks" "has_property names ''compatible'' root" by blast
  obtain m' root' where m': "platform_get_memory m bdt node = Inr ((membase, memsize), m')"
    "boot_tree_ok m' bdt names root'" "node_props root' = node_props root"
    "\<forall>s ss. s \<noteq> [] \<and> hd s \<noteq> of_char CHR ''m'' \<longrightarrow> find_path 0 root' (s # ss) = find_path 0 root (s # ss)"
    using platform_memory_tree [OF tree apart memory(1,3,2), of node] by blast
  have "find_path 0 root' [map of_char ''cpus''] = find_path 0 root [map of_char ''cpus'']" using m'(4) by simp
  with rest m'(3) have "cpus_described names root' ks" "has_property names ''compatible'' root'"
    by (simp_all add: cpus_described_def has_property_def)
  with m'(1,2) show thesis by (rule that)
qed

lemma parse_topology_boot:
  assumes tree: "boot_tree_ok m bdt names root" and desc: "cpus_described names root ks"
    and ks: "length ks \<le> 4" "sum_list ks \<le> 16" "length (ti_cpus (topology s)) = 16" "length (ti_clusters (topology s)) = 4"
    and n: "n = ucast (MPIDR_TO_CPU_NUM (mpidr_el1 env))" "unat n < sum_list ks"
  obtains t where "machine_parse_cpu_topology env m bdt junk junk_iter s = Inr (KERN_RETURN_SUCCESS, s\<lparr>topology := t\<rparr>)"
    "clusters_recorded ks t" "ti_num_cpus t = word_of_nat (sum_list ks)" "ti_boot_cpu t = Some (unat n)"
    "tc_cpu_id (ti_cpus t ! unat n) = n" "\<not> ti_max_cpu_id t < n"
proof -
  from desc obtain off x where cpus: "find_path 0 root [map of_char ''cpus''] = Some (off, x)"
      "\<forall>c \<in> set (node_subs (snd (cpu_map_node off x))). \<forall>y \<in> set (node_subs c). has_property names ''cpu'' y"
      "ks = map (\<lambda>c. length (node_subs c)) (node_subs (snd (cpu_map_node off x)))" by (auto simp: cpus_described_def)
  from parse_topology_tree [OF tree cpus ks, of env junk junk_iter] obtain t where
    t: "clusters_recorded ks t" "cpus_recorded (ti_boot_cpu (topology s), ti_boot_cluster (topology s)) n (cpu_clusters ks) t"
      "machine_parse_cpu_topology env m bdt junk junk_iter s =
        (if ti_boot_cpu t = None then Inl (AssertFailed ''topology_info.boot_cpu != NULL'') else Inr (KERN_RETURN_SUCCESS, s\<lparr>topology := t\<rparr>))"
    by (auto simp: n(1))
  note rec = t(2) [unfolded cpus_recorded_def length_cpu_clusters]
  from rec n(2) have "ti_boot_cpu t = Some (unat n)" "tc_cpu_id (ti_cpus t ! unat n) = n" "\<not> ti_max_cpu_id t < n"
    by (auto simp: word_less_nat_alt)
  with t rec show thesis by (intro that [of t]) simp_all
qed

lemma init_platform_tree:
  assumes tree: "boot_tree_ok (bs_mem b) ((bs_tree b)\<lparr>bdt_base := ba_fdtbase (relocate_fdt args), bdt_initialised := ROOT_DEVICE_TREE_INIT\<rparr>) names root"
    and apart: "blocks_apart (bs_mem b) (ba_fdtbase (relocate_fdt args))"
    and desc: "tree_describes names root membase memsize ks" and ks: "length ks \<le> 4" "sum_list ks \<le> 16"
    and args: "ba_version args = BOOT_ARGS_VERSION_1_1" "boot_args_ok args" "boot_tables_ok (be_arch be) args (bs_kernel b)"
    and mem: "0 < membase" "0 < memsize"
    and n: "n = ucast (MPIDR_TO_CPU_NUM (mpidr_el1 (be_arch be)))" "unat n < sum_list ks"
    and top: "ti_num_cpus (topology (bs_kernel b)) = 0"
      "length (ti_cpus (topology (bs_kernel b))) = 16" "length (ti_clusters (topology (bs_kernel b))) = 4"
    and con: "console_setup (be_uart be) (bs_console b) = Some con"
  shows "\<exists>s m bdt root'. kernel_init_platform be args b =
       Inr (b\<lparr>bs_kernel := s, bs_mem := m, bs_tree := bdt, bs_console := con, bs_boot_cpu_id := n\<rparr>) \<and>
     platform_up be args memsize ks n s \<and> bdt_initialised bdt = ROOT_DEVICE_TREE_INIT \<and>
     boot_tree_ok m bdt names root' \<and> has_property names ''compatible'' root' \<and> dt_offset (bdt_root bdt) = 0"
proof -
  let ?env = "be_arch be" and ?args = "relocate_fdt args" and ?s = "bs_kernel b"
  define bdt where "bdt = (bs_tree b)\<lparr>bdt_base := ba_fdtbase ?args, bdt_size := ba_fdtsize ?args,
      bdt_root := describe 0 root (bdt_root (bs_tree b)), bdt_initialised := ROOT_DEVICE_TREE_INIT\<rparr>"
  have tree1: "boot_tree_ok (bs_mem b) bdt names root" by (rule boot_tree_cong [OF _ _ tree]) (simp_all add: bdt_def)
  have base: "bdt_base bdt = ba_fdtbase ?args" by (simp add: bdt_def)
  obtain m' root' where m': "platform_get_memory (bs_mem b) bdt (be_node be) = Inr ((membase, memsize), m')"
    "boot_tree_ok m' bdt names root'" "cpus_described names root' ks" "has_property names ''compatible'' root'"
    using apart base by (elim read_memory_tree [OF tree1 _ desc, rotated]) simp
  have small: "unat n < 16" using n(2) ks(2) by simp
  obtain c where c: "cpu_create ?env (be_intstack_top be) (be_excepstack_top be) ?s =
      Inr (c, KERN_RETURN_SUCCESS, ?s\<lparr>cpu_data_entries := (cpu_data_entries ?s)(n := c)\<rparr>)"
    "cpu_num c = n" "cpu_excepstack_top c = be_intstack_top be" "cpu_intstack_top c = be_excepstack_top be"
    using cpu_create_first [OF top(1) n(1) small] by blast
  let ?s1 = "?s\<lparr>cpu_data_entries := (cpu_data_entries ?s)(n := c)\<rparr>"
  obtain s2 where s2: "arm_vm_init ?env ?args membase memsize ?s1 = Inr s2"
    "kernel_virt_base s2 = ba_virtbase args" "kernel_phys_base s2 = ba_kernbase args" "kernel_phys_size s2 = ba_kernsize args"
    "memory_phys_size s2 = memsize" "topology s2 = topology ?s"
    using arm_vm_init_ok [of ?env ?args ?s1 membase memsize] args(2,3) mem by auto
  have len: "length (ti_cpus (topology s2)) = 16" "length (ti_clusters (topology s2)) = 4" using top(2,3) s2(6) by simp_all
  obtain t where t: "machine_parse_cpu_topology ?env m' bdt (be_node be) (be_iter be) s2 = Inr (KERN_RETURN_SUCCESS, s2\<lparr>topology := t\<rparr>)"
    "clusters_recorded ks t" "ti_num_cpus t = word_of_nat (sum_list ks)" "ti_boot_cpu t = Some (unat n)"
    "tc_cpu_id (ti_cpus t ! unat n) = n" "\<not> ti_max_cpu_id t < n"
    by (rule parse_topology_boot [OF m'(2,3) ks len n])
  let ?c = "c\<lparr>cpu_num := n\<rparr>"
  let ?s3 = "s2\<lparr>topology := t, cpu_data_entries := (cpu_data_entries s2)(n := ?c), boot_cpu_data := ?c\<rparr>"
  have "kernel_init_platform be args b =
      Inr (b\<lparr>bs_kernel := ?s3, bs_mem := m', bs_tree := bdt, bs_console := con, bs_boot_cpu_id := n\<rparr>)"
    unfolding kernel_init_platform_def
    using c(1) args(1) device_tree_init_tree [OF tree, of "ba_fdtsize ?args"] m'(1) s2(1) con t(1,4-6) register_valid [of ?c] small
    by (simp add: bdt_def [symmetric] Let_def machine_get_boot_cpu_num_def machine_get_max_cpu_num_def)
  moreover have "platform_up be args memsize ks n ?s3"
    using s2(2-5) t(2,3) c by (simp add: platform_up_def)
  moreover have "bdt_initialised bdt = ROOT_DEVICE_TREE_INIT" "dt_offset (bdt_root bdt) = 0" by (simp_all add: bdt_def)
  ultimately show ?thesis using m'(2,4) by blast
qed

subsection \<open>Properties\<close>

text \<open>C9. With valid boot arguments and a device tree that describes memory and cpus, \<^verbatim>\<open>kernel_init\<close>
  reaches the set-up of zones and threads: the console is initialised, the boot cpu is the one of the topology,
  registered in the table under its number and recorded as boot cpu, the topology has all the clusters and
  cpus of the tree, the kernel map holds the kernel image alone and the free frames are those after the image and
  the page array. The boot cpu's exception stack is the interrupt stack and the other way round.
\<close>

theorem kernel_init_brings_up:
  fixes be :: boot_env and args :: boot_args and b :: boot_state
  assumes "boot_tree_ok (bs_mem b) ((bs_tree b)\<lparr>bdt_base := ba_fdtbase (relocate_fdt args), bdt_initialised := ROOT_DEVICE_TREE_INIT\<rparr>) names root"
    and "blocks_apart (bs_mem b) (ba_fdtbase (relocate_fdt args))" "tree_describes names root membase memsize ks"
    and "length ks \<le> 4" "sum_list ks \<le> 16"
    and "ba_version args = BOOT_ARGS_VERSION_1_1" "boot_args_ok args" "boot_tables_ok (be_arch be) args (bs_kernel b)"
    and "0 < membase" "0 < memsize"
    and "n = ucast (MPIDR_TO_CPU_NUM (mpidr_el1 (be_arch be)))" "unat n < sum_list ks"
    and "ti_num_cpus (topology (bs_kernel b)) = 0" "length (ti_cpus (topology (bs_kernel b))) = 16"
      "length (ti_clusters (topology (bs_kernel b))) = 4"
    and "console_setup (be_uart be) (bs_console b) = Some con"
    and "pc = unat memsize div 4096" "0 < pc" "pc < 2 ^ 32"
    and "unat (sym_vm_page_region_lower_bound (be_arch be)) + 320 * pc < 2 ^ 64" "unat (ba_kernsize args) + 40 * pc < 4096 * pc"
    and "\<And>i. i \<le> pc \<Longrightarrow> sym_vm_page_region_lower_bound (be_arch be) + SIZEOF_VM_PAGE * word_of_nat i + OFF_PAGE_SIBLINGS \<noteq>
      sym_page_list (be_arch be)"
    and "\<And>i m. i \<le> pc \<Longrightarrow> m < 2 ^ 32 \<Longrightarrow> \<not> in_bytes (sym_vm_page_region_lower_bound (be_arch be) + SIZEOF_VM_PAGE * word_of_nat i)
      (entry_at (vm_get_kernel_map (be_arch be)) m) 40"
    and kc: "kc = (unat (ba_kernsize args) + 40 * pc) div 4096 + 1"
  shows "\<exists>b' s'. kernel_init be args b = kernel_init_threads be b' \<and> bs_kernel b' = s' \<and> bs_console b' = con \<and>
     bs_gic b' = bs_gic b \<and> bs_boot_cpu_id b' = n \<and> bdt_initialised (bs_tree b') = ROOT_DEVICE_TREE_INIT \<and>
     alloc_inv (vm_get_kernel_map (be_arch be)) 1 s' \<and>
     entries_of (vm_get_kernel_map (be_arch be)) 1 s' = [entry_of (ba_virtbase args, ba_kernsize args, VM_ALLOC_KERNEL_CODE)] \<and>
     free_frames s' = (\<lambda>i. ba_kernbase args + VM_PAGE_SIZE * word_of_nat i) ` {i. kc \<le> i \<and> i \<le> pc} \<and>
     machine_get_num_clusters s' = word_of_nat (length ks) \<and> machine_get_num_cpus s' = word_of_nat (sum_list ks) \<and>
     cpu_data_entries s' n = boot_cpu_data s' \<and> cpu_num (boot_cpu_data s') = n \<and>
     cpu_excepstack_top (boot_cpu_data s') = be_intstack_top be \<and> cpu_intstack_top (boot_cpu_data s') = be_excepstack_top be"
proof -
  from init_platform_tree [OF assms(1-16)] obtain s m bdt root' where
    s: "kernel_init_platform be args b =
       Inr (b\<lparr>bs_kernel := s, bs_mem := m, bs_tree := bdt, bs_console := con, bs_boot_cpu_id := n\<rparr>)"
      "platform_up be args memsize ks n s" "bdt_initialised bdt = ROOT_DEVICE_TREE_INIT"
      "boot_tree_ok m bdt names root'" "has_property names ''compatible'' root'" "dt_offset (bdt_root bdt) = 0" by blast
  from get_name_root [OF s(4-6)] obtain v where v: "machine_get_name m bdt = Inr v" by blast
  note up = s(2) [unfolded platform_up_def clusters_recorded_def]
  have size: "pc = unat (memory_phys_size s) div 4096" "unat (kernel_phys_size s) + 40 * pc < 4096 * pc" using up assms(17,21) by simp_all
  obtain s' where s': "vm_configure (be_arch be) s = Inr s'" "alloc_inv (vm_get_kernel_map (be_arch be)) 1 s'"
    "entries_of (vm_get_kernel_map (be_arch be)) 1 s' = [entry_of (ba_virtbase args, ba_kernsize args, VM_ALLOC_KERNEL_CODE)]"
    "free_frames s' = (\<lambda>i. ba_kernbase args + VM_PAGE_SIZE * word_of_nat i) ` {i. kc \<le> i \<and> i \<le> pc}"
    using vm_configure_ok [OF size(1) assms(18-20) size(2) assms(22,23)] up kc by auto
  let ?b = "b\<lparr>bs_mem := m, bs_tree := bdt, bs_console := con, bs_boot_cpu_id := n, bs_kernel := s'\<rparr>"
  have "kernel_init be args b = kernel_init_threads be ?b"
    by (simp add: kernel_init_def kernel_init_memory_def s(1) v s'(1))
  moreover have "topology s' = topology s" "cpu_data_entries s' = cpu_data_entries s" "boot_cpu_data s' = boot_cpu_data s"
    using vm_configure_cpu [OF s'(1)] by (simp_all add: cpu_part_def)
  ultimately show ?thesis
    using s' s(3) up by (intro exI [of _ ?b] exI [of _ s']) (simp add: machine_get_num_clusters_def machine_get_num_cpus_def)
qed

subsection \<open>A machine\<close>

lemma encode_boot_tree:
  assumes st: "stored m fdt (encode x strs)" and len: "length (encode x strs) < 2 ^ 31 - 1" "unat fdt + length (encode x strs) \<le> 2 ^ 64"
    and ok: "\<forall>t \<in> set (flatten x). token_ok t"
    and names: "\<forall>t \<in> set (flatten x). case t of Begin_node name \<Rightarrow> length name < kPropNameLength
        | Property nameoff v \<Rightarrow> \<exists>pre post. strs = pre @ names nameoff @ 0 # post \<and> length pre = unat nameoff \<and> 0 \<notin> set (names nameoff)
        | _ \<Rightarrow> True"
    and bdt: "bdt_base bdt = fdt" "bdt_initialised bdt \<noteq> 0"
  shows "boot_tree_ok m bdt names x" "blocks_apart m fdt"
proof -
  note enc = encode_tree_ok [OF st len ok]
  have string: "string_in m fdt nameoff (names nameoff)"
    if "\<exists>pre post. strs = pre @ names nameoff @ 0 # post \<and> length pre = unat nameoff \<and> 0 \<notin> set (names nameoff)" for nameoff
    using that enc(4,5) by (auto simp: string_in_def add.assoc)
  have "\<forall>t \<in> set (flatten x). case t of Begin_node name \<Rightarrow> length name < kPropNameLength
        | Property nameoff v \<Rightarrow> string_in m fdt nameoff (names nameoff) | _ \<Rightarrow> True"
  proof
    fix t
    assume "t \<in> set (flatten x)"
    from bspec [OF names this] string show "case t of Begin_node name \<Rightarrow> length name < kPropNameLength
        | Property nameoff v \<Rightarrow> string_in m fdt nameoff (names nameoff) | _ \<Rightarrow> True" by (cases t) simp_all
  qed
  with enc(1-3) bdt(2) show "boot_tree_ok m bdt names x" unfolding boot_tree_tokens bdt(1) by simp
  note h = header_stored [OF st [unfolded encode_def Let_def]]
  have "56 + length (struct_bytes x) + length strs < 2 ^ 31 - 1" using len(1) by (simp add: length_encode)
  then have "unat (word_of_nat (length (struct_bytes x)) :: u32) = length (struct_bytes x)"
    "unat (word_of_nat (56 + length (struct_bytes x)) :: u32) = 56 + length (struct_bytes x)"
    by (rule_tac unat_offset_nat, simp)+
  then show "blocks_apart m fdt" unfolding blocks_apart_def h(3,4,9) by simp
qed

definition blob_at :: "addr \<Rightarrow> u8 list \<Rightarrow> mem" where
  "blob_at base bs = (\<lambda>a. blob_mem bs (a - base))"

lemma stored_blob_at: "length bs < 2 ^ 64 \<Longrightarrow> stored (blob_at base bs) base bs"
  using stored_blob_mem [of bs] by (simp add: stored_nth blob_at_def)

definition boot_strings :: "u8 list" where
  "boot_strings = map of_char ''reg'' @ 0 # map of_char ''cpu'' @ 0 # map of_char ''compatible'' @ [0]"

definition boot_names :: "u32 \<Rightarrow> u8 list" where
  "boot_names nameoff = map of_char (if nameoff = 0 then ''reg'' else if nameoff = 4 then ''cpu'' else ''compatible'')"

definition boot_core :: "string \<Rightarrow> dt_node" where
  "boot_core s = Node (map of_char s) [(4, [0, 0, 0, 1])] []"

definition boot_cpus :: dt_node where
  "boot_cpus = Node (map of_char ''cpus'') [] [Node (map of_char ''cpu-map'') []
     [Node (map of_char ''cluster0'') [] [boot_core ''core0'', boot_core ''core1'']]]"

definition boot_root :: dt_node where
  "boot_root = Node [] [(8, map of_char ''virt'' @ [0])]
     [Node (map of_char ''memory@40000000'') [(0, be64 0x40000000 @ be64 0x1000)] [], boot_cpus]"

definition sample_boot_args :: boot_args where
  "sample_boot_args = sample_args\<lparr>ba_kernsize := 0x100\<rparr>"

definition sample_boot :: boot_state where
  "sample_boot = \<lparr>bs_kernel = reset_state, bs_mem = blob_at 0xfffffff008000000 (encode boot_root boot_strings),
     bs_tree = \<lparr>bdt_base = 0, bdt_size = 0, bdt_root = zero_node, bdt_initialised = 0\<rparr>, bs_console = sample_console,
     bs_gic = \<lparr>gic_version = 0, gic_dist_base = 0, gic_redist_base = 0, gic_max_redist_idx = 0, gic_initialised = False,
       gic_dist = 0, gic_redist = 0, gic_io = \<lparr>io_writes = [], io_reads = 0\<rparr>, icc_sre_el1 = 0, icc_pmr_el1 = 0,
       icc_igrpen1_el1 = 0, icc_sgi1r_el1 = [], cntp_tval_el0 = 0, cntp_ctl_el0 = 0\<rparr>, bs_boot_cpu_id = 0\<rparr>"

definition sample_boot_env :: boot_env where
  "sample_boot_env = \<lparr>be_arch = sample_env, be_uart = (\<lambda>_ _. 0), be_gic = (\<lambda>_ _. 0), be_intstack_top = 0xfffffff000008000,
     be_excepstack_top = 0xfffffff00000c000, be_kernel_thread_main = 0xfffffff000000400, be_test_thread_1 = 0xfffffff000000800,
     be_node = zero_node, be_iter = \<lparr>baseNode = zero_node, currentNode = zero_node, it_index = 0, it_count = 0\<rparr>, be_len = 0\<rparr>"

lemma sample_fdtbase: "ba_fdtbase (relocate_fdt sample_boot_args) = 0xfffffff008000000"
  by (simp add: relocate_fdt_def sample_boot_args_def sample_args_def)

lemma sample_boot_tree:
  "boot_tree_ok (bs_mem sample_boot) ((bs_tree sample_boot)\<lparr>bdt_base := 0xfffffff008000000, bdt_initialised := ROOT_DEVICE_TREE_INIT\<rparr>)
     boot_names boot_root" "blocks_apart (bs_mem sample_boot) 0xfffffff008000000"
proof -
  have len: "length (encode boot_root boot_strings) < 2 ^ 10"
    by (simp add: length_encode struct_bytes_def length_token_bytes token_size_def boot_root_def boot_cpus_def boot_core_def boot_strings_def be64_def)
  have st: "stored (bs_mem sample_boot) 0xfffffff008000000 (encode boot_root boot_strings)"
    using stored_blob_at len by (simp add: sample_boot_def)
  define P where "P off \<longleftrightarrow> (\<exists>pre post. boot_strings = pre @ boot_names off @ 0 # post \<and> length pre = unat off \<and> 0 \<notin> set (boot_names off))" for off
  have "P 0" unfolding P_def by (rule exI [of _ "[]"]) (simp add: boot_strings_def boot_names_def)
  moreover have "P 4" unfolding P_def by (rule exI [of _ "map of_char ''reg'' @ [0]"]) (simp add: boot_strings_def boot_names_def)
  moreover have "P 8" unfolding P_def
    by (rule exI [of _ "map of_char ''reg'' @ 0 # map of_char ''cpu'' @ [0]"]) (simp add: boot_strings_def boot_names_def)
  ultimately have names: "\<forall>t \<in> set (flatten boot_root). case t of Begin_node name \<Rightarrow> length name < kPropNameLength
      | Property nameoff v \<Rightarrow> P nameoff | _ \<Rightarrow> True"
    by (simp add: boot_root_def boot_cpus_def boot_core_def)
  have ok: "\<forall>t \<in> set (flatten boot_root). token_ok t" by (simp add: boot_root_def boot_cpus_def boot_core_def token_ok_def)
  have bound: "length (encode boot_root boot_strings) < 2 ^ 31 - 1"
    "unat (0xfffffff008000000 :: addr) + length (encode boot_root boot_strings) \<le> 2 ^ 64" using len by simp_all
  note tree = encode_boot_tree [OF st bound ok names [unfolded P_def]]
  show "boot_tree_ok (bs_mem sample_boot) ((bs_tree sample_boot)\<lparr>bdt_base := 0xfffffff008000000,
      bdt_initialised := ROOT_DEVICE_TREE_INIT\<rparr>) boot_names boot_root" by (rule tree(1)) simp_all
  show "blocks_apart (bs_mem sample_boot) 0xfffffff008000000"
    by (rule tree(2) [of "(bs_tree sample_boot)\<lparr>bdt_base := 0xfffffff008000000, bdt_initialised := ROOT_DEVICE_TREE_INIT\<rparr>"]) simp_all
qed

lemma sample_boot_describes: "tree_describes boot_names boot_root 0x40000000 0x1000 [2]"
proof -
  have "find_path 0 boot_root [map of_char ''memory''] =
      Some (28, Node (map of_char ''memory@40000000'') [(0, be64 0x40000000 @ be64 0x1000)] [])"
    by (simp add: matching_def subs_start_def boot_root_def token_size_def name_matches_def)
  moreover have "find_path 0 boot_root [map of_char ''cpus''] = Some (80, boot_cpus)"
    by (simp add: matching_def subs_start_def boot_root_def boot_cpus_def token_size_def name_matches_def be64_def)
  moreover have "node_subs (snd (cpu_map_node 80 boot_cpus)) = [Node (map of_char ''cluster0'') [] [boot_core ''core0'', boot_core ''core1'']]"
    by (simp add: cpu_map_node_def is_cpu_map_def sub_offsets_def boot_cpus_def)
  ultimately show ?thesis
    by (simp add: tree_describes_def cpus_described_def has_property_def boot_core_def boot_names_def boot_root_def del: find_path.simps)
qed

theorem kernel_init_brings_up_witness:
  "\<exists>b'. kernel_init sample_boot_env sample_boot_args sample_boot = kernel_init_threads sample_boot_env b' \<and>
     free_frames (bs_kernel b') = {0x40001000} \<and> machine_get_num_cpus (bs_kernel b') = 2 \<and>
     cpu_excepstack_top (boot_cpu_data (bs_kernel b')) = be_intstack_top sample_boot_env"
proof -
  have env: "be_arch sample_boot_env = sample_env" by (simp add: sample_boot_env_def)
  have tables: "boot_args_ok sample_boot_args" "boot_tables_ok (be_arch sample_boot_env) sample_boot_args (bs_kernel sample_boot)"
    using sample_boot_ok unfolding boot_tables_ok_def boot_args_ok_def
    by (simp_all add: sample_boot_args_def sample_boot_env_def sample_boot_def region_ok_def sample_args_def)
  obtain con where con: "console_setup (be_uart sample_boot_env) (bs_console sample_boot) = Some con"
  proof -
    have drains: "uart_drains (\<lambda>_ _. 0) u" for u :: console by (simp add: uart_drains_def clears_def)
    obtain u where "pl011_puts (\<lambda>_ _. 0) [0x0a] (pl011_init DEFAULTS_KERNEL_VM_PERIPH_BASE DEFAULTS_KERNEL_DEBUG_UART_BAUD
        DEFAULTS_KERNEL_DEBUG_UART_CLK sample_console) = Some u"
      by (rule pl011_puts_sent [OF drains])
    then show thesis using that by (simp add: console_setup_def sample_boot_env_def sample_boot_def)
  qed
  have k: "vm_get_kernel_map sample_env = 0xfffffff000040000" by (simp add: vm_get_kernel_map_def sample_env_simps)
  have apart: "\<not> in_bytes (sym_vm_page_region_lower_bound (be_arch sample_boot_env) + SIZEOF_VM_PAGE * word_of_nat i)
      (entry_at (vm_get_kernel_map (be_arch sample_boot_env)) m) 40" if "i \<le> 1" "m < 2 ^ 32" for i m
  proof -
    have "i = 0 \<or> i = 1" using that(1) by auto
    then show ?thesis using that(2) unfolding env k sample_env_simps
      by (elim disjE; intro entries_apart [OF refl]; simp)
  qed
  have one: "{i :: nat. Suc 0 \<le> i \<and> i \<le> Suc 0} = {1}" by auto
  have head: "sym_vm_page_region_lower_bound (be_arch sample_boot_env) + SIZEOF_VM_PAGE * word_of_nat i + OFF_PAGE_SIBLINGS \<noteq>
      sym_page_list (be_arch sample_boot_env)" if "i \<le> 1" for i
    using sample_page_list_apart [of i] that by (simp add: env)
  have n: "0 = ucast (MPIDR_TO_CPU_NUM (mpidr_el1 (be_arch sample_boot_env)))" by (simp add: env sample_env_simps MPIDR_TO_CPU_NUM_def)
  have top: "ti_num_cpus (topology (bs_kernel sample_boot)) = 0" "length (ti_cpus (topology (bs_kernel sample_boot))) = 16"
    "length (ti_clusters (topology (bs_kernel sample_boot))) = 4" by (simp_all add: sample_boot_def reset_state_def)
  have args: "ba_version sample_boot_args = BOOT_ARGS_VERSION_1_1" "ba_kernsize sample_boot_args = 0x100" "ba_kernbase sample_boot_args = 0x40000000"
    by (simp_all add: sample_boot_args_def sample_args_def)
  from kernel_init_brings_up [OF sample_boot_tree [folded sample_fdtbase] sample_boot_describes _ _ args(1) tables _ _ n _ top con,
      where pc = 1, OF _ _ _ _ _ _ _ _ _ _ head apart refl]
  show ?thesis by (simp add: args one env sample_env_simps) blast
qed

lemma andthen_fails: "(\<And>x. r = Inr x \<Longrightarrow> \<exists>e. f x = Inl e) \<Longrightarrow> \<exists>e. andthen r f = Inl e"
  by (cases r) auto

lemma parse_topology_dead:
  assumes "bdt_initialised bdt = ROOT_DEVICE_TREE_DEAD"
  shows "\<exists>e. machine_parse_cpu_topology env m bdt junk junk_iter s = Inl e"
  using assms unfolding machine_parse_cpu_topology_def Let_def
  by (intro andthen_fails) (auto simp: DeviceTreeIteratorInit_def)

text \<open>C23. \<^verbatim>\<open>kernel_init\<close> never gets to threads with boot arguments of another version or with a device tree whose
  header is not accepted. The first is a panic; for the second, \<^verbatim>\<open>kernel_init\<close> ignores the result of
  \<^verbatim>\<open>DeviceTreeInit\<close> and goes on, and if the lookups of memory and cpus nevertheless succeed and the tables and the
  console can be set up, it iterates over the cpus with an iterator that was never initialised.
\<close>

theorem kernel_init_rejects:
  fixes be :: boot_env
  assumes bdt_def: "bdt = (bs_tree b)\<lparr>bdt_initialised := ROOT_DEVICE_TREE_DEAD, bdt_base := ba_fdtbase (relocate_fdt args), bdt_size := ba_fdtsize (relocate_fdt args)\<rparr>"
    and "ba_version args \<noteq> BOOT_ARGS_VERSION_1_1 \<or> fdt_check_header (bs_mem b) (bdt_base bdt) \<noteq> 0"
    and "cpu_create (be_arch be) (be_intstack_top be) (be_excepstack_top be) (bs_kernel b) = Inr (boot_cpu, r, s)"
  shows "\<exists>e. kernel_init be args b = Inl e \<and>
     (if ba_version args \<noteq> BOOT_ARGS_VERSION_1_1 then e = Panic ''boot_args version mismatch''
      else \<forall>membase memsize m s' con node. platform_get_memory (bs_mem b) bdt (be_node be) = Inr ((membase, memsize), m) \<and>
          arm_vm_init (be_arch be) (relocate_fdt args) membase memsize s = Inr s' \<and>
          console_setup (be_uart be) (bs_console b) = Some con \<and>
          DeviceTreeLookupNode m bdt (map of_char ''/cpus'') (be_node be) = Inr (kDeviceTreeSuccess, node) \<longrightarrow>
        e = Undefined ''iter'')"
proof (cases "ba_version args \<noteq> BOOT_ARGS_VERSION_1_1")
  case True
  then show ?thesis using assms(3) by (simp add: kernel_init_def kernel_init_platform_def)
next
  case False
  with assms(2) have "fdt_check_header (bs_mem b) (bdt_base bdt) \<noteq> 0" by simp
  then have init: "DeviceTreeInit (bs_mem b) (ba_fdtbase (relocate_fdt args)) (ba_fdtsize (relocate_fdt args)) (bs_tree b) =
      Inr (kDeviceTreeFailure, bdt)" by (simp add: DeviceTreeInit_def bdt_def Let_def)
  have dead: "bdt_initialised bdt = ROOT_DEVICE_TREE_DEAD" by (simp add: bdt_def)
  have parsed: "machine_parse_cpu_topology env m bdt junk junk_iter s = Inr y \<Longrightarrow> False" for env m junk junk_iter s y
    using parse_topology_dead [OF dead] by (metis sum.distinct(1))
  have "\<exists>e. kernel_init_platform be args b = Inl e"
    unfolding kernel_init_platform_def assms(3) andthen_simps prod.case Let_def init
    using False by (simp only: simp_thms if_False, intro andthen_fails)
      (auto intro!: andthen_fails dest: parsed)
  then obtain e where e: "kernel_init_platform be args b = Inl e" by blast
  moreover have "e = Undefined ''iter''"
    if "platform_get_memory (bs_mem b) bdt (be_node be) = Inr ((membase, memsize), m)"
      "arm_vm_init (be_arch be) (relocate_fdt args) membase memsize s = Inr s'" "console_setup (be_uart be) (bs_console b) = Some con"
      "DeviceTreeLookupNode m bdt (map of_char ''/cpus'') (be_node be) = Inr (kDeviceTreeSuccess, node)" for membase memsize m s' con node
  proof -
    have "machine_parse_cpu_topology (be_arch be) m bdt (be_node be) (be_iter be) s' = Inl (Undefined ''iter'')"
      using that(4) dead by (simp add: machine_parse_cpu_topology_def Let_def DeviceTreeIteratorInit_def)
    with e that(1-3) False assms(3) init show ?thesis by (simp add: kernel_init_platform_def Let_def)
  qed
  ultimately show ?thesis using False by (intro exI [of _ e]) (auto simp: kernel_init_def)
qed

theorem kernel_init_rejects_witness:
  "\<exists>e. kernel_init sample_boot_env sample_boot_args (sample_boot\<lparr>bs_mem := (\<lambda>_. 0)\<rparr>) = Inl e"
proof -
  let ?b = "sample_boot\<lparr>bs_mem := (\<lambda>_. 0)\<rparr>"
  have "ti_num_cpus (topology (bs_kernel ?b)) = 0" by (simp add: sample_boot_def reset_state_def)
  moreover have "0 = ucast (MPIDR_TO_CPU_NUM (mpidr_el1 (be_arch sample_boot_env)))" "unat (0 :: i32) < 16"
    by (simp_all add: sample_boot_env_def sample_env_simps MPIDR_TO_CPU_NUM_def)
  ultimately obtain c where "cpu_create (be_arch sample_boot_env) (be_intstack_top sample_boot_env) (be_excepstack_top sample_boot_env)
      (bs_kernel ?b) = Inr (c, KERN_RETURN_SUCCESS, (bs_kernel ?b)\<lparr>cpu_data_entries := (cpu_data_entries (bs_kernel ?b))(0 := c)\<rparr>)"
    using cpu_create_first [of "bs_kernel ?b" 0] by blast
  moreover have "fdt_check_header (\<lambda>_. 0) fdt \<noteq> 0" for fdt by (simp add: fdt_check_header_def Let_def fdt_magic_def fdt32_def)
  ultimately show ?thesis using kernel_init_rejects [OF refl, of sample_boot_args ?b sample_boot_env] by (simp; blast)
qed

end
