(* ===== verification/Strtoul.thy ===== *)
theory Strtoul
  imports Tiny_String
begin

section \<open>Reading numbers (strtoul.c, ctype.h)\<close>

text \<open>
  \<^verbatim>\<open>strtoul\<close> of \<^verbatim>\<open>libkern/tinylibc/string\<close> with the character classes of \<^verbatim>\<open>_ctype.h\<close>. Characters are
  unsigned on this architecture. The loops run until a character ends them, so they are partial. The reference
  works on the characters of the string: white space, a sign, a prefix, and the longest run of digits.
\<close>

subsection \<open>Character classes\<close>

definition ctype_table :: "u8 list" where
  "ctype_table = replicate 9 0x08 @ replicate 5 0x28 @ replicate 18 0x08 @ [0xa0] @ replicate 15 0x10 @ replicate 10 0x04 @
     replicate 7 0x10 @ replicate 6 0x41 @ replicate 20 0x01 @ replicate 6 0x10 @ replicate 6 0x42 @ replicate 20 0x02 @
     replicate 4 0x10 @ [0x08] @ replicate 32 0 @ [0xa0] @ replicate 31 0x10 @ replicate 23 0x01 @ [0x10] @ replicate 7 0x01 @
     replicate 24 0x02 @ [0x10] @ replicate 8 0x02"

definition ismask :: "int \<Rightarrow> u8" where
  "ismask c = ctype_table ! nat (c mod 256)"

definition isspace :: "int \<Rightarrow> bool" where "isspace c \<longleftrightarrow> ismask c AND 0x20 \<noteq> 0"
definition isdigit :: "int \<Rightarrow> bool" where "isdigit c \<longleftrightarrow> ismask c AND 0x04 \<noteq> 0"
definition isalpha :: "int \<Rightarrow> bool" where "isalpha c \<longleftrightarrow> ismask c AND (0x01 OR 0x02) \<noteq> 0"
definition isupper :: "int \<Rightarrow> bool" where "isupper c \<longleftrightarrow> ismask c AND 0x01 \<noteq> 0"

subsection \<open>The function\<close>

abbreviation ULONG_MAX :: u64 where "ULONG_MAX \<equiv> 0xffffffffffffffff"

partial_function (option) skip_space :: "mem \<Rightarrow> u64 \<Rightarrow> (int \<times> u64) option" where
  "skip_space m s = (let c = uint (m s) in if isspace c then skip_space m (s + 1) else Some (c, s + 1))"

text \<open>The value of a character as a digit; the loop ends at a character that has none.\<close>

definition digit_value :: "int \<Rightarrow> int option" where
  "digit_value c =
     (if isdigit c then Some (c - 48) else if isalpha c then Some (c - (if isupper c then 65 - 10 else 97 - 10)) else None)"

partial_function (option) strtoul_loop ::
  "mem \<Rightarrow> i32 \<Rightarrow> u64 \<Rightarrow> int \<Rightarrow> int \<Rightarrow> u64 \<Rightarrow> u64 \<Rightarrow> int \<Rightarrow> (u64 \<times> int \<times> u64) option" where
  "strtoul_loop m base cutoff cutlim c s acc any =
     (case digit_value c of
        None \<Rightarrow> Some (acc, any, s)
      | Some d \<Rightarrow>
          if sint base \<le> d then Some (acc, any, s)
          else if any < 0 \<or> cutoff < acc \<or> acc = cutoff \<and> cutlim < d
          then strtoul_loop m base cutoff cutlim (uint (m s)) (s + 1) acc (- 1)
          else strtoul_loop m base cutoff cutlim (uint (m s)) (s + 1) (acc * scast base + word_of_int d) 1)"

text \<open>The result is the number and the address stored through \<^verbatim>\<open>endptr\<close>.\<close>

definition strtoul :: "mem \<Rightarrow> u64 \<Rightarrow> i32 \<Rightarrow> (u64 \<times> u64) option" where
  "strtoul m nptr base =
     Option.bind (skip_space m nptr) (\<lambda>(c, s).
       let (neg, c, s) = (if c = 45 then (True, uint (m s), s + 1) else if c = 43 then (False, uint (m s), s + 1) else (False, c, s));
           (c, s, base) = (if (base = 0 \<or> base = 16) \<and> c = 48 \<and> (m s = 120 \<or> m s = 88) then (uint (m (s + 1)), s + 2, 16)
                           else (c, s, base));
           base = (if base = 0 then if c = 48 then 8 else 10 else base);
           cutoff = ULONG_MAX div scast base;
           cutlim = sint (ucast (ULONG_MAX mod scast base) :: i32)
       in Option.bind (strtoul_loop m base cutoff cutlim c s 0 0) (\<lambda>(acc, any, s).
            Some (if any < 0 then ULONG_MAX else if neg then - acc else acc, if any \<noteq> 0 then s - 1 else nptr)))"

subsection \<open>The characters of the string\<close>

abbreviation is_space :: "u8 \<Rightarrow> bool" where "is_space c \<equiv> isspace (uint c)"

definition is_digit :: "nat \<Rightarrow> u8 \<Rightarrow> bool" where
  "is_digit b c = (case digit_value (uint c) of None \<Rightarrow> False | Some d \<Rightarrow> d < int b)"

definition digit :: "u8 \<Rightarrow> nat" where
  "digit c = (case digit_value (uint c) of None \<Rightarrow> 0 | Some d \<Rightarrow> nat d)"

definition number :: "nat \<Rightarrow> nat list \<Rightarrow> nat" where
  "number b = foldl (\<lambda>v d. v * b + d) 0"

lemma zero_class: "\<not> isspace 0" "digit_value 0 = None"
  by code_simp+

lemma digit_value_nonneg:
  assumes "digit_value (uint (c :: u8)) = Some d"
  shows "0 \<le> d"
proof -
  have "list_all (\<lambda>c. case digit_value c of None \<Rightarrow> True | Some d \<Rightarrow> 0 \<le> d) [0 .. 255]" by code_simp
  moreover have "uint c \<in> set [0 .. 255]" using unsigned_less [of c, where ?'a = int] by simp
  ultimately have "case digit_value (uint c) of None \<Rightarrow> True | Some d \<Rightarrow> 0 \<le> d" by (auto simp: list_all_iff)
  with assms show ?thesis by simp
qed

lemma skip_space_string:
  assumes "cstring m a xs" "p = a + word_of_nat (length (takeWhile is_space xs))"
  shows "skip_space m a = Some (uint (m p), p + 1)" "cstring m p (dropWhile is_space xs)"
proof -
  have "skip_space m a = Some (uint (m (a + word_of_nat (length (takeWhile is_space xs)))),
      a + word_of_nat (length (takeWhile is_space xs)) + 1) \<and>
    cstring m (a + word_of_nat (length (takeWhile is_space xs))) (dropWhile is_space xs)"
    using assms(1)
  proof (induction xs arbitrary: a)
    case Nil
    then show ?case by (simp add: skip_space.simps [of m a] zero_class Let_def)
  next
    case (Cons x xs)
    then show ?case using Cons.IH [of "a + 1"] by (simp add: skip_space.simps [of m a] Let_def add.assoc)
  qed
  then show "skip_space m a = Some (uint (m p), p + 1)" "cstring m p (dropWhile is_space xs)" by (simp_all add: assms(2))
qed

subsection \<open>The digits\<close>

definition accum :: "i32 \<Rightarrow> u64 \<Rightarrow> int \<Rightarrow> u64 \<times> int \<Rightarrow> nat \<Rightarrow> u64 \<times> int" where
  "accum base cutoff cutlim = (\<lambda>(acc, any) d.
     if any < 0 \<or> cutoff < acc \<or> acc = cutoff \<and> cutlim < int d then (acc, - 1) else (acc * scast base + word_of_nat d, 1))"

lemma loop_string:
  assumes "sint base = int b"
  shows "cstring m p ys \<Longrightarrow> strtoul_loop m base cutoff cutlim (uint (m p)) (p + 1) acc any =
     (case foldl (accum base cutoff cutlim) (acc, any) (map digit (takeWhile (is_digit b) ys)) of
        (acc, any) \<Rightarrow> Some (acc, any, p + word_of_nat (length (takeWhile (is_digit b) ys)) + 1))"
proof (induction ys arbitrary: p acc any)
  case Nil
  then show ?case by (simp add: strtoul_loop.simps [of m base] zero_class)
next
  case (Cons y ys)
  then have m: "m p = y" "cstring m (p + 1) ys" by simp_all
  show ?case
  proof (cases "is_digit b y")
    case False
    then show ?thesis using m(1) assms
      by (subst strtoul_loop.simps) (auto simp: is_digit_def split: option.splits)
  next
    case True
    then obtain d where d: "digit_value (uint y) = Some d" "d < int b" by (auto simp: is_digit_def split: option.splits)
    then have dig: "int (digit y) = d" "word_of_int d = (word_of_nat (digit y) :: u64)"
      using digit_value_nonneg [OF d(1)] by (simp_all add: digit_def)
    show ?thesis
      using True m d Cons.IH [OF m(2)] assms dig
      by (subst strtoul_loop.simps) (simp add: accum_def add.assoc split: prod.splits)
  qed
qed

lemma number_snoc [simp]: "number b [] = 0" "number b (ds @ [d]) = number b ds * b + d"
  by (simp_all add: number_def)

lemma cutoff_iff:
  fixes v d b :: nat
  assumes "d < b"
  shows "v * b + d \<le> M \<longleftrightarrow> v < M div b \<or> v = M div b \<and> d \<le> M mod b"
proof -
  have M: "M div b * b + M mod b = M" "M mod b < b" using assms by simp_all
  consider "v < M div b" | "v = M div b" | "M div b < v" by linarith
  then show ?thesis
  proof cases
    case 1
    then have "(v + 1) * b \<le> M div b * b" by (intro mult_le_mono1) simp
    then have "v * b + b \<le> M div b * b" by simp
    then have "v * b + d \<le> M" using assms M(1) by linarith
    with 1 show ?thesis by simp
  next
    case 2
    then have "v * b + M mod b = M" using M(1) by simp
    then show ?thesis using 2 by linarith
  next
    case 3
    then have "(M div b + 1) * b \<le> v * b" by (intro mult_le_mono1) simp
    then have "M div b * b + b \<le> v * b" by simp
    then have "\<not> v * b + d \<le> M" using M by linarith
    with 3 show ?thesis by simp
  qed
qed

lemma accum_number:
  fixes base :: i32
  assumes b: "2 \<le> b" "b \<le> 36" and base: "scast base = (word_of_nat b :: u64)"
  defines "f \<equiv> accum base (ULONG_MAX div word_of_nat b) (int ((2 ^ 64 - 1) mod b))"
  shows "\<forall>d \<in> set ds. d < b \<Longrightarrow>
     if number b ds < 2 ^ 64 then foldl f (0, 0) ds = (word_of_nat (number b ds), if ds = [] then 0 else 1)
     else snd (foldl f (0, 0) ds) = - 1"
proof (induction ds rule: rev_induct)
  case (snoc d ds)
  let ?v = "number b ds"
  have d: "d < b" and ih: "if ?v < 2 ^ 64 then foldl f (0, 0) ds = (word_of_nat ?v, if ds = [] then 0 else 1)
      else snd (foldl f (0, 0) ds) = - 1" using snoc by simp_all
  have unat_b: "unat (word_of_nat b :: u64) = b" using b(2) by (intro unat_of_nat_no_wrap) simp
  have cut: "unat (ULONG_MAX div word_of_nat b) = (2 ^ 64 - 1) div b" by (simp add: unat_div unat_b)
  show ?case
  proof (cases "?v < 2 ^ 64")
    case False
    have "?v * 1 \<le> ?v * b" using b(1) by (intro mult_le_mono2) simp
    with False have "\<not> ?v * b + d < 2 ^ 64" by linarith
    moreover from False ih have "snd (f (foldl f (0, 0) ds) d) = - 1" by (simp add: f_def accum_def case_prod_unfold)
    ultimately show ?thesis by simp
  next
    case True
    with ih have fold: "foldl f (0, 0) ds = (word_of_nat ?v, if ds = [] then 0 else 1)" by simp
    have v: "unat (word_of_nat ?v :: u64) = ?v" using True by (intro unat_of_nat_no_wrap) simp
    have "(ULONG_MAX div word_of_nat b < word_of_nat ?v \<or>
        word_of_nat ?v = ULONG_MAX div word_of_nat b \<and> int ((2 ^ 64 - 1) mod b) < int d) \<longleftrightarrow> \<not> ?v * b + d \<le> 2 ^ 64 - 1"
      unfolding cutoff_iff [OF d] word_less_nat_alt word_unat_eq_iff cut v by (auto simp del: of_nat_mod)
    then have "f (word_of_nat ?v, any) d = (if ?v * b + d \<le> 2 ^ 64 - 1 then (word_of_nat (?v * b + d), 1) else (word_of_nat ?v, - 1))"
      if "0 \<le> any" for any
      using base that unfolding f_def accum_def by simp
    then show ?thesis by (simp add: fold)
  qed
qed simp

subsection \<open>Sign and prefix\<close>

definition after_sign :: "u8 list \<Rightarrow> bool \<times> u8 list" where
  "after_sign ys = (case ys of [] \<Rightarrow> (False, [])
     | c # zs \<Rightarrow> if c = 45 then (True, zs) else if c = 43 then (False, zs) else (False, c # zs))"

definition after_prefix :: "nat \<Rightarrow> u8 list \<Rightarrow> nat \<times> u8 list" where
  "after_prefix base zs =
     (if (base = 0 \<or> base = 16) \<and> (\<exists>c ws. zs = 48 # c # ws \<and> (c = 120 \<or> c = 88)) then (16, drop 2 zs)
      else (if base = 0 then if zs \<noteq> [] \<and> hd zs = 48 then 8 else 10 else base, zs))"

text \<open>The string from a position on, as the remaining characters.\<close>

definition rest_at :: "mem \<Rightarrow> u64 \<Rightarrow> u8 list \<Rightarrow> u64 \<Rightarrow> u8 list \<Rightarrow> bool" where
  "rest_at m a xs p ys \<longleftrightarrow> cstring m p ys \<and> length ys \<le> length xs \<and> p = a + word_of_nat (length xs - length ys)"

lemma rest_at_tl: "rest_at m a xs p (y # ys) \<Longrightarrow> rest_at m a xs (p + 1) ys"
  by (auto simp: rest_at_def Suc_diff_Suc [symmetric] add.assoc)

lemma rest_at_head: "rest_at m a xs p ys \<Longrightarrow> m p = (case ys of [] \<Rightarrow> 0 | y # _ \<Rightarrow> y)"
  by (auto simp: rest_at_def split: list.splits)

lemma byte_eq_iff: "uint (c :: u8) = 45 \<longleftrightarrow> c = 45" "uint c = 43 \<longleftrightarrow> c = 43" "uint c = 48 \<longleftrightarrow> c = 48"
  by (simp_all add: word_uint_eq_iff)

lemma sign_string:
  assumes "rest_at m a xs p ys" "after_sign ys = (neg, zs)"
  obtains q where "(if uint (m p) = 45 then (True, uint (m (p + 1)), p + 1 + 1)
       else if uint (m p) = 43 then (False, uint (m (p + 1)), p + 1 + 1) else (False, uint (m p), p + 1)) =
     (neg, uint (m q), q + 1)" "rest_at m a xs q zs"
proof (cases ys)
  case Nil
  with assms rest_at_head [OF assms(1)] show thesis by (intro that [of p]) (simp_all add: after_sign_def)
next
  case (Cons y ys')
  with assms rest_at_head [OF assms(1)] rest_at_tl [of m a xs p y ys'] show thesis
    by (intro that [of "if y = 45 \<or> y = 43 then p + 1 else p"]) (auto simp: after_sign_def byte_eq_iff split: if_splits)
qed

lemma prefix_string:
  assumes "rest_at m a xs p zs" "base = 0 \<or> 2 \<le> base \<and> base \<le> 36" "after_prefix base zs = (b, ws)"
  obtains q where "(case (if (word_of_nat base = (0 :: i32) \<or> word_of_nat base = (16 :: i32)) \<and> uint (m p) = 48 \<and> (m (p + 1) = 120 \<or> m (p + 1) = 88)
        then (uint (m (p + 1 + 1)), p + 1 + 2, 16) else (uint (m p), p + 1, word_of_nat base)) of
      (c, s, base) \<Rightarrow> (c, s, if base = 0 then if c = 48 then 8 else 10 else base)) =
     (uint (m q), q + 1, word_of_nat b :: i32)" "rest_at m a xs q ws"
proof -
  have base: "word_of_nat base = (0 :: i32) \<longleftrightarrow> base = 0" "word_of_nat base = (16 :: i32) \<longleftrightarrow> base = 16"
    using assms(2) by (auto simp: word_unat_eq_iff unat_of_nat_no_wrap)
  show thesis
  proof (cases "(base = 0 \<or> base = 16) \<and> (\<exists>c ws. zs = 48 # c # ws \<and> (c = 120 \<or> c = 88))")
    case True
    with assms(3) have b: "b = 16" "ws = drop 2 zs" by (simp_all add: after_prefix_def)
    from True obtain c where zs: "zs = 48 # c # ws" "c = 120 \<or> c = 88" using b(2) by auto
    have r: "rest_at m a xs (p + 1) (c # ws)" by (rule rest_at_tl [OF assms(1) [unfolded zs(1)]])
    with True zs assms(1) rest_at_tl [OF r] show thesis
      by (intro that [of "p + 1 + 1"]) (auto simp: b(1) base rest_at_head byte_eq_iff)
  next
    case False
    have "\<exists>c ws. zs = 48 # c # ws \<and> (c = 120 \<or> c = 88)" if "uint (m p) = 48" "m (p + 1) = 120 \<or> m (p + 1) = 88"
    proof -
      from that(1) obtain ws where zs: "zs = 48 # ws" using rest_at_head [OF assms(1)] by (auto simp: byte_eq_iff split: list.splits)
      with that(2) rest_at_head [OF rest_at_tl [OF assms(1) [unfolded zs]]] show ?thesis by (auto split: list.splits)
    qed
    with False have "\<not> ((base = 0 \<or> base = 16) \<and> uint (m p) = 48 \<and> (m (p + 1) = 120 \<or> m (p + 1) = 88))" by blast
    moreover have "uint (m p) = 48 \<longleftrightarrow> zs \<noteq> [] \<and> hd zs = 48"
      using rest_at_head [OF assms(1)] by (auto simp: byte_eq_iff split: list.splits)
    moreover have "b = (if base = 0 then if zs \<noteq> [] \<and> hd zs = 48 then 8 else 10 else base)" "ws = zs"
      using assms(3) unfolding after_prefix_def if_not_P [OF False] by simp_all
    ultimately show thesis using assms(1) by (intro that [of p]) (simp_all add: base)
  qed
qed

subsection \<open>The number\<close>

lemma base_words:
  assumes "2 \<le> b" "b \<le> 36"
  shows "sint (word_of_nat b :: i32) = int b" "scast (word_of_nat b :: i32) = (word_of_nat b :: u64)"
    "sint (ucast (ULONG_MAX mod word_of_nat b) :: i32) = int ((2 ^ 64 - 1) mod b)"
proof -
  show sb: "sint (word_of_nat b :: i32) = int b" using assms(2) by (simp add: signed_of_nat signed_take_bit_int_eq_self)
  then show "scast (word_of_nat b :: i32) = (word_of_nat b :: u64)" by (simp add: scast_eq)
  have "unat (word_of_nat b :: u64) = b" using assms(2) by (intro unat_of_nat_no_wrap) simp
  then have "unat (ULONG_MAX mod word_of_nat b) = (2 ^ 64 - 1) mod b" by (simp add: unat_mod)
  moreover have "(ucast (ULONG_MAX mod word_of_nat b) :: i32) = word_of_nat (unat (ULONG_MAX mod word_of_nat b))" by simp
  ultimately have "(ucast (ULONG_MAX mod word_of_nat b) :: i32) = word_of_nat ((2 ^ 64 - 1) mod b)" by (simp only:)
  moreover have "(2 ^ 64 - 1) mod b < 36" using assms by (metis mod_less_divisor less_le_trans gr0I not_numeral_le_zero)
  ultimately show "sint (ucast (ULONG_MAX mod word_of_nat b) :: i32) = int ((2 ^ 64 - 1) mod b)"
    by (simp add: signed_of_nat signed_take_bit_int_eq_self)
qed

lemma digit_less: "is_digit b c \<Longrightarrow> digit c < b"
  using digit_value_nonneg [of c] by (auto simp: is_digit_def digit_def split: option.splits)

lemma loop_number:
  assumes "cstring m r ws" "2 \<le> b" "b \<le> 36" and ds: "ds = takeWhile (is_digit b) ws" and v: "v = number b (map digit ds)"
  obtains acc any where "strtoul_loop m (word_of_nat b) (ULONG_MAX div word_of_nat b) (int ((2 ^ 64 - 1) mod b)) (uint (m r)) (r + 1) 0 0 =
      Some (acc, any, r + word_of_nat (length ds) + 1)"
    "any \<noteq> 0 \<longleftrightarrow> ds \<noteq> []" "any < 0 \<longleftrightarrow> 2 ^ 64 \<le> v" "v < 2 ^ 64 \<longrightarrow> acc = word_of_nat v"
proof -
  let ?cut = "ULONG_MAX div word_of_nat b" and ?lim = "int ((2 ^ 64 - 1) mod b)"
  note words = base_words [OF assms(2,3)]
  have dig: "\<forall>d \<in> set (map digit ds). d < b" using ds by (auto dest: set_takeWhileD digit_less)
  obtain acc any where fold: "foldl (accum (word_of_nat b) ?cut ?lim) (0, 0) (map digit ds) = (acc, any)" by (rule prod.exhaust)
  have "strtoul_loop m (word_of_nat b) ?cut ?lim (uint (m r)) (r + 1) 0 0 = Some (acc, any, r + word_of_nat (length ds) + 1)"
    using loop_string [OF words(1) assms(1), of ?cut ?lim 0 0] fold by (simp add: ds)
  moreover from accum_number [OF assms(2,3) words(2) dig]
  have res: "if v < 2 ^ 64 then acc = word_of_nat v \<and> any = (if ds = [] then 0 else 1) else any = - 1"
    unfolding fold by (cases "ds = []") (simp_all add: v split: if_splits)
  moreover have "v = 0" if "ds = []" using that by (simp add: v)
  ultimately show thesis by (intro that [of acc any]) (auto split: if_splits)
qed

subsection \<open>Properties\<close>

text \<open>C40. \<^verbatim>\<open>strtoul\<close> with base 0 or a base from 2 to 36 returns on every string: after white space, an optional sign
  and an optional prefix, which also selects the base when none is given, it reads the longest run of digits below the
  base. The result is their number, negated modulo \<open>2 ^ 64\<close> after a minus sign, or \<^verbatim>\<open>ULONG_MAX\<close> exactly if the
  number is too large; the end pointer is behind the last digit, or the start of the string if there is no digit.
\<close>

theorem strtoul_correct:
  assumes "cstring m nptr xs" "base = 0 \<or> 2 \<le> base \<and> base \<le> 36"
    and "after_sign (dropWhile is_space xs) = (neg, zs)" "after_prefix base zs = (b, ws)"
    and "ds = takeWhile (is_digit b) ws" "v = number b (map digit ds)"
  shows "strtoul m nptr (word_of_nat base) =
     Some (if 2 ^ 64 \<le> v then ULONG_MAX else if neg then - word_of_nat v else word_of_nat v,
       if ds = [] then nptr else nptr + word_of_nat (length xs - length ws + length ds))"
proof -
  define p where "p = nptr + word_of_nat (length (takeWhile is_space xs))"
  note space = skip_space_string [OF assms(1) p_def]
  have "length (takeWhile is_space xs) = length xs - length (dropWhile is_space xs)"
    by (metis add_diff_cancel_right' length_append takeWhile_dropWhile_id)
  then have rest: "rest_at m nptr xs p (dropWhile is_space xs)"
    using space(2) by (simp add: rest_at_def p_def length_dropWhile_le)
  obtain q where q: "(if uint (m p) = 45 then (True, uint (m (p + 1)), p + 1 + 1)
       else if uint (m p) = 43 then (False, uint (m (p + 1)), p + 1 + 1) else (False, uint (m p), p + 1)) = (neg, uint (m q), q + 1)"
    "rest_at m nptr xs q zs" by (rule sign_string [OF rest assms(3)])
  obtain r where r: "(case (if (word_of_nat base = (0 :: i32) \<or> word_of_nat base = (16 :: i32)) \<and> uint (m q) = 48 \<and>
          (m (q + 1) = 120 \<or> m (q + 1) = 88)
        then (uint (m (q + 1 + 1)), q + 1 + 2, 16) else (uint (m q), q + 1, word_of_nat base)) of
      (c, s, base) \<Rightarrow> (c, s, if base = 0 then if c = 48 then 8 else 10 else base)) = (uint (m r), r + 1, word_of_nat b :: i32)"
    "rest_at m nptr xs r ws" by (rule prefix_string [OF q(2) assms(2,4)])
  have b: "2 \<le> b" "b \<le> 36" using assms(2,4) by (auto simp: after_prefix_def split: if_splits)
  note words = base_words [OF b]
  have "cstring m r ws" using r(2) unfolding rest_at_def by blast
  then obtain acc any where loop: "strtoul_loop m (word_of_nat b) (ULONG_MAX div word_of_nat b) (int ((2 ^ 64 - 1) mod b)) (uint (m r)) (r + 1) 0 0 =
      Some (acc, any, r + word_of_nat (length ds) + 1)"
    and any: "any \<noteq> 0 \<longleftrightarrow> ds \<noteq> []" "any < 0 \<longleftrightarrow> 2 ^ 64 \<le> v" "v < 2 ^ 64 \<longrightarrow> acc = word_of_nat v"
    by (rule loop_number [OF _ b assms(5,6)])
  have ptr: "r + word_of_nat (length ds) = nptr + word_of_nat (length xs - length ws + length ds)"
    using r(2) by (simp add: rest_at_def add.assoc)
  have "strtoul m nptr (word_of_nat base) = Some (if any < 0 then ULONG_MAX else if neg then - acc else acc,
      if any \<noteq> 0 then r + word_of_nat (length ds) else nptr)"
  proof -
    let ?Y = "if (word_of_nat base = (0 :: i32) \<or> word_of_nat base = (16 :: i32)) \<and> uint (m q) = 48 \<and> (m (q + 1) = 120 \<or> m (q + 1) = 88)
        then (uint (m (q + 1 + 1)), q + 1 + 2, 16) else (uint (m q), q + 1, word_of_nat base :: i32)"
    obtain c s b0 where Y: "?Y = (c, s, b0)" by (rule prod_cases3)
    from r(1) have eq: "c = uint (m r)" "s = r + 1" "(if b0 = 0 then if c = 48 then 8 else 10 else b0) = word_of_nat b"
      unfolding Y prod.case prod.inject by blast+
    show ?thesis
      unfolding strtoul_def space(1) Option.bind.simps prod.case Let_def q(1) Y eq(3)
      unfolding eq(1,2) words(2,3) loop by simp
  qed
  then show ?thesis using any ptr by simp
qed

theorem strtoul_correct_witness:
  "\<exists>m. cstring m 0x10 (map of_char '' -0x1fz'') \<and> strtoul m 0x10 0 = Some (- 0x1f, 0x16)"
proof -
  let ?xs = "map of_char '' -0x1fz'' :: u8 list"
  let ?m = "(\<lambda>_. 0 :: u8)(0x10 := 32, 0x11 := 45, 0x12 := 48, 0x13 := 120, 0x14 := 49, 0x15 := 102, 0x16 := 122)"
  have str: "cstring ?m 0x10 ?xs" by simp
  have space: "dropWhile is_space ?xs = map of_char ''-0x1fz''" by code_simp
  have sign: "after_sign (dropWhile is_space ?xs) = (True, map of_char ''0x1fz'')" unfolding space by (simp add: after_sign_def)
  have pre: "after_prefix 0 (map of_char ''0x1fz'') = (16, map of_char ''1fz'')" by (simp add: after_prefix_def)
  have digits: "map of_char ''1f'' = takeWhile (is_digit 16) (map of_char ''1fz'')" by code_simp
  have "number 16 (map digit (map of_char ''1f'')) = 0x1f" by code_simp
  with strtoul_correct [OF str _ sign pre digits refl] str show ?thesis by (intro exI [of _ ?m]) simp
qed

end
