(* ===== verification/Vm_Run.thy ===== *)
theory Vm_Run
  imports Vm "HOL-Library.Sublist"
begin

section \<open>The memory layer at work\<close>

text \<open>
  The memory layer as a state machine: its steps are the calls of \<^verbatim>\<open>vm_page_alloc\<close> and, on the kernel's map, of
  \<^verbatim>\<open>vm_map_alloc\<close> that succeed, in any order; a run is a sequence of them, with what each hands out. The invariant
  that \<^verbatim>\<open>vm_configure\<close> establishes holds at every point of every run: no frame is handed out twice, no range moves,
  and no two ranges overlap.
\<close>

subsection \<open>Steps and runs\<close>

datatype vm_event = Frame u64 | Range addr

text \<open>The number of entries of a map, and what a request for a range needs.\<close>

definition entry_count :: "addr \<Rightarrow> kstate \<Rightarrow> nat" where
  "entry_count vmap s = unat (map_nentries (vm_maps s vmap))"

definition serviceable :: "addr \<Rightarrow> u64 \<Rightarrow> u32 \<Rightarrow> kstate \<Rightarrow> bool" where
  "serviceable vmap sz flags s \<longleftrightarrow>
     (let n = entry_count vmap s; pc = unat (alloc_page_count sz); e = map_entries s (entry_at vmap (n - 1));
          k = guards VM_ALLOC_GUARD_FIRST flags + pc + guards VM_ALLOC_GUARD_LAST flags
      in n + 3 < 2 ^ 32 \<and> k \<le> card (free_frames s) \<and>
         unat (ent_base e) + unat (ent_size e) + 8 + 4096 * (pc + 2) < 2 ^ 64 \<and>
         (\<forall>i\<in>{0 ..< k}. page_ready (vmap + OFF_MAP_PMAP) (alloc_base vmap s + VM_PAGE_SIZE * word_of_nat i) s \<and>
            guard_ok (vmap + OFF_MAP_PMAP) (alloc_base vmap s + VM_PAGE_SIZE * word_of_nat i)))"

inductive vm_step :: "arch_env \<Rightarrow> kstate \<Rightarrow> vm_event \<Rightarrow> kstate \<Rightarrow> bool" for env where
  frame: "vm_page_alloc s = Inr (pa, s') \<Longrightarrow> vm_step env s (Frame pa) s'"
| range: "vm_map_alloc env (vm_get_kernel_map env) sz flags s = Inr (base, s') \<Longrightarrow>
    serviceable (vm_get_kernel_map env) sz flags s \<Longrightarrow> vm_step env s (Range base) s'"

inductive_cases frame_stepE: "vm_step env s (Frame pa) s'"
inductive_cases range_stepE: "vm_step env s (Range base) s'"

inductive vm_run :: "arch_env \<Rightarrow> kstate \<Rightarrow> vm_event list \<Rightarrow> kstate \<Rightarrow> bool" for env s where
  start: "vm_run env s [] s"
| further: "vm_run env s tr s1 \<Longrightarrow> vm_step env s1 e s2 \<Longrightarrow> vm_run env s (tr @ [e]) s2"

fun frames :: "vm_event list \<Rightarrow> u64 list" where
  "frames [] = []"
| "frames (Frame pa # tr) = pa # frames tr"
| "frames (Range base # tr) = frames tr"

lemma frames_append [simp]: "frames (tr @ tr') = frames tr @ frames tr'"
  by (induction tr rule: frames.induct) simp_all

subsection \<open>The invariant\<close>

definition map_entries_of :: "addr \<Rightarrow> kstate \<Rightarrow> vm_map_entry list" where
  "map_entries_of vmap s = entries_of vmap (entry_count vmap s) s"

definition vm_inv :: "addr \<Rightarrow> kstate \<Rightarrow> bool" where
  "vm_inv vmap s \<longleftrightarrow> alloc_inv vmap (entry_count vmap s) s \<and> 0 < entry_count vmap s \<and>
     sorted_wrt extent_before (map_entries_of vmap s)"

lemma entry_count_ok: "vm_map_ok vmap n s \<Longrightarrow> n < 2 ^ 32 \<Longrightarrow> entry_count vmap s = n"
  by (simp add: vm_map_ok_def entry_count_def unat_of_nat_no_wrap)

lemma frame_step_inv:
  assumes "vm_inv vmap s" "vm_page_alloc s = Inr (pa, s')"
  shows "vm_inv vmap s'" "map_entries_of vmap s' = map_entries_of vmap s" "pa \<in> free_frames s" "free_frames s' = free_frames s - {pa}"
proof -
  have inv: "page_inv s" using assms(1) by (simp add: vm_inv_def alloc_inv_def)
  show "pa \<in> free_frames s" "free_frames s' = free_frames s - {pa}"
    using pa.alloc_member [OF inv assms(2)] pa.alloc_removes [OF inv assms(2)] .
  obtain P where s': "s' = s\<lparr>pages := P\<rparr>" using assms(2) by (rule vm_page_alloc_frame)
  have n: "entry_count vmap s' = entry_count vmap s" by (simp add: entry_count_def s')
  show es: "map_entries_of vmap s' = map_entries_of vmap s" by (simp add: map_entries_of_def n entries_of_def) (simp add: s')
  have "page_inv s'" by (rule pa.alloc_inv [OF inv assms(2)])
  then show "vm_inv vmap s'" using assms(1) unfolding vm_inv_def n es
    by (auto simp: alloc_inv_def s')
qed

lemma range_step_inv:
  assumes "vm_inv vmap s" "serviceable vmap sz flags s" "vm_map_alloc env vmap sz flags s = Inr (base, s')"
  shows "vm_inv vmap s'" "prefix (map_entries_of vmap s) (map_entries_of vmap s')" "free_frames s' \<subseteq> free_frames s"
proof -
  let ?n = "entry_count vmap s" and ?pc = "unat (alloc_page_count sz)" and ?v = "alloc_base vmap s"
  let ?es = "alloc_entries flags ?v ?pc"
  have pre: "alloc_pre vmap ?n sz flags s"
    using assms(1,2) by (auto simp: alloc_pre_def vm_inv_def serviceable_def Let_def)
  obtain k where ph: "phase vmap ?n ?es k s s'" using vm_map_alloc_pre [OF pre, of env] assms(3) by auto
  have "length ?es \<le> 3" by (simp add: alloc_entries_def)
  then have "?n + length ?es < 2 ^ 32" using assms(2) by (simp add: serviceable_def Let_def)
  moreover have inv': "alloc_inv vmap (?n + length ?es) s'" using ph by (simp add: phase_def)
  ultimately have n: "entry_count vmap s' = ?n + length ?es" by (intro entry_count_ok) (simp_all add: alloc_inv_def)
  have es: "map_entries_of vmap s' = map_entries_of vmap s @ ?es"
    using phase_entries [OF ph] by (simp add: map_entries_of_def n)
  then show "prefix (map_entries_of vmap s) (map_entries_of vmap s')" by simp
  show "free_frames s' \<subseteq> free_frames s" using ph by (simp add: phase_def)
  have ok: "vm_map_ok vmap ?n s" "0 < ?n" using assms(1) by (simp_all add: vm_inv_def alloc_inv_def)
  have "sorted_wrt extent_before (map_entries_of vmap s')"
    unfolding map_entries_of_def n
    by (rule phase_sorted [OF ph ok alloc_page_count_pos _ refl])
      (use assms(1,2) in \<open>simp_all add: vm_inv_def map_entries_of_def serviceable_def Let_def\<close>)
  with inv' ok(2) show "vm_inv vmap s'" by (simp add: vm_inv_def n)
qed

lemma run_inv:
  assumes "vm_run env s tr s'" "vm_inv (vm_get_kernel_map env) s"
  defines "m \<equiv> vm_get_kernel_map env"
  shows "vm_inv m s' \<and> prefix (map_entries_of m s) (map_entries_of m s') \<and> free_frames s' \<subseteq> free_frames s \<and>
     distinct (frames tr) \<and> set (frames tr) \<subseteq> free_frames s - free_frames s'"
  using assms(1)
proof induction
  case start
  then show ?case using assms(2) by (simp add: m_def)
next
  case (further tr s1 e s2)
  from further.hyps(2) show ?case
  proof cases
    case (frame pa)
    with further.IH frame_step_inv [of m s1 pa s2] show ?thesis by auto
  next
    case (range sz flags base)
    with further.IH range_step_inv [of m s1 sz flags env base s2] show ?thesis
      by (auto simp: m_def intro: prefix_order.trans)
  qed
qed

lemma configure_inv:
  assumes "alloc_inv m 1 s" "entries_of m 1 s = [e]"
  shows "vm_inv m s" "map_entries_of m s = [e]"
proof -
  have "entry_count m s = 1" using assms(1) by (intro entry_count_ok) (simp_all add: alloc_inv_def)
  then show "vm_inv m s" "map_entries_of m s = [e]" using assms by (simp_all add: vm_inv_def map_entries_of_def)
qed

subsection \<open>Properties\<close>



end
