(* ===== verification/Sched_Run.thy ===== *)
theory Sched_Run
  imports Exception
begin

section \<open>Time slices\<close>

text \<open>
  The kernel in service as a state machine: its steps are the timer's interrupts. An interrupt is taken when
  interrupts are not masked; \<^verbatim>\<open>arm64_handler_irq\<close> calls the scheduler, which enters the next thread through
  \<^verbatim>\<open>__fork64_exec\<close> and \<^verbatim>\<open>__fork64_return\<close>, and that calls \<^verbatim>\<open>sched_tail\<close> with the thread's address. The
  theory follows runs of any number of slices: who runs, and what a thread finds in its context when its turn comes again.
\<close>

subsection \<open>Steps and runs\<close>

type_synonym machine = "kstate \<times> irq_state"
type_synonym interrupt = "u64 \<times> exception_frame"

inductive tick :: "arch_env \<Rightarrow> machine \<Rightarrow> interrupt \<Rightarrow> machine \<Rightarrow> bool" for env where
  "\<not> irq_masked s \<Longrightarrow> ucast iar = (30 :: u32) \<Longrightarrow> arm64_handler_irq env iar elr frame s g = Inr (Some t, s1, g') \<Longrightarrow>
   sched_tail env t s1 = Inr s' \<Longrightarrow> tick env (s, g) (elr, frame) (s', g')"

inductive_cases tickE: "tick env (s, g) (elr, frame) (s', g')"

inductive ticks :: "arch_env \<Rightarrow> machine \<Rightarrow> interrupt list \<Rightarrow> machine \<Rightarrow> bool" for env p where
  start: "ticks env p [] p"
| further: "ticks env p is q \<Longrightarrow> tick env q i r \<Longrightarrow> ticks env p (is @ [i]) r"

subsection \<open>The invariant\<close>

text \<open>The threads of the ring are active, the one at position \<open>i\<close> runs on cpu \<open>n\<close>, and interrupts are not masked.\<close>

definition running :: "arch_env \<Rightarrow> addr list \<Rightarrow> i32 \<Rightarrow> nat \<Rightarrow> kstate \<Rightarrow> bool" where
  "running env ts n i s \<longleftrightarrow> on_threads env ts s \<and> i < length ts \<and>
     (\<forall>t \<in> set ts. t \<noteq> NULL \<and> th_active (thread_objs s t)) \<and>
     machine_get_cpu_num env s = Inr n \<and> in_cpu_table n \<and> sint n \<le> sint (cpu_count s) \<and>
     cpu_active_thread (cpu_data_entries s n) = ts ! i \<and> \<not> irq_masked s"

text \<open>The thread was last interrupted at \<open>elr\<close> with the registers of \<open>frame\<close>, and it is loaded.\<close>

definition saved :: "interrupt \<Rightarrow> thread \<Rightarrow> bool" where
  "saved i t \<longleftrightarrow> (case i of (elr, frame) \<Rightarrow> th_entry t = elr \<and> th_stack t = fr_sp frame \<and>
     ctx_fp (th_context t) = fr_fp frame \<and> (\<forall>r \<in> {21 .. 28}. ctx_x (th_context t) r = fr_regs frame r))"

definition loaded :: "arch_env \<Rightarrow> thread \<Rightarrow> bool" where
  "loaded env t \<longleftrightarrow> ctx_x (th_context t) 19 = th_entry t \<and> ctx_x (th_context t) 20 = th_args t \<and>
     ctx_sp (th_context t) = th_stack t \<and> ctx_lr (th_context t) = sym_fork64_return env"

lemma running_threads: "running env ts n i s \<Longrightarrow> distinct ts"
  by (auto simp: running_def on_threads_def dlist_def distinct_map)

subsection \<open>One slice\<close>

definition switched :: "arch_env \<Rightarrow> addr \<Rightarrow> addr \<Rightarrow> interrupt \<Rightarrow> kstate \<Rightarrow> kstate" where
  "switched env t t' i s = (case i of (elr, frame) \<Rightarrow>
     thread_load_context env t' (thread_save_context elr t frame
       (set_current_task (th_task (thread_objs s t')) (machine_irq_disable s))))"

lemma switched_frame:
  "lists (switched env t t' i s) = lists s" "cpu_data_entries (switched env t t' i s) = cpu_data_entries s"
  "cpu_count (switched env t t' i s) = cpu_count s"
  "machine_get_cpu_num env (switched env t t' i s) = machine_get_cpu_num env s"
  by (simp_all add: switched_def thread_load_context_def thread_save_context_def set_thread_def set_current_task_def
      machine_irq_disable_def machine_get_cpu_num_def split: prod.split)

lemma switched_threads:
  "th_active (thread_objs (switched env t t' i s) u) = th_active (thread_objs s u)"
  "th_args (thread_objs (switched env t t' i s) u) = th_args (thread_objs s u)"
  "loaded env (thread_objs (switched env t t' i s) t')"
  "saved i (thread_objs (switched env t t' i s) t)"
  "saved j (thread_objs s u) \<Longrightarrow> u \<noteq> t \<Longrightarrow> saved j (thread_objs (switched env t t' i s) u)"
  by (auto simp: switched_def thread_load_context_def thread_save_context_def set_current_task_def
      machine_irq_disable_def saved_def loaded_def split: prod.split)

text \<open>The state a slice starts in: the switch, and what \<^verbatim>\<open>sched_tail\<close> adds.\<close>

definition resumed :: "i32 \<Rightarrow> addr \<Rightarrow> kstate \<Rightarrow> kstate" where
  "resumed n t s = s\<lparr>cpu_data_entries := (cpu_data_entries s)(n := (cpu_data_entries s n)\<lparr>
     cpu_active_thread := t, cpu_active_stack := th_stack (thread_objs s t)\<rparr>), irq_masked := False\<rparr>"

lemma running_schedule:
  assumes "running env ts n i s" and "t' = ts ! (Suc i mod length ts)"
  shows "schedule env elr frame s = Inr (t', switched env (ts ! i) t' (elr, frame) s)"
    and "sched_tail env t' (switched env (ts ! i) t' (elr, frame) s) = Inr (resumed n t' (switched env (ts ! i) t' (elr, frame) s))"
    and "running env ts n (Suc i mod length ts) (resumed n t' (switched env (ts ! i) t' (elr, frame) s))"
proof -
  note r = assms(1) [unfolded running_def]
  have pos: "Suc i mod length ts < length ts" using r by (intro mod_less_divisor) linarith
  then have t': "t' \<in> set ts" by (simp add: assms(2))
  have "cpu_get_current env (machine_irq_disable s) = Inr (cpu_data_entries s n)"
    using r by (simp add: cpu_get_current_def machine_get_cpu_num_def machine_irq_disable_def cpu_get_cpu_def)
  then show "schedule env elr frame s = Inr (t', switched env (ts ! i) t' (elr, frame) s)"
    using schedule_switch [of env ts s i "cpu_data_entries s n"] r t' by (simp add: assms(2) switched_def)
  show "sched_tail env t' (switched env (ts ! i) t' (elr, frame) s) = Inr (resumed n t' (switched env (ts ! i) t' (elr, frame) s))"
    using r t' by (simp add: sched_tail_runs [of _ _ n] switched_frame resumed_def)
  show "running env ts n (Suc i mod length ts) (resumed n t' (switched env (ts ! i) t' (elr, frame) s))"
    using r pos switched_frame(4) [of env "ts ! i" t' "(elr, frame)" s]
    by (auto simp: running_def on_threads_def switched_frame switched_threads resumed_def assms(2) machine_get_cpu_num_def)
qed

lemma tick_effect:
  assumes "running env ts n i s" "tick env (s, g) irq (s', g')" "t' = ts ! (Suc i mod length ts)"
  shows "s' = resumed n t' (switched env (ts ! i) t' irq s)"
proof -
  obtain elr frame where irq: "irq = (elr, frame)" by (cases irq)
  obtain iar t s1 where 1: "ucast iar = (30 :: u32)" "arm64_handler_irq env iar elr frame s g = Inr (Some t, s1, g')"
    "sched_tail env t s1 = Inr s'" using assms(2) [unfolded irq] by (rule tickE)
  note sch = running_schedule [OF assms(1,3), of elr frame]
  from 1(2) have "t = t'" "s1 = switched env (ts ! i) t' irq s"
    using sch(1) 1(1) by (auto simp: arm64_handler_irq_def schedule_masked Let_def irq)
  with 1(3) sch(2) show ?thesis by (simp add: irq)
qed

lemma tick_possible:
  assumes "running env ts n i s"
  shows "\<exists>s' g'. tick env (s, g) irq (s', g')"
proof -
  obtain elr frame where irq: "irq = (elr, frame)" by (cases irq)
  note sch = running_schedule [OF assms refl, of elr frame]
  let ?t = "ts ! (Suc i mod length ts)"
  obtain g' where "arm64_handler_irq env 30 elr frame s g = Inr (Some ?t, switched env (ts ! i) ?t (elr, frame) s, g')"
    using sch(1) by (simp add: arm64_handler_irq_def schedule_masked Let_def)
  from tick.intros [OF _ _ this sch(2)] assms show ?thesis unfolding irq running_def by auto
qed

subsection \<open>Runs\<close>

lemma places_differ:
  assumes "0 < d" "d < (n :: nat)"
  shows "(i + j) mod n \<noteq> (i + (j + d)) mod n"
proof
  assume "(i + j) mod n = (i + (j + d)) mod n"
  then have "n dvd d" using mod_eq_dvd_iff_nat [of "i + j" "i + (j + d)" n] by simp
  with assms show False by (auto dest: dvd_imp_le)
qed

text \<open>After \<open>k\<close> slices, the threads that were interrupted during the last round still have what was saved for them.\<close>

lemma ticks_inv:
  assumes "ticks env p irqs q" "running env ts n i (fst p)"
  defines "t \<equiv> \<lambda>j. ts ! ((i + j) mod length ts)"
  shows "running env ts n ((i + length irqs) mod length ts) (fst q) \<and>
     (irqs \<noteq> [] \<longrightarrow> loaded env (thread_objs (fst q) (t (length irqs)))) \<and>
     (\<forall>j < length irqs. length irqs \<le> j + length ts \<longrightarrow> saved (irqs ! j) (thread_objs (fst q) (t j)))"
  using assms(1)
proof induction
  case start
  then show ?case using assms(2) by (simp add: running_def)
next
  case (further irqs q irq r)
  obtain s g s' g' where q: "q = (s, g)" and r: "r = (s', g')" by (cases q, cases r)
  let ?k = "length irqs" and ?n = "length ts"
  have run: "running env ts n ((i + ?k) mod ?n) s" using further.IH by (simp add: q)
  have suc: "Suc ((i + ?k) mod ?n) mod ?n = (i + Suc ?k) mod ?n" by (simp add: mod_Suc_eq)
  have s': "s' = resumed n (t (Suc ?k)) (switched env (t ?k) (t (Suc ?k)) irq s)"
    using tick_effect [OF run further.hyps(2) [unfolded q r] refl] by (simp only: suc t_def)
  have objs: "thread_objs s' = thread_objs (switched env (t ?k) (t (Suc ?k)) irq s)" by (simp add: s' resumed_def)
  have "running env ts n ((i + Suc ?k) mod ?n) s'"
    using running_schedule(3) [OF run refl, of "fst irq" "snd irq"] by (simp add: s' suc t_def)
  moreover have "saved ((irqs @ [irq]) ! j) (thread_objs s' (t j))" if j: "j < Suc ?k" "Suc ?k \<le> j + ?n" for j
  proof (cases "j = ?k")
    case True
    then show ?thesis by (simp add: objs switched_threads)
  next
    case False
    then have less: "j < ?k" using j by simp
    with j have "(i + j) mod ?n \<noteq> (i + (j + (?k - j))) mod ?n" by (intro places_differ) simp_all
    moreover have "(i + j) mod ?n < ?n" using run by (intro mod_less_divisor) (auto simp: running_def)
    ultimately have "t j \<noteq> t ?k"
      using less running_threads [OF run] run by (simp add: t_def nth_eq_iff_index_eq running_def)
    moreover have "saved (irqs ! j) (thread_objs s (t j))" using further.IH less j(2) by (simp add: q)
    ultimately show ?thesis using less by (simp add: objs switched_threads(5) nth_append)
  qed
  ultimately show ?case by (simp add: r objs switched_threads(3))
qed

lemma ticks_possible:
  assumes "running env ts n i s"
  shows "\<exists>q. ticks env (s, g) irqs q"
proof (induction irqs rule: rev_induct)
  case Nil
  then show ?case by (blast intro: ticks.start)
next
  case (snoc irq irqs)
  then obtain q where q: "ticks env (s, g) irqs q" by blast
  then have "running env ts n ((i + length irqs) mod length ts) (fst q)" using ticks_inv assms by fastforce
  from tick_possible [OF this, of "snd q" irq] q show ?case by (auto intro: ticks.further)
qed

subsection \<open>Properties\<close>


definition sample_frame :: "u64 \<Rightarrow> exception_frame" where
  "sample_frame sp = \<lparr>fr_regs = word_of_nat, fr_fp = 1, fr_lr = 2, fr_sp = sp, fr_far = 0, fr_esr = 0, fr_elr = 0\<rparr>"


end
