(* ===== verification/Thread_Create.thy ===== *)
theory Thread_Create
  imports Sched_Run "HOL-Library.Multiset"
begin

section \<open>Creating threads\<close>

text \<open>
  \<^verbatim>\<open>thread_create\<close> as the composition it is: an element of the thread zone, an element of the stack zone, a
  guarded range of the kernel's map, and a node on three lists. Then the new thread among the running ones: it is on the
  scheduler's ring and gets its turn.
\<close>

subsection \<open>Several lists in one heap\<close>

text \<open>Lists that share no node, each with its head.\<close>

definition nodes :: "(addr \<times> addr list) list \<Rightarrow> addr list" where
  "nodes L = concat (map (\<lambda>(l, xs). l # xs) L)"

definition rings :: "list_heap \<Rightarrow> (addr \<times> addr list) list \<Rightarrow> bool" where
  "rings h L \<longleftrightarrow> distinct (nodes L) \<and> (\<forall>(l, xs) \<in> set L. dlist h l xs)"

lemma nodes_simps [simp]: "nodes [] = []" "nodes ((l, xs) # L) = l # xs @ nodes L" "nodes (L @ M) = nodes L @ nodes M"
  by (simp_all add: nodes_def)

lemma ring_nodes: "(l, xs) \<in> set L \<Longrightarrow> set (l # xs) \<subseteq> set (nodes L)"
  by (auto simp: nodes_def)

lemma ringsD: "rings h L \<Longrightarrow> (l, xs) \<in> set L \<Longrightarrow> dlist h l xs"
  by (auto simp: rings_def)

lemma nodes_mset:
  assumes "mset L = mset M"
  shows "mset (nodes L) = mset (nodes M)"
proof -
  have "mset (nodes L) = (\<Sum>(l, xs) \<in># mset L. mset (l # xs))" for L by (induction L) auto
  with assms show ?thesis by simp
qed

lemma rings_perm:
  assumes "rings h L" "mset L = mset M"
  shows "rings h M"
proof -
  have "distinct (nodes M)" using assms(1) mset_eq_imp_distinct_iff [OF nodes_mset [OF assms(2)]] by (simp add: rings_def)
  with assms(1) mset_eq_setD [OF assms(2)] show ?thesis by (auto simp: rings_def)
qed

lemma rings_append:
  assumes "rings h ((l, xs) # L)" "n \<notin> set (nodes ((l, xs) # L))"
  shows "rings (list_add_tail n l h) ((l, xs @ [n]) # L)"
proof -
  have d: "dlist h l xs" using assms(1) by (auto simp: rings_def)
  have "dlist (list_add_tail n l h) k zs" if "(k, zs) \<in> set L" for k zs
    using assms that ring_nodes [OF that] by (intro lh.append_frame [OF d]) (auto simp: rings_def)
  moreover have "dlist (list_add_tail n l h) l (xs @ [n])" using assms(2) by (intro lh.rep_append [OF d]) simp
  ultimately show ?thesis using assms by (auto simp: rings_def)
qed

lemma rings_move:
  assumes "rings h ((f, x # fs) # (u, us) # L)"
  shows "rings (list_move x u h) ((f, fs) # (u, x # us) # L)"
proof -
  have d: "dlist h f (x # fs)" "dlist h u us" and disj: "set (f # x # fs) \<inter> set (u # us) = {}"
    using assms by (auto simp: rings_def)
  have "dlist (list_move x u h) k zs" if "(k, zs) \<in> set L" for k zs
    using assms that ring_nodes [OF that] by (intro lh.pool_frame [OF d _ _ disj]) (auto simp: rings_def)
  moreover have "dlist (list_move x u h) f fs" "dlist (list_move x u h) u (x # us)"
    using lh.rep_move_src [of h f "[]" x fs u us] lh.rep_move_dst [of h f "[]" x fs u us] d disj by simp_all
  ultimately show ?thesis using assms by (auto simp: rings_def)
qed

lemma rings_kept:
  assumes "rings (lists s) L" "kept vmap s s'" "\<forall>a \<in> set (nodes L). outside vmap a"
  shows "rings (lists s') L"
proof -
  have "dlist (lists s') l xs" if L: "(l, xs) \<in> set L" for l xs
  proof -
    have "\<forall>x \<in> set (l # xs). outside vmap x" using assms(3) ring_nodes [OF L] by blast
    with assms(2) ringsD [OF assms(1) L] show ?thesis unfolding kept_def by blast
  qed
  with assms(1) show ?thesis by (auto simp: rings_def)
qed

text \<open>The map's own list beside lists outside its memory.\<close>

definition map_ring :: "addr \<Rightarrow> nat \<Rightarrow> addr \<times> addr list" where
  "map_ring vmap n = (vmap + OFF_MAP_ENTRIES, map (entry_node vmap) [0 ..< n])"

lemma rings_map:
  assumes "rings (lists s) L" "alloc_inv vmap n s" "n \<le> 2 ^ 32" "\<forall>a \<in> set (nodes L). outside vmap a"
  shows "rings (lists s) (map_ring vmap n # L)"
proof -
  have "dlist (lists s) (vmap + OFF_MAP_ENTRIES) (map (entry_node vmap) [0 ..< n])"
    using assms(2) by (simp add: alloc_inv_def vm_map_ok_def)
  moreover have "set (nodes L) \<inter> set ((vmap + OFF_MAP_ENTRIES) # map (entry_node vmap) [0 ..< n]) = {}"
    using outside_not_node [OF _ assms(3)] assms(4) by auto
  moreover from calculation(1) have "distinct ((vmap + OFF_MAP_ENTRIES) # map (entry_node vmap) [0 ..< n])" by (rule lh.rep_distinct)
  ultimately show ?thesis using assms(1) by (auto simp: rings_def map_ring_def simp del: distinct_map)
qed

lemma alloc_pre_cong:
  assumes "alloc_pre vmap n sz flags s" "rings (lists s') (map_ring vmap n # L)"
    and "vm_maps s' = vm_maps s" "map_entries s' = map_entries s" "pages s' = pages s" "cells s' = cells s"
    and "vm_page_idx s' = vm_page_idx s" "vm_page_region s' = vm_page_region s"
    and "memory_phys_base s' = memory_phys_base s" "memory_virt_base s' = memory_virt_base s"
  shows "alloc_pre vmap n sz flags s'" "alloc_base vmap s' = alloc_base vmap s"
proof -
  have inv: "alloc_inv vmap n s" "0 < n" using assms(1) by (simp_all add: alloc_pre_def Let_def)
  have inv': "alloc_inv vmap n s'"
    using assms(2-10) by (intro alloc_inv_cong [OF inv(1)]) (auto simp: rings_def map_ring_def)
  show base: "alloc_base vmap s' = alloc_base vmap s"
    using inv inv' vm_map_ok_last(2) [of vmap n s] vm_map_ok_last(2) [of vmap n s'] assms(4)
    by (simp add: alloc_base_def alloc_inv_def)
  have "page_ready table v s' = page_ready table v s" for table v
    using assms(6,9,10) by (simp add: page_ready_def ptokva_def)
  moreover have "free_frames s' = free_frames s" using assms(5,7,8) by (simp add: free_frames_def vm_page_get_idx_def)
  ultimately show "alloc_pre vmap n sz flags s'" using assms(1) inv' base by (simp add: alloc_pre_def Let_def)
qed

subsection \<open>The state a thread is created in\<close>

text \<open>
  The lists involved: the free and the used list of the thread zone, whose next free node is \<open>x\<close>, and of the stack zone,
  whose next free node is \<open>y\<close>; the stacks, the threads of the parent task, and all threads.
\<close>

record thread_lists_view =
  thr_free :: "addr list"
  thr_used :: "addr list"
  stk_free :: "addr list"
  stk_used :: "addr list"
  stack_nodes :: "addr list"
  task_nodes :: "addr list"
  all_threads :: "addr list"

definition view_rings :: "arch_env \<Rightarrow> addr \<Rightarrow> kstate \<Rightarrow> thread_lists_view \<Rightarrow> (addr \<times> addr list) list" where
  "view_rings env task s v =
     [(thread_zone s + OFF_ZONE_FREE, thr_free v), (thread_zone s + OFF_ZONE_USED, thr_used v),
      (stack_zone s + OFF_ZONE_FREE, stk_free v), (stack_zone s + OFF_ZONE_USED, stk_used v),
      (sym_stacks env, stack_nodes v), (task + OFF_TASK_THREADS, task_nodes v),
      (sym_threads env, map (\<lambda>t. t + OFF_THREAD_THREADS) (all_threads v))]"

text \<open>The same lists once the thread \<open>x + 16\<close> and the stack object \<open>y + 16\<close> are linked.\<close>

definition view_created :: "addr \<Rightarrow> addr \<Rightarrow> thread_lists_view \<Rightarrow> thread_lists_view" where
  "view_created x y v = v\<lparr>thr_free := tl (thr_free v), thr_used := x # thr_used v, stk_free := tl (stk_free v),
     stk_used := y # stk_used v, stack_nodes := stack_nodes v @ [y + SIZEOF_ZONE_META + OFF_STACK_SIBLINGS],
     task_nodes := task_nodes v @ [x + SIZEOF_ZONE_META + OFF_THREAD_SIBLINGS],
     all_threads := all_threads v @ [x + SIZEOF_ZONE_META]\<rparr>"

definition new_nodes :: "addr \<Rightarrow> addr \<Rightarrow> addr list" where
  "new_nodes x y = [y + SIZEOF_ZONE_META + OFF_STACK_SIBLINGS, x + SIZEOF_ZONE_META + OFF_THREAD_SIBLINGS,
     x + SIZEOF_ZONE_META + OFF_THREAD_THREADS]"

text \<open>
  A state that can create a thread: both zones have an element, no list shares a node with another or with the new
  nodes, nothing of this lies among the kernel map's entries, and the map can give a page and two guards.
\<close>

definition create_pre :: "arch_env \<Rightarrow> addr \<Rightarrow> addr \<Rightarrow> addr \<Rightarrow> thread_lists_view \<Rightarrow> nat \<Rightarrow> kstate \<Rightarrow> bool" where
  "create_pre env task x y v n s \<longleftrightarrow>
     (let m = vm_get_kernel_map env
      in thr_free v \<noteq> [] \<and> hd (thr_free v) = x \<and> stk_free v \<noteq> [] \<and> hd (stk_free v) = y \<and>
         zone_ok (thread_zone s) (thr_free v) (thr_used v) s \<and> zone_ok (stack_zone s) (stk_free v) (stk_used v) s \<and>
         thread_zone s \<noteq> stack_zone s \<and>
         rings (lists s) (view_rings env task s v) \<and> distinct (new_nodes x y @ nodes (view_rings env task s v)) \<and>
         (\<forall>a \<in> set ([thread_zone s, stack_zone s, x + SIZEOF_ZONE_META] @ new_nodes x y @ nodes (view_rings env task s v)).
            outside m a) \<and>
         alloc_pre m n THREAD_STACK_DEFAULT_SIZE (VM_ALLOC_GUARD_FIRST OR VM_ALLOC_GUARD_LAST) s)"

lemma zalloc_first:
  assumes "zone_ok z (x # fs) us s"
  shows "zalloc z s = (x + SIZEOF_ZONE_META, set_zone z (\<lambda>z. z\<lparr>z_count := z_count z + 1, z_count_free := z_count_free z - 1\<rparr>)
     (s\<lparr>lists := list_move x (z + OFF_ZONE_USED) (lists s)\<rparr>))"
proof -
  have "nxt (lists s (z + OFF_ZONE_FREE)) = x"
    using dlist_first [of "lists s" "z + OFF_ZONE_FREE" "x # fs"] assms by (simp add: zone_ok_def)
  then show ?thesis by (simp add: zalloc_def Let_def list_first_entry_def container_of_def)
qed

text \<open>Both elements taken: the lists move on, and nothing the map depends on changes.\<close>

lemma rings_zalloc_both:
  assumes "rings h ((f, x # fs) # (u, us) # (g, y # gs) # (w, vs) # L)"
  shows "rings (list_move y w (list_move x u h)) ((f, fs) # (u, x # us) # (g, gs) # (w, y # vs) # L)"
proof -
  have "rings (list_move x u h) ((g, y # gs) # (w, vs) # (f, fs) # (u, x # us) # L)"
    by (rule rings_perm [OF rings_move [OF assms]]) simp
  from rings_perm [OF rings_move [OF this]] show ?thesis by simp
qed

lemma rings_append_three:
  assumes "rings h (K @ [(a, as), (b, bs), (c, cs)])" "distinct ([p, q, r] @ nodes (K @ [(a, as), (b, bs), (c, cs)]))"
  shows "rings (list_add_tail r c (list_add_tail q b (list_add_tail p a h)))
     (K @ [(a, as @ [p]), (b, bs @ [q]), (c, cs @ [r])])"
proof -
  have "rings h ((a, as) # (b, bs) # (c, cs) # K)" by (rule rings_perm [OF assms(1)]) simp
  from rings_append [OF this, of p] have "rings (list_add_tail p a h) ((a, as @ [p]) # (b, bs) # (c, cs) # K)"
    using assms(2) by auto
  from rings_perm [OF this, of "(b, bs) # (a, as @ [p]) # (c, cs) # K"]
  have "rings (list_add_tail q b (list_add_tail p a h)) ((b, bs @ [q]) # (a, as @ [p]) # (c, cs) # K)"
    using assms(2) by (intro rings_append) auto
  from rings_perm [OF this, of "(c, cs) # (b, bs @ [q]) # (a, as @ [p]) # K"]
  have "rings (list_add_tail r c (list_add_tail q b (list_add_tail p a h)))
      ((c, cs @ [r]) # (b, bs @ [q]) # (a, as @ [p]) # K)"
    using assms(2) by (intro rings_append) auto
  then show ?thesis by (rule rings_perm) simp
qed

lemma zone_ok_rings:
  assumes "rings (lists s) L" "(z + OFF_ZONE_FREE, fs) \<in> set L" "(z + OFF_ZONE_USED, us) \<in> set L"
    and "set ((z + OFF_ZONE_FREE) # fs) \<inter> set ((z + OFF_ZONE_USED) # us) = {}"
    and "z_count (zones s z) = word_of_nat (length us)" "z_count_free (zones s z) = word_of_nat (length fs)"
  shows "zone_ok z fs us s"
  using assms(4-6) ringsD [OF assms(1,2)] ringsD [OF assms(1,3)] by (simp add: zone_ok_def)

lemma rings_apart:
  assumes "rings h L" "(l, xs) \<in> set L" "(k, ys) \<in> set L" "l \<noteq> k"
  shows "set (l # xs) \<inter> set (k # ys) = {}"
proof -
  obtain A B where L: "L = A @ (l, xs) # B" using assms(2) by (auto dest: split_list)
  then have "(k, ys) \<in> set (A @ B)" using assms(3,4) by auto
  then have "set (k # ys) \<subseteq> set (nodes (A @ B))" by (rule ring_nodes)
  moreover have "set (l # xs) \<inter> set (nodes (A @ B)) = {}" using assms(1) by (auto simp: rings_def L)
  ultimately show ?thesis by blast
qed

subsection \<open>Taking the elements and the stack's memory\<close>

definition began :: "addr \<Rightarrow> kstate \<Rightarrow> kstate" where
  "began t s = (set_thread t (\<lambda>u. u\<lparr>th_stack := 0, th_ref_count := 2, th_preempt := 0, th_thread_id := thread_id_max s\<rparr>) s)
     \<lparr>thread_id_max := thread_id_max s + 1\<rparr>"

definition taken :: "addr \<Rightarrow> addr \<Rightarrow> kstate \<Rightarrow> kstate" where
  "taken x y s = snd (zalloc (stack_zone s) (began (x + SIZEOF_ZONE_META) (snd (zalloc (thread_zone s) s))))"

lemma taken_state:
  assumes "create_pre env task x y v n s"
  defines "f \<equiv> \<lambda>z. z\<lparr>z_count := z_count z + 1, z_count_free := z_count_free z - 1\<rparr>"
  shows "zalloc (thread_zone s) s = (x + SIZEOF_ZONE_META, snd (zalloc (thread_zone s) s))"
    and "zalloc (stack_zone s) (began (x + SIZEOF_ZONE_META) (snd (zalloc (thread_zone s) s)))
       = (y + SIZEOF_ZONE_META, taken x y s)"
    and "taken x y s = s\<lparr>lists := list_move y (stack_zone s + OFF_ZONE_USED) (list_move x (thread_zone s + OFF_ZONE_USED) (lists s)),
       zones := (zones s)(thread_zone s := f (zones s (thread_zone s)), stack_zone s := f (zones s (stack_zone s))),
       thread_objs := (thread_objs s)(x + SIZEOF_ZONE_META := (thread_objs s (x + SIZEOF_ZONE_META))\<lparr>th_stack := 0,
         th_ref_count := 2, th_preempt := 0, th_thread_id := thread_id_max s\<rparr>),
       thread_id_max := thread_id_max s + 1\<rparr>"
proof -
  obtain fs gs where v: "thr_free v = x # fs" "stk_free v = y # gs"
    using assms(1) by (cases "thr_free v"; cases "stk_free v") (auto simp: create_pre_def Let_def)
  have pre: "zone_ok (thread_zone s) (x # fs) (thr_used v) s" "zone_ok (stack_zone s) (y # gs) (stk_used v) s"
    "thread_zone s \<noteq> stack_zone s" and R: "rings (lists s) (view_rings env task s v)"
    using assms(1) v by (simp_all add: create_pre_def Let_def)
  let ?b = "began (x + SIZEOF_ZONE_META) (snd (zalloc (thread_zone s) s))"
  note z1 = zalloc_first [OF pre(1)]
  show "zalloc (thread_zone s) s = (x + SIZEOF_ZONE_META, snd (zalloc (thread_zone s) s))" by (simp add: z1)
  have b: "lists ?b = list_move x (thread_zone s + OFF_ZONE_USED) (lists s)" "stack_zone ?b = stack_zone s"
    "zones ?b (stack_zone s) = zones s (stack_zone s)"
    using pre(3) by (simp_all add: z1 began_def set_thread_def set_zone_def)
  have "rings (lists ?b) ((thread_zone s + OFF_ZONE_FREE, fs) # (thread_zone s + OFF_ZONE_USED, x # thr_used v) #
      drop 2 (view_rings env task s v))"
    unfolding b(1) by (rule rings_move) (use R v in \<open>simp add: view_rings_def\<close>)
  then have "zone_ok (stack_zone s) (y # gs) (stk_used v) ?b"
    by (rule zone_ok_rings) (use pre(2) v b(3) in \<open>auto simp: view_rings_def zone_ok_def\<close>)
  note z2 = zalloc_first [OF this]
  then show "zalloc (stack_zone s) ?b = (y + SIZEOF_ZONE_META, taken x y s)" by (simp add: taken_def)
  show "taken x y s = s\<lparr>lists := list_move y (stack_zone s + OFF_ZONE_USED) (list_move x (thread_zone s + OFF_ZONE_USED) (lists s)),
       zones := (zones s)(thread_zone s := f (zones s (thread_zone s)), stack_zone s := f (zones s (stack_zone s))),
       thread_objs := (thread_objs s)(x + SIZEOF_ZONE_META := (thread_objs s (x + SIZEOF_ZONE_META))\<lparr>th_stack := 0,
         th_ref_count := 2, th_preempt := 0, th_thread_id := thread_id_max s\<rparr>),
       thread_id_max := thread_id_max s + 1\<rparr>"
    using pre(3) unfolding taken_def z2 snd_conv by (simp add: z1 f_def began_def set_thread_def set_zone_def)
qed

lemma taken_rings:
  assumes "create_pre env task x y v n s"
  defines "L \<equiv> view_rings env task s (v\<lparr>thr_free := tl (thr_free v), thr_used := x # thr_used v,
     stk_free := tl (stk_free v), stk_used := y # stk_used v\<rparr>)"
  shows "rings (lists (taken x y s)) (map_ring (vm_get_kernel_map env) n # L)" "mset (nodes L) = mset (nodes (view_rings env task s v))"
proof -
  let ?m = "vm_get_kernel_map env"
  obtain fs gs where v: "thr_free v = x # fs" "stk_free v = y # gs"
    using assms(1) by (cases "thr_free v"; cases "stk_free v") (auto simp: create_pre_def Let_def)
  have pre: "rings (lists s) (view_rings env task s v)" "\<forall>a \<in> set (nodes (view_rings env task s v)). outside ?m a"
    "alloc_inv ?m n s" "n \<le> 2 ^ 32"
    using assms(1) by (simp_all add: create_pre_def alloc_pre_def Let_def)
  have "rings (lists s) (take 4 (view_rings env task s v) @ map_ring ?m n # drop 4 (view_rings env task s v))"
    by (rule rings_perm [OF rings_map [OF pre(1,3,4,2)]]) (simp add: view_rings_def)
  then have "rings (lists (taken x y s)) (take 4 L @ map_ring ?m n # drop 4 L)"
    using rings_zalloc_both [of "lists s" "thread_zone s + OFF_ZONE_FREE" x fs] v
    by (simp add: taken_state(3) [OF assms(1)] L_def view_rings_def)
  then show "rings (lists (taken x y s)) (map_ring ?m n # L)"
    by (rule rings_perm) (simp add: L_def view_rings_def)
  show "mset (nodes L) = mset (nodes (view_rings env task s v))" using v by (simp add: L_def view_rings_def)
qed

lemma taken_alloc:
  assumes "create_pre env task x y v n s"
  defines "m \<equiv> vm_get_kernel_map env"
  obtains s' where "vm_map_alloc env m THREAD_STACK_DEFAULT_SIZE (VM_ALLOC_GUARD_FIRST OR VM_ALLOC_GUARD_LAST) (taken x y s)
       = Inr (alloc_base m s + VM_PAGE_SIZE, s')"
    and "phase m n [guard_entry (alloc_base m s), range_entry (alloc_base m s + VM_PAGE_SIZE) 1,
          guard_entry (alloc_base m s + 2 * VM_PAGE_SIZE)] 3 (taken x y s) s'"
proof -
  let ?flags = "VM_ALLOC_GUARD_FIRST OR VM_ALLOC_GUARD_LAST"
  have "alloc_pre m n THREAD_STACK_DEFAULT_SIZE ?flags s" using assms by (simp add: create_pre_def Let_def)
  note pre = alloc_pre_cong [OF this taken_rings(1) [OF assms(1), folded m_def]]
  have "alloc_pre m n THREAD_STACK_DEFAULT_SIZE ?flags (taken x y s)" "alloc_base m (taken x y s) = alloc_base m s"
    by (rule pre; simp add: taken_state(3) [OF assms(1)])+
  from vm_map_alloc_pre [OF this(1), of env] this(2) that show thesis
    by (auto simp: guards_def alloc_entries_def alloc_page_count_def numeral_3_eq_3)
qed

subsection \<open>The whole creation\<close>

definition new_name :: "u64 \<Rightarrow> string \<Rightarrow> string \<Rightarrow> string" where
  "new_name len name old = (if len = 0 then old else take (min (unat len) 64 - 1) name)"

lemma thread_set_name_eq: "thread_set_name len t name s = set_thread t (\<lambda>u. u\<lparr>th_name := new_name len name (th_name u)\<rparr>) s"
  by (auto simp: thread_set_name_def new_name_def set_thread_def Let_def word_less_nat_alt min_def)

lemma set_thread_fuse:
  "set_thread t f (set_thread t g s) = set_thread t (\<lambda>u. f (g u)) s"
  "(set_thread t f s)\<lparr>lists := L\<rparr> = set_thread t f (s\<lparr>lists := L\<rparr>)"
  "lists (set_thread t f s) = lists s"
  by (simp_all add: set_thread_def)

text \<open>What linking adds to a state in which the stack has its memory.\<close>

definition linked :: "arch_env \<Rightarrow> u64 \<Rightarrow> addr \<Rightarrow> addr \<Rightarrow> string \<Rightarrow> addr \<Rightarrow> addr \<Rightarrow> addr \<Rightarrow> kstate \<Rightarrow> kstate" where
  "linked env len task entry name t k base s =
     set_thread t (\<lambda>u. u\<lparr>th_stack_base := base, th_stack := base, th_entry := entry, th_task := task,
         th_name := new_name len name (th_name u), th_active := True\<rparr>)
       (s\<lparr>stack_objs := (stack_objs s)(k := base),
          lists := list_add_tail (t + OFF_THREAD_THREADS) (sym_threads env)
            (list_add_tail (t + OFF_THREAD_SIBLINGS) (task + OFF_TASK_THREADS)
              (list_add_tail (k + OFF_STACK_SIBLINGS) (sym_stacks env) (lists s)))\<rparr>)"

lemma linked_simps:
  "lists (linked env len task entry name t k base s) = list_add_tail (t + OFF_THREAD_THREADS) (sym_threads env)
     (list_add_tail (t + OFF_THREAD_SIBLINGS) (task + OFF_TASK_THREADS)
       (list_add_tail (k + OFF_STACK_SIBLINGS) (sym_stacks env) (lists s)))"
  "stack_objs (linked env len task entry name t k base s) = (stack_objs s)(k := base)"
  "zones (linked env len task entry name t k base s) = zones s"
  "vm_maps (linked env len task entry name t k base s) = vm_maps s"
  "map_entries (linked env len task entry name t k base s) = map_entries s"
  "pages (linked env len task entry name t k base s) = pages s"
  "kheap.more (linked env len task entry name t k base s) = kheap.more s"
  "u \<noteq> t \<Longrightarrow> thread_objs (linked env len task entry name t k base s) u = thread_objs s u"
  "thread_objs (linked env len task entry name t k base s) t = (thread_objs s t)\<lparr>th_stack_base := base, th_stack := base,
     th_entry := entry, th_task := task, th_name := new_name len name (th_name (thread_objs s t)), th_active := True\<rparr>"
  by (simp_all add: linked_def set_thread_def)

lemma thread_create_linked:
  assumes "create_pre env task x y v n s"
    and "vm_map_alloc env (vm_get_kernel_map env) THREAD_STACK_DEFAULT_SIZE (VM_ALLOC_GUARD_FIRST OR VM_ALLOC_GUARD_LAST)
       (taken x y s) = Inr (base, s5)"
  shows "thread_create env len task priority entry name s = Inr (x + SIZEOF_ZONE_META,
     linked env len task entry name (x + SIZEOF_ZONE_META) (y + SIZEOF_ZONE_META) base s5)"
proof -
  let ?t = "x + SIZEOF_ZONE_META" and ?k = "y + SIZEOF_ZONE_META"
  obtain s1 where z: "zalloc (thread_zone s) s = (?t, s1)" "zalloc (stack_zone s) (began ?t s1) = (?k, taken x y s)"
    using taken_state(1,2) [OF assms(1)] by simp
  have b: "(set_thread ?t (\<lambda>u. u\<lparr>th_stack := 0, th_ref_count := 2, th_preempt := 0, th_thread_id := thread_id_max s1\<rparr>) s1)
      \<lparr>thread_id_max := thread_id_max (set_thread ?t (\<lambda>u. u\<lparr>th_stack := 0, th_ref_count := 2, th_preempt := 0,
        th_thread_id := thread_id_max s1\<rparr>) s1) + 1\<rparr> = began ?t s1"
    by (simp add: began_def set_thread_def)
  have "stack_zone (began ?t s1) = stack_zone s"
    using z(1) by (auto simp: began_def set_thread_def zalloc_def set_zone_def Let_def)
  then have "stack_alloc env ?t (began ?t s1) = Inr (set_thread ?t (\<lambda>u. u\<lparr>th_stack_base := base, th_stack := base\<rparr>)
        (s5\<lparr>stack_objs := (stack_objs s5)(?k := base),
           lists := list_add_tail (?k + OFF_STACK_SIBLINGS) (sym_stacks env) (lists s5)\<rparr>))"
    using z(2) assms(2) by (simp add: stack_alloc_def Let_def)
  then show ?thesis
    unfolding thread_create_def z(1) prod.case Let_def b
    by (simp add: thread_set_name_eq thread_init_context_def task_assign_thread_def set_thread_fuse linked_def)
qed

text \<open>The thread and its surroundings after the creation.\<close>

definition created :: "arch_env \<Rightarrow> addr \<Rightarrow> addr \<Rightarrow> addr \<Rightarrow> addr \<Rightarrow> thread_lists_view \<Rightarrow> nat \<Rightarrow> kstate \<Rightarrow> kstate \<Rightarrow> bool" where
  "created env task entry x y v n s s' \<longleftrightarrow>
     (let m = vm_get_kernel_map env; t = thread_objs s' (x + SIZEOF_ZONE_META); base = alloc_base m s + VM_PAGE_SIZE;
          v' = view_created x y v
      in th_thread_id t = thread_id_max s \<and> th_task t = task \<and> th_entry t = entry \<and> th_active t \<and>
         th_ref_count t = 2 \<and> th_args t = th_args (thread_objs s (x + SIZEOF_ZONE_META)) \<and>
         th_stack_base t = base \<and> th_stack t = base \<and> stack_objs s' (y + SIZEOF_ZONE_META) = base \<and>
         entries_of m (n + 3) s' = entries_of m n s @
           [guard_entry (base - VM_PAGE_SIZE), range_entry base 1, guard_entry (base + VM_PAGE_SIZE)] \<and>
         alloc_inv m (n + 3) s' \<and> rings (lists s') (view_rings env task s v') \<and>
         zone_ok (thread_zone s) (thr_free v') (thr_used v') s' \<and> zone_ok (stack_zone s) (stk_free v') (stk_used v') s' \<and>
         (\<forall>u. outside m u \<and> u \<noteq> x + SIZEOF_ZONE_META \<longrightarrow> thread_objs s' u = thread_objs s u) \<and>
         kheap.more s' = kheap.more (s\<lparr>thread_id_max := thread_id_max s + 1\<rparr>))"

lemma created_rings:
  assumes "create_pre env task x y v n s" "phase (vm_get_kernel_map env) n es k (taken x y s) s5" "length es = 3"
  shows "rings (lists (linked env len task entry name (x + SIZEOF_ZONE_META) (y + SIZEOF_ZONE_META) base s5))
     (map_ring (vm_get_kernel_map env) (n + 3) # view_rings env task s (view_created x y v))"
proof -
  let ?m = "vm_get_kernel_map env"
  define L where "L = view_rings env task s (v\<lparr>thr_free := tl (thr_free v), thr_used := x # thr_used v,
     stk_free := tl (stk_free v), stk_used := y # stk_used v\<rparr>)"
  note taken = taken_rings [OF assms(1), folded L_def]
  have pre: "\<forall>a \<in> set (new_nodes x y @ nodes L). outside ?m a" "distinct (new_nodes x y @ nodes L)" "n + 3 \<le> 2 ^ 32"
    using assms(1) mset_eq_setD [OF taken(2)] mset_eq_imp_distinct_iff [OF taken(2)]
    by (simp_all add: create_pre_def alloc_pre_def Let_def)
  have ph: "kept ?m (taken x y s) s5" "alloc_inv ?m (n + 3) s5" using assms(2,3) by (simp_all add: phase_def)
  have out: "\<forall>a \<in> set (nodes L). outside ?m a" using pre(1) by simp
  have "rings (lists (taken x y s)) L" using taken(1) by (auto simp: rings_def map_ring_def)
  from rings_map [OF rings_kept [OF this ph(1) out] ph(2) pre(3) out]
  have "rings (lists s5) (map_ring ?m (n + 3) # L)" .
  moreover have "distinct (new_nodes x y @ nodes (map_ring ?m (n + 3) # L))"
  proof -
    have "set (new_nodes x y) \<inter> set (nodes [map_ring ?m (n + 3)]) = {}"
      using outside_not_node [of ?m _ "n + 3"] pre(1,3) by (auto simp: map_ring_def)
    moreover have "distinct (nodes (map_ring ?m (n + 3) # L))" using calculation \<open>rings (lists s5) (map_ring ?m (n + 3) # L)\<close>
      by (simp add: rings_def)
    ultimately show ?thesis using pre(2) by (auto simp: map_ring_def)
  qed
  ultimately show ?thesis
    using rings_append_three [of "lists s5" "map_ring ?m (n + 3) # take 4 L"]
    by (simp add: L_def view_rings_def view_created_def new_nodes_def linked_simps)
qed

lemma zone_taken:
  assumes "create_pre env task x y v n s" "zones s' (thread_zone s) = zones (taken x y s) (thread_zone s)"
    and "zones s' (stack_zone s) = zones (taken x y s) (stack_zone s)"
    and "rings (lists s') (view_rings env task s (view_created x y v))"
  shows "zone_ok (thread_zone s) (tl (thr_free v)) (x # thr_used v) s'"
    and "zone_ok (stack_zone s) (tl (stk_free v)) (y # stk_used v) s'"
proof -
  obtain fs gs where v: "thr_free v = x # fs" "stk_free v = y # gs"
    using assms(1) by (cases "thr_free v"; cases "stk_free v") (auto simp: create_pre_def Let_def)
  have z: "zone_ok (thread_zone s) (x # fs) (thr_used v) s" "zone_ok (stack_zone s) (y # gs) (stk_used v) s"
    "thread_zone s \<noteq> stack_zone s"
    using assms(1) v by (simp_all add: create_pre_def Let_def)
  have in_L: "(thread_zone s + OFF_ZONE_FREE, fs) \<in> set (view_rings env task s (view_created x y v))"
    "(thread_zone s + OFF_ZONE_USED, x # thr_used v) \<in> set (view_rings env task s (view_created x y v))"
    "(stack_zone s + OFF_ZONE_FREE, gs) \<in> set (view_rings env task s (view_created x y v))"
    "(stack_zone s + OFF_ZONE_USED, y # stk_used v) \<in> set (view_rings env task s (view_created x y v))"
    using v by (simp_all add: view_rings_def view_created_def)
  show "zone_ok (thread_zone s) (tl (thr_free v)) (x # thr_used v) s'"
    unfolding v list.sel by (rule zone_ok_rings [OF assms(4) in_L(1,2) rings_apart [OF assms(4) in_L(1,2)]])
      (use z assms(2) in \<open>simp_all add: taken_state(3) [OF assms(1)] zone_ok_def\<close>)
  show "zone_ok (stack_zone s) (tl (stk_free v)) (y # stk_used v) s'"
    unfolding v list.sel by (rule zone_ok_rings [OF assms(4) in_L(3,4) rings_apart [OF assms(4) in_L(3,4)]])
      (use z assms(3) in \<open>simp_all add: taken_state(3) [OF assms(1)] zone_ok_def\<close>)
qed

lemma thread_create_ok:
  assumes "create_pre env task x y v n s"
  shows "\<exists>s'. thread_create env len task priority entry name s = Inr (x + SIZEOF_ZONE_META, s') \<and>
     created env task entry x y v n s s'"
proof -
  let ?m = "vm_get_kernel_map env" and ?t = "x + SIZEOF_ZONE_META"
  let ?b = "alloc_base ?m s" and ?T = "taken x y s"
  define es where "es = [guard_entry ?b, range_entry (?b + VM_PAGE_SIZE) 1, guard_entry (?b + 2 * VM_PAGE_SIZE)]"
  have len: "length es = 3" by (simp add: es_def)
  obtain s5 where al: "vm_map_alloc env ?m THREAD_STACK_DEFAULT_SIZE (VM_ALLOC_GUARD_FIRST OR VM_ALLOC_GUARD_LAST) ?T
      = Inr (?b + VM_PAGE_SIZE, s5)" and ph: "phase ?m n es 3 ?T s5"
    unfolding es_def by (rule taken_alloc [OF assms])
  define s' where "s' = linked env len task entry name ?t (y + SIZEOF_ZONE_META) (?b + VM_PAGE_SIZE) s5"
  have R: "rings (lists s') (map_ring ?m (n + 3) # view_rings env task s (view_created x y v))"
    unfolding s'_def by (rule created_rings [OF assms ph len])
  then have R': "rings (lists s') (view_rings env task s (view_created x y v))" by (auto simp: rings_def map_ring_def)
  have out: "outside ?m (thread_zone s)" "outside ?m (stack_zone s)" "outside ?m ?t"
    using assms by (simp_all add: create_pre_def Let_def)
  have k: "kept ?m ?T s5" using ph by (simp add: phase_def)
  have more: "kheap.more s' = kheap.more (s\<lparr>thread_id_max := thread_id_max s + 1\<rparr>)"
  proof -
    have "kheap.more ?T = kheap.more (s\<lparr>thread_id_max := thread_id_max s + 1\<rparr>)"
      unfolding taken_state(3) [OF assms] by (cases s) simp
    with k show ?thesis unfolding kept_def s'_def linked_simps by simp
  qed
  have zones: "zones s' z = zones ?T z" if "outside ?m z" for z using k that by (simp add: kept_def s'_def linked_simps)
  have thr: "thread_objs s5 u = thread_objs ?T u" if "outside ?m u" for u using k that by (simp add: kept_def)
  have inv: "alloc_inv ?m (n + 3) s'"
  proof (rule alloc_inv_cong)
    show "alloc_inv ?m (n + 3) s5" using ph len by (simp add: phase_def)
    show "dlist (lists s') (?m + OFF_MAP_ENTRIES) (map (entry_node ?m) [0 ..< n + 3])"
      using ringsD [OF R, of "?m + OFF_MAP_ENTRIES"] by (simp add: map_ring_def)
  qed (simp_all add: s'_def linked_def set_thread_def)
  have "entries_of ?m (n + 3) s' = entries_of ?m n s @ es"
    using phase_entries [OF ph] by (simp add: len entries_of_def s'_def linked_simps taken_state(3) [OF assms])
  moreover have "zone_ok (thread_zone s) (tl (thr_free v)) (x # thr_used v) s'" "zone_ok (stack_zone s) (tl (stk_free v)) (y # stk_used v) s'"
    by (rule zone_taken [OF assms zones [OF out(1)] zones [OF out(2)] R'])+
  ultimately have "created env task entry x y v n s s'"
    using inv R' more thr out(3)
    by (simp add: add.commute [of ?b 8192] es_def created_def Let_def s'_def linked_simps taken_state(3) [OF assms] view_created_def)
  with thread_create_linked [OF assms al] show ?thesis by (simp add: s'_def)
qed

subsection \<open>The new thread's first turn\<close>

lemma on_threads_distinct: "on_threads env ts s \<Longrightarrow> distinct ts"
  unfolding on_threads_def dlist_def by (auto simp: distinct_map simp del: map_append)

lemma created_running:
  assumes "running env (all_threads v) c i s" "created env task entry x y v n s s'"
    and "\<forall>u \<in> set (all_threads v). outside (vm_get_kernel_map env) u" "x + SIZEOF_ZONE_META \<noteq> NULL"
  shows "running env (all_threads v @ [x + SIZEOF_ZONE_META]) c i s'"
proof -
  let ?t = "x + SIZEOF_ZONE_META"
  have "kheap.more s' = kheap.more (s\<lparr>thread_id_max := thread_id_max s + 1\<rparr>)" using assms(2) by (simp add: created_def Let_def)
  then have g: "cpu_data_entries s' = cpu_data_entries s" "cpu_count s' = cpu_count s" "irq_masked s' = irq_masked s"
    "topology s' = topology s" by (cases s, cases s'; simp)+
  have R: "rings (lists s') (view_rings env task s (view_created x y v))" using assms(2) by (simp add: created_def Let_def)
  have on: "on_threads env (all_threads v @ [?t]) s'"
    using ringsD [OF R, of "sym_threads env"] by (simp add: on_threads_def view_rings_def view_created_def)
  then have "distinct (all_threads v @ [?t])" by (rule on_threads_distinct)
  then have "thread_objs s' u = thread_objs s u" if "u \<in> set (all_threads v)" for u
    using assms(2,3) that by (auto simp: created_def Let_def)
  moreover have "th_active (thread_objs s' ?t)" using assms(2) by (simp add: created_def Let_def)
  moreover have "machine_get_cpu_num env s' = machine_get_cpu_num env s" by (simp add: machine_get_cpu_num_def g)
  ultimately show ?thesis using assms(1,4) on g by (auto simp: running_def nth_append)
qed

text \<open>A thread that has not run yet keeps its entry, its stack and its argument.\<close>

lemma switched_waiting:
  assumes "u \<noteq> t"
  shows "th_entry (thread_objs (switched env t t' irq s) u) = th_entry (thread_objs s u)"
    "th_stack (thread_objs (switched env t t' irq s) u) = th_stack (thread_objs s u)"
    "th_args (thread_objs (switched env t t' irq s) u) = th_args (thread_objs s u)"
  using assms by (auto simp: switched_def thread_load_context_def thread_save_context_def set_thread_def set_current_task_def
      machine_irq_disable_def split: prod.split)

lemma ticks_waiting:
  assumes "ticks env p irqs q" "running env ts n i (fst p)" "length irqs \<le> d" "d < length ts"
  defines "u \<equiv> ts ! ((i + d) mod length ts)"
  shows "th_entry (thread_objs (fst q) u) = th_entry (thread_objs (fst p) u) \<and>
     th_stack (thread_objs (fst q) u) = th_stack (thread_objs (fst p) u) \<and>
     th_args (thread_objs (fst q) u) = th_args (thread_objs (fst p) u)"
  using assms(1,3)
proof induction
  case start
  then show ?case by simp
next
  case (further irqs q irq r)
  obtain s g s' g' where q: "q = (s, g)" and r: "r = (s', g')" by (cases q, cases r)
  let ?k = "length irqs" and ?n = "length ts"
  have run: "running env ts n ((i + ?k) mod ?n) s" using ticks_inv [OF further.hyps(1) assms(2)] by (simp add: q)
  have "(i + ?k) mod ?n \<noteq> (i + (?k + (d - ?k))) mod ?n" using further.prems assms(4) by (intro places_differ) simp_all
  moreover have "(i + d) mod ?n < ?n" using assms(4) by (intro mod_less_divisor) linarith
  ultimately have "u \<noteq> ts ! ((i + ?k) mod ?n)"
    using running_threads [OF run] run further.prems assms(4) by (simp add: u_def nth_eq_iff_index_eq running_def)
  then show ?case
    using further.IH further.prems tick_effect [OF run further.hyps(2) [unfolded q r] refl]
    by (simp add: q r resumed_def switched_waiting)
qed

subsection \<open>A state that can create a thread\<close>

text \<open>A heap with given lists.\<close>

fun make_rings :: "(addr \<times> addr list) list \<Rightarrow> list_heap" where
  "make_rings [] = (\<lambda>_. null_node)"
| "make_rings ((l, xs) # L) = fold (\<lambda>x. list_add_tail x l) xs (INIT_LIST_HEAD l (make_rings L))"

lemma rings_fold_append:
  "rings h ((l, xs) # L) \<Longrightarrow> distinct (ys @ nodes ((l, xs) # L)) \<Longrightarrow>
   rings (fold (\<lambda>x. list_add_tail x l) ys h) ((l, xs @ ys) # L)"
proof (induction ys arbitrary: xs h)
  case (Cons y ys)
  have "rings (list_add_tail y l h) ((l, xs @ [y]) # L)" using Cons.prems by (intro rings_append) auto
  from Cons.IH [OF this] Cons.prems(2) show ?case by auto
qed simp

lemma make_rings_ok: "distinct (nodes L) \<Longrightarrow> rings (make_rings L) L"
proof (induction L)
  case Nil
  then show ?case by (simp add: rings_def)
next
  case (Cons r L)
  obtain l xs where r: "r = (l, xs)" by (cases r)
  have L: "rings (make_rings L) L" using Cons by (simp add: r)
  have "dlist (INIT_LIST_HEAD l (make_rings L)) k zs" if "(k, zs) \<in> set L" for k zs
    using ringsD [OF L that] ring_nodes [OF that] Cons.prems by (intro lh.init_frame) (auto simp: r)
  with L Cons.prems lh.rep_init have "rings (INIT_LIST_HEAD l (make_rings L)) ((l, []) # L)" by (auto simp: rings_def r)
  from rings_fold_append [OF this, of xs] Cons.prems show ?case by (auto simp: r)
qed

declare make_rings.simps [simp del]

text \<open>One thread runs; each zone has one element left; four frames are free.\<close>

definition sample_view :: thread_lists_view where
  "sample_view = \<lparr>thr_free = [0xfffffff000220130], thr_used = [0xfffffff000220000],
     stk_free = [0xfffffff000230028], stk_used = [0xfffffff000230000], stack_nodes = [0xfffffff000230018],
     task_nodes = [0xfffffff000220098], all_threads = [0xfffffff000220010]\<rparr>"

definition sample_kernel :: kstate where
  "sample_kernel = reset_state\<lparr>thread_zone := 0xfffffff0000020c0, stack_zone := 0xfffffff000002120,
     zones := (\<lambda>_. zero_zone\<lparr>z_count := 1, z_count_free := 1\<rparr>), thread_id_max := 1,
     cpu_data_entries := (\<lambda>_. zero_cpu_data\<lparr>cpu_active_thread := 0xfffffff000220010\<rparr>),
     thread_objs := (\<lambda>_. zero_thread\<lparr>th_active := True\<rparr>),
     vm_page_idx := 4, vm_page_region := 0xfffffff000030000, memory_phys_base := 0x40000000,
     memory_virt_base := 0xfffffff000000000,
     pages := (\<lambda>a. \<lparr>pg_paddr = 0x40000000 + (a - 0xfffffff000030000) div 40 * 0x1000,
       pg_idx = (a - 0xfffffff000030000) div 40, pg_alloc = False, pg_mapped = False\<rparr>),
     cells := (\<lambda>a. if a = 0xfffffff000040e08 then 0x40020003 else 0),
     vm_maps := (\<lambda>_. zero_vm_map\<lparr>map_size := 0x200000, map_nentries := 1\<rparr>),
     map_entries := (\<lambda>_. \<lparr>ent_base = 0xfffffff000000000, ent_size = 0x1fffff, ent_guard_page = False,
       ent_kernel_code = True\<rparr>),
     lists := make_rings (map_ring 0xfffffff000040000 1 # view_rings sample_env 0xfffffff000210010
       (reset_state\<lparr>thread_zone := 0xfffffff0000020c0, stack_zone := 0xfffffff000002120\<rparr>) sample_view)\<rparr>"

lemma sample_kernel_rings:
  "nodes (view_rings sample_env 0xfffffff000210010 sample_kernel sample_view) =
     [0xfffffff0000020e8, 0xfffffff000220130, 0xfffffff0000020f8, 0xfffffff000220000, 0xfffffff000002148, 0xfffffff000230028,
      0xfffffff000002158, 0xfffffff000230000, 0xfffffff000005020, 0xfffffff000230018, 0xfffffff000210048, 0xfffffff000220098,
      0xfffffff000005010, 0xfffffff0002200a8]"
  "rings (lists sample_kernel) (map_ring 0xfffffff000040000 1 # view_rings sample_env 0xfffffff000210010 sample_kernel sample_view)"
proof -
  let ?L = "view_rings sample_env 0xfffffff000210010 sample_kernel sample_view"
  show n: "nodes ?L =
     [0xfffffff0000020e8, 0xfffffff000220130, 0xfffffff0000020f8, 0xfffffff000220000, 0xfffffff000002148, 0xfffffff000230028,
      0xfffffff000002158, 0xfffffff000230000, 0xfffffff000005020, 0xfffffff000230018, 0xfffffff000210048, 0xfffffff000220098,
      0xfffffff000005010, 0xfffffff0002200a8]"
    by (simp add: view_rings_def sample_kernel_def sample_view_def sample_env_simps)
  have m: "map_ring 0xfffffff000040000 1 = (0xfffffff000040030, [0xfffffff000041018])"
    by (simp add: map_ring_def entry_at_def)
  have "lists sample_kernel = make_rings (map_ring 0xfffffff000040000 1 # ?L)"
    by (simp add: sample_kernel_def view_rings_def)
  moreover have "distinct (nodes (map_ring 0xfffffff000040000 1 # ?L))" unfolding m nodes_simps n by simp
  ultimately show "rings (lists sample_kernel) (map_ring 0xfffffff000040000 1 # ?L)" by (simp only: make_rings_ok)
qed

lemma sample_kernel_inv: "alloc_inv 0xfffffff000040000 1 sample_kernel" "card (free_frames sample_kernel) = 4"
proof -
  have idx: "unat (vm_page_idx sample_kernel) = 4" by (simp add: sample_kernel_def)
  have slot: "page_slot sample_kernel 0 = 0xfffffff000030000" "page_slot sample_kernel 1 = 0xfffffff000030028"
    "page_slot sample_kernel 2 = 0xfffffff000030050" "page_slot sample_kernel 3 = 0xfffffff000030078"
    by (simp_all add: vm_page_get_idx_def sample_kernel_def)
  have four: "i = 0 \<or> i = 1 \<or> i = 2 \<or> i = 3" if "i < 4" for i :: nat using that by linarith
  have pg: "page_at sample_kernel i = \<lparr>pg_paddr = 0x40000000 + VM_PAGE_SIZE * word_of_nat i, pg_idx = word_of_nat i,
      pg_alloc = False, pg_mapped = False\<rparr>" if "i < 4" for i
    using four [OF that] slot by (auto simp: sample_kernel_def)
  then have ok: "pages_ok 0x40000000 4 sample_kernel" by (simp add: pages_ok_def idx)
  have "{i. i < 4 \<and> \<not> pg_alloc (page_at sample_kernel i)} = {i. i < 4}" using pg by auto
  moreover have "{i :: nat. i < 4} = {0, 1, 2, 3}" by auto
  ultimately show "card (free_frames sample_kernel) = 4" using free_frames_eq [OF ok] by simp
  have "\<not> in_bytes (page_slot sample_kernel i) (entry_at 0xfffffff000040000 m) 40" if "i < 4" "m < 2 ^ 32" for i m
    using four [OF that(1)] that(2) by (elim disjE; simp only: slot; intro entries_apart [OF refl]; simp)
  moreover have "vm_map_ok 0xfffffff000040000 1 sample_kernel"
    using ringsD [OF sample_kernel_rings(2), of "0xfffffff000040000 + OFF_MAP_ENTRIES"]
    by (simp add: map_ring_def vm_map_ok_def) (simp add: sample_kernel_def zero_vm_map_def)
  ultimately show "alloc_inv 0xfffffff000040000 1 sample_kernel" using ok idx by (auto simp: alloc_inv_def page_inv_def)
qed

lemma sample_kernel_base: "alloc_base 0xfffffff000040000 sample_kernel = 0xfffffff000200000"
  using vm_map_ok_last(2) [of "0xfffffff000040000" 1 sample_kernel] sample_kernel_inv(1)
  by (simp add: alloc_base_def alloc_inv_def) (simp add: sample_kernel_def VM_ALIGN_ADDR_def)

lemma sample_kernel_ready:
  assumes "v \<in> {0xfffffff000200000, 0xfffffff000201000, 0xfffffff000202000}"
  shows "page_ready 0xfffffff000040008 v sample_kernel" "guard_ok 0xfffffff000040008 v"
proof -
  have "l1_index v = 448" "unat v + 2 ^ 30 < 2 ^ 64" using assms by (auto simp: l1_index_def)
  moreover have "(0xfffffff000040008 :: addr) + 8 * word_of_nat j \<noteq> 0xfffffff000020000 + 8 * word_of_nat i"
    if "i < 512" "j < 512" for i j by (rule windows_apart) (use that in simp_all)
  ultimately show "page_ready 0xfffffff000040008 v sample_kernel"
    by (auto simp: page_ready_def ptokva_def sample_kernel_def)
  show "guard_ok 0xfffffff000040008 v"
    using assms unfolding guard_ok_def by (intro ballI windows_apart) auto
qed

lemma sample_kernel_alloc:
  "alloc_pre 0xfffffff000040000 1 THREAD_STACK_DEFAULT_SIZE (VM_ALLOC_GUARD_FIRST OR VM_ALLOC_GUARD_LAST) sample_kernel"
proof -
  have "page_ready 0xfffffff000040008 (0xfffffff000200000 + VM_PAGE_SIZE * word_of_nat i) sample_kernel \<and>
      guard_ok 0xfffffff000040008 (0xfffffff000200000 + VM_PAGE_SIZE * word_of_nat i)" if "i < 3" for i
  proof -
    from that have "i = 0 \<or> i = 1 \<or> i = 2" by linarith
    then have "0xfffffff000200000 + VM_PAGE_SIZE * word_of_nat i \<in> {0xfffffff000200000, 0xfffffff000201000, 0xfffffff000202000 :: addr}"
      by auto
    from sample_kernel_ready [OF this] show ?thesis by blast
  qed
  moreover have three: "guards VM_ALLOC_GUARD_FIRST (VM_ALLOC_GUARD_FIRST OR VM_ALLOC_GUARD_LAST) +
      unat (alloc_page_count THREAD_STACK_DEFAULT_SIZE) +
      guards VM_ALLOC_GUARD_LAST (VM_ALLOC_GUARD_FIRST OR VM_ALLOC_GUARD_LAST) = 3"
    by (simp add: guards_def alloc_page_count_def)
  ultimately show ?thesis
    using sample_kernel_inv unfolding alloc_pre_def Let_def sample_kernel_base three by simp
qed

lemma outside_mod:
  assumes "a \<noteq> vmap + OFF_MAP_ENTRIES"
    and "let c = unat (a - vmap) in c < 4096 \<or> 40 \<le> (c - 4096) mod 1600 \<or> 2 ^ 63 \<le> c"
  shows "outside vmap a"
  using assms entries_apart [OF refl] by (simp add: outside_def Let_def)

lemma sample_kernel_outside:
  "\<forall>a \<in> {0xfffffff0000020c0, 0xfffffff000002120, 0xfffffff000220140, 0xfffffff000230040, 0xfffffff0002201c8,
      0xfffffff0002201d8, 0xfffffff0000020e8, 0xfffffff000220130, 0xfffffff0000020f8, 0xfffffff000220000, 0xfffffff000002148,
      0xfffffff000230028, 0xfffffff000002158, 0xfffffff000230000, 0xfffffff000005020, 0xfffffff000230018,
      0xfffffff000210048, 0xfffffff000220098, 0xfffffff000005010, 0xfffffff0002200a8, 0xfffffff000220010}.
    outside 0xfffffff000040000 a"
  by (simp only: ball_simps; intro conjI TrueI outside_mod; simp add: Let_def)

lemma sample_kernel_create: "create_pre sample_env 0xfffffff000210010 0xfffffff000220130 0xfffffff000230028 sample_view 1 sample_kernel"
proof -
  have k: "vm_get_kernel_map sample_env = 0xfffffff000040000" by (simp add: vm_get_kernel_map_def sample_env_simps)
  have z: "thread_zone sample_kernel = 0xfffffff0000020c0" "stack_zone sample_kernel = 0xfffffff000002120"
    "zones sample_kernel a = zero_zone\<lparr>z_count := 1, z_count_free := 1\<rparr>" for a
    by (simp_all add: sample_kernel_def)
  have new: "new_nodes 0xfffffff000220130 0xfffffff000230028 = [0xfffffff000230040, 0xfffffff0002201c8, 0xfffffff0002201d8]"
    by (simp add: new_nodes_def)
  have R: "rings (lists sample_kernel) (view_rings sample_env 0xfffffff000210010 sample_kernel sample_view)"
    using sample_kernel_rings(2) by (auto simp: rings_def map_ring_def)
  have "zone_ok 0xfffffff0000020c0 (thr_free sample_view) (thr_used sample_view) sample_kernel"
    by (rule zone_ok_rings [OF R]) (simp_all add: view_rings_def z sample_view_def)
  moreover have "zone_ok 0xfffffff000002120 (stk_free sample_view) (stk_used sample_view) sample_kernel"
    by (rule zone_ok_rings [OF R]) (simp_all add: view_rings_def z sample_view_def)
  moreover have "distinct (new_nodes 0xfffffff000220130 0xfffffff000230028 @
      nodes (view_rings sample_env 0xfffffff000210010 sample_kernel sample_view))"
    unfolding new sample_kernel_rings(1) by simp
  moreover have "\<forall>a \<in> set ([thread_zone sample_kernel, stack_zone sample_kernel, 0xfffffff000220130 + SIZEOF_ZONE_META] @
      new_nodes 0xfffffff000220130 0xfffffff000230028 @
      nodes (view_rings sample_env 0xfffffff000210010 sample_kernel sample_view)). outside 0xfffffff000040000 a"
    unfolding new sample_kernel_rings(1) z using sample_kernel_outside by simp
  moreover have "thr_free sample_view \<noteq> []" "hd (thr_free sample_view) = 0xfffffff000220130" "stk_free sample_view \<noteq> []"
    "hd (stk_free sample_view) = 0xfffffff000230028" by (simp_all add: sample_view_def)
  ultimately show ?thesis using R sample_kernel_alloc unfolding create_pre_def Let_def k z by simp
qed

subsection \<open>Properties\<close>

text \<open>C24. Creating a thread succeeds when both zones have an element and the kernel map can give three pages. The thread
  returned is the first free element of its zone; it has the next id, two references, the given task and entry, and is active.
  Its stack is a fresh page between two guard pages, recorded in the map and in a new stack object, and its stack pointer is
  the lowest address of that page. The stack, the thread's sibling node and the thread go to the ends of their lists, both
  zones and the map stay well formed, and no other thread and no other global variable changes.\<close>

theorem thread_create_effect:
  assumes "create_pre env task x y v n s"
  shows "\<exists>s'. thread_create env len task priority entry name s = Inr (x + SIZEOF_ZONE_META, s') \<and>
     created env task entry x y v n s s'"
  using assms by (rule thread_create_ok)

theorem thread_create_effect_witness:
  "\<exists>s'. thread_create sample_env 64 0xfffffff000210010 0 0x4000 ''kthread'' sample_kernel = Inr (0xfffffff000220140, s') \<and>
     th_thread_id (thread_objs s' 0xfffffff000220140) = 1 \<and> th_entry (thread_objs s' 0xfffffff000220140) = 0x4000 \<and>
     th_stack (thread_objs s' 0xfffffff000220140) = 0xfffffff000201000 \<and> zone_ok 0xfffffff0000020c0 [] [0xfffffff000220130, 0xfffffff000220000] s' \<and>
     on_threads sample_env [0xfffffff000220010, 0xfffffff000220140] s'"
proof -
  have "vm_get_kernel_map sample_env = 0xfffffff000040000" by (simp add: vm_get_kernel_map_def sample_env_simps)
  moreover have "thread_zone sample_kernel = 0xfffffff0000020c0" "thread_id_max sample_kernel = 1" by (simp_all add: sample_kernel_def)
  moreover obtain s' where "thread_create sample_env 64 0xfffffff000210010 0 0x4000 ''kthread'' sample_kernel = Inr (0xfffffff000220140, s')"
    "created sample_env 0xfffffff000210010 0x4000 0xfffffff000220130 0xfffffff000230028 sample_view 1 sample_kernel s'"
    using thread_create_effect [OF sample_kernel_create, of 64 0 "0x4000" "''kthread''"] by auto
  ultimately show ?thesis
    by (auto simp: created_def Let_def sample_kernel_base on_threads_def view_created_def sample_view_def view_rings_def rings_def)
qed

text \<open>C10. A thread created while others run gets its turn: when the running thread is the one at place \<open>i\<close> of the ring,
  the new thread runs after as many further interrupts as there are threads from that place on. It is entered at its entry
  point with the argument of the memory it was made from, and with the base of its stack as stack pointer, next to the guard
  page below.\<close>

theorem thread_create_then_runs:
  assumes "create_pre env task x y v n s" "running env (all_threads v) c i s"
    and "\<forall>u \<in> set (all_threads v). outside (vm_get_kernel_map env) u" "x + SIZEOF_ZONE_META \<noteq> NULL"
    and "length irqs = length (all_threads v) - i"
  shows "\<exists>s' q. thread_create env len task priority entry name s = Inr (x + SIZEOF_ZONE_META, s') \<and>
     ticks env (s', g) irqs q \<and>
     (\<forall>s'' g''. ticks env (s', g) irqs (s'', g'') \<longrightarrow>
        (let ctx = th_context (thread_objs s'' (x + SIZEOF_ZONE_META))
         in cpu_active_thread (cpu_data_entries s'' c) = x + SIZEOF_ZONE_META \<and>
            ctx_x ctx 19 = entry \<and> ctx_x ctx 20 = th_args (thread_objs s (x + SIZEOF_ZONE_META)) \<and>
            guard_entry (ctx_sp ctx - VM_PAGE_SIZE) \<in> set (entries_of (vm_get_kernel_map env) (n + 3) s') \<and>
            range_entry (ctx_sp ctx) 1 \<in> set (entries_of (vm_get_kernel_map env) (n + 3) s')))"
proof -
  let ?t = "x + SIZEOF_ZONE_META" and ?ts = "all_threads v @ [x + SIZEOF_ZONE_META]"
  obtain s' where s': "thread_create env len task priority entry name s = Inr (?t, s')" "created env task entry x y v n s s'"
    using thread_create_ok [OF assms(1)] by blast
  have run: "running env ?ts c i s'" by (rule created_running [OF assms(2) s'(2) assms(3,4)])
  have i: "i < length (all_threads v)" using assms(2) by (simp add: running_def)
  then have place: "(i + length irqs) mod length ?ts = length (all_threads v)" using assms(5) by simp
  have "let ctx = th_context (thread_objs s'' ?t)
      in cpu_active_thread (cpu_data_entries s'' c) = ?t \<and>
         ctx_x ctx 19 = entry \<and> ctx_x ctx 20 = th_args (thread_objs s ?t) \<and>
         guard_entry (ctx_sp ctx - VM_PAGE_SIZE) \<in> set (entries_of (vm_get_kernel_map env) (n + 3) s') \<and>
         range_entry (ctx_sp ctx) 1 \<in> set (entries_of (vm_get_kernel_map env) (n + 3) s')"
    if q: "ticks env (s', g) irqs (s'', g'')" for s'' g''
  proof -
    have inv: "running env ?ts c (length (all_threads v)) s''" "loaded env (thread_objs s'' ?t)"
      using ticks_inv [OF q, of ?ts c i] run place assms(5) i by auto
    have "length irqs < length ?ts" using assms(5) by simp
    from ticks_waiting [OF q _ order_refl this, of c i] run place
    have "th_entry (thread_objs s'' ?t) = th_entry (thread_objs s' ?t)" "th_stack (thread_objs s'' ?t) = th_stack (thread_objs s' ?t)"
      "th_args (thread_objs s'' ?t) = th_args (thread_objs s' ?t)" by simp_all
    with inv s'(2) show ?thesis by (simp add: Let_def running_def loaded_def created_def)
  qed
  with s'(1) ticks_possible [OF run, of g irqs] show ?thesis by blast
qed

theorem thread_create_then_runs_witness:
  "\<exists>s' s'' g''. thread_create sample_env 64 0xfffffff000210010 0 0x4000 ''kthread'' sample_kernel = Inr (0xfffffff000220140, s') \<and>
     ticks sample_env (s', \<lparr>irq_gic = sample_gic, icc_eoir1_el1 = [], irq_count = 0\<rparr>) [(0x5000, sample_frame 0x9000)] (s'', g'') \<and>
     cpu_active_thread (cpu_data_entries s'' 0) = 0xfffffff000220140 \<and>
     ctx_x (th_context (thread_objs s'' 0xfffffff000220140)) 19 = 0x4000"
proof -
  let ?g = "\<lparr>irq_gic = sample_gic, icc_eoir1_el1 = [], irq_count = 0\<rparr>"
  have "running sample_env (all_threads sample_view) 0 0 sample_kernel"
  proof -
    have "on_threads sample_env (all_threads sample_view) sample_kernel"
      using ringsD [OF sample_kernel_rings(2), of "sym_threads sample_env"] by (simp add: on_threads_def view_rings_def)
    then show ?thesis
      by (simp add: running_def sample_view_def sample_env_simps machine_get_cpu_num_def MPIDR_TO_CPU_NUM_def in_cpu_table_def)
        (simp add: sample_kernel_def reset_state_def)
  qed
  moreover have "\<forall>u \<in> set (all_threads sample_view). outside (vm_get_kernel_map sample_env) u"
    using sample_kernel_outside by (simp add: sample_view_def vm_get_kernel_map_def sample_env_simps)
  ultimately obtain s' q where "thread_create sample_env 64 0xfffffff000210010 0 0x4000 ''kthread'' sample_kernel = Inr (0xfffffff000220140, s')"
    "ticks sample_env (s', ?g) [(0x5000, sample_frame 0x9000)] q"
    "\<forall>s'' g''. ticks sample_env (s', ?g) [(0x5000, sample_frame 0x9000)] (s'', g'') \<longrightarrow>
       cpu_active_thread (cpu_data_entries s'' 0) = 0xfffffff000220140 \<and>
       ctx_x (th_context (thread_objs s'' 0xfffffff000220140)) 19 = 0x4000"
    using thread_create_then_runs [OF sample_kernel_create, of 0 0 "[(0x5000, sample_frame 0x9000)]" 64 0 "0x4000" "''kthread''" ?g]
    by (auto simp: Let_def sample_view_def)
  then show ?thesis by (metis surj_pair)
qed

end
