(* ===== verification/Fdt_Query.thy ===== *)
theory Fdt_Query
  imports Fdt_Phandle
begin

section \<open>Further queries of the device tree\<close>

text \<open>
  The rest of \<^verbatim>\<open>libkern/libfdt/fdt_ro.c\<close>: the largest phandle, a node's path, depth and parent, searches
  by property value and by \<^verbatim>\<open>compatible\<close>, lists of strings, and the full check of a tree. The string list functions call
  the kernel's \<^verbatim>\<open>strnlen\<close>, so that they have outcomes; the other functions return an option, as their
  traversals may not end.
\<close>

subsection \<open>Phandles\<close>

partial_function (option) max_phandle_loop :: "mem \<Rightarrow> addr \<Rightarrow> u32 \<Rightarrow> i32 \<Rightarrow> (i32 \<times> u32) option" where
  "max_phandle_loop m fdt best offset =
     (case fdt_next_node m fdt offset None of
        None \<Rightarrow> None
      | Some (offset, depth) \<Rightarrow>
          if sint offset < 0 then Some (if offset = - FDT_ERR_NOTFOUND then 0 else offset, best)
          else (case fdt_get_phandle m fdt offset of
                  None \<Rightarrow> None
                | Some v \<Rightarrow> max_phandle_loop m fdt (if best < v then v else best) offset))"

text \<open>The status and, if it is 0, the largest phandle.\<close>

definition fdt_find_max_phandle :: "mem \<Rightarrow> addr \<Rightarrow> (i32 \<times> u32) option" where
  "fdt_find_max_phandle m fdt = max_phandle_loop m fdt 0 (- 1)"

abbreviation FDT_MAX_PHANDLE :: u32 where "FDT_MAX_PHANDLE \<equiv> 0xfffffffe"

definition fdt_generate_phandle :: "mem \<Rightarrow> addr \<Rightarrow> (i32 \<times> u32 option) option" where
  "fdt_generate_phandle m fdt =
     (case fdt_find_max_phandle m fdt of
        None \<Rightarrow> None
      | Some (err, best) \<Rightarrow>
          Some (if sint err < 0 then (err, None)
                else if best = FDT_MAX_PHANDLE then (- FDT_ERR_NOPHANDLES, None)
                else (0, Some (best + 1))))"

subsection \<open>A property with its name\<close>

definition fdt_getprop_by_offset :: "mem \<Rightarrow> addr \<Rightarrow> i32 \<Rightarrow> i32 + addr \<times> addr \<times> i32" where
  "fdt_getprop_by_offset m fdt offset =
     (case fdt_get_property_by_offset_unchecked m fdt offset of
        (None, err) \<Rightarrow> Inl err
      | (Some p, len) \<Rightarrow>
          (case fdt_get_string m fdt (fdt32 m (p + 8)) of
             (None, namelen) \<Rightarrow> Inl namelen
           | (Some name, namelen) \<Rightarrow>
               Inr (if fdt_version m fdt < 0x10 \<and> ((scast offset :: u64) + 12) mod 8 \<noteq> 0 \<and> 8 \<le> fdt32 m (p + 4)
                    then p + 16 else p + 12, name, len)))"

subsection \<open>Paths, depths and parents\<close>

text \<open>Leaving a node of the path: back to behind the last slash but one.\<close>

partial_function (option) path_back :: "mem \<Rightarrow> addr \<Rightarrow> i32 \<Rightarrow> i32 option" where
  "path_back m buf p =
     (let p = p - 1
      in if m (buf + scast (p - 1)) \<noteq> of_char CHR ''/'' then path_back m buf p else Some p)"

partial_function (option) path_leave :: "mem \<Rightarrow> addr \<Rightarrow> i32 \<Rightarrow> i32 \<Rightarrow> i32 \<Rightarrow> (i32 \<times> i32) option" where
  "path_leave m buf depth pdepth p =
     (if sint depth < sint pdepth
      then (case path_back m buf p of None \<Rightarrow> None | Some p \<Rightarrow> path_leave m buf depth (pdepth - 1) p)
      else Some (pdepth, p))"

definition path_enter :: "addr \<Rightarrow> addr \<Rightarrow> i32 \<Rightarrow> i32 \<Rightarrow> i32 \<Rightarrow> i32 \<Rightarrow> mem \<Rightarrow> i32 \<times> i32 \<times> mem" where
  "path_enter buf name namelen buflen pdepth p m =
     (if sint (p + namelen + 1) \<le> sint buflen
      then (pdepth + 1, p + namelen + 1,
            (memcpy (buf + scast p) name (scast namelen) m)(buf + scast (p + namelen) := of_char CHR ''/''))
      else (pdepth, p, m))"

definition walk_error :: "i32 \<Rightarrow> i32" where
  "walk_error offset =
     (if offset = - FDT_ERR_NOTFOUND \<or> 0 \<le> sint offset then - FDT_ERR_BADOFFSET
      else if offset = - FDT_ERR_BADOFFSET then - FDT_ERR_BADSTRUCTURE
      else offset)"

partial_function (option) get_path_loop ::
  "addr \<Rightarrow> i32 \<Rightarrow> addr \<Rightarrow> i32 \<Rightarrow> i32 \<Rightarrow> i32 \<Rightarrow> i32 \<Rightarrow> i32 \<Rightarrow> mem \<Rightarrow> (i32 \<times> mem) option" where
  "get_path_loop fdt nodeoffset buf buflen offset depth pdepth p m =
     (if 0 \<le> sint offset \<and> sint offset \<le> sint nodeoffset
      then (case path_leave m buf depth pdepth p of
              None \<Rightarrow> None
            | Some (pdepth, p) \<Rightarrow>
                Option.bind (if sint depth \<le> sint pdepth
                     then (case fdt_get_name m fdt offset of
                             None \<Rightarrow> None
                           | Some (None, namelen) \<Rightarrow> Some (Inl namelen)
                           | Some (Some name, namelen) \<Rightarrow> Some (Inr (path_enter buf name namelen buflen pdepth p m)))
                     else Some (Inr (pdepth, p, m)))
                  (\<lambda>r. case r of
                     Inl err \<Rightarrow> Some (err, m)
                   | Inr (pdepth, p, m) \<Rightarrow>
                       if offset = nodeoffset
                       then (if sint pdepth < sint (depth + 1) then Some (- FDT_ERR_NOSPACE, m)
                             else let p = (if 1 < sint p then p - 1 else p) in Some (0, m(buf + scast p := 0)))
                       else (case fdt_next_node m fdt offset (Some depth) of
                               None \<Rightarrow> None
                             | Some (offset, depth) \<Rightarrow>
                                 get_path_loop fdt nodeoffset buf buflen offset (the depth) pdepth p m)))
      else Some (walk_error offset, m))"

definition fdt_get_path :: "addr \<Rightarrow> i32 \<Rightarrow> addr \<Rightarrow> i32 \<Rightarrow> mem \<Rightarrow> (i32 \<times> mem) option" where
  "fdt_get_path fdt nodeoffset buf buflen m =
     (if sint (fdt_ro_probe m fdt) < 0 then Some (fdt_ro_probe m fdt, m)
      else if sint buflen < 2 then Some (- FDT_ERR_NOSPACE, m)
      else get_path_loop fdt nodeoffset buf buflen 0 0 0 0 m)"

text \<open>The ancestor of a node at a depth, and the depth of the node where the walk gets to it.\<close>

partial_function (option) supernode_loop ::
  "mem \<Rightarrow> addr \<Rightarrow> i32 \<Rightarrow> i32 \<Rightarrow> i32 \<Rightarrow> i32 \<Rightarrow> i32 \<Rightarrow> (i32 \<times> i32 option) option" where
  "supernode_loop m fdt nodeoffset supernodedepth supernodeoffset offset depth =
     (if 0 \<le> sint offset \<and> sint offset \<le> sint nodeoffset
      then let supernodeoffset = (if depth = supernodedepth then offset else supernodeoffset)
           in if offset = nodeoffset
              then Some (if sint depth < sint supernodedepth then - FDT_ERR_NOTFOUND else supernodeoffset, Some depth)
              else (case fdt_next_node m fdt offset (Some depth) of
                      None \<Rightarrow> None
                    | Some (offset, depth) \<Rightarrow>
                        supernode_loop m fdt nodeoffset supernodedepth supernodeoffset offset (the depth))
      else Some (walk_error offset, None))"

definition fdt_supernode_atdepth_offset :: "mem \<Rightarrow> addr \<Rightarrow> i32 \<Rightarrow> i32 \<Rightarrow> (i32 \<times> i32 option) option" where
  "fdt_supernode_atdepth_offset m fdt nodeoffset supernodedepth =
     (if sint (fdt_ro_probe m fdt) < 0 then Some (fdt_ro_probe m fdt, None)
      else if sint supernodedepth < 0 then Some (- FDT_ERR_NOTFOUND, None)
      else supernode_loop m fdt nodeoffset supernodedepth (- FDT_ERR_INTERNAL) 0 0)"

definition fdt_node_depth :: "mem \<Rightarrow> addr \<Rightarrow> i32 \<Rightarrow> i32 option" where
  "fdt_node_depth m fdt nodeoffset =
     (case fdt_supernode_atdepth_offset m fdt nodeoffset 0 of
        None \<Rightarrow> None
      | Some (err, nodedepth) \<Rightarrow>
          Some (if err \<noteq> 0 then (if sint err < 0 then err else - FDT_ERR_INTERNAL) else the nodedepth))"

definition fdt_parent_offset :: "mem \<Rightarrow> addr \<Rightarrow> i32 \<Rightarrow> i32 option" where
  "fdt_parent_offset m fdt nodeoffset =
     (case fdt_node_depth m fdt nodeoffset of
        None \<Rightarrow> None
      | Some nodedepth \<Rightarrow>
          if sint nodedepth < 0 then Some nodedepth
          else map_option fst (fdt_supernode_atdepth_offset m fdt nodeoffset (nodedepth - 1)))"

subsection \<open>Searches\<close>

partial_function (option) prop_value_search :: "mem \<Rightarrow> addr \<Rightarrow> u8 list \<Rightarrow> u8 list \<Rightarrow> i32 \<Rightarrow> i32 option" where
  "prop_value_search m fdt propname propval offset =
     (if sint offset < 0 then Some offset
      else case fdt_getprop m fdt offset propname of
        None \<Rightarrow> None
      | Some r \<Rightarrow>
          if (case r of Inl err \<Rightarrow> False
              | Inr (val, len) \<Rightarrow> sint len = int (length propval) \<and> bytes_at m val (length propval) = propval)
          then Some offset
          else (case fdt_next_node m fdt offset None of
                  None \<Rightarrow> None
                | Some (offset, depth) \<Rightarrow> prop_value_search m fdt propname propval offset))"

definition fdt_node_offset_by_prop_value :: "mem \<Rightarrow> addr \<Rightarrow> i32 \<Rightarrow> u8 list \<Rightarrow> u8 list \<Rightarrow> i32 option" where
  "fdt_node_offset_by_prop_value m fdt startoffset propname propval =
     (if sint (fdt_ro_probe m fdt) < 0 then Some (fdt_ro_probe m fdt)
      else case fdt_next_node m fdt startoffset None of
        None \<Rightarrow> None
      | Some (offset, depth) \<Rightarrow> prop_value_search m fdt propname propval offset)"

text \<open>Whether one of the strings in \<open>listlen\<close> bytes at \<open>strlist\<close> is \<open>str\<close>.\<close>

partial_function (option) fdt_stringlist_contains :: "mem \<Rightarrow> addr \<Rightarrow> i32 \<Rightarrow> u8 list \<Rightarrow> bool option" where
  "fdt_stringlist_contains m strlist listlen str =
     (if int (length str) \<le> sint listlen
      then if bytes_at m strlist (length str + 1) = str @ [0] then Some True
           else let p = memchr strlist 0 (unat listlen) m
                in if p = 0 then Some False
                   else fdt_stringlist_contains m (p + 1) (listlen - ucast (p - strlist + 1)) str
      else Some False)"

definition fdt_node_check_compatible :: "mem \<Rightarrow> addr \<Rightarrow> i32 \<Rightarrow> u8 list \<Rightarrow> i32 option" where
  "fdt_node_check_compatible m fdt nodeoffset compatible =
     (case fdt_getprop m fdt nodeoffset (map of_char ''compatible'') of
        None \<Rightarrow> None
      | Some (Inl err) \<Rightarrow> Some err
      | Some (Inr (p, len)) \<Rightarrow>
          map_option (\<lambda>found. if found then 0 else 1) (fdt_stringlist_contains m p len compatible))"

partial_function (option) compatible_search :: "mem \<Rightarrow> addr \<Rightarrow> u8 list \<Rightarrow> i32 \<Rightarrow> i32 option" where
  "compatible_search m fdt compatible offset =
     (if sint offset < 0 then Some offset
      else case fdt_node_check_compatible m fdt offset compatible of
        None \<Rightarrow> None
      | Some err \<Rightarrow>
          if sint err < 0 \<and> err \<noteq> - FDT_ERR_NOTFOUND then Some err
          else if err = 0 then Some offset
          else (case fdt_next_node m fdt offset None of
                  None \<Rightarrow> None
                | Some (offset, depth) \<Rightarrow> compatible_search m fdt compatible offset))"

definition fdt_node_offset_by_compatible :: "mem \<Rightarrow> addr \<Rightarrow> i32 \<Rightarrow> u8 list \<Rightarrow> i32 option" where
  "fdt_node_offset_by_compatible m fdt startoffset compatible =
     (if sint (fdt_ro_probe m fdt) < 0 then Some (fdt_ro_probe m fdt)
      else case fdt_next_node m fdt startoffset None of
        None \<Rightarrow> None
      | Some (offset, depth) \<Rightarrow> compatible_search m fdt compatible offset)"

subsection \<open>Lists of strings\<close>

text \<open>
  A property value that is a list of strings, from \<open>list\<close> to \<open>limit\<close>. Each round measures the next string with
  \<^verbatim>\<open>strnlen\<close>.
\<close>

partial_function (option) stringlist_count_loop :: "mem \<Rightarrow> addr \<Rightarrow> addr \<Rightarrow> i32 \<Rightarrow> i32 outcome option" where
  "stringlist_count_loop m list limit count =
     (if list < limit
      then (case strnlen list (limit - list) m of
              Inl e \<Rightarrow> Some (Inl e)
            | Inr n \<Rightarrow>
                let len = (ucast (n + 1) :: i32)
                in if limit < list + scast len then Some (Inr (- FDT_ERR_BADVALUE))
                   else stringlist_count_loop m (list + scast len) limit (count + 1))
      else Some (Inr count))"

definition fdt_stringlist_count :: "mem \<Rightarrow> addr \<Rightarrow> i32 \<Rightarrow> u8 list \<Rightarrow> i32 outcome" where
  "fdt_stringlist_count m fdt nodeoffset property =
     andthen (terminates (fdt_getprop m fdt nodeoffset property)) (\<lambda>r. case r of
       Inl err \<Rightarrow> Inr err
     | Inr (list, len) \<Rightarrow> andthen (terminates (stringlist_count_loop m list (list + scast len) 0)) id)"

partial_function (option) stringlist_search_loop ::
  "mem \<Rightarrow> addr \<Rightarrow> addr \<Rightarrow> u8 list \<Rightarrow> i32 \<Rightarrow> i32 outcome option" where
  "stringlist_search_loop m list limit str idx =
     (if list < limit
      then (case strnlen list (limit - list) m of
              Inl e \<Rightarrow> Some (Inl e)
            | Inr n \<Rightarrow>
                let len = (ucast (n + 1) :: i32)
                in if limit < list + scast len then Some (Inr (- FDT_ERR_BADVALUE))
                   else if sint len = int (length str + 1) \<and> bytes_at m list (length str + 1) = str @ [0]
                   then Some (Inr idx)
                   else stringlist_search_loop m (list + scast len) limit str (idx + 1))
      else Some (Inr (- FDT_ERR_NOTFOUND)))"

definition fdt_stringlist_search :: "mem \<Rightarrow> addr \<Rightarrow> i32 \<Rightarrow> u8 list \<Rightarrow> u8 list \<Rightarrow> i32 outcome" where
  "fdt_stringlist_search m fdt nodeoffset property str =
     andthen (terminates (fdt_getprop m fdt nodeoffset property)) (\<lambda>r. case r of
       Inl err \<Rightarrow> Inr err
     | Inr (list, len) \<Rightarrow> andthen (terminates (stringlist_search_loop m list (list + scast len) str 0)) id)"

text \<open>The address of a string and its length, or no address and an error.\<close>

partial_function (option) stringlist_get_loop ::
  "mem \<Rightarrow> addr \<Rightarrow> addr \<Rightarrow> i32 \<Rightarrow> (addr option \<times> i32) outcome option" where
  "stringlist_get_loop m list limit idx =
     (if list < limit
      then (case strnlen list (limit - list) m of
              Inl e \<Rightarrow> Some (Inl e)
            | Inr n \<Rightarrow>
                let len = (ucast (n + 1) :: i32)
                in if limit < list + scast len then Some (Inr (None, - FDT_ERR_BADVALUE))
                   else if idx = 0 then Some (Inr (Some list, len - 1))
                   else stringlist_get_loop m (list + scast len) limit (idx - 1))
      else Some (Inr (None, - FDT_ERR_NOTFOUND)))"

definition fdt_stringlist_get :: "mem \<Rightarrow> addr \<Rightarrow> i32 \<Rightarrow> u8 list \<Rightarrow> i32 \<Rightarrow> (addr option \<times> i32) outcome" where
  "fdt_stringlist_get m fdt nodeoffset property idx =
     andthen (terminates (fdt_getprop m fdt nodeoffset property)) (\<lambda>r. case r of
       Inl err \<Rightarrow> Inr (None, err)
     | Inr (list, len) \<Rightarrow> andthen (terminates (stringlist_get_loop m list (list + scast len) idx)) id)"

subsection \<open>The full check\<close>

text \<open>
  The walk over the tags. A node at depth 1 must have an empty name; its name is read from
  the tree, through a null pointer if \<^verbatim>\<open>fdt_get_name\<close> fails.
\<close>

partial_function (option) check_full_loop ::
  "mem \<Rightarrow> addr \<Rightarrow> i32 \<Rightarrow> u32 \<Rightarrow> bool \<Rightarrow> i32 option" where
  "check_full_loop m fdt offset depth expect_end =
     (case fdt_next_tag m fdt offset of (tag, nextoffset) \<Rightarrow>
        if sint nextoffset < 0 then Some nextoffset
        else if expect_end \<and> tag \<noteq> FDT_END then Some (- FDT_ERR_BADLAYOUT)
        else if tag = FDT_NOP then check_full_loop m fdt nextoffset depth expect_end
        else if tag = FDT_END then Some (if depth \<noteq> 0 then - FDT_ERR_BADSTRUCTURE else 0)
        else if tag = FDT_BEGIN_NODE
        then (if INT32_MAX < depth + 1 then Some (- FDT_ERR_BADSTRUCTURE)
              else if depth + 1 = 1
              then (case fdt_get_name m fdt offset of
                      None \<Rightarrow> None
                    | Some (name, len) \<Rightarrow>
                        if m (case name of None \<Rightarrow> NULL | Some p \<Rightarrow> p) \<noteq> 0 \<or> len \<noteq> 0 then Some (- FDT_ERR_BADLAYOUT)
                        else check_full_loop m fdt nextoffset (depth + 1) expect_end)
              else check_full_loop m fdt nextoffset (depth + 1) expect_end)
        else if tag = FDT_END_NODE
        then (if depth = 0 then Some (- FDT_ERR_BADSTRUCTURE)
              else check_full_loop m fdt nextoffset (depth - 1) (depth - 1 = 0 \<or> expect_end))
        else if tag = FDT_PROP
        then (case fdt_getprop_by_offset m fdt offset of
                Inl err \<Rightarrow> Some err
              | Inr r \<Rightarrow> check_full_loop m fdt nextoffset depth expect_end)
        else Some (- FDT_ERR_INTERNAL))"

abbreviation FDT_V1_SIZE :: u64 where "FDT_V1_SIZE \<equiv> 28"

definition fdt_check_full :: "mem \<Rightarrow> addr \<Rightarrow> u64 \<Rightarrow> i32 option" where
  "fdt_check_full m fdt bufsize =
     (if bufsize < FDT_V1_SIZE then Some (- FDT_ERR_TRUNCATED)
      else if fdt_check_header m fdt \<noteq> 0 then Some (fdt_check_header m fdt)
      else if bufsize < ucast (fdt_totalsize m fdt) then Some (- FDT_ERR_TRUNCATED)
      else case fdt_num_mem_rsv m fdt of
        None \<Rightarrow> None
      | Some num_memrsv \<Rightarrow>
          if sint num_memrsv < 0 then Some num_memrsv else check_full_loop m fdt 0 0 False)"

subsection \<open>What the searches find\<close>

text \<open>The strings of a value that is a list of terminated strings.\<close>

fun strings_of :: "u8 list \<Rightarrow> u8 list list" where
  "strings_of [] = []"
| "strings_of (b # bs) = (if b = 0 then [] # strings_of bs else (case strings_of bs of [] \<Rightarrow> [] | s # ss \<Rightarrow> (b # s) # ss))"

definition terminated :: "u8 list \<Rightarrow> bool" where
  "terminated v \<longleftrightarrow> v = [] \<or> last v = 0"

lemma strings_of_first: "0 \<notin> set s \<Longrightarrow> strings_of (s @ 0 # v) = s # strings_of v"
  by (induction s) simp_all

lemma strings_of_shorter: "s \<in> set (strings_of v) \<Longrightarrow> length s < length v"
proof (induction v arbitrary: s)
  case (Cons b v)
  then show ?case by (cases "strings_of v") (auto split: if_splits intro: less_SucI)
qed simp

lemma terminated_split:
  assumes "terminated v" "v \<noteq> []"
  obtains s v' where "v = s @ 0 # v'" "0 \<notin> set s" "terminated v'"
proof -
  have "0 \<in> set v" using assms last_in_set [of v] by (auto simp: terminated_def)
  then obtain s v' where v: "v = s @ 0 # v'" "0 \<notin> set s" by (meson split_list_first)
  with assms(1) have "terminated v'" by (auto simp: terminated_def split: if_splits)
  with v that show ?thesis by blast
qed

text \<open>Two strings at the same address, each with its terminator, are equal.\<close>

lemma stored_string_le:
  assumes "stored m p (s @ [0])" "stored m p (c @ [0])" "0 \<notin> set c"
  shows "length c \<le> length s"
proof (rule ccontr)
  assume "\<not> length c \<le> length s"
  then have "c ! length s = 0" using assms(1,2) by (force simp: stored_nth nth_append)
  moreover have "c ! length s \<in> set c" using \<open>\<not> length c \<le> length s\<close> by simp
  ultimately show False using assms(3) by simp
qed

lemma stored_string_eq:
  assumes "stored m p (s @ [0])" "stored m p (c @ [0])" "0 \<notin> set s" "0 \<notin> set c"
  shows "s = c"
proof -
  have "length s = length c" using stored_string_le assms by (meson order_antisym)
  then show ?thesis using assms(1,2) by (simp add: stored_def)
qed

lemma ucast_word_nat: "(ucast (word_of_nat n :: u64) :: i32) = word_of_nat n"
  by (simp add: unsigned_of_nat take_bit_word_eq_self)

lemma stringlist_contains_strings:
  assumes "0 \<notin> set c" "c \<noteq> []"
  shows "terminated v \<Longrightarrow> stored m p v \<Longrightarrow> length v < 2 ^ 31 \<Longrightarrow> 0 < unat p \<Longrightarrow> unat p + length v \<le> 2 ^ 64 \<Longrightarrow>
     fdt_stringlist_contains m p (word_of_nat (length v)) c = Some (c \<in> set (strings_of v))"
proof (induction v arbitrary: p rule: length_induct)
  case (1 v)
  note len = sint_word_nat [OF 1(4)]
  show ?case
  proof (cases "length c \<le> length v")
    case False
    with strings_of_shorter [of c v] len show ?thesis by (subst fdt_stringlist_contains.simps) auto
  next
    case True
    with assms(2) have "v \<noteq> []" by auto
    obtain s v' where v: "v = s @ 0 # v'" "0 \<notin> set s" "terminated v'"
      using 1(2) \<open>v \<noteq> []\<close> by (rule terminated_split)
    let ?l = "length s + 1"
    have eq: "bytes_at m p (length c + 1) = c @ [0] \<longleftrightarrow> s = c"
      using stored_string_eq [of m p s c] 1(3) assms(1) v(1,2) by (auto simp: stored_def [of m p "c @ [0]", symmetric, simplified])
    have "unat (word_of_nat (length v) :: i32) = length v" using 1(4) by (intro unat_offset_nat) simp
    then have chr: "memchr p 0 (unat (word_of_nat (length v) :: i32)) m = p + word_of_nat (length s)"
      using 1(3) v by (intro memchr_stored) simp_all
    have addr: "unat (p + word_of_nat (length s)) = unat p + length s" using 1(6) by (intro unat_offset) (simp add: v)
    have rest: "fdt_stringlist_contains m (p + word_of_nat ?l) (word_of_nat (length v')) c = Some (c \<in> set (strings_of v'))"
    proof (cases "v' = []")
      case True
      then show ?thesis using assms(2) by (subst fdt_stringlist_contains.simps) simp
    next
      case False
      then have "unat (p + word_of_nat ?l) = unat p + ?l" using 1(6) by (intro unat_offset) (auto simp: v neq_Nil_conv)
      with 1(3,4,6) show ?thesis by (intro 1(1) [rule_format]) (simp_all add: v ac_simps)
    qed
    have "(word_of_nat (length v) :: i32) - ucast (word_of_nat (length s) + 1 :: u64) = word_of_nat (length v')"
      using ucast_word_nat [of ?l] by (simp add: v add.commute)
    then show ?thesis
      using True len eq chr addr rest 1(5) strings_of_first [OF v(2), of v'] unfolding v(1) [symmetric]
      by (subst fdt_stringlist_contains.simps) (auto simp: Let_def add.assoc add.commute [of "word_of_nat (length s)" 1])
  qed
qed

text \<open>Where the value of a property lies.\<close>

lemma find_property_at:
  "find_property P k ps = Some (off, v) \<Longrightarrow> tokens_at m fdt k (map (\<lambda>(nameoff, v). Property nameoff v) ps) \<Longrightarrow>
   \<exists>nameoff. token_at m fdt off (Property nameoff v)"
proof (induction ps arbitrary: k)
  case (Cons p ps)
  then show ?case by (cases p) (auto split: if_splits)
qed simp

lemma value_range:
  assumes "tree_ok m fdt" "token_at m fdt off (Property nameoff v)" "v \<noteq> []"
  shows "0 < unat (struct_at m fdt off + 12)" "unat (struct_at m fdt off + 12) + length v \<le> unat fdt + unat (fdt_totalsize m fdt)"
proof -
  let ?k = "unat (fdt_off_dt_struct m fdt) + (off + 12)"
  have "12 + length v \<le> token_size (Property nameoff v)" using token_size_bounds(1) [of "Property nameoff v"] by simp
  with assms(2) have k: "?k + length v \<le> unat (fdt_totalsize m fdt)" by (simp add: token_at_def fits_def)
  moreover have "0 < length v" "unat fdt + unat (fdt_totalsize m fdt) \<le> 2 ^ 64" using assms(1,3) by (simp_all add: tree_ok_def)
  ultimately have "unat (fdt + word_of_nat ?k) = unat fdt + ?k" by (intro unat_offset) linarith
  moreover have "struct_at m fdt off + 12 = fdt + word_of_nat ?k" using struct_at_add [of m fdt off 12] by (simp add: struct_at_def)
  ultimately have "unat (struct_at m fdt off + 12) = unat fdt + ?k" by (simp only:)
  with k show "0 < unat (struct_at m fdt off + 12)"
    "unat (struct_at m fdt off + 12) + length v \<le> unat fdt + unat (fdt_totalsize m fdt)" by linarith+
qed

text \<open>The value of a property of a node, by its name.\<close>

definition node_prop :: "(u32 \<Rightarrow> u8 list) \<Rightarrow> dt_node \<Rightarrow> u8 list \<Rightarrow> u8 list option" where
  "node_prop names x = map_of (map (\<lambda>(nameoff, v). (names nameoff, v)) (node_props x))"

lemma getprop_node:
  assumes "tree_ok m fdt" "17 \<le> fdt_version m fdt" "tokens_at m fdt n (flatten x)"
    and "\<forall>(nameoff, v) \<in> set (node_props x). string_in m fdt nameoff (names nameoff)"
  shows "node_prop names x s = None \<Longrightarrow> fdt_getprop m fdt (word_of_nat n) s = Some (Inl (- FDT_ERR_NOTFOUND))"
    and "node_prop names x s = Some v \<Longrightarrow> \<exists>p. fdt_getprop m fdt (word_of_nat n) s = Some (Inr (p, word_of_nat (length v))) \<and>
      stored m p v \<and> length v < 2 ^ 31 \<and> (v \<noteq> [] \<longrightarrow> 0 < unat p \<and> unat p + length v \<le> unat fdt + unat (fdt_totalsize m fdt))"
proof -
  note find = find_property_names [OF assms(1,2,4) subs_at(2) [OF assms(3)], of s, folded node_prop_def props_start_def]
  note get = getprop_tree [OF assms(1,3), of s]
  show "node_prop names x s = None \<Longrightarrow> fdt_getprop m fdt (word_of_nat n) s = Some (Inl (- FDT_ERR_NOTFOUND))"
    using find get by simp
  assume v: "node_prop names x s = Some v"
  with find obtain off where off: "stored m (struct_at m fdt off + 12) v"
    "find_property (\<lambda>nameoff. fdt_string_eq m fdt nameoff s) (props_start n x) (node_props x) = Some (off, v)" by auto
  obtain nameoff where "token_at m fdt off (Property nameoff v)"
    using find_property_at [OF off(2)] subs_at(2) [OF assms(3)] by (auto simp: props_start_def)
  note range = value_range [OF assms(1) this]
  obtain nameoff' where "(nameoff', v) \<in> set (node_props x)" using v by (auto simp: node_prop_def dest!: map_of_SomeD)
  then have "length v < 2 ^ 31" by (rule property_length [OF assms(1,3)])
  with off get range show "\<exists>p. fdt_getprop m fdt (word_of_nat n) s = Some (Inr (p, word_of_nat (length v))) \<and>
      stored m p v \<and> length v < 2 ^ 31 \<and> (v \<noteq> [] \<longrightarrow> 0 < unat p \<and> unat p + length v \<le> unat fdt + unat (fdt_totalsize m fdt))" by simp
qed

subsection \<open>Nodes by property and by \<^verbatim>\<open>compatible\<close>\<close>

definition compatible_with :: "(u32 \<Rightarrow> u8 list) \<Rightarrow> u8 list \<Rightarrow> dt_node \<Rightarrow> bool" where
  "compatible_with names c x = (case node_prop names x (map of_char ''compatible'') of
     None \<Rightarrow> False | Some v \<Rightarrow> c \<in> set (strings_of v))"

text \<open>Every \<^verbatim>\<open>compatible\<close> property is a list of terminated strings.\<close>

definition compatible_ok :: "(u32 \<Rightarrow> u8 list) \<Rightarrow> dt_node \<Rightarrow> bool" where
  "compatible_ok names root \<longleftrightarrow> (\<forall>(off, x) \<in> set (tree_nodes 0 root).
     case node_prop names x (map of_char ''compatible'') of None \<Rightarrow> True | Some v \<Rightarrow> terminated v)"

definition is_compatible :: "u8 list \<Rightarrow> mem \<Rightarrow> addr \<Rightarrow> i32 \<Rightarrow> bool option" where
  "is_compatible c m fdt off = (case fdt_node_check_compatible m fdt off c of
     None \<Rightarrow> None | Some err \<Rightarrow> if sint err < 0 \<and> err \<noteq> - FDT_ERR_NOTFOUND then None else Some (err = 0))"

interpretation compatible: node_search "\<lambda>m fdt. compatible_search m fdt c" "is_compatible c" for c
  by unfold_locales (subst compatible_search.simps; auto simp: is_compatible_def split: option.splits if_splits)+

definition has_value :: "u8 list \<Rightarrow> u8 list \<Rightarrow> mem \<Rightarrow> addr \<Rightarrow> i32 \<Rightarrow> bool option" where
  "has_value s v m fdt off = map_option (\<lambda>r. case r of Inl err \<Rightarrow> False
     | Inr (p, len) \<Rightarrow> sint len = int (length v) \<and> bytes_at m p (length v) = v) (fdt_getprop m fdt off s)"

interpretation value_search: node_search "\<lambda>m fdt. prop_value_search m fdt s v" "has_value s v" for s v
  by unfold_locales (subst prop_value_search.simps; auto simp: has_value_def)+

lemma is_compatible_tree:
  assumes "tree_ok m fdt" "17 \<le> fdt_version m fdt" "tokens_at m fdt n (flatten x)"
    and "\<forall>(nameoff, v) \<in> set (node_props x). string_in m fdt nameoff (names nameoff)"
    and "case node_prop names x (map of_char ''compatible'') of None \<Rightarrow> True | Some v \<Rightarrow> terminated v"
    and "0 \<notin> set c" "c \<noteq> []"
  shows "is_compatible c m fdt (word_of_nat n) = Some (compatible_with names c x)"
proof (cases "node_prop names x (map of_char ''compatible'')")
  case None
  with getprop_node(1) [OF assms(1-4) None] show ?thesis
    by (simp add: is_compatible_def fdt_node_check_compatible_def compatible_with_def)
next
  case (Some v)
  then obtain p where p: "fdt_getprop m fdt (word_of_nat n) (map of_char ''compatible'') = Some (Inr (p, word_of_nat (length v)))"
    "stored m p v" "length v < 2 ^ 31" "v \<noteq> [] \<longrightarrow> 0 < unat p \<and> unat p + length v \<le> unat fdt + unat (fdt_totalsize m fdt)"
    using getprop_node(2) [OF assms(1-4)] by blast
  have "fdt_stringlist_contains m p (word_of_nat (length v)) c = Some (c \<in> set (strings_of v))"
  proof (cases "v = []")
    case True
    then show ?thesis using assms(7) by (subst fdt_stringlist_contains.simps) simp
  next
    case False
    with p assms(1,5) Some show ?thesis by (intro stringlist_contains_strings [OF assms(6,7)]) (auto simp: tree_ok_def)
  qed
  with p(1) Some show ?thesis by (simp add: is_compatible_def fdt_node_check_compatible_def compatible_with_def)
qed

lemma has_value_tree:
  assumes "tree_ok m fdt" "17 \<le> fdt_version m fdt" "tokens_at m fdt n (flatten x)"
    and "\<forall>(nameoff, v) \<in> set (node_props x). string_in m fdt nameoff (names nameoff)"
  shows "has_value s v m fdt (word_of_nat n) = Some (node_prop names x s = Some v)"
proof (cases "node_prop names x s")
  case None
  with getprop_node(1) [OF assms None] show ?thesis by (simp add: has_value_def)
next
  case (Some w)
  then obtain p where p: "fdt_getprop m fdt (word_of_nat n) s = Some (Inr (p, word_of_nat (length w)))"
    "stored m p w" "length w < 2 ^ 31" using getprop_node(2) [OF assms] by blast
  have "length w = length v \<and> bytes_at m p (length v) = v \<longleftrightarrow> w = v" using p(2) by (auto simp: stored_def)
  with p(1,3) Some show ?thesis by (auto simp: has_value_def sint_word_nat)
qed

text \<open>Searches from the start of the tree and from each of its nodes.\<close>

lemma by_compatible_tree:
  assumes "tree_ok m fdt" "17 \<le> fdt_version m fdt" "tokens_at m fdt 0 (flatten root @ [End])" "strings_ok m fdt names root"
    and "compatible_ok names root" "0 \<notin> set c" "c \<noteq> []"
  defines "ns \<equiv> tree_nodes 0 root" and "P \<equiv> \<lambda>(off, x). compatible_with names c x"
  shows "fdt_node_offset_by_compatible m fdt (- 1) c = Some (node_result (List.find P ns))"
    and "k < length ns \<Longrightarrow> fdt_node_offset_by_compatible m fdt (word_of_nat (fst (ns ! k))) c =
      Some (node_result (List.find P (drop (Suc k) ns)))"
proof -
  have "is_compatible c m fdt (word_of_nat off) = Some (compatible_with names c x)" if "(off, x) \<in> set ns" for off x
    using is_compatible_tree [OF assms(1,2) _ _ _ assms(6,7)] tree_nodes_at(1) [of m fdt 0 root off x] that assms(3-5)
    by (fastforce simp: strings_ok_def compatible_ok_def ns_def)
  then have search: "compatible_search m fdt c (offset_result (drop k (map fst ns))) = Some (node_result (List.find P (drop k ns)))" for k
    unfolding ns_def P_def by (intro compatible.search_tree [OF assms(1,3)]) auto
  note start = next_node_tree [OF assms(1,3), folded ns_def]
  show "fdt_node_offset_by_compatible m fdt (- 1) c = Some (node_result (List.find P ns))"
    using search [of 0] start(1) ro_probe_tree(1) [OF assms(1)] by (simp add: fdt_node_offset_by_compatible_def)
  show "k < length ns \<Longrightarrow> fdt_node_offset_by_compatible m fdt (word_of_nat (fst (ns ! k))) c =
      Some (node_result (List.find P (drop (Suc k) ns)))"
    using search [of "Suc k"] start(2) [of k] ro_probe_tree(1) [OF assms(1)] by (simp add: fdt_node_offset_by_compatible_def)
qed

subsection \<open>Depths and parents\<close>

text \<open>The nodes of a tree with the offsets on the way from the root to each, its own offset last.\<close>

fun tree_paths :: "nat list \<Rightarrow> nat \<Rightarrow> dt_node \<Rightarrow> (nat \<times> nat list) list"
  and forest_paths :: "nat list \<Rightarrow> nat \<Rightarrow> dt_node list \<Rightarrow> (nat \<times> nat list) list" where
  "tree_paths anc n (Node name properties subs) =
     (n, anc @ [n]) # forest_paths (anc @ [n]) (subs_start n (Node name properties subs)) subs"
| "forest_paths anc n [] = []"
| "forest_paths anc n (x # xs) = tree_paths anc n x @ forest_paths anc (n + tokens_size (flatten x)) xs"

text \<open>The same from the tokens, up to the end of the outermost open node.\<close>

fun begin_paths :: "nat \<Rightarrow> nat list \<Rightarrow> token list \<Rightarrow> (nat \<times> nat list) list" where
  "begin_paths n anc [] = []"
| "begin_paths n anc (t # ts) = (case t of
     Begin_node name \<Rightarrow> (n, anc @ [n]) # begin_paths (n + token_size t) (anc @ [n]) ts
   | End \<Rightarrow> []
   | End_node \<Rightarrow> if length anc \<le> 1 then [] else begin_paths (n + token_size t) (butlast anc) ts
   | _ \<Rightarrow> begin_paths (n + token_size t) anc ts)"

lemma begin_paths_properties:
  "begin_paths n anc (map (\<lambda>(nameoff, v). Property nameoff v) ps @ ts) =
   begin_paths (n + tokens_size (map (\<lambda>(nameoff, v). Property nameoff v) ps)) anc ts"
  by (induction ps arbitrary: n) (auto simp: add.assoc)

lemma begin_paths_forest:
  "anc \<noteq> [] \<Longrightarrow> begin_paths n anc (flatten x @ ts) = tree_paths anc n x @ begin_paths (n + tokens_size (flatten x)) anc ts"
  "anc \<noteq> [] \<Longrightarrow> begin_paths n anc (concat (map flatten xs) @ ts) =
     forest_paths anc n xs @ begin_paths (n + tokens_size (concat (map flatten xs))) anc ts"
proof (induction anc n x and anc n xs arbitrary: ts and ts rule: tree_paths_forest_paths.induct)
  case (1 anc n name properties subs)
  then show ?case
    by (simp add: begin_paths_properties subs_start_def add.assoc)
qed (simp_all add: add.assoc)

lemma begin_paths_root: "begin_paths n [] (flatten x) = tree_paths [] n x"
  by (cases x) (simp add: begin_paths_properties begin_paths_forest subs_start_def add.assoc)

text \<open>From one node to the next, with the depth.\<close>

definition node_step :: "mem \<Rightarrow> addr \<Rightarrow> nat \<times> nat list \<Rightarrow> nat \<times> nat list \<Rightarrow> bool" where
  "node_step m fdt a b \<longleftrightarrow>
     fdt_next_node m fdt (word_of_nat (fst a)) (Some (word_of_nat (length (snd a) - 1))) =
       Some (word_of_nat (fst b), Some (word_of_nat (length (snd b) - 1))) \<and>
     fst a < fst b \<and> (\<exists>j \<le> length (snd a). snd b = take j (snd a) @ [fst b])"

lemma next_node_paths:
  assumes "tree_ok m fdt"
  shows "tokens_at m fdt n ts \<Longrightarrow> anc \<noteq> [] \<Longrightarrow> length anc \<le> n \<Longrightarrow> begin_paths n anc ts = (off, path) # r \<Longrightarrow>
     next_node_loop m fdt (word_of_nat n) (Some (word_of_nat (length anc - 1))) =
       Some (word_of_nat off, Some (word_of_nat (length path - 1))) \<and> n \<le> off \<and>
     (\<exists>j \<le> length anc. path = take j anc @ [off])"
proof (induction ts arbitrary: n anc)
  case (Cons t ts)
  have at: "token_at m fdt n t" and rest: "tokens_at m fdt (n + token_size t) ts" using Cons.prems(1) by simp_all
  have bound: "n + token_size t < 2 ^ 31" using at fits_bound [OF assms] by (simp add: token_at_def)
  obtain l where l: "length anc = Suc l" using Cons.prems(2) by (cases anc) auto
  note loop = next_node_loop_tokens [OF assms]
  show ?case
  proof (cases t)
    case (Begin_node name)
    with Cons.prems(4) have "off = n" "path = anc @ [n]" by auto
    then show ?thesis using loop(2) [OF at [unfolded Begin_node]] by (auto simp: l intro: exI [of _ "length anc"])
  next
    case End_node
    with Cons.prems(4) have "l \<noteq> 0" "begin_paths (n + token_size t) (butlast anc) ts = (off, path) # r"
      by (simp_all add: l split: if_splits)
    moreover from this obtain k where k: "l = Suc k" by (cases l) auto
    ultimately have IH: "next_node_loop m fdt (word_of_nat (n + token_size t)) (Some (word_of_nat k)) =
        Some (word_of_nat off, Some (word_of_nat (length path - 1))) \<and> n + token_size t \<le> off \<and>
        (\<exists>j \<le> l. path = take j (butlast anc) @ [off])"
      using Cons.IH [OF rest, of "butlast anc"] Cons.prems(2,3) by (simp add: l flip: length_0_conv)
    then obtain j where j: "j \<le> l" "path = take j (butlast anc) @ [off]" by blast
    then have "path = take j anc @ [off]" by (simp add: butlast_conv_take l min_def)
    with j(1) have "\<exists>j \<le> length anc. path = take j anc @ [off]" using l by (intro exI [of _ j]) simp
    with IH loop(3) [of n k] at bound Cons.prems(3) show ?thesis by (simp add: End_node l k)
  next
    case (Property nameoff v)
    with Cons.IH [OF rest Cons.prems(2)] Cons.prems(3,4) loop(1) [of n nameoff v] at show ?thesis by (auto simp: l)
  next
    case Nop
    with Cons.IH [OF rest Cons.prems(2)] Cons.prems(3,4) next_tag_token [OF assms at] show ?thesis
      by (auto simp: l next_node_loop.simps [of m fdt "word_of_nat n"])
  next
    case End
    with Cons.prems(4) show ?thesis by simp
  qed
qed simp

definition entry_ok :: "nat \<times> nat list \<Rightarrow> bool" where
  "entry_ok e \<longleftrightarrow> fst e < 2 ^ 31 \<and> snd e \<noteq> [] \<and> last (snd e) = fst e \<and> length (snd e) \<le> Suc (fst e)"

lemma begin_paths_steps:
  assumes "tree_ok m fdt"
  shows "tokens_at m fdt n ts \<Longrightarrow> length anc \<le> n \<Longrightarrow> successively (node_step m fdt) (begin_paths n anc ts) \<and>
     (\<forall>e \<in> set (begin_paths n anc ts). entry_ok e)"
proof (induction ts arbitrary: n anc)
  case (Cons t ts)
  have at: "token_at m fdt n t" and rest: "tokens_at m fdt (n + token_size t) ts" using Cons.prems(1) by simp_all
  show ?case
  proof (cases "\<exists>name. t = Begin_node name")
    case True
    then obtain name where t: "t = Begin_node name" by blast
    let ?n = "n + token_size t" and ?anc = "anc @ [n]"
    have size: "0 < token_size t" by (simp add: t token_size_def)
    have IH: "successively (node_step m fdt) (begin_paths ?n ?anc ts) \<and>
       (\<forall>e \<in> set (begin_paths ?n ?anc ts). entry_ok e)"
      using Cons.prems(2) size by (intro Cons.IH [OF rest]) simp
    have "node_step m fdt (n, ?anc) (off, path)" if "begin_paths ?n ?anc ts = (off, path) # r" for off path r
      using next_node_paths [OF assms rest _ _ that] Cons.prems(2) size fdt_next_node_token [OF assms at [unfolded t]]
      by (auto simp: node_step_def t)
    with IH node_offset_token(2) [OF assms at [unfolded t]] Cons.prems(2) show ?thesis
      by (cases "begin_paths ?n ?anc ts") (auto simp: t entry_ok_def [of "(n, _)"])
  next
    case False
    with Cons.IH [OF rest, of anc] Cons.IH [OF rest, of "butlast anc"] Cons.prems(2) show ?thesis by (cases t) auto
  qed
qed simp

text \<open>
  The search for an ancestor, from a node on. What it has recorded is the ancestor of the current node at that depth, once the
  walk is deep enough.
\<close>

lemma steps_ascend: "successively (node_step m fdt) (e # es) \<Longrightarrow> x \<in> set es \<Longrightarrow> fst e < fst x"
proof (induction es arbitrary: e)
  case (Cons e' es)
  from Cons.prems(1) have "fst e < fst e'" "successively (node_step m fdt) (e' # es)" by (simp_all add: node_step_def)
  with Cons.IH [of e'] Cons.prems(2) show ?case by (auto intro: less_trans)
qed simp

lemma word_nat_eq: "a < 2 ^ 32 \<Longrightarrow> b < 2 ^ 32 \<Longrightarrow> (word_of_nat a :: i32) = word_of_nat b \<longleftrightarrow> a = b"
  by (metis unat_offset_nat)

lemma supernode_loop_entry:
  assumes "entry_ok e" "t < 2 ^ 31" "fst e \<le> t" "sd < 2 ^ 31"
  defines "d \<equiv> length (snd e) - 1"
  shows "supernode_loop m fdt (word_of_nat t) (word_of_nat sd) sv (word_of_nat (fst e)) (word_of_nat d) =
     (let sv = (if d = sd then word_of_nat (fst e) else sv)
      in if fst e = t then Some (if d < sd then - FDT_ERR_NOTFOUND else sv, Some (word_of_nat d))
         else case fdt_next_node m fdt (word_of_nat (fst e)) (Some (word_of_nat d)) of
           None \<Rightarrow> None
         | Some (offset, depth) \<Rightarrow> supernode_loop m fdt (word_of_nat t) (word_of_nat sd) sv offset (the depth))"
proof -
  have "d < 2 ^ 31" "fst e < 2 ^ 31" using assms(1) by (auto simp: entry_ok_def d_def)
  then show ?thesis
    using assms(2-4) by (subst supernode_loop.simps) (simp add: sint_word_nat word_nat_eq Let_def)
qed

lemma supernode_loop_here:
  assumes "entry_ok (t, tp)" "sd < 2 ^ 31" "Suc sd < length tp \<Longrightarrow> sv = word_of_nat (tp ! sd)"
  shows "supernode_loop m fdt (word_of_nat t) (word_of_nat sd) sv (word_of_nat t) (word_of_nat (length tp - 1)) =
       Some (if sd < length tp then word_of_nat (tp ! sd) else - FDT_ERR_NOTFOUND, Some (word_of_nat (length tp - 1)))"
proof -
  obtain l where l: "length tp = Suc l" using assms(1) by (cases tp) (auto simp: entry_ok_def)
  have "t < 2 ^ 31" "tp ! l = t" using assms(1) l by (auto simp: entry_ok_def last_conv_nth)
  with supernode_loop_entry [OF assms(1) _ _ assms(2), of t m fdt sv] assms(3) show ?thesis
    by (auto simp: l less_Suc_eq_le)
qed

lemma supernode_loop_paths:
  assumes "sd < 2 ^ 31"
  shows "successively (node_step m fdt) (e # es) \<Longrightarrow> (t, tp) \<in> set (e # es) \<Longrightarrow> \<forall>e \<in> set (e # es). entry_ok e \<Longrightarrow>
     (Suc sd < length (snd e) \<Longrightarrow> sv = word_of_nat (snd e ! sd)) \<Longrightarrow>
     supernode_loop m fdt (word_of_nat t) (word_of_nat sd) sv (word_of_nat (fst e)) (word_of_nat (length (snd e) - 1)) =
       Some (if sd < length tp then word_of_nat (tp ! sd) else - FDT_ERR_NOTFOUND, Some (word_of_nat (length tp - 1)))"
proof (induction es arbitrary: e sv)
  case Nil
  then have "e = (t, tp)" "entry_ok (t, tp)" by auto
  with Nil(4) show ?case using supernode_loop_here [OF _ assms, of t tp sv] by simp
next
  case (Cons e' es)
  let ?d = "length (snd e) - 1" and ?off = "fst e"
  have e: "entry_ok e" using Cons.prems(3) by simp
  then have d: "snd e ! ?d = ?off" "length (snd e) = Suc ?d" by (auto simp: entry_ok_def last_conv_nth)
  have t: "t < 2 ^ 31" using Cons.prems(2,3) by (auto simp: entry_ok_def)
  have le: "?off \<le> t" using steps_ascend [OF Cons.prems(1), of "(t, tp)"] Cons.prems(2) by auto
  define sv' where "sv' = (if ?d = sd then word_of_nat ?off else sv)"
  have sv': "sv' = word_of_nat (snd e ! sd)" if "sd \<le> ?d"
    using that Cons.prems(4) d by (cases "sd = ?d") (auto simp: sv'_def)
  note step = supernode_loop_entry [OF e t le assms, of m fdt sv, unfolded Let_def, folded sv'_def]
  show ?case
  proof (cases "t = ?off")
    case True
    then have "e = (t, tp)" using Cons.prems(2) steps_ascend [OF Cons.prems(1), of "(t, tp)"] by auto
    with e Cons.prems(4) show ?thesis using supernode_loop_here [OF _ assms, of t tp sv] by simp
  next
    case False
    have ns: "node_step m fdt e e'" "successively (node_step m fdt) (e' # es)" using Cons.prems(1) by simp_all
    then obtain j where j: "j \<le> length (snd e)" "snd e' = take j (snd e) @ [fst e']" by (auto simp: node_step_def)
    have "sv' = word_of_nat (snd e' ! sd)" if "Suc sd < length (snd e')"
      using that j d(2) by (subst sv') (auto simp: nth_append)
    then have "supernode_loop m fdt (word_of_nat t) (word_of_nat sd) sv' (word_of_nat (fst e')) (word_of_nat (length (snd e') - 1)) =
        Some (if sd < length tp then word_of_nat (tp ! sd) else - FDT_ERR_NOTFOUND, Some (word_of_nat (length tp - 1)))"
      using Cons.prems(2,3) False by (intro Cons.IH [OF ns(2)]) auto
    with step False ns(1) show ?thesis by (simp add: node_step_def)
  qed
qed

lemma tree_paths_prefix:
  "(off, path) \<in> set (tree_paths anc n x) \<Longrightarrow> \<exists>p. path = anc @ n # p"
  "(off, path) \<in> set (forest_paths anc n xs) \<Longrightarrow> \<exists>p. path = anc @ p"
  by (induction anc n x and anc n xs rule: tree_paths_forest_paths.induct) fastforce+

text \<open>The ancestors, the depth and the parent of a node of an encoded tree.\<close>

lemma tree_path_facts:
  assumes "tree_ok m fdt" "tokens_at m fdt 0 (flatten root)" "(off, path) \<in> set (tree_paths [] 0 root)"
  shows "d < 2 ^ 31 \<Longrightarrow> fdt_supernode_atdepth_offset m fdt (word_of_nat off) (word_of_nat d) =
       Some (if d < length path then word_of_nat (path ! d) else - FDT_ERR_NOTFOUND, Some (word_of_nat (length path - 1)))"
    and "entry_ok (off, path)" "path ! 0 = 0"
proof -
  note steps = begin_paths_steps [OF assms(1,2), of "[]", unfolded begin_paths_root]
  obtain es where es: "tree_paths [] 0 root = (0, [0]) # es" by (cases root) simp
  show "entry_ok (off, path)" using steps assms(3) by auto
  show "path ! 0 = 0" using tree_paths_prefix(1) [OF assms(3)] by auto
  assume "d < 2 ^ 31"
  with supernode_loop_paths [OF this, of m fdt "(0, [0])" es off path "- FDT_ERR_INTERNAL"] steps assms(3)
  show "fdt_supernode_atdepth_offset m fdt (word_of_nat off) (word_of_nat d) =
       Some (if d < length path then word_of_nat (path ! d) else - FDT_ERR_NOTFOUND, Some (word_of_nat (length path - 1)))"
    by (simp add: es fdt_supernode_atdepth_offset_def ro_probe_tree(1) [OF assms(1)] sint_word_nat)
qed

lemma parent_tree:
  assumes "tree_ok m fdt" "tokens_at m fdt 0 (flatten root)" "(off, path) \<in> set (tree_paths [] 0 root)"
  shows "fdt_node_depth m fdt (word_of_nat off) = Some (word_of_nat (length path - 1))"
    and "fdt_parent_offset m fdt (word_of_nat off) =
      Some (if length path = 1 then - FDT_ERR_NOTFOUND else word_of_nat (path ! (length path - 2)))"
proof -
  note facts = tree_path_facts [OF assms]
  obtain l where l: "length path = Suc l" using facts(2) by (cases path) (auto simp: entry_ok_def)
  then have l': "l < 2 ^ 31" using facts(2) by (simp add: entry_ok_def)
  show depth: "fdt_node_depth m fdt (word_of_nat off) = Some (word_of_nat (length path - 1))"
    using facts(1) [of 0] facts(3) by (simp add: fdt_node_depth_def l)
  show "fdt_parent_offset m fdt (word_of_nat off) =
      Some (if length path = 1 then - FDT_ERR_NOTFOUND else word_of_nat (path ! (length path - 2)))"
  proof (cases l)
    case 0
    then show ?thesis
      using depth ro_probe_tree(1) [OF assms(1)] by (simp add: fdt_parent_offset_def fdt_supernode_atdepth_offset_def l)
  next
    case (Suc k)
    then show ?thesis using depth facts(1) [of k] l' sint_word_nat [OF l'] by (simp add: fdt_parent_offset_def l)
  qed
qed

subsection \<open>The largest phandle\<close>

lemma max_phandle_loop_nodes:
  assumes "tree_ok m fdt" "tokens_at m fdt n (ts @ [End])" "End \<notin> set ts"
    and "\<forall>off \<in> set (begin_offsets n ts). fdt_get_phandle m fdt (word_of_nat off) = Some (ph off)"
  shows "fdt_next_node m fdt start None = Some (offset_result (drop k (begin_offsets n ts)), None) \<Longrightarrow>
     max_phandle_loop m fdt best start = Some (0, fold max (map ph (drop k (begin_offsets n ts))) best)"
proof (induction "length (begin_offsets n ts) - k" arbitrary: k best start)
  case 0
  then show ?case by (subst max_phandle_loop.simps) (simp add: offset_result_def)
next
  case (Suc l)
  let ?o = "begin_offsets n ts ! k"
  have k: "k < length (begin_offsets n ts)" using Suc.hyps(2) by simp
  then have drop: "drop k (begin_offsets n ts) = ?o # drop (Suc k) (begin_offsets n ts)" by (rule Cons_nth_drop_Suc [symmetric])
  note after = next_node_after [OF assms(1-3) k]
  have "fdt_get_phandle m fdt (word_of_nat ?o) = Some (ph ?o)" using assms(4) nth_mem [OF k] by blast
  moreover have "max_phandle_loop m fdt b (word_of_nat ?o) = Some (0, fold max (map ph (drop (Suc k) (begin_offsets n ts))) b)" for b
    using Suc.hyps(2) after by (intro Suc.hyps(1)) simp_all
  moreover have "(if best < ph ?o then ph ?o else best) = max (ph ?o) best" by (auto simp: max_def)
  ultimately show ?case
    using Suc.prems after unfolding drop
    by (subst max_phandle_loop.simps) (simp add: offset_result_def [of "?o # _"] sint_word_nat del: if_split)
qed

lemma max_phandle_tree:
  assumes "tree_ok m fdt" "17 \<le> fdt_version m fdt" "tokens_at m fdt 0 (flatten root @ [End])" "strings_ok m fdt names root"
  shows "fdt_find_max_phandle m fdt = Some (0, Max (set (0 # map (\<lambda>(off, x). node_phandle names x) (tree_nodes 0 root))))"
proof -
  let ?ns = "tree_nodes 0 root" and ?ph = "\<lambda>off. the (fdt_get_phandle m fdt (word_of_nat off))"
  have ph: "fdt_get_phandle m fdt (word_of_nat off) = Some (node_phandle names x)" if "(off, x) \<in> set ?ns" for off x
    using get_phandle_tree [OF assms(1,2)] tree_nodes_at(1) [of m fdt 0 root off x] that assms(3,4)
    by (fastforce simp: strings_ok_def)
  then have "\<forall>off \<in> set (begin_offsets 0 (flatten root)). fdt_get_phandle m fdt (word_of_nat off) = Some (?ph off)"
    by (fastforce simp: begin_offsets_tree)
  from max_phandle_loop_nodes [OF assms(1,3) End_not_in_tree this, of "- 1" 0 0] next_node_tree(1) [OF assms(1,3)]
  have "fdt_find_max_phandle m fdt = Some (0, fold max (map ?ph (map fst ?ns)) 0)"
    by (simp add: fdt_find_max_phandle_def begin_offsets_tree)
  moreover have "map ?ph (map fst ?ns) = map (\<lambda>(off, x). node_phandle names x) ?ns" using ph by auto
  ultimately show ?thesis by (simp only: Max.set_eq_fold)
qed

text \<open>A generated phandle is valid and no node's phandle, unless a node has the invalid phandle \<^verbatim>\<open>0xffffffff\<close>.\<close>

lemma generate_phandle_tree:
  assumes "tree_ok m fdt" "17 \<le> fdt_version m fdt" "tokens_at m fdt 0 (flatten root @ [End])" "strings_ok m fdt names root"
    and "fdt_generate_phandle m fdt = Some (err, Some ph)"
    and "\<forall>(off, x) \<in> set (tree_nodes 0 root). node_phandle names x \<noteq> 0xffffffff"
  shows "err = 0 \<and> ph \<noteq> 0 \<and> ph \<noteq> 0xffffffff \<and> (\<forall>(off, x) \<in> set (tree_nodes 0 root). node_phandle names x \<noteq> ph)"
proof -
  let ?P = "set (0 # map (\<lambda>(off, x). node_phandle names x) (tree_nodes 0 root))"
  define b where "b = Max ?P"
  have ph: "err = 0" "ph = b + 1" "b \<noteq> 0xfffffffe"
    using assms(5) max_phandle_tree [OF assms(1-4)] by (auto simp: fdt_generate_phandle_def b_def split: if_splits)
  have "b \<in> ?P" unfolding b_def by (intro Max_in) auto
  with assms(6) have "b \<noteq> 0xffffffff" by auto
  then have "b < b + 1" by (unat_arith, simp)
  moreover have "\<forall>p \<in> ?P. p \<le> b" unfolding b_def by (intro ballI Max_ge) auto
  ultimately have "\<forall>p \<in> ?P. p < ph" using ph(2) by (blast intro: le_less_trans)
  moreover from this have "ph \<noteq> 0" by auto
  moreover have "ph \<noteq> 0xffffffff" using ph(2,3) by (auto simp: eq_diff_eq [symmetric])
  ultimately show ?thesis using ph(1) by auto
qed

subsection \<open>Lists of strings\<close>

text \<open>
  The kernel's \<^verbatim>\<open>strnlen\<close> returns 0 for a non-empty string, and nothing for an empty one. So the loops
  advance byte by byte, and the first terminator they come to is the end of it.
\<close>

lemma stringlist_loops_undefined:
  assumes "terminated v" "v \<noteq> []" "stored m p v" "unat p + length v < 2 ^ 64"
  defines "u \<equiv> Undefined ''strnlen: no value returned''"
  shows "stringlist_count_loop m p (p + word_of_nat (length v)) count = Some (Inl u) \<and>
     stringlist_search_loop m p (p + word_of_nat (length v)) str idx = Some (Inl u)"
  using assms(1-4)
proof (induction v arbitrary: p count idx)
  case (Cons b v)
  let ?l = "p + word_of_nat (length (b # v))"
  have "unat ?l = unat p + length (b # v)" using Cons.prems(4) by (intro unat_offset) simp
  then have less: "p < ?l" by (simp add: word_less_nat_alt)
  show ?case
  proof (cases "b = 0")
    case True
    with Cons.prems(3) have "strnlen p (?l - p) m = Inl u" by (simp add: strnlen_def u_def)
    with less show ?thesis by (simp add: stringlist_count_loop.simps [of m p] stringlist_search_loop.simps [of m p])
  next
    case False
    then have v: "terminated v" "v \<noteq> []" using Cons.prems(1) by (auto simp: terminated_def split: if_splits)
    have len: "strnlen p (?l - p) m = Inr 0" using Cons.prems(3) False less by (auto simp: strnlen_def)
    have p1: "unat (p + 1) = unat p + 1" using unat_offset [of p 1] Cons.prems(4) by simp
    have lim: "p + 1 + word_of_nat (length v) = ?l" "\<not> ?l < p + 1"
      using p1 \<open>unat ?l = _\<close> by (simp_all add: word_less_nat_alt)
    have IH: "stringlist_count_loop m (p + 1) ?l (count + 1) = Some (Inl u) \<and> stringlist_search_loop m (p + 1) ?l str (idx + 1) = Some (Inl u)"
      using Cons.IH [OF v, of "p + 1"] Cons.prems(3,4) p1 lim(1) by simp
    have nomatch: "bytes_at m p (Suc 0) \<noteq> [0]" using Cons.prems(3) False by (simp add: bytes_at_def)
    from IH lim(2) less len nomatch show ?thesis
      by (simp add: stringlist_count_loop.simps [of m p] stringlist_search_loop.simps [of m p])
  qed
qed simp

subsection \<open>Properties\<close>

definition cpu_sample :: dt_node where
  "cpu_sample = Node (map of_char ''cpu'') [(0, map of_char ''arm'' @ [0])] []"

definition con_sample :: dt_node where
  "con_sample = Node (map of_char ''con'') [(0, map of_char ''pl0'' @ 0 # map of_char ''arm'' @ [0])] []"

definition bus_sample :: dt_node where
  "bus_sample = Node (map of_char ''bus'') [] [con_sample]"

definition query_tree :: dt_node where
  "query_tree = Node [] [] [cpu_sample, bus_sample]"

definition query_mem :: mem where
  "query_mem = blob_mem (encode query_tree (map of_char ''compatible'' @ [0]))"

lemmas query_samples = query_tree_def cpu_sample_def bus_sample_def con_sample_def

lemma query_tree_nodes:
  "tree_nodes 0 query_tree = [(0, query_tree), (8, cpu_sample), (36, bus_sample), (44, con_sample)]" "(44, [0, 36, 44]) \<in> set (tree_paths [] 0 query_tree)"
  by (simp_all add: query_samples subs_start_def token_size_def)

lemma query_tree_at:
  "tree_ok query_mem 0" "17 \<le> fdt_version query_mem 0" "tokens_at query_mem 0 0 (flatten query_tree @ [End])"
  "strings_ok query_mem 0 (\<lambda>_. map of_char ''compatible'') query_tree"
proof -
  have ok: "length (encode query_tree (map of_char ''compatible'' @ [0])) < 2 ^ 31 - 1" "\<forall>t \<in> set (flatten query_tree). token_ok t"
    "0 \<notin> set (map of_char ''compatible'' :: u8 list)"
    "\<forall>(off, y) \<in> set (tree_nodes 0 query_tree). \<forall>(nameoff, v) \<in> set (node_props y). nameoff = 0"
    by (simp_all add: length_encode struct_bytes_def length_token_bytes token_size_def token_ok_def query_samples subs_start_def)
  from blob_tree_at(1,2) [OF ok(1-3)] blob_nodes_at [OF ok] show
    "tree_ok query_mem 0" "17 \<le> fdt_version query_mem 0" "tokens_at query_mem 0 0 (flatten query_tree @ [End])"
    "strings_ok query_mem 0 (\<lambda>_. map of_char ''compatible'') query_tree"
    by (simp_all add: query_mem_def)
qed

text \<open>C16. In the encoding of a tree whose \<^verbatim>\<open>compatible\<close> properties are lists of terminated strings,
  \<^verbatim>\<open>fdt_node_offset_by_compatible\<close> returns the first node after the start, in the order of the tree, that has the string asked for
  among its compatible strings, from the beginning of the tree or from any of its nodes, and
  \<^verbatim>\<open>FDT_ERR_NOTFOUND\<close> if there is none; so repeating the call visits all such nodes.
\<close>

theorem fdt_by_compatible_finds:
  assumes "tree_ok m fdt" "17 \<le> fdt_version m fdt" "tokens_at m fdt 0 (flatten root @ [End])" "strings_ok m fdt names root"
    and "compatible_ok names root" "0 \<notin> set c" "c \<noteq> []"
  shows "fdt_node_offset_by_compatible m fdt (- 1) c =
       Some (node_result (List.find (\<lambda>(off, x). compatible_with names c x) (tree_nodes 0 root))) \<and>
     (\<forall>k < length (tree_nodes 0 root). fdt_node_offset_by_compatible m fdt (word_of_nat (fst (tree_nodes 0 root ! k))) c =
       Some (node_result (List.find (\<lambda>(off, x). compatible_with names c x) (drop (Suc k) (tree_nodes 0 root)))))"
  using by_compatible_tree [OF assms] by blast

theorem fdt_by_compatible_finds_witness:
  "fdt_node_offset_by_compatible query_mem 0 (- 1) (map of_char ''arm'') = Some 8 \<and>
   fdt_node_offset_by_compatible query_mem 0 8 (map of_char ''arm'') = Some 44 \<and>
   fdt_node_offset_by_compatible query_mem 0 44 (map of_char ''arm'') = Some (- FDT_ERR_NOTFOUND)"
proof -
  let ?names = "\<lambda>_ :: u32. map of_char ''compatible''" and ?arm = "map of_char ''arm'' :: u8 list"
  have "node_prop ?names query_tree (?names 0) = None" "node_prop ?names bus_sample (?names 0) = None"
    "node_prop ?names cpu_sample (?names 0) = Some (?arm @ [0])"
    "node_prop ?names con_sample (?names 0) = Some (map of_char ''pl0'' @ 0 # ?arm @ [0])"
    by (simp_all add: node_prop_def query_samples)
  then have "compatible_ok ?names query_tree" "\<not> compatible_with ?names ?arm query_tree" "\<not> compatible_with ?names ?arm bus_sample"
    "compatible_with ?names ?arm cpu_sample" "compatible_with ?names ?arm con_sample"
    by (simp_all add: compatible_ok_def query_tree_nodes terminated_def compatible_with_def)
  moreover have "0 \<notin> set ?arm" "?arm \<noteq> []" by simp_all
  note finds = fdt_by_compatible_finds [OF query_tree_at calculation(1) this]
  ultimately show ?thesis
    using finds [THEN conjunct1] finds [THEN conjunct2, rule_format, of 1] finds [THEN conjunct2, rule_format, of 3]
    by (simp add: query_tree_nodes node_result_def)
qed

text \<open>C28. In the encoding of a tree \<^verbatim>\<open>fdt_node_depth\<close>, \<^verbatim>\<open>fdt_parent_offset\<close> and
  \<^verbatim>\<open>fdt_supernode_atdepth_offset\<close> return what the tree says: the number of ancestors of the node, the node it is a subnode of
  (\<^verbatim>\<open>FDT_ERR_NOTFOUND\<close> for the root), and for each depth the ancestor at that depth or \<^verbatim>\<open>FDT_ERR_NOTFOUND\<close> beyond
  the node's own.
\<close>

theorem fdt_ancestors_found:
  assumes "tree_ok m fdt" "tokens_at m fdt 0 (flatten root)" "(off, path) \<in> set (tree_paths [] 0 root)"
  shows "fdt_node_depth m fdt (word_of_nat off) = Some (word_of_nat (length path - 1)) \<and>
     fdt_parent_offset m fdt (word_of_nat off) =
       Some (if length path = 1 then - FDT_ERR_NOTFOUND else word_of_nat (path ! (length path - 2))) \<and>
     (\<forall>d < 2 ^ 31. map_option fst (fdt_supernode_atdepth_offset m fdt (word_of_nat off) (word_of_nat d)) =
       Some (if d < length path then word_of_nat (path ! d) else - FDT_ERR_NOTFOUND))"
  using parent_tree [OF assms] tree_path_facts(1) [OF assms] by simp

theorem fdt_ancestors_found_witness:
  "fdt_node_depth query_mem 0 44 = Some 2 \<and> fdt_parent_offset query_mem 0 44 = Some 36"
proof -
  have "tokens_at query_mem 0 0 (flatten query_tree)" using query_tree_at(3) by simp
  from fdt_ancestors_found [OF query_tree_at(1) this query_tree_nodes(2)] show ?thesis by simp
qed

text \<open>The string list functions cannot be used: on any property that is a non-empty list of strings,
  \<^verbatim>\<open>fdt_stringlist_count\<close> and \<^verbatim>\<open>fdt_stringlist_search\<close> end in a call of \<^verbatim>\<open>strnlen\<close> that returns no value.
\<close>

theorem fdt_stringlists_undefined:
  assumes "tree_ok m fdt" "17 \<le> fdt_version m fdt" "tokens_at m fdt n (flatten x)"
    and "\<forall>(nameoff, v) \<in> set (node_props x). string_in m fdt nameoff (names nameoff)"
    and "node_prop names x s = Some v" "v \<noteq> []" "terminated v" "unat fdt + unat (fdt_totalsize m fdt) < 2 ^ 64"
  shows "fdt_stringlist_count m fdt (word_of_nat n) s = Inl (Undefined ''strnlen: no value returned'') \<and>
     fdt_stringlist_search m fdt (word_of_nat n) s str = Inl (Undefined ''strnlen: no value returned'')"
proof -
  obtain p where p: "fdt_getprop m fdt (word_of_nat n) s = Some (Inr (p, word_of_nat (length v)))" "stored m p v" "length v < 2 ^ 31"
    "unat p + length v \<le> unat fdt + unat (fdt_totalsize m fdt)"
    using getprop_node(2) [OF assms(1-5)] assms(6) by blast
  have "(scast (word_of_nat (length v) :: i32) :: addr) = word_of_nat (length v)" using p(3) by (rule scast_of_nat_32)
  with p(1) stringlist_loops_undefined [OF assms(7,6) p(2)] p(4) assms(8) show ?thesis
    by (simp add: fdt_stringlist_count_def fdt_stringlist_search_def)
qed

end
