(* ===== verification/Fdt_Write.thy ===== *)
theory Fdt_Write
  imports Fdt_Update
begin

section \<open>Changing a device tree\<close>

text \<open>
  \<^verbatim>\<open>libkern/libfdt/fdt_wip.c\<close>, \<^verbatim>\<open>fdt_rw.c\<close>, \<^verbatim>\<open>fdt_addresses.c\<close> and \<^verbatim>\<open>fdt_strerror.c\<close>. A tree is changed where it lies, in
  the memory that is also the caller's: names and values are pointers, and a name is read up to its zero byte. A function
  returns its code and the memory, or nothing when a traversal or a string does not end. Lengths and offsets are \<^verbatim>\<open>int\<close> and are
  sign-extended where they are added to a pointer.
\<close>

subsection \<open>Numbers in memory\<close>

definition fdt32_st :: "addr \<Rightarrow> u32 \<Rightarrow> mem \<Rightarrow> mem" where
  "fdt32_st a w m = m(a := ucast (drop_bit 24 w), a + 1 := ucast (drop_bit 16 w), a + 2 := ucast (drop_bit 8 w), a + 3 := ucast w)"

definition fdt64_st :: "addr \<Rightarrow> u64 \<Rightarrow> mem \<Rightarrow> mem" where
  "fdt64_st a w m = fdt32_st (a + 4) (ucast w) (fdt32_st a (ucast (drop_bit 32 w)) m)"

text \<open>\<^verbatim>\<open>fdt_set_hdr_\<close>: the setters of the header's fields.\<close>

definition fdt_set_magic :: "addr \<Rightarrow> u32 \<Rightarrow> mem \<Rightarrow> mem" where "fdt_set_magic fdt = fdt32_st fdt"
definition fdt_set_totalsize :: "addr \<Rightarrow> u32 \<Rightarrow> mem \<Rightarrow> mem" where "fdt_set_totalsize fdt = fdt32_st (fdt + 4)"
definition fdt_set_off_dt_struct :: "addr \<Rightarrow> u32 \<Rightarrow> mem \<Rightarrow> mem" where "fdt_set_off_dt_struct fdt = fdt32_st (fdt + 8)"
definition fdt_set_off_dt_strings :: "addr \<Rightarrow> u32 \<Rightarrow> mem \<Rightarrow> mem" where "fdt_set_off_dt_strings fdt = fdt32_st (fdt + 12)"
definition fdt_set_off_mem_rsvmap :: "addr \<Rightarrow> u32 \<Rightarrow> mem \<Rightarrow> mem" where "fdt_set_off_mem_rsvmap fdt = fdt32_st (fdt + 16)"
definition fdt_set_version :: "addr \<Rightarrow> u32 \<Rightarrow> mem \<Rightarrow> mem" where "fdt_set_version fdt = fdt32_st (fdt + 20)"
definition fdt_set_last_comp_version :: "addr \<Rightarrow> u32 \<Rightarrow> mem \<Rightarrow> mem" where "fdt_set_last_comp_version fdt = fdt32_st (fdt + 24)"
definition fdt_set_boot_cpuid_phys :: "addr \<Rightarrow> u32 \<Rightarrow> mem \<Rightarrow> mem" where "fdt_set_boot_cpuid_phys fdt = fdt32_st (fdt + 28)"
definition fdt_set_size_dt_strings :: "addr \<Rightarrow> u32 \<Rightarrow> mem \<Rightarrow> mem" where "fdt_set_size_dt_strings fdt = fdt32_st (fdt + 32)"
definition fdt_set_size_dt_struct :: "addr \<Rightarrow> u32 \<Rightarrow> mem \<Rightarrow> mem" where "fdt_set_size_dt_struct fdt = fdt32_st (fdt + 36)"

definition fdt_boot_cpuid_phys :: "mem \<Rightarrow> addr \<Rightarrow> u32" where "fdt_boot_cpuid_phys m fdt = fdt32 m (fdt + 28)"

abbreviation FDT_ERR_EXISTS :: i32 where "FDT_ERR_EXISTS \<equiv> 2"
abbreviation FDT_ERR_BADNCELLS :: i32 where "FDT_ERR_BADNCELLS \<equiv> 14"

text \<open>A name the caller passes, and the sequence of two steps of which the second runs when the first returned 0.\<close>

definition name_at :: "mem \<Rightarrow> addr \<Rightarrow> u8 list option" where
  "name_at m p = (case strlen p m of None \<Rightarrow> None | Some n \<Rightarrow> Some (bytes_at m p (unat n)))"

definition if_ok :: "i32 \<times> mem \<Rightarrow> (mem \<Rightarrow> (i32 \<times> mem) option) \<Rightarrow> (i32 \<times> mem) option" where
  "if_ok r f = (case r of (err, m) \<Rightarrow> if err \<noteq> 0 then Some (err, m) else f m)"

subsection \<open>Writing in place (fdt_wip.c)\<close>

definition fdt_setprop_inplace_namelen_partial ::
  "addr \<Rightarrow> i32 \<Rightarrow> addr \<Rightarrow> i32 \<Rightarrow> u32 \<Rightarrow> addr \<Rightarrow> i32 \<Rightarrow> mem \<Rightarrow> (i32 \<times> mem) option" where
  "fdt_setprop_inplace_namelen_partial fdt nodeoffset name namelen idx val len m =
     (case fdt_getprop m fdt nodeoffset (bytes_at m name (unat namelen)) of
        None \<Rightarrow> None
      | Some (Inl err) \<Rightarrow> Some (err, m)
      | Some (Inr (propval, proplen)) \<Rightarrow>
          if proplen < len + idx then Some (- FDT_ERR_NOSPACE, m)
          else Some (0, memcpy (propval + ucast idx) val (scast len) m))"

definition fdt_setprop_inplace :: "addr \<Rightarrow> i32 \<Rightarrow> addr \<Rightarrow> addr \<Rightarrow> i32 \<Rightarrow> mem \<Rightarrow> (i32 \<times> mem) option" where
  "fdt_setprop_inplace fdt nodeoffset name val len m =
     (case strlen name m of
        None \<Rightarrow> None
      | Some n \<Rightarrow> (case fdt_getprop m fdt nodeoffset (bytes_at m name (unat n)) of
            None \<Rightarrow> None
          | Some (Inl err) \<Rightarrow> Some (err, m)
          | Some (Inr (propval, proplen)) \<Rightarrow>
              if proplen \<noteq> len then Some (- FDT_ERR_NOSPACE, m)
              else fdt_setprop_inplace_namelen_partial fdt nodeoffset name (ucast n) 0 val len m))"

partial_function (option) fdt_nop_region :: "addr \<Rightarrow> addr \<Rightarrow> mem \<Rightarrow> mem option" where
  "fdt_nop_region p stop m = (if p < stop then fdt_nop_region (p + 4) stop (fdt32_st p FDT_NOP m) else Some m)"

text \<open>\<^verbatim>\<open>fdt_get_property_w\<close>: the address and the length of a property of the node.\<close>

definition fdt_get_property_w :: "mem \<Rightarrow> addr \<Rightarrow> i32 \<Rightarrow> addr \<Rightarrow> (i32 + addr \<times> i32) option" where
  "fdt_get_property_w m fdt nodeoffset name =
     (case name_at m name of
        None \<Rightarrow> None
      | Some s \<Rightarrow> (case fdt_get_property_namelen m fdt nodeoffset s of
            None \<Rightarrow> None
          | Some (Inl err) \<Rightarrow> Some (Inl err)
          | Some (Inr (prop, len, _)) \<Rightarrow> Some (Inr (prop, len))))"

definition fdt_nop_property :: "addr \<Rightarrow> i32 \<Rightarrow> addr \<Rightarrow> mem \<Rightarrow> (i32 \<times> mem) option" where
  "fdt_nop_property fdt nodeoffset name m =
     (case fdt_get_property_w m fdt nodeoffset name of
        None \<Rightarrow> None
      | Some (Inl err) \<Rightarrow> Some (err, m)
      | Some (Inr (prop, len)) \<Rightarrow>
          (case fdt_nop_region prop (prop + scast (len + 12)) m of
             None \<Rightarrow> None | Some m' \<Rightarrow> Some (0, m')))"

partial_function (option) node_end_loop :: "mem \<Rightarrow> addr \<Rightarrow> i32 \<Rightarrow> i32 \<Rightarrow> i32 option" where
  "node_end_loop m fdt offset depth =
     (if 0 \<le> sint offset \<and> 0 \<le> sint depth
      then (case fdt_next_node m fdt offset (Some depth) of
              None \<Rightarrow> None
            | Some (offset, depth) \<Rightarrow> node_end_loop m fdt offset (the depth))
      else Some offset)"

definition fdt_node_end_offset :: "mem \<Rightarrow> addr \<Rightarrow> i32 \<Rightarrow> i32 option" where
  "fdt_node_end_offset m fdt offset = node_end_loop m fdt offset 0"

definition fdt_nop_node :: "addr \<Rightarrow> i32 \<Rightarrow> mem \<Rightarrow> (i32 \<times> mem) option" where
  "fdt_nop_node fdt nodeoffset m =
     (case fdt_node_end_offset m fdt nodeoffset of
        None \<Rightarrow> None
      | Some endoffset \<Rightarrow>
          if sint endoffset < 0 then Some (endoffset, m)
          else let start = (case fdt_offset_ptr m fdt nodeoffset 0 of None \<Rightarrow> 0 | Some p \<Rightarrow> p)
               in (case fdt_nop_region start (start + scast (endoffset - nodeoffset)) m of
                     None \<Rightarrow> None | Some m' \<Rightarrow> Some (0, m')))"

subsection \<open>Making room (fdt_rw.c)\<close>

definition fdt_blocks_misordered :: "mem \<Rightarrow> addr \<Rightarrow> i32 \<Rightarrow> i32 \<Rightarrow> bool" where
  "fdt_blocks_misordered m fdt mem_rsv_size struct_size \<longleftrightarrow>
     fdt_off_mem_rsvmap m fdt < 40 \<or>
     fdt_off_dt_struct m fdt < fdt_off_mem_rsvmap m fdt + mem_rsv_size \<or>
     fdt_off_dt_strings m fdt < fdt_off_dt_struct m fdt + struct_size \<or>
     fdt_totalsize m fdt < fdt_off_dt_strings m fdt + fdt_size_dt_strings m fdt"

definition fdt_rw_probe :: "addr \<Rightarrow> mem \<Rightarrow> i32 \<times> mem" where
  "fdt_rw_probe fdt m =
     (if sint (fdt_ro_probe m fdt) < 0 then (fdt_ro_probe m fdt, m)
      else if fdt_version m fdt < 17 then (- FDT_ERR_BADVERSION, m)
      else if fdt_blocks_misordered m fdt 16 (fdt_size_dt_struct m fdt) then (- FDT_ERR_BADLAYOUT, m)
      else (0, if 17 < fdt_version m fdt then fdt_set_version fdt 17 m else m))"

definition fdt_data_size :: "mem \<Rightarrow> addr \<Rightarrow> i32" where
  "fdt_data_size m fdt = fdt_off_dt_strings m fdt + fdt_size_dt_strings m fdt"

definition fdt_splice :: "addr \<Rightarrow> addr \<Rightarrow> i32 \<Rightarrow> i32 \<Rightarrow> mem \<Rightarrow> i32 \<times> mem" where
  "fdt_splice fdt p oldlen newlen m =
     (let stop = fdt + scast (fdt_data_size m fdt)
      in if p + scast oldlen < p \<or> stop < p + scast oldlen then (- FDT_ERR_BADOFFSET, m)
         else if p < fdt \<or> stop - scast oldlen + scast newlen < fdt then (- FDT_ERR_BADOFFSET, m)
         else if fdt + ucast (fdt_totalsize m fdt) < stop - scast oldlen + scast newlen then (- FDT_ERR_NOSPACE, m)
         else (0, memmove (p + scast newlen) (p + scast oldlen) (stop - p - scast oldlen) m))"

definition fdt_splice_mem_rsv :: "addr \<Rightarrow> addr \<Rightarrow> i32 \<Rightarrow> i32 \<Rightarrow> mem \<Rightarrow> i32 \<times> mem" where
  "fdt_splice_mem_rsv fdt p oldn newn m =
     (let delta = (newn - oldn) * 16
      in case fdt_splice fdt p (oldn * 16) (newn * 16) m of (err, m) \<Rightarrow>
           if err \<noteq> 0 then (err, m)
           else let m1 = fdt_set_off_dt_struct fdt (fdt_off_dt_struct m fdt + delta) m
                in (0, fdt_set_off_dt_strings fdt (fdt_off_dt_strings m1 fdt + delta) m1))"

definition fdt_splice_struct :: "addr \<Rightarrow> addr \<Rightarrow> i32 \<Rightarrow> i32 \<Rightarrow> mem \<Rightarrow> i32 \<times> mem" where
  "fdt_splice_struct fdt p oldlen newlen m =
     (let delta = newlen - oldlen
      in case fdt_splice fdt p oldlen newlen m of (err, m) \<Rightarrow>
           if err \<noteq> 0 then (err, m)
           else let m1 = fdt_set_size_dt_struct fdt (fdt_size_dt_struct m fdt + delta) m
                in (0, fdt_set_off_dt_strings fdt (fdt_off_dt_strings m1 fdt + delta) m1))"

definition fdt_del_last_string :: "addr \<Rightarrow> addr \<Rightarrow> mem \<Rightarrow> mem option" where
  "fdt_del_last_string fdt s m =
     (case strlen s m of
        None \<Rightarrow> None
      | Some n \<Rightarrow> Some (fdt_set_size_dt_strings fdt (fdt_size_dt_strings m fdt - ucast (n + 1)) m))"

definition fdt_splice_string :: "addr \<Rightarrow> i32 \<Rightarrow> mem \<Rightarrow> i32 \<times> mem" where
  "fdt_splice_string fdt newlen m =
     (let p = fdt + ucast (fdt_off_dt_strings m fdt) + ucast (fdt_size_dt_strings m fdt)
      in case fdt_splice fdt p 0 newlen m of (err, m) \<Rightarrow>
           if err \<noteq> 0 then (err, m)
           else (0, fdt_set_size_dt_strings fdt (fdt_size_dt_strings m fdt + newlen) m))"

text \<open>The offset of the string, found or added, or an error; and whether it was added.\<close>

definition fdt_find_add_string :: "addr \<Rightarrow> addr \<Rightarrow> mem \<Rightarrow> (i32 \<times> bool \<times> mem) option" where
  "fdt_find_add_string fdt s m =
     (let strtab = fdt + ucast (fdt_off_dt_strings m fdt)
      in case strlen s m of
           None \<Rightarrow> None
         | Some n \<Rightarrow>
             let len = ucast (n + 1) :: i32
             in (case fdt_find_string m strtab (fdt_size_dt_strings m fdt) s of
                   None \<Rightarrow> None
                 | Some (Some p) \<Rightarrow> Some (ucast (p - strtab), False, m)
                 | Some None \<Rightarrow>
                     let new = strtab + ucast (fdt_size_dt_strings m fdt)
                     in (case fdt_splice_string fdt len m of (err, m1) \<Rightarrow>
                           if err \<noteq> 0 then Some (err, False, m1)
                           else Some (ucast (new - strtab), True, memcpy new s (scast len) m1))))"

subsection \<open>Memory reservations\<close>

definition fdt_mem_rsv_w :: "mem \<Rightarrow> addr \<Rightarrow> i32 \<Rightarrow> addr" where
  "fdt_mem_rsv_w m fdt n = fdt + ucast (fdt_off_mem_rsvmap m fdt) + 16 * scast n"

definition fdt_add_mem_rsv :: "addr \<Rightarrow> u64 \<Rightarrow> u64 \<Rightarrow> mem \<Rightarrow> (i32 \<times> mem) option" where
  "fdt_add_mem_rsv fdt address sz m =
     if_ok (fdt_rw_probe fdt m) (\<lambda>m.
       case fdt_num_mem_rsv m fdt of
         None \<Rightarrow> None
       | Some n \<Rightarrow>
           let re = fdt_mem_rsv_w m fdt n
           in if_ok (fdt_splice_mem_rsv fdt re 0 1 m) (\<lambda>m.
                Some (0, fdt64_st (re + 8) sz (fdt64_st re address m))))"

definition fdt_del_mem_rsv :: "addr \<Rightarrow> i32 \<Rightarrow> mem \<Rightarrow> (i32 \<times> mem) option" where
  "fdt_del_mem_rsv fdt n m =
     (let re = fdt_mem_rsv_w m fdt n
      in if_ok (fdt_rw_probe fdt m) (\<lambda>m.
           case fdt_num_mem_rsv m fdt of
             None \<Rightarrow> None
           | Some k \<Rightarrow> if sint k \<le> sint n then Some (- FDT_ERR_NOTFOUND, m)
                       else Some (fdt_splice_mem_rsv fdt re 1 0 m)))"

subsection \<open>Properties and nodes\<close>

text \<open>
  A property that is resized or added: its address, when the code is 0. The address of the data is 12 bytes further.
\<close>

definition fdt_resize_property :: "addr \<Rightarrow> i32 \<Rightarrow> addr \<Rightarrow> i32 \<Rightarrow> mem \<Rightarrow> (i32 \<times> addr \<times> mem) option" where
  "fdt_resize_property fdt nodeoffset name len m =
     (case fdt_get_property_w m fdt nodeoffset name of
        None \<Rightarrow> None
      | Some (Inl err) \<Rightarrow> Some (err, 0, m)
      | Some (Inr (prop, oldlen)) \<Rightarrow>
          (case fdt_splice_struct fdt (prop + 12) (FDT_TAGALIGN oldlen) (FDT_TAGALIGN len) m of (err, m) \<Rightarrow>
             if err \<noteq> 0 then Some (err, prop, m) else Some (0, prop, fdt32_st (prop + 4) len m)))"

definition fdt_add_property :: "addr \<Rightarrow> i32 \<Rightarrow> addr \<Rightarrow> i32 \<Rightarrow> mem \<Rightarrow> (i32 \<times> addr \<times> mem) option" where
  "fdt_add_property fdt nodeoffset name len m =
     (let nextoffset = fdt_check_node_offset m fdt nodeoffset
      in if sint nextoffset < 0 then Some (nextoffset, 0, m)
         else case fdt_find_add_string fdt name m of
           None \<Rightarrow> None
         | Some (namestroff, allocated, m) \<Rightarrow>
             if sint namestroff < 0 then Some (namestroff, 0, m)
             else let prop = fdt_struct_ptr m fdt nextoffset;
                      proplen = 12 + FDT_TAGALIGN len
                  in (case fdt_splice_struct fdt prop 0 proplen m of (err, m) \<Rightarrow>
                        if err \<noteq> 0
                        then (if allocated
                              then (case fdt_del_last_string fdt name m of
                                      None \<Rightarrow> None | Some m \<Rightarrow> Some (err, prop, m))
                              else Some (err, prop, m))
                        else Some (0, prop, fdt32_st (prop + 4) len
                               (fdt32_st (prop + 8) namestroff (fdt32_st prop FDT_PROP m)))))"

definition fdt_set_name :: "addr \<Rightarrow> i32 \<Rightarrow> addr \<Rightarrow> mem \<Rightarrow> (i32 \<times> mem) option" where
  "fdt_set_name fdt nodeoffset name m =
     if_ok (fdt_rw_probe fdt m) (\<lambda>m.
       case fdt_get_name m fdt nodeoffset of
         None \<Rightarrow> None
       | Some (None, oldlen) \<Rightarrow> Some (oldlen, m)
       | Some (Some namep, oldlen) \<Rightarrow>
           (case strlen name m of
              None \<Rightarrow> None
            | Some n \<Rightarrow>
                let newlen = ucast n :: i32
                in if_ok (fdt_splice_struct fdt namep (FDT_TAGALIGN (oldlen + 1)) (FDT_TAGALIGN (newlen + 1)) m) (\<lambda>m.
                     Some (0, memcpy namep name (scast (newlen + 1)) m))))"

definition fdt_setprop_placeholder :: "addr \<Rightarrow> i32 \<Rightarrow> addr \<Rightarrow> i32 \<Rightarrow> mem \<Rightarrow> (i32 \<times> addr \<times> mem) option" where
  "fdt_setprop_placeholder fdt nodeoffset name len m =
     (case fdt_rw_probe fdt m of (err, m) \<Rightarrow>
        if err \<noteq> 0 then Some (err, 0, m)
        else case (case fdt_resize_property fdt nodeoffset name len m of
                     None \<Rightarrow> None
                   | Some (err, prop, m) \<Rightarrow>
                       if err = - FDT_ERR_NOTFOUND then fdt_add_property fdt nodeoffset name len m
                       else Some (err, prop, m)) of
          None \<Rightarrow> None
        | Some (err, prop, m) \<Rightarrow> if err \<noteq> 0 then Some (err, 0, m) else Some (0, prop + 12, m))"

definition fdt_setprop :: "addr \<Rightarrow> i32 \<Rightarrow> addr \<Rightarrow> addr \<Rightarrow> i32 \<Rightarrow> mem \<Rightarrow> (i32 \<times> mem) option" where
  "fdt_setprop fdt nodeoffset name val len m =
     (case fdt_setprop_placeholder fdt nodeoffset name len m of
        None \<Rightarrow> None
      | Some (err, prop_data, m) \<Rightarrow>
          if err \<noteq> 0 then Some (err, m)
          else Some (0, if len \<noteq> 0 then memcpy prop_data val (scast len) m else m))"

definition fdt_appendprop :: "addr \<Rightarrow> i32 \<Rightarrow> addr \<Rightarrow> addr \<Rightarrow> i32 \<Rightarrow> mem \<Rightarrow> (i32 \<times> mem) option" where
  "fdt_appendprop fdt nodeoffset name val len m =
     if_ok (fdt_rw_probe fdt m) (\<lambda>m.
       case fdt_get_property_w m fdt nodeoffset name of
         None \<Rightarrow> None
       | Some (Inr (prop, oldlen)) \<Rightarrow>
           let newlen = len + oldlen
           in if_ok (fdt_splice_struct fdt (prop + 12) (FDT_TAGALIGN oldlen) (FDT_TAGALIGN newlen) m) (\<lambda>m.
                Some (0, memcpy (prop + 12 + scast oldlen) val (scast len) (fdt32_st (prop + 4) newlen m)))
       | Some (Inl _) \<Rightarrow>
           (case fdt_add_property fdt nodeoffset name len m of
              None \<Rightarrow> None
            | Some (err, prop, m) \<Rightarrow>
                if err \<noteq> 0 then Some (err, m) else Some (0, memcpy (prop + 12) val (scast len) m)))"

definition fdt_delprop :: "addr \<Rightarrow> i32 \<Rightarrow> addr \<Rightarrow> mem \<Rightarrow> (i32 \<times> mem) option" where
  "fdt_delprop fdt nodeoffset name m =
     if_ok (fdt_rw_probe fdt m) (\<lambda>m.
       case fdt_get_property_w m fdt nodeoffset name of
         None \<Rightarrow> None
       | Some (Inl err) \<Rightarrow> Some (err, m)
       | Some (Inr (prop, len)) \<Rightarrow> Some (fdt_splice_struct fdt prop (12 + FDT_TAGALIGN len) 0 m))"

text \<open>The place after the parent's properties.\<close>

partial_function (option) subnode_place :: "mem \<Rightarrow> addr \<Rightarrow> i32 \<Rightarrow> i32 option" where
  "subnode_place m fdt offset =
     (case fdt_next_tag m fdt offset of (tag, nextoffset) \<Rightarrow>
        if tag = FDT_PROP \<or> tag = FDT_NOP then subnode_place m fdt nextoffset else Some offset)"

definition fdt_add_subnode_namelen :: "addr \<Rightarrow> i32 \<Rightarrow> addr \<Rightarrow> i32 \<Rightarrow> mem \<Rightarrow> (i32 \<times> mem) option" where
  "fdt_add_subnode_namelen fdt parentoffset name namelen m =
     if_ok (fdt_rw_probe fdt m) (\<lambda>m.
       case fdt_subnode_offset_namelen m fdt parentoffset (bytes_at m name (unat namelen)) of
         None \<Rightarrow> None
       | Some offset \<Rightarrow>
           if 0 \<le> sint offset then Some (- FDT_ERR_EXISTS, m)
           else if offset \<noteq> - FDT_ERR_NOTFOUND then Some (offset, m)
           else case subnode_place m fdt (snd (fdt_next_tag m fdt parentoffset)) of
             None \<Rightarrow> None
           | Some offset \<Rightarrow>
               let nh = fdt_struct_ptr m fdt offset;
                   nodelen = 4 + FDT_TAGALIGN (namelen + 1) + 4
               in if_ok (fdt_splice_struct fdt nh 0 nodelen m) (\<lambda>m.
                    let m1 = fdt32_st nh FDT_BEGIN_NODE m;
                        m2 = memset (nh + 4) 0 (scast (FDT_TAGALIGN (namelen + 1))) m1;
                        m3 = memcpy (nh + 4) name (scast namelen) m2
                    in Some (offset, fdt32_st (nh + scast nodelen - 4) FDT_END_NODE m3)))"

definition fdt_add_subnode :: "addr \<Rightarrow> i32 \<Rightarrow> addr \<Rightarrow> mem \<Rightarrow> (i32 \<times> mem) option" where
  "fdt_add_subnode fdt parentoffset name m =
     (case strlen name m of
        None \<Rightarrow> None | Some n \<Rightarrow> fdt_add_subnode_namelen fdt parentoffset name (ucast n) m)"

definition fdt_del_node :: "addr \<Rightarrow> i32 \<Rightarrow> mem \<Rightarrow> (i32 \<times> mem) option" where
  "fdt_del_node fdt nodeoffset m =
     if_ok (fdt_rw_probe fdt m) (\<lambda>m.
       case fdt_node_end_offset m fdt nodeoffset of
         None \<Rightarrow> None
       | Some endoffset \<Rightarrow>
           if sint endoffset < 0 then Some (endoffset, m)
           else Some (fdt_splice_struct fdt (fdt_struct_ptr m fdt nodeoffset) (endoffset - nodeoffset) 0 m))"

subsection \<open>Opening and packing\<close>

definition fdt_packblocks :: "addr \<Rightarrow> addr \<Rightarrow> i32 \<Rightarrow> i32 \<Rightarrow> mem \<Rightarrow> mem" where
  "fdt_packblocks old new mem_rsv_size struct_size m =
     (let mem_rsv_off = 40;
          struct_off = mem_rsv_off + mem_rsv_size;
          strings_off = struct_off + struct_size;
          m = memmove (new + scast mem_rsv_off) (old + ucast (fdt_off_mem_rsvmap m old)) (scast mem_rsv_size) m;
          m = fdt_set_off_mem_rsvmap new mem_rsv_off m;
          m = memmove (new + scast struct_off) (old + ucast (fdt_off_dt_struct m old)) (scast struct_size) m;
          m = fdt_set_off_dt_struct new struct_off m;
          m = fdt_set_size_dt_struct new struct_size m;
          m = memmove (new + scast strings_off) (old + ucast (fdt_off_dt_strings m old)) (ucast (fdt_size_dt_strings m old)) m;
          m = fdt_set_off_dt_strings new strings_off m
      in fdt_set_size_dt_strings new (fdt_size_dt_strings m old) m)"

text \<open>The size of the structure block of an old tree: the offset after its end, or an error.\<close>

partial_function (option) struct_size_loop :: "mem \<Rightarrow> addr \<Rightarrow> i32 \<Rightarrow> i32 option" where
  "struct_size_loop m fdt struct_size =
     (case fdt_next_tag m fdt struct_size of (tag, struct_size) \<Rightarrow>
        if tag \<noteq> FDT_END then struct_size_loop m fdt struct_size else Some struct_size)"

definition fdt_reorder :: "addr \<Rightarrow> addr \<Rightarrow> i32 \<Rightarrow> i32 \<Rightarrow> i32 \<Rightarrow> mem \<Rightarrow> i32 \<times> mem" where
  "fdt_reorder fdt buf bufsize mem_rsv_size struct_size m =
     (let newsize = 40 + mem_rsv_size + struct_size + fdt_size_dt_strings m fdt;
          fdtend = fdt + ucast (fdt_totalsize m fdt);
          overlap = (fdt < buf + scast newsize \<and> buf < fdtend);
          tmp = (if overlap then fdtend else buf)
      in if sint bufsize < sint newsize then (- FDT_ERR_NOSPACE, m)
         else if overlap \<and> buf + scast bufsize < tmp + scast newsize then (- FDT_ERR_NOSPACE, m)
         else let m = fdt_packblocks fdt tmp mem_rsv_size struct_size m;
                  m = memmove buf tmp (scast newsize) m;
                  m = fdt_set_magic buf FDT_MAGIC m;
                  m = fdt_set_totalsize buf bufsize m;
                  m = fdt_set_version buf 17 m;
                  m = fdt_set_last_comp_version buf 16 m
              in (0, fdt_set_boot_cpuid_phys buf (fdt_boot_cpuid_phys m fdt) m))"

definition fdt_open_into :: "addr \<Rightarrow> addr \<Rightarrow> i32 \<Rightarrow> mem \<Rightarrow> (i32 \<times> mem) option" where
  "fdt_open_into fdt buf bufsize m =
     (if sint (fdt_ro_probe m fdt) < 0 then Some (fdt_ro_probe m fdt, m)
      else case fdt_num_mem_rsv m fdt of
        None \<Rightarrow> None
      | Some n \<Rightarrow>
          let mem_rsv_size = (n + 1) * 16
          in (case (if 17 \<le> fdt_version m fdt then Some (fdt_size_dt_struct m fdt) else struct_size_loop m fdt 0) of
                None \<Rightarrow> None
              | Some struct_size \<Rightarrow>
                  if fdt_version m fdt < 17 \<and> sint struct_size < 0 then Some (struct_size, m)
                  else if \<not> fdt_blocks_misordered m fdt mem_rsv_size struct_size
                  then if_ok (fdt_move fdt buf bufsize m) (\<lambda>m.
                         Some (0, fdt_set_totalsize buf bufsize (fdt_set_size_dt_struct buf struct_size (fdt_set_version buf 17 m))))
                  else Some (fdt_reorder fdt buf bufsize mem_rsv_size struct_size m)))"

definition fdt_pack :: "addr \<Rightarrow> mem \<Rightarrow> (i32 \<times> mem) option" where
  "fdt_pack fdt m =
     if_ok (fdt_rw_probe fdt m) (\<lambda>m.
       case fdt_num_mem_rsv m fdt of
         None \<Rightarrow> None
       | Some n \<Rightarrow>
           let m = fdt_packblocks fdt fdt ((n + 1) * 16) (fdt_size_dt_struct m fdt) m
           in Some (0, fdt_set_totalsize fdt (fdt_data_size m fdt) m))"

subsection \<open>Address ranges (fdt_addresses.c)\<close>

definition fdt_cells :: "mem \<Rightarrow> addr \<Rightarrow> i32 \<Rightarrow> string \<Rightarrow> i32 option" where
  "fdt_cells m fdt nodeoffset name =
     (case fdt_getprop m fdt nodeoffset (map of_char name) of
        None \<Rightarrow> None
      | Some (Inl err) \<Rightarrow> Some err
      | Some (Inr (c, len)) \<Rightarrow>
          Some (if len \<noteq> 4 then - FDT_ERR_BADNCELLS
                else if 4 < fdt32 m c then - FDT_ERR_BADNCELLS else fdt32 m c))"

definition fdt_address_cells :: "mem \<Rightarrow> addr \<Rightarrow> i32 \<Rightarrow> i32 option" where
  "fdt_address_cells m fdt nodeoffset =
     map_option (\<lambda>val. if val = 0 then - FDT_ERR_BADNCELLS else if val = - FDT_ERR_NOTFOUND then 2 else val)
       (fdt_cells m fdt nodeoffset ''#address-cells'')"

definition fdt_size_cells :: "mem \<Rightarrow> addr \<Rightarrow> i32 \<Rightarrow> i32 option" where
  "fdt_size_cells m fdt nodeoffset =
     map_option (\<lambda>val. if val = - FDT_ERR_NOTFOUND then 1 else val) (fdt_cells m fdt nodeoffset ''#size-cells'')"

text \<open>
  \<open>data\<close> is the address of the local buffer. \<^verbatim>\<open>UINT32_MAX + 1\<close> is a sum of \<^verbatim>\<open>unsigned int\<close>, that is 0.
\<close>

definition fdt_appendprop_addrrange ::
  "addr \<Rightarrow> addr \<Rightarrow> i32 \<Rightarrow> i32 \<Rightarrow> addr \<Rightarrow> u64 \<Rightarrow> u64 \<Rightarrow> mem \<Rightarrow> (i32 \<times> mem) option" where
  "fdt_appendprop_addrrange data fdt parent nodeoffset name address sz m =
     (case fdt_address_cells m fdt parent of
        None \<Rightarrow> None
      | Some addr_cells \<Rightarrow>
          if sint addr_cells < 0 then Some (addr_cells, m)
          else case fdt_size_cells m fdt parent of
            None \<Rightarrow> None
          | Some size_cells \<Rightarrow>
              if sint size_cells < 0 then Some (size_cells, m)
              else if addr_cells = 1 \<and> (0xffffffff < address \<or> ucast (0xffffffff + 1 :: u32) - address < sz)
              then Some (- FDT_ERR_BADVALUE, m)
              else if addr_cells \<noteq> 1 \<and> addr_cells \<noteq> 2 then Some (- FDT_ERR_BADNCELLS, m)
              else let m1 = (if addr_cells = 1 then fdt32_st data (ucast address) m else fdt64_st data address m);
                       prop = data + scast addr_cells * 4
                   in if size_cells = 1 \<and> 0xffffffff < sz then Some (- FDT_ERR_BADVALUE, m1)
                      else if size_cells \<noteq> 1 \<and> size_cells \<noteq> 2 then Some (- FDT_ERR_BADNCELLS, m1)
                      else let m2 = (if size_cells = 1 then fdt32_st prop (ucast sz) m1 else fdt64_st prop sz m1)
                           in fdt_appendprop fdt nodeoffset name data ((addr_cells + size_cells) * 4) m2)"

subsection \<open>Names of errors (fdt_strerror.c)\<close>

text \<open>The table, by error code; the code 0 has no entry.\<close>

definition fdt_errtable :: "string list" where
  "fdt_errtable = ['''', ''FDT_ERR_NOTFOUND'', ''FDT_ERR_EXISTS'', ''FDT_ERR_NOSPACE'', ''FDT_ERR_BADOFFSET'', ''FDT_ERR_BADPATH'',
     ''FDT_ERR_BADPHANDLE'', ''FDT_ERR_BADSTATE'', ''FDT_ERR_TRUNCATED'', ''FDT_ERR_BADMAGIC'', ''FDT_ERR_BADVERSION'',
     ''FDT_ERR_BADSTRUCTURE'', ''FDT_ERR_BADLAYOUT'', ''FDT_ERR_INTERNAL'', ''FDT_ERR_BADNCELLS'', ''FDT_ERR_BADVALUE'',
     ''FDT_ERR_BADOVERLAY'', ''FDT_ERR_NOPHANDLES'', ''FDT_ERR_BADFLAGS'']"

definition fdt_strerror :: "i32 \<Rightarrow> string outcome" where
  "fdt_strerror errval =
     (if 0 < sint errval then Inr ''<valid offset/length>''
      else if errval = 0 then Inr ''<no error>''
      else if sint (- errval) < int (length fdt_errtable)
      then (if sint (- errval) < 0 then Inl (Undefined ''fdt_strerror: index out of range'')
            else Inr (fdt_errtable ! unat (- errval)))
      else Inr ''<unknown error>'')"

end
