(* ===== verification/Fdt_Sw.thy ===== *)
theory Fdt_Sw
  imports Fdt_Write
begin

section \<open>Building a device tree\<close>

text \<open>
  \<^verbatim>\<open>libkern/libfdt/fdt_sw.c\<close> and \<^verbatim>\<open>fdt_empty_tree.c\<close>: a tree is written from its start, the strings from the end of the buffer
  backwards with offsets counted from there; \<^verbatim>\<open>fdt_finish\<close> moves them behind the structure and corrects the offsets. While it is
  built the header carries another magic number and the flags in the place of the oldest compatible version.
\<close>

abbreviation FDT_ERR_BADFLAGS :: i32 where "FDT_ERR_BADFLAGS \<equiv> 18"
abbreviation FDT_CREATE_FLAG_NO_NAME_DEDUP :: u32 where "FDT_CREATE_FLAG_NO_NAME_DEDUP \<equiv> 1"
abbreviation FDT_CREATE_FLAGS_ALL :: u32 where "FDT_CREATE_FLAGS_ALL \<equiv> FDT_CREATE_FLAG_NO_NAME_DEDUP"

subsection \<open>States\<close>

definition fdt_sw_probe :: "mem \<Rightarrow> addr \<Rightarrow> i32" where
  "fdt_sw_probe m fdt =
     (if fdt_magic m fdt = FDT_MAGIC then - FDT_ERR_BADSTATE
      else if fdt_magic m fdt \<noteq> FDT_SW_MAGIC then - FDT_ERR_BADMAGIC else 0)"

definition fdt_sw_probe_memrsv :: "mem \<Rightarrow> addr \<Rightarrow> i32" where
  "fdt_sw_probe_memrsv m fdt =
     (if fdt_sw_probe m fdt \<noteq> 0 then fdt_sw_probe m fdt
      else if fdt_off_dt_strings m fdt \<noteq> 0 then - FDT_ERR_BADSTATE else 0)"

definition fdt_sw_probe_struct :: "mem \<Rightarrow> addr \<Rightarrow> i32" where
  "fdt_sw_probe_struct m fdt =
     (if fdt_sw_probe m fdt \<noteq> 0 then fdt_sw_probe m fdt
      else if fdt_off_dt_strings m fdt \<noteq> fdt_totalsize m fdt then - FDT_ERR_BADSTATE else 0)"

definition sw_flags :: "mem \<Rightarrow> addr \<Rightarrow> u32" where
  "sw_flags m fdt = fdt_last_comp_version m fdt"

text \<open>\<^verbatim>\<open>FDT_TAGALIGN\<close> of an \<^verbatim>\<open>int\<close> as the \<^verbatim>\<open>size_t\<close> it is.\<close>

definition TAGALIGN_SIZE :: "i32 \<Rightarrow> u64" where
  "TAGALIGN_SIZE x = (scast x + 3) AND NOT 3"

definition fdt_grab_space :: "addr \<Rightarrow> u64 \<Rightarrow> mem \<Rightarrow> addr option \<times> mem" where
  "fdt_grab_space fdt len m =
     (let offset = fdt_size_dt_struct m fdt;
          spaceleft = fdt_totalsize m fdt - fdt_off_dt_struct m fdt - fdt_size_dt_strings m fdt
      in if (ucast offset + len :: u64) < ucast offset \<or> ucast spaceleft < (ucast offset + len :: u64) then (None, m)
         else let m1 = fdt_set_size_dt_struct fdt (ucast (ucast offset + len :: u64)) m
              in (Some (fdt_struct_ptr m1 fdt offset), m1))"

subsection \<open>Creating\<close>

definition fdt_create_with_flags :: "addr \<Rightarrow> i32 \<Rightarrow> u32 \<Rightarrow> mem \<Rightarrow> i32 \<times> mem" where
  "fdt_create_with_flags buf bufsize flags m =
     (let hdrsize = 48
      in if sint bufsize < 48 then (- FDT_ERR_NOSPACE, m)
         else if flags AND NOT FDT_CREATE_FLAGS_ALL \<noteq> 0 then (- FDT_ERR_BADFLAGS, m)
         else let m = memset buf 0 (scast bufsize) m;
                  m = fdt_set_magic buf FDT_SW_MAGIC m;
                  m = fdt_set_version buf 0x11 m;
                  m = fdt_set_last_comp_version buf flags m;
                  m = fdt_set_totalsize buf bufsize m;
                  m = fdt_set_off_mem_rsvmap buf hdrsize m;
                  m = fdt_set_off_dt_struct buf (fdt_off_mem_rsvmap m buf) m
              in (0, fdt_set_off_dt_strings buf 0 m))"

definition fdt_create :: "addr \<Rightarrow> i32 \<Rightarrow> mem \<Rightarrow> i32 \<times> mem" where
  "fdt_create buf bufsize = fdt_create_with_flags buf bufsize 0"

definition fdt_resize :: "addr \<Rightarrow> addr \<Rightarrow> i32 \<Rightarrow> mem \<Rightarrow> i32 \<times> mem" where
  "fdt_resize fdt buf bufsize m =
     (let headsize = ucast (fdt_off_dt_struct m fdt + fdt_size_dt_struct m fdt) :: u64;
          tailsize = ucast (fdt_size_dt_strings m fdt) :: u64;
          oldtail = fdt + ucast (fdt_totalsize m fdt) - tailsize;
          newtail = buf + scast bufsize - tailsize
      in if fdt_sw_probe m fdt \<noteq> 0 then (fdt_sw_probe m fdt, m)
         else if sint bufsize < 0 then (- FDT_ERR_NOSPACE, m)
         else if ucast (fdt_totalsize m fdt) < headsize + tailsize then (- FDT_ERR_INTERNAL, m)
         else if ucast bufsize < headsize + tailsize then (- FDT_ERR_NOSPACE, m)
         else let m1 = (if buf \<le> fdt then memmove newtail oldtail tailsize (memmove buf fdt headsize m)
                        else memmove buf fdt headsize (memmove newtail oldtail tailsize m));
                  m2 = fdt_set_totalsize buf bufsize m1
              in (0, if fdt_off_dt_strings m2 buf \<noteq> 0 then fdt_set_off_dt_strings buf bufsize m2 else m2))"

subsection \<open>The reservation block\<close>

definition fdt_add_reservemap_entry :: "addr \<Rightarrow> u64 \<Rightarrow> u64 \<Rightarrow> mem \<Rightarrow> i32 \<times> mem" where
  "fdt_add_reservemap_entry fdt address sz m =
     (let offset = fdt_off_dt_struct m fdt :: i32
      in if fdt_sw_probe_memrsv m fdt \<noteq> 0 then (fdt_sw_probe_memrsv m fdt, m)
         else if ucast (fdt_totalsize m fdt) < (scast offset + 16 :: u64) then (- FDT_ERR_NOSPACE, m)
         else let re = fdt + scast offset;
                  m1 = fdt64_st (re + 8) sz (fdt64_st re address m)
              in (0, fdt_set_off_dt_struct fdt (offset + 16) m1))"

definition fdt_finish_reservemap :: "addr \<Rightarrow> mem \<Rightarrow> i32 \<times> mem" where
  "fdt_finish_reservemap fdt m =
     (case fdt_add_reservemap_entry fdt 0 0 m of (err, m) \<Rightarrow>
        if err \<noteq> 0 then (err, m) else (0, fdt_set_off_dt_strings fdt (fdt_totalsize m fdt) m))"

subsection \<open>Nodes and properties\<close>

definition fdt_begin_node :: "addr \<Rightarrow> addr \<Rightarrow> mem \<Rightarrow> (i32 \<times> mem) option" where
  "fdt_begin_node fdt name m =
     (if fdt_sw_probe_struct m fdt \<noteq> 0 then Some (fdt_sw_probe_struct m fdt, m)
      else case strlen name m of
        None \<Rightarrow> None
      | Some n \<Rightarrow>
          let namelen = ucast (n + 1) :: i32
          in (case fdt_grab_space fdt (4 + TAGALIGN_SIZE namelen) m of
                (None, m1) \<Rightarrow> Some (- FDT_ERR_NOSPACE, m1)
              | (Some nh, m1) \<Rightarrow> Some (0, memcpy (nh + 4) name (scast namelen) (fdt32_st nh FDT_BEGIN_NODE m1))))"

definition fdt_end_node :: "addr \<Rightarrow> mem \<Rightarrow> i32 \<times> mem" where
  "fdt_end_node fdt m =
     (if fdt_sw_probe_struct m fdt \<noteq> 0 then (fdt_sw_probe_struct m fdt, m)
      else case fdt_grab_space fdt 4 m of
        (None, m1) \<Rightarrow> (- FDT_ERR_NOSPACE, m1)
      | (Some en, m1) \<Rightarrow> (0, fdt32_st en FDT_END_NODE m1))"

text \<open>The offset of a string counted from the end of the buffer, 0 when there is no room.\<close>

definition fdt_add_string :: "addr \<Rightarrow> addr \<Rightarrow> mem \<Rightarrow> (i32 \<times> mem) option" where
  "fdt_add_string fdt s m =
     (case strlen s m of
        None \<Rightarrow> None
      | Some n \<Rightarrow>
          let strtab = fdt + ucast (fdt_totalsize m fdt);
              strtabsize = fdt_size_dt_strings m fdt;
              len = ucast (n + 1) :: u32;
              offset = strtabsize + len;
              struct_top = fdt_off_dt_struct m fdt + fdt_size_dt_struct m fdt
          in if fdt_totalsize m fdt - offset < struct_top then Some (0, m)
             else Some (- offset,
                    fdt_set_size_dt_strings fdt (strtabsize + len) (memcpy (strtab - ucast offset) s (ucast len) m)))"

text \<open>The same search and rollback as in \<^verbatim>\<open>fdt_rw.c\<close>, on the strings before the end of the buffer.\<close>

definition fdt_sw_find_add_string :: "addr \<Rightarrow> addr \<Rightarrow> mem \<Rightarrow> (i32 \<times> bool \<times> mem) option" where
  "fdt_sw_find_add_string fdt s m =
     (let strtab = fdt + ucast (fdt_totalsize m fdt);
          strtabsize = fdt_size_dt_strings m fdt :: i32
      in case fdt_find_string m (strtab - scast strtabsize) strtabsize s of
           None \<Rightarrow> None
         | Some (Some p) \<Rightarrow> Some (ucast (p - strtab), False, m)
         | Some None \<Rightarrow> map_option (\<lambda>(off, m). (off, True, m)) (fdt_add_string fdt s m))"

text \<open>The address of the value when the code is 0.\<close>

definition fdt_property_placeholder :: "addr \<Rightarrow> addr \<Rightarrow> i32 \<Rightarrow> mem \<Rightarrow> (i32 \<times> addr \<times> mem) option" where
  "fdt_property_placeholder fdt name len m =
     (if fdt_sw_probe_struct m fdt \<noteq> 0 then Some (fdt_sw_probe_struct m fdt, 0, m)
      else case (if sw_flags m fdt AND FDT_CREATE_FLAG_NO_NAME_DEDUP \<noteq> 0
                 then map_option (\<lambda>(off, m). (off, True, m)) (fdt_add_string fdt name m)
                 else fdt_sw_find_add_string fdt name m) of
        None \<Rightarrow> None
      | Some (nameoff, allocated, m) \<Rightarrow>
          if nameoff = 0 then Some (- FDT_ERR_NOSPACE, 0, m)
          else (case fdt_grab_space fdt (12 + TAGALIGN_SIZE len) m of
                  (None, m) \<Rightarrow>
                    if allocated
                    then (case fdt_del_last_string fdt name m of
                            None \<Rightarrow> None | Some m \<Rightarrow> Some (- FDT_ERR_NOSPACE, 0, m))
                    else Some (- FDT_ERR_NOSPACE, 0, m)
                | (Some prop, m) \<Rightarrow>
                    Some (0, prop + 12, fdt32_st (prop + 4) len (fdt32_st (prop + 8) nameoff (fdt32_st prop FDT_PROP m)))))"

definition fdt_property :: "addr \<Rightarrow> addr \<Rightarrow> addr \<Rightarrow> i32 \<Rightarrow> mem \<Rightarrow> (i32 \<times> mem) option" where
  "fdt_property fdt name val len m =
     (case fdt_property_placeholder fdt name len m of
        None \<Rightarrow> None
      | Some (ret, ptr, m) \<Rightarrow> if ret \<noteq> 0 then Some (ret, m) else Some (0, memcpy ptr val (scast len) m))"

subsection \<open>Finishing\<close>

partial_function (option) finish_loop :: "addr \<Rightarrow> i32 \<Rightarrow> mem \<Rightarrow> (i32 \<times> mem) option" where
  "finish_loop fdt offset m =
     (case fdt_next_tag m fdt offset of (tag, nextoffset) \<Rightarrow>
        if tag = FDT_END then Some (nextoffset, m)
        else finish_loop fdt nextoffset
          (if tag = FDT_PROP
           then let prop = fdt_struct_ptr m fdt offset
                in fdt32_st (prop + 8) (fdt32 m (prop + 8) + fdt_size_dt_strings m fdt) m
           else m))"

definition fdt_finish :: "addr \<Rightarrow> mem \<Rightarrow> (i32 \<times> mem) option" where
  "fdt_finish fdt m =
     (if fdt_sw_probe_struct m fdt \<noteq> 0 then Some (fdt_sw_probe_struct m fdt, m)
      else case fdt_grab_space fdt 4 m of
        (None, m) \<Rightarrow> Some (- FDT_ERR_NOSPACE, m)
      | (Some stop, m) \<Rightarrow>
          let m = fdt32_st stop FDT_END m;
              oldstroffset = fdt_totalsize m fdt - fdt_size_dt_strings m fdt :: i32;
              newstroffset = fdt_off_dt_struct m fdt + fdt_size_dt_struct m fdt :: i32;
              m = memmove (fdt + scast newstroffset) (fdt + scast oldstroffset) (ucast (fdt_size_dt_strings m fdt)) m;
              m = fdt_set_off_dt_strings fdt newstroffset m
          in (case finish_loop fdt 0 m of
                None \<Rightarrow> None
              | Some (nextoffset, m) \<Rightarrow>
                  if sint nextoffset < 0 then Some (nextoffset, m)
                  else let m = fdt_set_totalsize fdt (newstroffset + fdt_size_dt_strings m fdt) m;
                           m = fdt_set_last_comp_version fdt 2 m
                       in Some (0, fdt_set_magic fdt FDT_MAGIC m)))"

text \<open>\<open>root_name\<close> is the address of the empty string that is the name of the root.\<close>

definition fdt_create_empty_tree :: "addr \<Rightarrow> addr \<Rightarrow> i32 \<Rightarrow> mem \<Rightarrow> (i32 \<times> mem) option" where
  "fdt_create_empty_tree root_name buf bufsize m =
     if_ok (fdt_create buf bufsize m) (\<lambda>m.
     if_ok (fdt_finish_reservemap buf m) (\<lambda>m.
     case fdt_begin_node buf root_name m of
       None \<Rightarrow> None
     | Some r \<Rightarrow> if_ok r (\<lambda>m.
         if_ok (fdt_end_node buf m) (\<lambda>m.
         case fdt_finish buf m of
           None \<Rightarrow> None
         | Some r \<Rightarrow> if_ok r (\<lambda>m. fdt_open_into buf buf bufsize m)))))"

end
