(* ===== verification/Fdt_Edit.thy ===== *)
theory Fdt_Edit
  imports Fdt_Sw
begin

section \<open>Editing encoded trees\<close>

text \<open>
  What the functions of \<^verbatim>\<open>fdt_rw.c\<close> do to the encoding of a tree. The tree is a list of bytes in memory: the header's ten
  numbers, the reservations, the structure block, the strings and the free space. Splicing is an operation on that list, and the
  structure block keeps encoding tokens, so an edited tree is again one that the reading functions understand.
\<close>

subsection \<open>Writes into stored bytes\<close>

lemma stored_replace:
  assumes "stored m p (A @ xs @ B)" "length (A @ xs @ B) < 2 ^ 64" "length xs = length ys"
    and "same_outside m m' (p + word_of_nat (length A)) (length ys)" "stored m' (p + word_of_nat (length A)) ys"
  shows "stored m' p (A @ ys @ B)"
proof -
  have same: "m' (p + word_of_nat i) = m (p + word_of_nat i)"
    if "i < length A \<or> length A + length ys \<le> i" "i < length (A @ xs @ B)" for i
  proof -
    have i: "unat (p + word_of_nat i - p) = i" using that(2) assms(2) by (simp add: unat_of_nat_no_wrap)
    have "length ys \<le> unat (p + word_of_nat i - (p + word_of_nat (length A)))"
      using unat_diff_offset [of "length A" "p + word_of_nat i" p] that assms(2,3) unfolding i by auto
    with assms(4) show ?thesis by (simp only: same_outside_def)
  qed
  show ?thesis unfolding stored_nth
  proof (intro allI impI)
    fix i
    assume i: "i < length (A @ ys @ B)"
    then have len: "i < length (A @ xs @ B)" using assms(3) by simp
    show "m' (p + word_of_nat i) = (A @ ys @ B) ! i"
    proof (cases "length A \<le> i \<and> i < length A + length ys")
      case True
      then obtain j where j: "i = length A + j" "j < length ys" by (metis le_add_diff_inverse nat_add_left_cancel_less)
      then show ?thesis using assms(5) by (simp add: stored_nth nth_append add.assoc)
    next
      case False
      then have "m' (p + word_of_nat i) = (A @ xs @ B) ! i"
        using same [OF _ len] assms(1) len by (auto simp: stored_nth)
      with False assms(3) show ?thesis by (auto simp: nth_append)
    qed
  qed
qed

lemma fdt32_st_facts: "stored (fdt32_st a w m) a (be32 w)" "same_outside m (fdt32_st a w m) a 4"
proof -
  show "stored (fdt32_st a w m) a (be32 w)" by (simp add: be32_def fdt32_st_def add.assoc)
  have "b \<noteq> a + word_of_nat i" if "4 \<le> unat (b - a)" "i < 4" for b :: addr and i
    using that by (auto simp: unat_of_nat_no_wrap)
  from this [of _ 0] this [of _ 1] this [of _ 2] this [of _ 3] show "same_outside m (fdt32_st a w m) a 4"
    by (simp add: same_outside_def fdt32_st_def)
qed

lemma same_outside_trans:
  assumes "same_outside m m' p k" "same_outside m' m'' p k"
  shows "same_outside m m'' p k"
  using assms by (simp add: same_outside_def)

lemma same_outside_part:
  assumes "same_outside m m' (p + word_of_nat j) k" "j + k \<le> n" "n < 2 ^ 64"
  shows "same_outside m m' p n"
  unfolding same_outside_def
proof (intro allI impI)
  fix b
  assume b: "n \<le> unat (b - p)"
  have "unat (b - (p + word_of_nat j)) = unat (b - p) - j" using unat_diff_offset [of j b p] b assms(2,3) by simp
  with b assms(2) have "k \<le> unat (b - (p + word_of_nat j))" by simp
  with assms(1) show "m' b = m b" by (simp only: same_outside_def)
qed

subsection \<open>The header as a list of numbers\<close>

definition blob :: "mem \<Rightarrow> addr \<Rightarrow> u32 list \<Rightarrow> u8 list \<Rightarrow> bool" where
  "blob m fdt ws bs \<longleftrightarrow> length ws = 10 \<and> stored m fdt (concat (map be32 ws) @ bs) \<and>
     40 + length bs < 2 ^ 31 \<and> unat fdt + 40 + length bs < 2 ^ 64"

lemma length_concat_be32 [simp]: "length (concat (map be32 ws)) = 4 * length ws"
  by (induction ws) simp_all

lemma blob_part:
  assumes "blob m fdt ws (A @ xs @ B)"
  shows "stored m (fdt + word_of_nat (40 + length A)) xs"
proof -
  have "length (concat (map be32 ws) @ A) = 40 + length A" using assms by (simp add: blob_def)
  moreover have "stored m fdt ((concat (map be32 ws) @ A) @ xs @ B)" using assms by (simp only: blob_def append_assoc)
  ultimately show ?thesis unfolding stored_append [of m fdt "concat (map be32 ws) @ A"] by (simp only: stored_append)
qed

lemma blob_word:
  assumes "blob m fdt ws bs" "i < 10"
  shows "fdt32 m (fdt + word_of_nat (4 * i)) = ws ! i"
proof -
  have "i < length ws" using assms by (simp add: blob_def)
  then have "concat (map be32 ws) = concat (map be32 (take i ws)) @ be32 (ws ! i) @ concat (map be32 (drop (Suc i) ws))"
    by (subst id_take_nth_drop) simp_all
  moreover have "length (concat (map be32 (take i ws))) = 4 * i" using \<open>i < length ws\<close> by simp
  ultimately show ?thesis using assms by (intro fdt32_be32) (simp add: blob_def)
qed

lemma blob_header:
  assumes "blob m fdt ws bs"
  shows "fdt_magic m fdt = ws ! 0" "fdt_totalsize m fdt = ws ! 1" "fdt_off_dt_struct m fdt = ws ! 2"
    "fdt_off_dt_strings m fdt = ws ! 3" "fdt_off_mem_rsvmap m fdt = ws ! 4" "fdt_version m fdt = ws ! 5"
    "fdt_last_comp_version m fdt = ws ! 6" "fdt_boot_cpuid_phys m fdt = ws ! 7" "fdt_size_dt_strings m fdt = ws ! 8"
    "fdt_size_dt_struct m fdt = ws ! 9"
  using blob_word [OF assms, of 0] blob_word [OF assms, of 1] blob_word [OF assms, of 2] blob_word [OF assms, of 3]
    blob_word [OF assms, of 4] blob_word [OF assms, of 5] blob_word [OF assms, of 6] blob_word [OF assms, of 7]
    blob_word [OF assms, of 8] blob_word [OF assms, of 9]
  by (simp_all add: fdt_magic_def fdt_totalsize_def fdt_off_dt_struct_def fdt_off_dt_strings_def fdt_off_mem_rsvmap_def
      fdt_version_def fdt_last_comp_version_def fdt_boot_cpuid_phys_def fdt_size_dt_strings_def fdt_size_dt_struct_def)

lemma blob_store:
  assumes "blob m fdt ws bs" "i < 10"
  shows "blob (fdt32_st (fdt + word_of_nat (4 * i)) w m) fdt (ws[i := w]) bs"
    and "same_outside m (fdt32_st (fdt + word_of_nat (4 * i)) w m) fdt 40"
proof -
  have i: "i < length ws" using assms by (simp add: blob_def)
  let ?A = "concat (map be32 (take i ws))" and ?B = "concat (map be32 (drop (Suc i) ws)) @ bs"
  let ?m = "fdt32_st (fdt + word_of_nat (4 * i)) w m"
  have A: "length ?A = 4 * i" using i by simp
  have eq: "concat (map be32 ws) @ bs = ?A @ be32 (ws ! i) @ ?B" using i by (subst id_take_nth_drop [of i ws]) simp_all
  have st: "stored m fdt (?A @ be32 (ws ! i) @ ?B)" using assms(1) by (simp only: blob_def eq [symmetric])
  have "length (concat (map be32 ws) @ bs) < 2 ^ 64" using assms(1) by (simp add: blob_def)
  then have "length (?A @ be32 (ws ! i) @ ?B) < 2 ^ 64" by (simp only: eq)
  with st have "stored ?m fdt (?A @ be32 w @ ?B)"
    by (rule stored_replace) (simp_all only: A length_be32 fdt32_st_facts)
  moreover have "concat (map be32 (ws[i := w])) @ bs = ?A @ be32 w @ ?B" using i by (simp add: upd_conv_take_nth_drop)
  ultimately show "blob ?m fdt (ws[i := w]) bs" using assms(1) by (simp only: blob_def length_list_update)
  show "same_outside m ?m fdt 40" using fdt32_st_facts(2) by (rule same_outside_part) (use assms(2) in simp_all)
qed

lemmas setter_defs = fdt_set_magic_def fdt_set_totalsize_def fdt_set_off_dt_struct_def fdt_set_off_dt_strings_def
  fdt_set_off_mem_rsvmap_def fdt_set_version_def fdt_set_last_comp_version_def fdt_set_boot_cpuid_phys_def
  fdt_set_size_dt_strings_def fdt_set_size_dt_struct_def

lemma blob_set:
  assumes "blob m fdt ws bs"
  shows "blob (fdt_set_magic fdt w m) fdt (ws[0 := w]) bs" "blob (fdt_set_totalsize fdt w m) fdt (ws[1 := w]) bs"
    "blob (fdt_set_off_dt_struct fdt w m) fdt (ws[2 := w]) bs" "blob (fdt_set_off_dt_strings fdt w m) fdt (ws[3 := w]) bs"
    "blob (fdt_set_off_mem_rsvmap fdt w m) fdt (ws[4 := w]) bs" "blob (fdt_set_version fdt w m) fdt (ws[5 := w]) bs"
    "blob (fdt_set_last_comp_version fdt w m) fdt (ws[6 := w]) bs" "blob (fdt_set_size_dt_strings fdt w m) fdt (ws[8 := w]) bs"
    "blob (fdt_set_size_dt_struct fdt w m) fdt (ws[9 := w]) bs"
  using blob_store(1) [OF assms, of 0] blob_store(1) [OF assms, of 1] blob_store(1) [OF assms, of 2] blob_store(1) [OF assms, of 3]
    blob_store(1) [OF assms, of 4] blob_store(1) [OF assms, of 5] blob_store(1) [OF assms, of 6] blob_store(1) [OF assms, of 8]
    blob_store(1) [OF assms, of 9]
  by (simp_all add: setter_defs)

lemma set_outside:
  assumes "blob m fdt ws bs"
  shows "same_outside m (fdt_set_off_dt_strings fdt w m) fdt 40" "same_outside m (fdt_set_size_dt_struct fdt w m) fdt 40"
    "same_outside m (fdt_set_size_dt_strings fdt w m) fdt 40"
  using blob_store(2) [OF assms, of 3] blob_store(2) [OF assms, of 9] blob_store(2) [OF assms, of 8]
  by (simp_all add: setter_defs)

text \<open>A write into the bytes after the header.\<close>

lemma blob_write:
  assumes "blob m fdt ws (A @ xs @ B)" "same_outside m m' (fdt + word_of_nat (40 + length A)) (length ys)"
    and "stored m' (fdt + word_of_nat (40 + length A)) ys" "length xs = length ys"
  shows "blob m' fdt ws (A @ ys @ B)"
proof -
  have len: "length (concat (map be32 ws) @ A) = 40 + length A" using assms(1) by (simp add: blob_def)
  have "stored m fdt ((concat (map be32 ws) @ A) @ xs @ B)" using assms(1) by (simp only: blob_def append_assoc)
  moreover have "length ((concat (map be32 ws) @ A) @ xs @ B) < 2 ^ 64" using assms(1) by (simp add: blob_def)
  ultimately have "stored m' fdt ((concat (map be32 ws) @ A) @ ys @ B)"
    by (rule stored_replace) (use assms(2-4) in \<open>simp_all only: len\<close>)
  moreover have "length (A @ ys @ B) = length (A @ xs @ B)" using assms(4) by simp
  ultimately show ?thesis using assms(1) by (simp only: blob_def append_assoc)
qed

subsection \<open>Splicing\<close>

lemma scast_nat: "n < 2 ^ 31 \<Longrightarrow> (scast (word_of_nat n :: i32) :: u64) = word_of_nat n"
  using sint_word_nat [of n] by (metis of_int_of_nat_eq of_int_sint)

lemma ucast_nat: "n < 2 ^ 32 \<Longrightarrow> (ucast (word_of_nat n :: u32) :: u64) = word_of_nat n"
  using unat_offset_nat [of n] by (metis of_nat_unat)

lemma pointer_less:
  fixes fdt :: addr
  assumes "unat fdt + i < 2 ^ 64" "unat fdt + j < 2 ^ 64"
  shows "fdt + word_of_nat i < fdt + word_of_nat j \<longleftrightarrow> i < j"
  using unat_offset [OF assms(1)] unat_offset [OF assms(2)] by (simp add: word_less_nat_alt)

lemma copied_facts:
  assumes "n < 2 ^ 64"
  shows "same_outside m (copied n d s m) d n" "stored m s bs \<Longrightarrow> length bs = n \<Longrightarrow> stored (copied n d s m) d bs"
proof -
  show "same_outside m (copied n d s m) d n" by (simp add: same_outside_def copied_def)
  show "stored (copied n d s m) d bs" if "stored m s bs" "length bs = n"
    unfolding stored_nth
  proof (intro allI impI)
    fix i
    assume i: "i < length bs"
    then have "i < 2 ^ 64" using assms that(2) by simp
    from copied_at [OF this, of n d s m] i that show "copied n d s m (d + word_of_nat i) = bs ! i" by (simp add: stored_nth)
  qed
qed

text \<open>
  The bytes from the splice point on move; the spliced part holds whatever was there. With too little room nothing happens.
\<close>

lemma splice_blob:
  assumes b: "blob m fdt ws (A @ old @ B @ slack)"
    and tot: "ws ! 1 = word_of_nat (40 + length (A @ old @ B @ slack))"
    and data: "ws ! 3 + ws ! 8 = word_of_nat (40 + length (A @ old @ B))"
    and k: "k < 2 ^ 31"
  defines "p \<equiv> fdt + word_of_nat (40 + length A)"
  shows "k \<le> length old + length slack \<Longrightarrow> \<exists>m' mid slack'. fdt_splice fdt p (word_of_nat (length old)) (word_of_nat k) m = (0, m') \<and>
       length mid = k \<and> length mid + length slack' = length old + length slack \<and>
       blob m' fdt ws (A @ mid @ B @ slack') \<and> same_outside m m' fdt (40 + length (A @ old @ B @ slack))"
    and "length old + length slack < k \<Longrightarrow> unat fdt + 2 ^ 32 \<le> 2 ^ 64 \<Longrightarrow>
       fdt_splice fdt p (word_of_nat (length old)) (word_of_nat k) m = (- FDT_ERR_NOSPACE, m)"
proof -
  let ?n = "40 + length A" and ?d = "40 + length (A @ old @ B)" and ?t = "40 + length (A @ old @ B @ slack)"
  have len: "?t < 2 ^ 31" "unat fdt + ?t < 2 ^ 64" using b by (simp_all add: blob_def)
  have ds: "fdt_data_size m fdt = word_of_nat ?d" using data by (simp only: fdt_data_size_def blob_header [OF b])
  have ts: "fdt_totalsize m fdt = word_of_nat ?t" using tot by (simp only: blob_header [OF b])
  have cast: "scast (word_of_nat ?d :: i32) = (word_of_nat ?d :: addr)" "ucast (word_of_nat ?t :: u32) = (word_of_nat ?t :: addr)"
    "scast (word_of_nat (length old) :: i32) = (word_of_nat (length old) :: addr)" "scast (word_of_nat k :: i32) = (word_of_nat k :: addr)"
    by (rule scast_nat ucast_nat, use len k in simp)+
  have ptr: "p + word_of_nat (length old) = fdt + word_of_nat (?n + length old)" "p + word_of_nat k = fdt + word_of_nat (?n + k)"
    "fdt + word_of_nat ?d - word_of_nat (length old) + word_of_nat k = fdt + word_of_nat (?n + length B + k)"
    "fdt + word_of_nat ?d - p - word_of_nat (length old) = word_of_nat (length B)"
    by (simp_all add: p_def algebra_simps)
  have c: "\<not> fdt + word_of_nat (?n + length old) < fdt + word_of_nat ?n" "\<not> fdt + word_of_nat ?d < fdt + word_of_nat (?n + length old)"
    "\<not> fdt + word_of_nat ?n < fdt"
    using len pointer_less [of fdt "?n + length old" ?n] pointer_less [of fdt ?d "?n + length old"] pointer_less [of fdt ?n 0]
    by simp_all
  have e: "fdt_splice fdt p (word_of_nat (length old)) (word_of_nat k) m =
      (if fdt + word_of_nat (?n + length B + k) < fdt then (- FDT_ERR_BADOFFSET, m)
       else if fdt + word_of_nat ?t < fdt + word_of_nat (?n + length B + k) then (- FDT_ERR_NOSPACE, m)
       else (0, memmove (fdt + word_of_nat (?n + k)) (fdt + word_of_nat (?n + length old)) (word_of_nat (length B)) m))"
    unfolding fdt_splice_def Let_def ds ts cast ptr using c by (simp add: p_def)
  show "fdt_splice fdt p (word_of_nat (length old)) (word_of_nat k) m = (- FDT_ERR_NOSPACE, m)"
    if "length old + length slack < k" "unat fdt + 2 ^ 32 \<le> 2 ^ 64"
  proof -
    have "unat fdt + (?n + length B + k) < 2 ^ 64" using that(2) len k by simp
    with pointer_less [of fdt "?n + length B + k" 0] pointer_less [of fdt ?t "?n + length B + k"] len that(1)
    show ?thesis unfolding e by simp
  qed
  show "\<exists>m' mid slack'. fdt_splice fdt p (word_of_nat (length old)) (word_of_nat k) m = (0, m') \<and>
       length mid = k \<and> length mid + length slack' = length old + length slack \<and>
       blob m' fdt ws (A @ mid @ B @ slack') \<and> same_outside m m' fdt (40 + length (A @ old @ B @ slack))"
    if space: "k \<le> length old + length slack"
  proof -
    let ?m = "copied (length B) (fdt + word_of_nat (?n + k)) (fdt + word_of_nat (?n + length old)) m"
    define rest where "rest = old @ B @ slack"
    then have rest: "length rest = length old + length B + length slack" by simp
    have uB: "unat (word_of_nat (length B) :: u64) = length B" using len by (intro unat_of_nat_no_wrap) simp
    have "memmove (fdt + word_of_nat (?n + k)) (fdt + word_of_nat (?n + length old)) (word_of_nat (length B)) m = ?m"
      using memmove_copied [of "fdt + word_of_nat (?n + length old)" "word_of_nat (length B)" "fdt + word_of_nat (?n + k)" m]
        unat_offset [of fdt "?n + length old"] unat_offset [of fdt "?n + k"] len space uB by simp
    moreover have "\<not> fdt + word_of_nat (?n + length B + k) < fdt" "\<not> fdt + word_of_nat ?t < fdt + word_of_nat (?n + length B + k)"
      using pointer_less [of fdt "?n + length B + k" 0] pointer_less [of fdt ?t "?n + length B + k"] len space by simp_all
    ultimately have sp: "fdt_splice fdt p (word_of_nat (length old)) (word_of_nat k) m = (0, ?m)" unfolding e by simp
    have B: "stored m (fdt + word_of_nat (?n + length old)) B"
      using blob_part [of m fdt ws "A @ old" B slack] b by (simp add: add.assoc)
    have lB: "length B < 2 ^ 64" using len by simp
    define mid Q slack' where "mid = take k rest" and "Q = take (length B) (drop k rest)" and "slack' = drop (length B) (drop k rest)"
    have split: "rest = mid @ Q @ slack'" unfolding mid_def Q_def slack'_def by (simp only: append_take_drop_id)
    have lens: "length mid = k" "length Q = length B" "length mid + length slack' = length old + length slack"
      using space rest by (simp_all add: mid_def Q_def slack'_def)
    have off: "word_of_nat (40 + length (A @ mid)) = (word_of_nat (?n + k) :: addr)" using lens by simp
    have "blob m fdt ws ((A @ mid) @ Q @ slack')" using b split [unfolded rest_def] by simp
    then have "blob ?m fdt ws ((A @ mid) @ B @ slack')"
      by (rule blob_write) (simp_all only: off copied_facts(1) [OF lB] copied_facts(2) [OF lB B refl] lens)
    moreover have "same_outside m ?m fdt ?t"
      by (rule same_outside_part [OF copied_facts(1) [OF lB]]) (use len space in simp_all)
    ultimately show ?thesis using sp lens by (intro exI [of _ ?m] exI [of _ mid] exI [of _ slack']) simp
  qed
qed

subsection \<open>Trees with free space\<close>

text \<open>
  A tree of version 17 whose blocks are in order: the reservations, the structure \<open>st\<close>, the strings \<open>strs\<close>, and free space up
  to the total size.
\<close>

definition words :: "nat \<Rightarrow> u32 \<Rightarrow> u32 \<Rightarrow> nat \<Rightarrow> nat \<Rightarrow> nat \<Rightarrow> nat \<Rightarrow> u32 list" where
  "words room lcv cpu g r st strs = [FDT_MAGIC, word_of_nat room, word_of_nat (40 + g + r), word_of_nat (40 + g + r + st),
     word_of_nat (40 + g), 17, lcv, cpu, word_of_nat strs, word_of_nat st]"

definition layout :: "mem \<Rightarrow> addr \<Rightarrow> nat \<Rightarrow> nat \<Rightarrow> u8 list \<Rightarrow> u8 list \<Rightarrow> bool" where
  "layout m fdt room start st strs \<longleftrightarrow> (\<exists>lcv cpu gap rsv slack. lcv \<le> 17 \<and> 16 \<le> length rsv \<and>
     40 + length (gap @ rsv) = start \<and> 40 + length (gap @ rsv @ st @ strs @ slack) = room \<and> room < 2 ^ 31 - 1 \<and>
     blob m fdt (words room lcv cpu (length gap) (length rsv) (length st) (length strs)) (gap @ rsv @ st @ strs @ slack))"

lemma layoutE:
  assumes "layout m fdt room start st strs"
  obtains lcv cpu gap rsv slack where "lcv \<le> 17" "16 \<le> length rsv" "40 + length (gap @ rsv) = start"
    "40 + length (gap @ rsv @ st @ strs @ slack) = room" "room < 2 ^ 31 - 1"
    "blob m fdt (words room lcv cpu (length gap) (length rsv) (length st) (length strs)) (gap @ rsv @ st @ strs @ slack)"
  using assms unfolding layout_def by blast

lemma layoutI:
  assumes "lcv \<le> 17" "16 \<le> length rsv" "40 + length (gap @ rsv) = start"
    "40 + length (gap @ rsv @ st @ strs @ slack) = room" "room < 2 ^ 31 - 1"
    "blob m fdt (words room lcv cpu (length gap) (length rsv) (length st) (length strs)) (gap @ rsv @ st @ strs @ slack)"
  shows "layout m fdt room start st strs"
  using assms unfolding layout_def by blast

lemma layout_header:
  assumes "layout m fdt room start st strs"
  shows "fdt_magic m fdt = FDT_MAGIC" "fdt_totalsize m fdt = word_of_nat room" "fdt_off_dt_struct m fdt = word_of_nat start"
    "fdt_off_dt_strings m fdt = word_of_nat (start + length st)" "fdt_version m fdt = 17"
    "fdt_size_dt_strings m fdt = word_of_nat (length strs)" "fdt_size_dt_struct m fdt = word_of_nat (length st)"
    "fdt_last_comp_version m fdt \<le> 17" "40 \<le> unat (fdt_off_mem_rsvmap m fdt)" "unat (fdt_off_mem_rsvmap m fdt) + 16 \<le> start"
    "start + length st + length strs \<le> room" "room < 2 ^ 31 - 1" "unat fdt + room < 2 ^ 64" "56 \<le> start"
proof -
  from assms obtain lcv cpu gap rsv slack where L: "lcv \<le> 17" "16 \<le> length rsv" "40 + length (gap @ rsv) = start"
    "40 + length (gap @ rsv @ st @ strs @ slack) = room" "room < 2 ^ 31 - 1"
    "blob m fdt (words room lcv cpu (length gap) (length rsv) (length st) (length strs)) (gap @ rsv @ st @ strs @ slack)"
    by (rule layoutE)
  have "unat (word_of_nat (40 + length gap) :: u32) = 40 + length gap" using L by (intro unat_offset_nat) simp
  then show "fdt_magic m fdt = FDT_MAGIC" "fdt_totalsize m fdt = word_of_nat room" "fdt_off_dt_struct m fdt = word_of_nat start"
    "fdt_off_dt_strings m fdt = word_of_nat (start + length st)" "fdt_version m fdt = 17"
    "fdt_size_dt_strings m fdt = word_of_nat (length strs)" "fdt_size_dt_struct m fdt = word_of_nat (length st)"
    "fdt_last_comp_version m fdt \<le> 17" "40 \<le> unat (fdt_off_mem_rsvmap m fdt)" "unat (fdt_off_mem_rsvmap m fdt) + 16 \<le> start"
    using L(1-3) by (auto simp: blob_header [OF L(6)] words_def add.assoc)
  show "start + length st + length strs \<le> room" "room < 2 ^ 31 - 1" "unat fdt + room < 2 ^ 64" "56 \<le> start"
    using L(2-6) by (auto simp: blob_def)
qed

lemma layout_numbers:
  assumes "layout m fdt room start st strs"
  shows "unat (fdt_totalsize m fdt) = room" "unat (fdt_off_dt_struct m fdt) = start"
    "unat (fdt_off_dt_strings m fdt) = start + length st" "unat (fdt_size_dt_strings m fdt) = length strs"
    "unat (fdt_size_dt_struct m fdt) = length st"
  using layout_header(11,12) [OF assms] unfolding layout_header [OF assms]
  by (simp_all del: of_nat_add add: unat_offset_nat)

lemma layout_probe:
  assumes "layout m fdt room start st strs"
  shows "tree_ok m fdt" "fdt_rw_probe fdt m = (0, m)"
proof -
  note h = layout_header [OF assms] and n = layout_numbers [OF assms]
  let ?r = "fdt_off_mem_rsvmap m fdt"
  have le: "?r \<le> fdt_totalsize m fdt" "40 \<le> ?r" "40 \<le> fdt_totalsize m fdt"
    using h(9-11,14) n by (simp_all add: word_le_nat_alt)
  have blk: "check_block 40 (fdt_totalsize m fdt) (fdt_off_dt_struct m fdt) (fdt_size_dt_struct m fdt)"
    "check_block 40 (fdt_totalsize m fdt) (fdt_off_dt_strings m fdt) (fdt_size_dt_strings m fdt)"
  proof -
    have "check_block 40 t b z" if "40 \<le> unat b" "unat b + unat z \<le> unat t" for t b z :: u32
    proof -
      have "unat (b + z) = unat b + unat z" using that unat_u32_less [of t] by (intro unat_add_no_wrap) simp
      with that show ?thesis by (simp add: check_block_def check_off_def word_le_nat_alt word_less_nat_alt not_less)
    qed
    from this [of "fdt_off_dt_struct m fdt"] this [of "fdt_off_dt_strings m fdt"] h(11,14) n
    show "check_block 40 (fdt_totalsize m fdt) (fdt_off_dt_struct m fdt) (fdt_size_dt_struct m fdt)"
      "check_block 40 (fdt_totalsize m fdt) (fdt_off_dt_strings m fdt) (fdt_size_dt_strings m fdt)" by simp_all
  qed
  have t: "fdt_totalsize m fdt < INT32_MAX" using h(12) n(1) by (simp add: word_less_nat_alt)
  have hs: "fdt_header_size m fdt = 40" by (simp add: fdt_header_size_def fdt_header_size_of_def h(5) word_le_nat_alt)
  have "fdt_check_header m fdt = 0"
    unfolding fdt_check_header_def Let_def hs h(1,5) using le blk t h(8) by (auto simp: check_off_def not_less)
  then show ok: "tree_ok m fdt" using h(5,13) n(1) t by (simp add: tree_ok_def)
  have "\<not> fdt_blocks_misordered m fdt 16 (fdt_size_dt_struct m fdt)"
  proof -
    have add: "unat (a + b) = unat a + unat b" if "unat a + unat b < 2 ^ 32" for a b :: u32 using that by (intro unat_add_no_wrap) simp
    show ?thesis
      using add [of ?r 16] add [of "fdt_off_dt_struct m fdt" "fdt_size_dt_struct m fdt"]
        add [of "fdt_off_dt_strings m fdt" "fdt_size_dt_strings m fdt"] h(9-12) n
      by (auto simp: fdt_blocks_misordered_def word_less_nat_alt)
  qed
  then show "fdt_rw_probe fdt m = (0, m)" using ro_probe_tree(1) [OF ok] by (simp add: fdt_rw_probe_def h(5))
qed

lemma same_outside_mono: "same_outside m m' p k \<Longrightarrow> k \<le> n \<Longrightarrow> same_outside m m' p n"
  by (simp add: same_outside_def)

lemma layout_strings:
  assumes "layout m fdt room start st strs"
  shows "stored m (fdt + word_of_nat (start + length st)) strs" "stored m (fdt + word_of_nat start) st"
proof -
  from assms obtain lcv cpu gap rsv slack where L: "40 + length (gap @ rsv) = start"
    "blob m fdt (words room lcv cpu (length gap) (length rsv) (length st) (length strs)) (gap @ rsv @ st @ strs @ slack)"
    by (rule layoutE)
  note st = blob_part [of m fdt _ "gap @ rsv" st "strs @ slack"] and strs = blob_part [of m fdt _ "gap @ rsv @ st" strs slack]
  show "stored m (fdt + word_of_nat (start + length st)) strs" "stored m (fdt + word_of_nat start) st"
    using st strs L(2) unfolding L(1) [symmetric] by (simp_all add: add.assoc)
qed

lemma layout_write:
  assumes lay: "layout m fdt room start st strs" and parts: "st @ strs = a @ xs @ b" "st' @ strs' = a @ ys @ b"
    and len: "length st' = length st" "length xs = length ys"
    and m': "same_outside m m' (fdt + word_of_nat (start + length a)) (length ys)" "stored m' (fdt + word_of_nat (start + length a)) ys"
  shows "layout m' fdt room start st' strs' \<and> same_outside m m' fdt room"
proof
  from lay obtain lcv cpu gap rsv slack where L: "lcv \<le> 17" "16 \<le> length rsv" "40 + length (gap @ rsv) = start"
    "40 + length (gap @ rsv @ st @ strs @ slack) = room" "room < 2 ^ 31 - 1"
    "blob m fdt (words room lcv cpu (length gap) (length rsv) (length st) (length strs)) (gap @ rsv @ st @ strs @ slack)"
    by (rule layoutE)
  have off: "word_of_nat (40 + length (gap @ rsv @ a)) = (word_of_nat (start + length a) :: addr)"
    unfolding L(3) [symmetric] by (simp add: add.assoc)
  have "gap @ rsv @ st @ strs @ slack = (gap @ rsv @ a) @ xs @ b @ slack" using parts(1) by (metis append_assoc)
  with L(6) have "blob m fdt (words room lcv cpu (length gap) (length rsv) (length st) (length strs)) ((gap @ rsv @ a) @ xs @ b @ slack)"
    by (simp only:)
  then have "blob m' fdt (words room lcv cpu (length gap) (length rsv) (length st) (length strs)) ((gap @ rsv @ a) @ ys @ b @ slack)"
    by (rule blob_write) (use m' len(2) in \<open>simp_all only: off\<close>)
  moreover have "(gap @ rsv @ a) @ ys @ b @ slack = gap @ rsv @ st' @ strs' @ slack" using parts(2) by (metis append_assoc)
  moreover have strs: "length strs' = length strs"
    using arg_cong [OF parts(1), of length] arg_cong [OF parts(2), of length] len by simp
  ultimately have "blob m' fdt (words room lcv cpu (length gap) (length rsv) (length st') (length strs')) (gap @ rsv @ st' @ strs' @ slack)"
    by (simp only: len(1))
  then show "layout m' fdt room start st' strs'" using L(1-5) len(1) strs by (intro layoutI) simp_all
  have "start + length a + length ys \<le> room" "room < 2 ^ 64"
    using arg_cong [OF parts(1), of length] layout_header(11,12) [OF lay] len(2) by simp_all
  with same_outside_part [OF m'(1), of room] show "same_outside m m' fdt room" by simp
qed

lemma splice_struct_layout:
  assumes "layout m fdt room start (a @ old @ b) strs" "start + length a + k + length b + length strs \<le> room"
  shows "\<exists>m' mid. fdt_splice_struct fdt (fdt + word_of_nat (start + length a)) (word_of_nat (length old)) (word_of_nat k) m = (0, m') \<and>
     length mid = k \<and> layout m' fdt room start (a @ mid @ b) strs \<and> same_outside m m' fdt room"
proof -
  from assms(1) obtain lcv cpu gap rsv slack where L: "lcv \<le> 17" "16 \<le> length rsv" "40 + length (gap @ rsv) = start"
    "40 + length (gap @ rsv @ (a @ old @ b) @ strs @ slack) = room" "room < 2 ^ 31 - 1"
    "blob m fdt (words room lcv cpu (length gap) (length rsv) (length (a @ old @ b)) (length strs)) (gap @ rsv @ (a @ old @ b) @ strs @ slack)"
    by (rule layoutE)
  let ?w = "\<lambda>z. words room lcv cpu (length gap) (length rsv) z (length strs)" and ?A = "gap @ rsv @ a" and ?B = "b @ strs"
  let ?p = "fdt + word_of_nat (start + length a)"
  have off: "word_of_nat (start + length a) = (word_of_nat (40 + length ?A) :: addr)" unfolding L(3) [symmetric] by (simp add: add.assoc)
  have bl: "blob m fdt (?w (length (a @ old @ b))) (?A @ old @ ?B @ slack)" using L(6) by (simp only: append_assoc)
  have k: "k < 2 ^ 31" "k \<le> length old + length slack" using assms(2) L(3-5) by simp_all
  have "?w (length (a @ old @ b)) ! 1 = word_of_nat (40 + length (?A @ old @ ?B @ slack))" using L(4) by (simp add: words_def)
  moreover have "?w (length (a @ old @ b)) ! 3 + ?w (length (a @ old @ b)) ! 8 = word_of_nat (40 + length (?A @ old @ ?B))"
    by (simp add: words_def algebra_simps)
  ultimately obtain m1 mid slack' where sp: "fdt_splice fdt ?p (word_of_nat (length old)) (word_of_nat k) m = (0, m1)"
    "length mid = k" "length mid + length slack' = length old + length slack"
    "blob m1 fdt (?w (length (a @ old @ b))) (?A @ mid @ ?B @ slack')" "same_outside m m1 fdt (40 + length (?A @ old @ ?B @ slack))"
    using splice_blob(1) [OF bl _ _ k(1,2)] unfolding off by blast
  let ?z = "word_of_nat (length (a @ mid @ b)) :: u32" and ?o = "word_of_nat (start + length (a @ mid @ b)) :: u32"
  define m2 where "m2 = fdt_set_size_dt_struct fdt ?z m1"
  define m3 where "m3 = fdt_set_off_dt_strings fdt ?o m2"
  have b2: "blob m2 fdt ((?w (length (a @ old @ b)))[9 := ?z]) (?A @ mid @ ?B @ slack')"
    unfolding m2_def by (rule blob_set(9) [OF sp(4)])
  have b3: "blob m3 fdt (?w (length (a @ mid @ b))) (?A @ mid @ ?B @ slack')"
    using blob_set(4) [OF b2, of ?o] unfolding m3_def L(3) [symmetric] by (simp add: words_def add.assoc)
  have d: "fdt_size_dt_struct m1 fdt + (word_of_nat k - word_of_nat (length old)) = ?z"
    "fdt_off_dt_strings m2 fdt + (word_of_nat k - word_of_nat (length old)) = ?o"
    using sp(2) L(3) by (simp_all add: blob_header [OF sp(4)] blob_header [OF b2] words_def algebra_simps flip: L(3))
  have "fdt_splice_struct fdt ?p (word_of_nat (length old)) (word_of_nat k) m = (0, m3)"
    unfolding fdt_splice_struct_def Let_def sp(1) prod.case d(1) m2_def [symmetric] d(2) m3_def [symmetric] by simp
  moreover have "layout m3 fdt room start (a @ mid @ b) strs" unfolding layout_def
    using L sp(2,3) b3 by (intro exI [of _ lcv] exI [of _ cpu] exI [of _ gap] exI [of _ rsv] exI [of _ slack'] conjI) simp_all
  moreover have "same_outside m m3 fdt room"
  proof -
    have "same_outside m m1 fdt room" using sp(5) L(4) by (simp add: add.assoc)
    moreover have "40 \<le> room" using L(4) by simp
    from this have "same_outside m1 m2 fdt room" "same_outside m2 m3 fdt room"
      unfolding m2_def m3_def using set_outside(2) [OF sp(4)] set_outside(1) [OF b2 [unfolded m2_def]] by (auto intro: same_outside_mono)
    ultimately show ?thesis by (blast intro: same_outside_trans)
  qed
  ultimately show ?thesis using sp(2) by blast
qed

lemma splice_struct_no_space:
  assumes lay: "layout m fdt room start (a @ old @ b) strs" and full: "room < start + length a + k + length b + length strs"
    and "k < 2 ^ 31" "unat fdt + 2 ^ 32 \<le> 2 ^ 64"
  shows "fdt_splice_struct fdt (fdt + word_of_nat (start + length a)) (word_of_nat (length old)) (word_of_nat k) m = (- FDT_ERR_NOSPACE, m)"
proof -
  from lay obtain lcv cpu gap rsv slack where L: "40 + length (gap @ rsv) = start"
    "40 + length (gap @ rsv @ (a @ old @ b) @ strs @ slack) = room"
    "blob m fdt (words room lcv cpu (length gap) (length rsv) (length (a @ old @ b)) (length strs)) (gap @ rsv @ (a @ old @ b) @ strs @ slack)"
    by (rule layoutE)
  let ?ws = "words room lcv cpu (length gap) (length rsv) (length (a @ old @ b)) (length strs)"
  have "fdt_splice fdt (fdt + word_of_nat (40 + length (gap @ rsv @ a))) (word_of_nat (length old)) (word_of_nat k) m = (- FDT_ERR_NOSPACE, m)"
  proof (rule splice_blob(2) [where B = "b @ strs" and slack = slack])
    show "blob m fdt ?ws ((gap @ rsv @ a) @ old @ (b @ strs) @ slack)" using L(3) by simp
    show "?ws ! 1 = word_of_nat (40 + length ((gap @ rsv @ a) @ old @ (b @ strs) @ slack))" using L(2) by (simp add: words_def add.assoc)
    show "length old + length slack < k" using full L(1,2) by simp
  qed (use assms(3,4) in \<open>simp_all add: words_def add.assoc\<close>)
  moreover have "fdt + word_of_nat (start + length a) = fdt + word_of_nat (40 + length (gap @ rsv @ a))"
    unfolding L(1) [symmetric] by (simp add: add.assoc)
  ultimately show ?thesis by (simp only: fdt_splice_struct_def) simp
qed

subsection \<open>Structure blocks\<close>

text \<open>The bytes of a sequence of tokens; the padding may be anything.\<close>

fun encodes :: "token list \<Rightarrow> u8 list \<Rightarrow> bool" where
  "encodes [] bs \<longleftrightarrow> bs = []"
| "encodes (t # ts) bs \<longleftrightarrow> (\<exists>pad rest. bs = (be32 (token_tag t) @ token_body t @ pad) @ rest \<and>
     4 + length (token_body t) + length pad = token_size t \<and> encodes ts rest)"

lemma encodes_length: "encodes ts bs \<Longrightarrow> length bs = tokens_size ts"
  by (induction ts arbitrary: bs) fastforce+

lemma encodes_append: "encodes (ts @ us) bs \<longleftrightarrow> (\<exists>a b. bs = a @ b \<and> encodes ts a \<and> encodes us b)"
proof (induction ts arbitrary: bs)
  case Nil
  then show ?case by simp
next
  case (Cons t ts)
  show ?case
  proof
    assume "encodes ((t # ts) @ us) bs"
    then obtain pad rest where r: "bs = (be32 (token_tag t) @ token_body t @ pad) @ rest"
      "4 + length (token_body t) + length pad = token_size t" "encodes (ts @ us) rest" by auto
    from r(3) obtain a b where "rest = a @ b" "encodes ts a" "encodes us b" using Cons by blast
    with r show "\<exists>a b. bs = a @ b \<and> encodes (t # ts) a \<and> encodes us b"
      by (intro exI [of _ "(be32 (token_tag t) @ token_body t @ pad) @ a"] exI [of _ b]) auto
  next
    assume "\<exists>a b. bs = a @ b \<and> encodes (t # ts) a \<and> encodes us b"
    then obtain pad rest b where "bs = ((be32 (token_tag t) @ token_body t @ pad) @ rest) @ b"
      "4 + length (token_body t) + length pad = token_size t" "encodes ts rest" "encodes us b" by auto
    moreover from this Cons have "encodes (ts @ us) (rest @ b)" by blast
    ultimately show "encodes ((t # ts) @ us) bs" by auto
  qed
qed

lemma layout_fits:
  assumes "layout m fdt room start st strs" "n + k \<le> length st"
  shows "fits m fdt n k" "struct_at m fdt n = fdt + word_of_nat (start + n)"
  using assms(2) layout_header(11) [OF assms(1)] layout_numbers [OF assms(1)] by (simp_all add: fits_def struct_at_def)

lemma encodes_tokens:
  assumes "layout m fdt room start st strs"
  shows "st = a @ b @ c \<Longrightarrow> encodes ts b \<Longrightarrow> \<forall>t \<in> set ts. token_ok t \<Longrightarrow> 4 dvd length a \<Longrightarrow> tokens_at m fdt (length a) ts"
proof (induction ts arbitrary: a b)
  case (Cons t ts)
  from Cons.prems(2) obtain pad rest where b: "b = (be32 (token_tag t) @ token_body t @ pad) @ rest"
    "4 + length (token_body t) + length pad = token_size t" "encodes ts rest" by auto
  let ?a = "a @ be32 (token_tag t) @ token_body t @ pad"
  have len: "length ?a = length a + token_size t" using b(2) by simp
  have dvd: "4 dvd length ?a" unfolding len using Cons.prems(4) token_size_bounds(2) by (intro dvd_add)
  have "tokens_at m fdt (length ?a) ts" by (rule Cons.IH [OF _ b(3) _ dvd]) (use Cons.prems(1,3) b(1) in simp_all)
  moreover have "token_at m fdt (length a) t"
  proof -
    have "length a + token_size t \<le> length st" using Cons.prems(1) b(1,2) by simp
    note f = layout_fits [OF assms this]
    have "stored m (fdt + word_of_nat start) (a @ (be32 (token_tag t) @ token_body t) @ pad @ rest @ c)"
      using layout_strings(2) [OF assms] Cons.prems(1) b(1) by simp
    then have "stored m (fdt + word_of_nat (start + length a)) (be32 (token_tag t) @ token_body t)"
      unfolding stored_append [of m _ a] by (simp add: add.assoc)
    with f Cons.prems(3,4) show ?thesis by (simp add: token_at_def)
  qed
  ultimately show ?case by (simp only: len tokens_at.simps)
qed simp

text \<open>The tree holds the tokens, with the strings and free space after them.\<close>

definition holds :: "mem \<Rightarrow> addr \<Rightarrow> nat \<Rightarrow> nat \<Rightarrow> token list \<Rightarrow> u8 list \<Rightarrow> bool" where
  "holds m fdt room start ts strs \<longleftrightarrow> (\<forall>t \<in> set ts. token_ok t) \<and> (\<exists>st. layout m fdt room start st strs \<and> encodes ts st)"

lemma holds_tree:
  assumes "holds m fdt room start ts strs"
  shows "tree_ok m fdt" "fdt_version m fdt = 17" "tokens_at m fdt 0 ts" "fdt_rw_probe fdt m = (0, m)"
    "struct_at m fdt n = fdt + word_of_nat (start + n)" "start + tokens_size ts + length strs \<le> room" "room < 2 ^ 31 - 1"
proof -
  obtain st where st: "layout m fdt room start st strs" "encodes ts st" "\<forall>t \<in> set ts. token_ok t"
    using assms by (auto simp: holds_def)
  show "tree_ok m fdt" "fdt_version m fdt = 17" "fdt_rw_probe fdt m = (0, m)" "room < 2 ^ 31 - 1"
    using layout_probe [OF st(1)] layout_header [OF st(1)] by simp_all
  show "tokens_at m fdt 0 ts" using encodes_tokens [OF st(1), of "[]" st "[]"] st(2,3) by simp
  show "start + tokens_size ts + length strs \<le> room" using layout_header(11) [OF st(1)] encodes_length [OF st(2)] by simp
  show "struct_at m fdt n = fdt + word_of_nat (start + n)" using layout_numbers(2) [OF st(1)] by (simp add: struct_at_def)
qed

text \<open>Making space between tokens, in the place of others, and removing tokens.\<close>

lemma splice_space:
  assumes "holds m fdt room start (ts @ olds @ us) strs" "start + tokens_size ts + k + tokens_size us + length strs \<le> room"
  shows "\<exists>m' a mid b. fdt_splice_struct fdt (struct_at m fdt (tokens_size ts)) (word_of_nat (tokens_size olds)) (word_of_nat k) m = (0, m') \<and>
     length mid = k \<and> encodes ts a \<and> encodes us b \<and> layout m' fdt room start (a @ mid @ b) strs \<and> same_outside m m' fdt room"
proof -
  obtain st where st: "layout m fdt room start st strs" "encodes (ts @ olds @ us) st"
    using assms(1) by (auto simp: holds_def)
  from st(2) obtain a old b where ab: "st = a @ old @ b" "encodes ts a" "encodes olds old" "encodes us b"
    by (auto simp: encodes_append)
  note len = encodes_length [OF ab(2)] encodes_length [OF ab(3)] encodes_length [OF ab(4)]
  have "start + length a + k + length b + length strs \<le> room" using assms(2) len by simp
  from splice_struct_layout [OF st(1) [unfolded ab(1)] this] show ?thesis
    using ab(2,4) len holds_tree(5) [OF assms(1)] by metis
qed

lemma splice_no_space:
  assumes "holds m fdt room start (ts @ olds @ us) strs" "room < start + tokens_size ts + k + tokens_size us + length strs"
    and "k < 2 ^ 31" "unat fdt + 2 ^ 32 \<le> 2 ^ 64"
  shows "fdt_splice_struct fdt (struct_at m fdt (tokens_size ts)) (word_of_nat (tokens_size olds)) (word_of_nat k) m = (- FDT_ERR_NOSPACE, m)"
proof -
  obtain a old b where lay: "layout m fdt room start (a @ old @ b) strs" and enc: "encodes ts a" "encodes olds old" "encodes us b"
    using assms(1) by (auto simp: holds_def encodes_append)
  note len = encodes_length [OF enc(1)] encodes_length [OF enc(2)] encodes_length [OF enc(3)]
  show ?thesis using splice_struct_no_space [OF lay _ assms(3,4)] assms(2) by (simp add: len holds_tree(5) [OF assms(1)])
qed

lemma splice_tokens:
  assumes "holds m fdt room start (ts @ olds @ us) strs"
  shows "\<exists>m'. fdt_splice_struct fdt (struct_at m fdt (tokens_size ts)) (word_of_nat (tokens_size olds)) 0 m = (0, m') \<and>
     holds m' fdt room start (ts @ us) strs \<and> same_outside m m' fdt room"
proof -
  have "start + tokens_size ts + 0 + tokens_size us + length strs \<le> room" using holds_tree(6) [OF assms] by simp
  from splice_space [OF assms this] obtain m' a b where
    "fdt_splice_struct fdt (struct_at m fdt (tokens_size ts)) (word_of_nat (tokens_size olds)) 0 m = (0, m')"
    "encodes ts a" "encodes us b" "layout m' fdt room start (a @ b) strs" "same_outside m m' fdt room" by auto
  with assms show ?thesis by (auto simp: holds_def encodes_append)
qed

subsection \<open>The end of a node\<close>

definition resume_end :: "mem \<Rightarrow> addr \<Rightarrow> nat \<Rightarrow> nat \<Rightarrow> i32 option" where
  "resume_end m fdt n k =
     (case next_node_loop m fdt (word_of_nat n) (Some (word_of_nat k)) of
        None \<Rightarrow> None | Some (offset, depth) \<Rightarrow> node_end_loop m fdt offset (the depth))"

lemma node_end_token:
  assumes "tree_ok m fdt" "token_at m fdt n (Begin_node name)" "k < 2 ^ 31"
  shows "node_end_loop m fdt (word_of_nat n) (word_of_nat k) = resume_end m fdt (n + token_size (Begin_node name)) k"
proof -
  have "0 \<le> sint (word_of_nat n :: i32)" "0 \<le> sint (word_of_nat k :: i32)"
    using node_offset_token(2) [OF assms(1,2)] sint_word_nat [of n] sint_word_nat [OF assms(3)] by simp_all
  then show ?thesis
    by (subst node_end_loop.simps) (simp add: fdt_next_node_token [OF assms(1,2)] resume_end_def del: of_nat_add)
qed

lemma resume_end_node:
  assumes "tree_ok m fdt" "token_at m fdt n (Begin_node name)" "k + 1 < 2 ^ 31"
  shows "resume_end m fdt n k = resume_end m fdt (n + token_size (Begin_node name)) (k + 1)"
proof -
  have "(word_of_nat k + 1 :: i32) = word_of_nat (k + 1)" by simp
  then show ?thesis
    using next_node_loop_tokens(2) [OF assms(1,2)] node_end_token [OF assms(1-3)]
    by (simp add: resume_end_def del: of_nat_add of_nat_Suc)
qed

interpretation end_walk: tree_walk resume_end
proof
  fix m fdt n nameoff v and k :: nat
  assume "tree_ok m fdt" "token_at m fdt n (Property nameoff v)" "k < 2 ^ 31"
  then show "resume_end m fdt n k = resume_end m fdt (n + token_size (Property nameoff v)) k"
    by (simp add: resume_end_def next_node_loop_tokens(1) del: of_nat_add)
next
  fix m fdt n and k :: nat
  assume "tree_ok m fdt" "token_at m fdt n End_node" "k + 1 < 2 ^ 31"
  then show "resume_end m fdt n (k + 1) = resume_end m fdt (n + token_size End_node) k"
    using next_node_loop_tokens(3) [of m fdt n k] by (simp add: resume_end_def del: of_nat_add of_nat_Suc)
next
  fix m fdt n name and k :: nat
  assume "tree_ok m fdt" "token_at m fdt n (Begin_node name)" "0 < k" "k + 1 < 2 ^ 31"
  then show "resume_end m fdt n k = resume_end m fdt (n + token_size (Begin_node name)) (k + 1)"
    by (intro resume_end_node)
qed

lemma node_end_bound:
  assumes "tree_ok m fdt" "tokens_at m fdt n (flatten x)"
  shows "n + tokens_size (flatten x) < 2 ^ 31"
proof -
  obtain ts where ts: "flatten x = ts @ [End_node]" by (cases x) auto
  then have "fits m fdt (n + tokens_size ts) (token_size End_node)" using assms(2) by (simp add: token_at_def)
  from fits_bound [OF assms(1) this] show ?thesis by (simp add: ts)
qed

lemma resume_end_forest:
  assumes "tree_ok m fdt"
  shows "tokens_at m fdt n (concat (map flatten xs)) \<Longrightarrow> n < 2 ^ 31 \<Longrightarrow>
   resume_end m fdt n 0 = resume_end m fdt (n + tokens_size (concat (map flatten xs))) 0"
proof (induction xs arbitrary: n)
  case (Cons x xs)
  obtain name properties subs where x: "x = Node name properties subs" by (cases x)
  have at: "tokens_at m fdt n (flatten x)" "token_at m fdt n (Begin_node name)" using Cons.prems(1) by (simp_all add: x)
  have "resume_end m fdt n 0 = resume_end m fdt (n + token_size (Begin_node name)) 1"
    using resume_end_node [OF assms at(2), of 0] by simp
  also have "\<dots> = resume_end m fdt (n + tokens_size (flatten x)) 0"
    using end_walk.leave_node [OF assms at(1) [unfolded x] Cons.prems(2)] by (simp add: x)
  also have "\<dots> = resume_end m fdt (n + tokens_size (concat (map flatten (x # xs)))) 0"
    using Cons.IH [of "n + tokens_size (flatten x)"] Cons.prems(1) node_end_bound [OF assms at(1)] by (simp add: add.assoc)
  finally show ?case .
qed simp

lemma node_end_tree:
  assumes "tree_ok m fdt" "tokens_at m fdt n (flatten x)"
  shows "fdt_node_end_offset m fdt (word_of_nat n) = Some (word_of_nat (n + tokens_size (flatten x)))"
proof -
  obtain name properties subs where x: "x = Node name properties subs" by (cases x)
  let ?props = "map (\<lambda>(nameoff, v). Property nameoff v) properties" and ?subs = "concat (map flatten subs)"
  let ?n = "n + token_size (Begin_node name)"
  have at: "token_at m fdt n (Begin_node name)" "tokens_at m fdt ?n ?props" "tokens_at m fdt (?n + tokens_size ?props) ?subs"
    "token_at m fdt (?n + tokens_size ?props + tokens_size ?subs) End_node"
    using assms(2) by (simp_all add: x add.assoc)
  have bound: "?n + tokens_size ?props < 2 ^ 31" using node_end_bound [OF assms] by (simp add: x)
  have "fdt_node_end_offset m fdt (word_of_nat n) = resume_end m fdt ?n 0"
    using node_end_token [OF assms(1) at(1), of 0] by (simp add: fdt_node_end_offset_def)
  also have "\<dots> = resume_end m fdt (?n + tokens_size ?props) 0" using end_walk.skip_properties [OF assms(1) at(2), of 0] by simp
  also have "\<dots> = resume_end m fdt (?n + tokens_size ?props + tokens_size ?subs) 0"
    by (rule resume_end_forest [OF assms(1) at(3) bound])
  also have "\<dots> = Some (word_of_nat (n + tokens_size (flatten x)))"
    using next_node_loop_tokens(4) [OF assms(1) at(4)]
    by (simp add: resume_end_def x node_end_loop.simps [of _ _ _ "- 1"] add.assoc del: of_nat_add)
  finally show ?thesis .
qed

subsection \<open>Replacing subtrees\<close>

text \<open>The tree with the node at an offset replaced by other nodes.\<close>

fun tree_subst :: "nat \<Rightarrow> dt_node list \<Rightarrow> nat \<Rightarrow> dt_node \<Rightarrow> dt_node list"
  and forest_subst :: "nat \<Rightarrow> dt_node list \<Rightarrow> nat \<Rightarrow> dt_node list \<Rightarrow> dt_node list" where
  "tree_subst off ys n (Node name properties subs) = (if n = off then ys
     else [Node name properties (forest_subst off ys (subs_start n (Node name properties subs)) subs)])"
| "forest_subst off ys n [] = []"
| "forest_subst off ys n (x # xs) = tree_subst off ys n x @ forest_subst off ys (n + tokens_size (flatten x)) xs"

lemma tree_subst_other:
  "off < n \<or> n + tokens_size (flatten x) \<le> off \<Longrightarrow> tree_subst off ys n x = [x]"
  "off < n \<or> n + tokens_size (concat (map flatten xs)) \<le> off \<Longrightarrow> forest_subst off ys n xs = xs"
proof (induction off ys n x and off ys n xs rule: tree_subst_forest_subst.induct)
  case (1 off ys n name properties subs)
  have "off < subs_start n (Node name properties subs) \<or>
      subs_start n (Node name properties subs) + tokens_size (concat (map flatten subs)) \<le> off"
    using 1(2) by (auto simp: subs_start_def)
  moreover have "n \<noteq> off" using 1(2) token_size_bounds(1) [of End_node] by auto
  ultimately show ?case using 1 by simp
next
  case (3 off ys n x xs)
  then show ?case by (auto simp: add.assoc)
qed simp

lemma forest_nodes_offsets: "(off, x) \<in> set (tree_nodes n root) \<Longrightarrow> n \<le> off" "(off, x) \<in> set (forest_nodes n xs) \<Longrightarrow> n \<le> off"
  by (induction n root and n xs rule: tree_nodes_forest_nodes.induct) (fastforce simp: subs_start_def)+

lemma tree_subst_flatten:
  "(off, x) \<in> set (tree_nodes n root) \<Longrightarrow> \<exists>ts us. flatten root = ts @ flatten x @ us \<and> n + tokens_size ts = off \<and>
     concat (map flatten (tree_subst off ys n root)) = ts @ concat (map flatten ys) @ us"
  "(off, x) \<in> set (forest_nodes n xs) \<Longrightarrow> \<exists>ts us. concat (map flatten xs) = ts @ flatten x @ us \<and> n + tokens_size ts = off \<and>
     concat (map flatten (forest_subst off ys n xs)) = ts @ concat (map flatten ys) @ us"
proof (induction n root and n xs rule: tree_nodes_forest_nodes.induct)
  case (1 n name properties subs)
  let ?root = "Node name properties subs"
  show ?case
  proof (cases "n = off")
    case True
    have "off < subs_start n ?root" using token_size_bounds(1) [of "Begin_node name"] True by (auto simp: subs_start_def)
    then have "(off, x) \<notin> set (forest_nodes (subs_start n ?root) subs)" using forest_nodes_offsets by fastforce
    with 1(2) True have "x = ?root" by auto
    with True show ?thesis by (intro exI [of _ "[]"]) simp
  next
    case False
    with 1(2) have "(off, x) \<in> set (forest_nodes (subs_start n ?root) subs)" by auto
    from 1(1) [OF this] obtain ts us where ih: "concat (map flatten subs) = ts @ flatten x @ us" "subs_start n ?root + tokens_size ts = off"
      "concat (map flatten (forest_subst off ys (subs_start n ?root) subs)) = ts @ concat (map flatten ys) @ us" by blast
    let ?pre = "Begin_node name # map (\<lambda>(nameoff, v). Property nameoff v) properties"
    have "flatten ?root = (?pre @ ts) @ flatten x @ us @ [End_node]" using ih(1) by simp
    moreover have "n + tokens_size (?pre @ ts) = off" using ih(2) by (simp add: subs_start_def)
    moreover have "concat (map flatten (tree_subst off ys n ?root)) = (?pre @ ts) @ concat (map flatten ys) @ us @ [End_node]"
      using ih(3) False by simp
    ultimately show ?thesis by blast
  qed
next
  case (2 n)
  then show ?case by simp
next
  case (3 n y xs)
  consider "(off, x) \<in> set (tree_nodes n y)" | "(off, x) \<in> set (forest_nodes (n + tokens_size (flatten y)) xs)" using 3(3) by auto
  then show ?case
  proof cases
    case 1
    from 3(1) [OF this] obtain ts us where ih: "flatten y = ts @ flatten x @ us" "n + tokens_size ts = off"
      "concat (map flatten (tree_subst off ys n y)) = ts @ concat (map flatten ys) @ us" by blast
    have "0 < tokens_size (flatten x)" using token_size_bounds(1) [of End_node] by (cases x) simp
    then have "forest_subst off ys (n + tokens_size (flatten y)) xs = xs" using ih(1,2) by (intro tree_subst_other(2)) simp
    with ih show ?thesis by (intro exI [of _ ts] exI [of _ "us @ concat (map flatten xs)"]) simp
  next
    case 2
    from 3(2) [OF this] obtain ts us where ih: "concat (map flatten xs) = ts @ flatten x @ us" "n + tokens_size (flatten y) + tokens_size ts = off"
      "concat (map flatten (forest_subst off ys (n + tokens_size (flatten y)) xs)) = ts @ concat (map flatten ys) @ us" by blast
    have "tree_subst off ys n y = [y]" using ih(2) by (intro tree_subst_other(1)) simp
    with ih show ?thesis by (intro exI [of _ "flatten y @ ts"] exI [of _ us]) simp
  qed
qed

subsection \<open>Encodings\<close>

text \<open>The encoding of a tree, followed by free space, is such a layout.\<close>

lemma encodes_token_bytes: "encodes ts (concat (map token_bytes ts))"
proof (induction ts)
  case (Cons t ts)
  then show ?case unfolding encodes.simps using token_size_bounds(1) [of t]
    by (intro exI [of _ "replicate (token_size t - (4 + length (token_body t))) 0"] exI [of _ "concat (map token_bytes ts)"])
      (simp add: token_bytes_def [of t])
qed simp

definition encode_room :: "dt_node \<Rightarrow> u8 list \<Rightarrow> nat \<Rightarrow> u8 list" where
  "encode_room x strs room =
     (let z = length (struct_bytes x)
      in concat (map be32 (words room 16 0 0 16 z (length strs))) @
         replicate 16 0 @ struct_bytes x @ strs @ replicate (room - (56 + z + length strs)) 0)"

lemma holds_encode:
  assumes "56 + length (struct_bytes x) + length strs \<le> room" "room < 2 ^ 31 - 1" "\<forall>t \<in> set (flatten x). token_ok t"
  shows "holds (blob_mem (encode_room x strs room)) 0 room 56 (flatten x @ [End]) strs"
proof -
  let ?z = "length (struct_bytes x)" and ?slack = "replicate (room - (56 + length (struct_bytes x) + length strs)) 0 :: u8 list"
  let ?m = "blob_mem (encode_room x strs room)"
  have len: "length (words room 16 0 0 16 ?z (length strs)) = 10" by (simp add: words_def)
  have "length (encode_room x strs room) = room" using assms(1) by (simp add: encode_room_def Let_def len)
  then have "stored ?m 0 (encode_room x strs room)" using assms(2) by (intro stored_blob_mem) simp
  then have "blob ?m 0 (words room 16 0 0 16 ?z (length strs)) (replicate 16 0 @ struct_bytes x @ strs @ ?slack)"
    using assms(1,2) by (simp add: blob_def len encode_room_def Let_def)
  then have "layout ?m 0 room 56 (struct_bytes x) strs"
    unfolding layout_def using assms(1,2)
    by (intro exI [of _ 16] exI [of _ 0] exI [of _ "[]"] exI [of _ "replicate 16 0"] exI [of _ ?slack]) (simp add: word_le_nat_alt)
  moreover have "encodes (flatten x @ [End]) (struct_bytes x)" unfolding struct_bytes_def by (rule encodes_token_bytes)
  ultimately show ?thesis using assms(3) by (auto simp: holds_def token_ok_def)
qed

subsection \<open>Deleting a node\<close>

lemma fdt_del_node_tokens:
  assumes "holds m fdt room start (ts @ flatten x @ us) strs"
  shows "\<exists>m'. fdt_del_node fdt (word_of_nat (tokens_size ts)) m = Some (0, m') \<and> holds m' fdt room start (ts @ us) strs \<and>
     same_outside m m' fdt room"
proof -
  let ?n = "tokens_size ts"
  note h = holds_tree [OF assms]
  have at: "tokens_at m fdt ?n (flatten x)" using h(3) by (simp add: tokens_at_append)
  have bound: "?n + tokens_size (flatten x) < 2 ^ 31" by (rule node_end_bound [OF h(1) at])
  have diff: "(word_of_nat (?n + tokens_size (flatten x)) - word_of_nat ?n :: i32) = word_of_nat (tokens_size (flatten x))" by simp
  obtain m' where "fdt_splice_struct fdt (struct_at m fdt ?n) (word_of_nat (tokens_size (flatten x))) 0 m = (0, m')"
    "holds m' fdt room start (ts @ us) strs" "same_outside m m' fdt room" using splice_tokens [OF assms] by blast
  moreover have "0 \<le> sint (word_of_nat (?n + tokens_size (flatten x)) :: i32)" using sint_word_nat [OF bound] by simp
  ultimately show ?thesis
    using struct_ptr_nat [of ?n m fdt] bound
    by (simp add: fdt_del_node_def if_ok_def h(4) node_end_tree [OF h(1) at] diff del: of_nat_add)
qed

subsection \<open>Writes into the structure block\<close>

text \<open>What the caller passes lies outside of the tree.\<close>

definition outside :: "addr \<Rightarrow> nat \<Rightarrow> addr \<Rightarrow> nat \<Rightarrow> bool" where
  "outside p k fdt room \<longleftrightarrow> (\<forall>i < k. room \<le> unat (p + word_of_nat i - fdt))"

lemma outside_stored:
  assumes "stored m p bs" "outside p (length bs) fdt room" "same_outside m m' fdt room"
  shows "stored m' p bs"
  using assms by (simp add: stored_nth outside_def same_outside_def)

lemma layout_fdt32:
  assumes "layout m fdt room start (a @ xs @ b) strs" "length xs = 4"
  shows "layout (fdt32_st (fdt + word_of_nat (start + length a)) w m) fdt room start (a @ be32 w @ b) strs \<and>
     same_outside m (fdt32_st (fdt + word_of_nat (start + length a)) w m) fdt room"
  by (rule layout_write [OF assms(1), of a xs "b @ strs" _ _ "be32 w"]) (use assms(2) fdt32_st_facts in simp_all)

lemma layout_memset:
  assumes "layout m fdt room start (a @ xs @ b) strs"
  shows "layout (memset (fdt + word_of_nat (start + length a)) 0 (word_of_nat (length xs)) m) fdt room start
      (a @ replicate (length xs) 0 @ b) strs \<and>
     same_outside m (memset (fdt + word_of_nat (start + length a)) 0 (word_of_nat (length xs)) m) fdt room"
proof (rule layout_write [OF assms, of a xs "b @ strs" _ _ "replicate (length xs) 0"])
  have n: "unat (word_of_nat (length xs) :: u64) = length xs" "length xs < 2 ^ 64"
    using layout_header(11,12) [OF assms] by (auto intro!: unat_of_nat_no_wrap)
  let ?p = "fdt + word_of_nat (start + length a)"
  show "same_outside m (memset ?p 0 (word_of_nat (length xs)) m) ?p (length (replicate (length xs) 0))"
    by (simp add: same_outside_def memset_at n)
  have "unat (word_of_nat i :: u64) = i" if "i < length xs" for i using that n(2) by (intro unat_of_nat_no_wrap) simp
  then show "stored (memset ?p 0 (word_of_nat (length xs)) m) ?p (replicate (length xs) 0)"
    by (auto simp: stored_nth memset_at n(1))
qed simp_all

lemma layout_memcpy:
  assumes lay: "layout m fdt room start st strs" and parts: "st @ strs = a @ xs @ b" "st' @ strs' = a @ ys @ b"
    and len: "length st' = length st" "length xs = length ys" and src: "stored m p ys" "outside p (length ys) fdt room"
  shows "layout (memcpy (fdt + word_of_nat (start + length a)) p (word_of_nat (length ys)) m) fdt room start st' strs' \<and>
     same_outside m (memcpy (fdt + word_of_nat (start + length a)) p (word_of_nat (length ys)) m) fdt room"
proof -
  let ?d = "fdt + word_of_nat (start + length a)"
  have n: "start + length a + length ys \<le> room" "room < 2 ^ 31 - 1"
    using arg_cong [OF parts(1), of length] layout_header(11,12) [OF lay] len by simp_all
  then have u: "unat (word_of_nat (length ys) :: u64) = length ys" by (intro unat_of_nat_no_wrap) simp
  have "?d + word_of_nat j \<noteq> p + word_of_nat i" if "i < length ys" "j < i" for i j
  proof
    assume eq: "?d + word_of_nat j = p + word_of_nat i"
    have "unat (p + word_of_nat i - fdt) = unat (word_of_nat (start + length a + j) :: u64)"
      unfolding eq [symmetric] by (simp add: add.assoc)
    also have "\<dots> = start + length a + j" using that n by (intro unat_of_nat_no_wrap) simp
    finally show False using src(2) that n(1) by (auto simp: outside_def)
  qed
  then have "memcpy ?d p (word_of_nat (length ys)) m = copied (length ys) ?d p m"
    using memcpy_copied [of "word_of_nat (length ys)" ?d p m] by (simp add: u forward_ok_def)
  moreover have "length ys < 2 ^ 64" using n by simp
  ultimately show ?thesis
    using copied_facts [of "length ys"] src(1) by (intro layout_write [OF lay parts len]) simp_all
qed

subsection \<open>Adding a node\<close>

lemma written_node:
  assumes "layout m fdt room start (a @ mid @ b) strs" "length mid = token_size (Begin_node name) + 4"
    and "stored m p name" "outside p (length name) fdt room" "encodes ts a" "encodes us b"
  defines "nh \<equiv> fdt + word_of_nat (start + length a)" and "z \<equiv> token_size (Begin_node name)"
  defines "m' \<equiv> fdt32_st (nh + word_of_nat z) FDT_END_NODE (memcpy (nh + 4) p (word_of_nat (length name))
     (memset (nh + 4) 0 (word_of_nat (z - 4)) (fdt32_st nh FDT_BEGIN_NODE m)))"
  shows "\<exists>st. layout m' fdt room start st strs \<and> encodes (ts @ flatten (Node name [] []) @ us) st \<and> same_outside m m' fdt room"
proof -
  let ?m1 = "fdt32_st nh FDT_BEGIN_NODE m" and ?pad = "replicate (z - (4 + length name)) (0 :: u8)"
  let ?m2 = "memset (nh + 4) 0 (word_of_nat (z - 4)) ?m1"
  let ?m3 = "memcpy (nh + 4) p (word_of_nat (length name)) ?m2"
  have z: "5 + length name \<le> z" using token_size_bounds(1) [of "Begin_node name"] by (simp add: z_def)
  define w0 nm w1 where "w0 = take 4 mid" and "nm = take (z - 4) (drop 4 mid)" and "w1 = drop z mid"
  have "drop (z - 4) (drop 4 mid) = w1" using z by (simp add: w1_def add.commute)
  then have mid: "mid = w0 @ nm @ w1" unfolding w0_def nm_def by (metis append_take_drop_id)
  have len: "length w0 = 4" "length nm = z - 4" "length w1 = 4" using assms(2) z by (simp_all add: w0_def nm_def w1_def z_def)
  have ptr: "nh + 4 = fdt + word_of_nat (start + length (a @ be32 FDT_BEGIN_NODE))"
    "nh + word_of_nat z = fdt + word_of_nat (start + length (a @ be32 FDT_BEGIN_NODE @ name @ ?pad))"
    using z by (simp_all add: nh_def add.assoc)
  have s1: "layout ?m1 fdt room start (a @ be32 FDT_BEGIN_NODE @ nm @ w1 @ b) strs \<and> same_outside m ?m1 fdt room"
    using layout_fdt32 [of m fdt room start a w0 "nm @ w1 @ b" strs] assms(1) len(1) by (simp add: mid nh_def)
  have s2: "layout ?m2 fdt room start (a @ be32 FDT_BEGIN_NODE @ replicate (z - 4) 0 @ w1 @ b) strs \<and> same_outside ?m1 ?m2 fdt room"
    using layout_memset [of ?m1 fdt room start "a @ be32 FDT_BEGIN_NODE" nm "w1 @ b" strs] s1 by (simp only: ptr len append_assoc)
  have "replicate (z - 4) (0 :: u8) = replicate (length name) 0 @ ?pad" using z by (simp flip: replicate_add)
  moreover have "stored ?m2 p name" using assms(3,4) s1 s2 by (blast intro: outside_stored same_outside_trans)
  ultimately have s3: "layout ?m3 fdt room start (a @ be32 FDT_BEGIN_NODE @ name @ ?pad @ w1 @ b) strs \<and> same_outside ?m2 ?m3 fdt room"
    using layout_memcpy [of ?m2 fdt room start "a @ be32 FDT_BEGIN_NODE @ replicate (length name) 0 @ ?pad @ w1 @ b" strs
        "a @ be32 FDT_BEGIN_NODE" "replicate (length name) 0" "?pad @ w1 @ b @ strs" "a @ be32 FDT_BEGIN_NODE @ name @ ?pad @ w1 @ b" strs name p]
      s2 assms(4) by (simp only: ptr append_assoc length_replicate length_append)
  have s4: "layout m' fdt room start (a @ be32 FDT_BEGIN_NODE @ name @ ?pad @ be32 FDT_END_NODE @ b) strs \<and> same_outside ?m3 m' fdt room"
    using layout_fdt32 [of ?m3 fdt room start "a @ be32 FDT_BEGIN_NODE @ name @ ?pad" w1 b strs] s3 len(3)
    by (simp only: ptr m'_def append_assoc)
  have "same_outside m m' fdt room" using s1 s2 s3 s4 by (blast intro: same_outside_trans)
  moreover have "?pad = 0 # replicate (z - (5 + length name)) 0" using z by (simp flip: replicate_Suc add: Suc_diff_le)
  then have "encodes (flatten (Node name [] [])) (be32 FDT_BEGIN_NODE @ name @ ?pad @ be32 FDT_END_NODE)"
    using z by (auto simp: z_def [symmetric] token_size_def [of End_node] intro!: exI [of _ "replicate (z - (5 + length name)) 0"] exI [of _ "be32 FDT_END_NODE"])
  then have "encodes (ts @ flatten (Node name [] []) @ us) (a @ (be32 FDT_BEGIN_NODE @ name @ ?pad @ be32 FDT_END_NODE) @ b)"
    using assms(5,6) unfolding encodes_append by blast
  ultimately show ?thesis using s4 by (auto simp only: append_assoc)
qed

lemma subnode_place_properties:
  assumes "tree_ok m fdt"
  shows "tokens_at m fdt n (map (\<lambda>(nameoff, v). Property nameoff v) ps) \<Longrightarrow>
     token_at m fdt (n + tokens_size (map (\<lambda>(nameoff, v). Property nameoff v) ps)) t \<Longrightarrow>
     t = End_node \<or> (\<exists>name. t = Begin_node name) \<Longrightarrow>
   subnode_place m fdt (word_of_nat n) = Some (word_of_nat (n + tokens_size (map (\<lambda>(nameoff, v). Property nameoff v) ps)))"
proof (induction ps arbitrary: n)
  case Nil
  then show ?case using next_tag_token [OF assms, of n t] by (subst subnode_place.simps) auto
next
  case (Cons p ps)
  obtain nameoff v where p: "p = (nameoff, v)" by (cases p)
  have at: "token_at m fdt n (Property nameoff v)" using Cons.prems(1) by (simp add: p)
  have "subnode_place m fdt (word_of_nat n) = subnode_place m fdt (word_of_nat (n + token_size (Property nameoff v)))"
    using next_tag_token [OF assms at] by (subst subnode_place.simps) simp
  then show ?case using Cons.IH [of "n + token_size (Property nameoff v)"] Cons.prems by (simp add: p add.assoc)
qed

lemma subnode_place_tree:
  assumes "tree_ok m fdt" "tokens_at m fdt n (flatten x)"
  shows "subnode_place m fdt (snd (fdt_next_tag m fdt (word_of_nat n))) = Some (word_of_nat (subs_start n x))"
proof -
  obtain name properties subs where x: "x = Node name properties subs" by (cases x)
  let ?props = "map (\<lambda>(nameoff, v). Property nameoff v) properties" and ?n = "n + token_size (Begin_node name)"
  have at: "token_at m fdt n (Begin_node name)" "tokens_at m fdt ?n ?props"
    "tokens_at m fdt (?n + tokens_size ?props) (concat (map flatten subs) @ [End_node])"
    using assms(2) by (simp_all add: x add.assoc)
  obtain t ts where t: "concat (map flatten subs) @ [End_node] = t # ts" "t = End_node \<or> (\<exists>name. t = Begin_node name)"
    by (cases subs; cases "hd subs") auto
  show ?thesis
    using subnode_place_properties [OF assms(1) at(2) _ t(2)] at(3) next_tag_token [OF assms(1) at(1)]
    by (simp add: t(1) x subs_start_def add.assoc)
qed

lemma subnode_taken:
  assumes "tree_ok m fdt" "tokens_at m fdt n (flatten x)" "matching s (subs_start n x) (node_subs x) \<noteq> []"
  shows "0 \<le> sint (offset_result (map fst (matching s (subs_start n x) (node_subs x))))"
proof -
  obtain off y rest where y: "matching s (subs_start n x) (node_subs x) = (off, y) # rest" using assms(3) by (cases "matching s (subs_start n x) (node_subs x)") auto
  then have "tokens_at m fdt off (flatten y)"
    using subs_at(3) [OF assms(2)] by (intro matching_at [of _ _ s "subs_start n x" "node_subs x"]) simp_all
  from node_end_bound [OF assms(1) this] have "off < 2 ^ 31" by simp
  from sint_word_nat [OF this] show ?thesis by (simp add: y offset_result_def)
qed

lemma fdt_add_subnode_tokens:
  assumes hold: "holds m fdt room start (ts @ flatten x @ us) strs" and name: "stored m p name" "0 \<notin> set name"
      "outside p (length name) fdt room" "length name < 2 ^ 30" and low: "unat fdt + 2 ^ 32 \<le> 2 ^ 64"
    and x: "x = Node nm properties subs"
  defines "n \<equiv> tokens_size ts" and "new \<equiv> Node name [] []"
  defines "result \<equiv> fdt_add_subnode_namelen fdt (word_of_nat n) p (word_of_nat (length name)) m"
  shows "matching name (subs_start n x) subs \<noteq> [] \<Longrightarrow> result = Some (- FDT_ERR_EXISTS, m)"
    and "matching name (subs_start n x) subs = [] \<Longrightarrow>
      room < start + tokens_size (ts @ flatten x @ us) + tokens_size (flatten new) + length strs \<Longrightarrow> result = Some (- FDT_ERR_NOSPACE, m)"
    and "matching name (subs_start n x) subs = [] \<Longrightarrow>
      start + tokens_size (ts @ flatten x @ us) + tokens_size (flatten new) + length strs \<le> room \<Longrightarrow>
      \<exists>m'. result = Some (word_of_nat (subs_start n x), m') \<and>
        holds m' fdt room start (ts @ flatten (Node nm properties (new # subs)) @ us) strs \<and> same_outside m m' fdt room"
proof -
  note h = holds_tree [OF hold]
  have at: "tokens_at m fdt n (flatten x)" using h(3) by (simp add: n_def)
  have bytes: "bytes_at m p (unat (word_of_nat (length name) :: i32)) = name"
    using name(1,4) by (simp add: stored_def unat_offset_nat)
  note search = subnode_offset_tree [OF h(1) at, of name]
  have subs: "node_subs x = subs" by (simp add: x)
  let ?found = "matching name (subs_start n x) subs"
  show "result = Some (- FDT_ERR_EXISTS, m)" if "?found \<noteq> []"
    using subnode_taken [OF h(1) at, of name] that unfolding result_def
    by (simp add: fdt_add_subnode_namelen_def if_ok_def h(4) bytes search subs)
  let ?z = "token_size (Begin_node name)" and ?pre = "ts @ Begin_node nm # map (\<lambda>(nameoff, v). Property nameoff v) properties"
  let ?post = "concat (map flatten subs) @ End_node # us"
  have toks: "ts @ flatten x @ us = ?pre @ [] @ ?post" by (simp add: x)
  have pre: "tokens_size ?pre = subs_start n x" by (simp add: x n_def subs_start_def)
  have "(8 + length name) div 4 * 4 = 4 + (length name + 4) div 4 * 4" by presburger
  then have z: "token_size (Begin_node name) + 4 < 2 ^ 31" "?z = 4 + (length name + 4) div 4 * 4"
    using name(4) by (simp_all add: token_size_def)
  have new: "tokens_size (flatten new) = ?z + 4" by (simp add: new_def token_size_def [of End_node])
  have sp: "subs_start n x < 2 ^ 31" by (rule siblings_bound [OF h(1) subs_at(3) [OF at]])
  have nodelen: "4 + FDT_TAGALIGN (word_of_nat (length name) + 1) + 4 = (word_of_nat (?z + 4) :: i32)"
    using TAGALIGN_nat [of "length name + 1"] name(4) unfolding z(2) by (simp add: algebra_simps)
  let ?nh = "struct_at m fdt (subs_start n x)"
  define fill where "fill m1 = fdt32_st (?nh + word_of_nat ?z) FDT_END_NODE (memcpy (?nh + 4) p (word_of_nat (length name))
     (memset (?nh + 4) 0 (word_of_nat (?z - 4)) (fdt32_st ?nh FDT_BEGIN_NODE m1)))" for m1
  have align: "scast (FDT_TAGALIGN (word_of_nat (length name) + 1)) = (word_of_nat (?z - 4) :: u64)"
    using TAGALIGN_nat [of "length name + 1"] scast_nat [of "?z - 4"] z name(4) by (simp add: add.commute)
  have casts: "scast (word_of_nat (length name) :: i32) = (word_of_nat (length name) :: u64)"
    "a + scast (word_of_nat (?z + 4) :: i32) - 4 = a + word_of_nat ?z" for a :: u64
    using scast_nat [of "length name"] name(4) scast_nat [OF z(1)] by simp_all
  have calls: "result = if_ok (fdt_splice_struct fdt ?nh 0 (word_of_nat (?z + 4)) m)
      (\<lambda>m1. Some (word_of_nat (subs_start n x), fill m1))" if "?found = []"
    using that unfolding result_def fill_def
    by (simp add: fdt_add_subnode_namelen_def if_ok_def [of "(0, m)"] h(4) bytes search subs offset_result_def subnode_place_tree [OF h(1) at]
        struct_ptr_nat [OF sp] nodelen Let_def casts align del: of_nat_add)
  have hold': "holds m fdt room start (?pre @ [] @ ?post) strs" using hold toks by simp
  have size: "tokens_size (ts @ flatten x @ us) = tokens_size ?pre + tokens_size ?post" unfolding toks by simp
  show "result = Some (- FDT_ERR_NOSPACE, m)"
    if full: "?found = []" "room < start + tokens_size (ts @ flatten x @ us) + tokens_size (flatten new) + length strs"
  proof -
    have "room < start + tokens_size ?pre + (?z + 4) + tokens_size ?post + length strs" using full(2) by (simp only: size new)
    from splice_no_space [OF hold' this z(1) low, unfolded pre] show ?thesis unfolding calls [OF full(1)] by (simp add: if_ok_def)
  qed
  assume free: "?found = []" "start + tokens_size (ts @ flatten x @ us) + tokens_size (flatten new) + length strs \<le> room"
  then have "start + tokens_size ?pre + (?z + 4) + tokens_size ?post + length strs \<le> room" by (simp only: size new)
  from splice_space [OF hold' this, unfolded pre] obtain m1 a mid b where m1: "fdt_splice_struct fdt ?nh 0 (word_of_nat (?z + 4)) m = (0, m1)"
    "length mid = ?z + 4" "encodes ?pre a" "encodes ?post b" "layout m1 fdt room start (a @ mid @ b) strs" "same_outside m m1 fdt room"
    by auto
  have nh: "?nh = fdt + word_of_nat (start + length a)" using h(5) by (simp only: encodes_length [OF m1(3)] pre)
  have "stored m1 p name" by (rule outside_stored [OF name(1,3) m1(6)])
  from written_node [OF m1(5,2) this name(3) m1(3,4), folded nh] obtain st where
    st: "layout (fill m1) fdt room start st strs" "encodes (?pre @ flatten new @ ?post) st" "same_outside m1 (fill m1) fdt room"
    unfolding fill_def new_def by blast
  have toks': "?pre @ flatten new @ ?post = ts @ flatten (Node nm properties (new # subs)) @ us" by simp
  have "\<forall>t \<in> set (ts @ flatten (Node nm properties (new # subs)) @ us). token_ok t"
    using hold name(2) by (auto simp: holds_def x new_def token_ok_def)
  with st toks' have "holds (fill m1) fdt room start (ts @ flatten (Node nm properties (new # subs)) @ us) strs"
    unfolding holds_def by metis
  moreover have "same_outside m (fill m1) fdt room" using m1(6) st(3) by (rule same_outside_trans)
  ultimately show "\<exists>m'. result = Some (word_of_nat (subs_start n x), m') \<and>
      holds m' fdt room start (ts @ flatten (Node nm properties (new # subs)) @ us) strs \<and> same_outside m m' fdt room"
    unfolding calls [OF free(1)] m1(1) if_ok_def by simp
qed

subsection \<open>Edits of the tree\<close>

lemma fdt_del_node_tree:
  assumes "holds m fdt room start (flatten root @ [End]) strs" "(off, x) \<in> set (tree_nodes 0 root)"
  shows "\<exists>m'. fdt_del_node fdt (word_of_nat off) m = Some (0, m') \<and>
     holds m' fdt room start (concat (map flatten (tree_subst off [] 0 root)) @ [End]) strs \<and> same_outside m m' fdt room"
proof -
  from tree_subst_flatten(1) [OF assms(2), of "[]"] obtain ts us where t: "flatten root = ts @ flatten x @ us" "tokens_size ts = off"
    "concat (map flatten (tree_subst off [] 0 root)) = ts @ us" by auto
  have "holds m fdt room start (ts @ flatten x @ us @ [End]) strs" using assms(1) by (simp add: t(1))
  from fdt_del_node_tokens [OF this] show ?thesis by (simp add: t(2,3))
qed

lemma fdt_add_subnode_tree:
  assumes hold: "holds m fdt room start (flatten root @ [End]) strs" and x: "(off, Node nm properties subs) \<in> set (tree_nodes 0 root)"
    and name: "stored m p name" "0 \<notin> set name" "outside p (length name) fdt room" "length name < 2 ^ 30"
    and low: "unat fdt + 2 ^ 32 \<le> 2 ^ 64"
  defines "result \<equiv> fdt_add_subnode_namelen fdt (word_of_nat off) p (word_of_nat (length name)) m"
    and "place \<equiv> subs_start off (Node nm properties subs)"
    and "needed \<equiv> start + tokens_size (flatten root @ [End]) + tokens_size (flatten (Node name [] [])) + length strs"
  shows "matching name place subs \<noteq> [] \<Longrightarrow> result = Some (- FDT_ERR_EXISTS, m)"
    and "matching name place subs = [] \<Longrightarrow> room < needed \<Longrightarrow> result = Some (- FDT_ERR_NOSPACE, m)"
    and "matching name place subs = [] \<Longrightarrow> needed \<le> room \<Longrightarrow>
      \<exists>m'. result = Some (word_of_nat place, m') \<and>
        holds m' fdt room start (concat (map flatten (tree_subst off [Node nm properties (Node name [] [] # subs)] 0 root)) @ [End]) strs \<and>
        same_outside m m' fdt room"
proof -
  let ?x = "Node nm properties subs" and ?y = "Node nm properties (Node name [] [] # subs)"
  from tree_subst_flatten(1) [OF x, of "[?y]"] obtain ts us where t: "flatten root = ts @ flatten ?x @ us" "tokens_size ts = off"
    "concat (map flatten (tree_subst off [?y] 0 root)) = ts @ flatten ?y @ us" by auto
  have hold': "holds m fdt room start (ts @ flatten ?x @ us @ [End]) strs" using hold by (simp add: t(1))
  have toks: "flatten root @ [End] = ts @ flatten ?x @ us @ [End]" by (simp add: t(1))
  note add = fdt_add_subnode_tokens [OF hold' name low refl, unfolded t(2), folded toks, folded place_def result_def, folded needed_def]
  show "matching name place subs \<noteq> [] \<Longrightarrow> result = Some (- FDT_ERR_EXISTS, m)"
    "matching name place subs = [] \<Longrightarrow> room < needed \<Longrightarrow> result = Some (- FDT_ERR_NOSPACE, m)"
    by (fact add)+
  show "\<exists>m'. result = Some (word_of_nat place, m') \<and>
        holds m' fdt room start (concat (map flatten (tree_subst off [?y] 0 root)) @ [End]) strs \<and> same_outside m m' fdt room"
    if "matching name place subs = []" "needed \<le> room"
    using add(3) [OF that] unfolding t(3) by (simp only: append_assoc)
qed

text \<open>Only the memory of the tree matters.\<close>

lemma holds_same:
  assumes "holds m fdt room start ts strs" "\<forall>i < room. m' (fdt + word_of_nat i) = m (fdt + word_of_nat i)"
  shows "holds m' fdt room start ts strs"
proof -
  have "layout m' fdt room start st strs" if lay: "layout m fdt room start st strs" for st
  proof -
    from lay obtain lcv cpu gap rsv slack where L: "lcv \<le> 17" "16 \<le> length rsv" "40 + length (gap @ rsv) = start"
      "40 + length (gap @ rsv @ st @ strs @ slack) = room" "room < 2 ^ 31 - 1"
      "blob m fdt (words room lcv cpu (length gap) (length rsv) (length st) (length strs)) (gap @ rsv @ st @ strs @ slack)"
      by (rule layoutE)
    let ?ws = "words room lcv cpu (length gap) (length rsv) (length st) (length strs)"
    have "length (concat (map be32 ?ws) @ gap @ rsv @ st @ strs @ slack) = room" using L(4) by (simp add: words_def)
    then have "blob m' fdt ?ws (gap @ rsv @ st @ strs @ slack)" using L(6) assms(2) by (simp only: blob_def stored_nth) simp
    with L(1-5) show ?thesis unfolding layout_def by blast
  qed
  with assms(1) show ?thesis by (auto simp: holds_def)
qed

text \<open>A tree with two nodes and some free space.\<close>

definition edit_mem :: mem where
  "edit_mem = blob_mem (encode_room sample_tree (map of_char ''reg'' @ [0]) 200)"

lemma edit_mem_holds: "holds edit_mem 0 200 56 (flatten sample_tree @ [End]) (map of_char ''reg'' @ [0])"
  unfolding edit_mem_def
  by (rule holds_encode) (simp_all add: struct_bytes_def length_token_bytes token_size_def sample_tree_def token_ok_def)

lemma sample_tree_nodes:
  "tree_nodes 0 sample_tree = [(0, sample_tree), (24, Node (map of_char ''cpu@0'') [] []), (40, Node (map of_char ''mem'') [(0, [4])] [])]"
  by (simp add: sample_tree_def subs_start_def token_size_def)

text \<open>C27. In a tree with its blocks in order, \<^verbatim>\<open>fdt_del_node\<close> of any node returns 0, and afterwards the memory holds the
  tree without that node and all below it: the same root, names, properties and order otherwise, the same strings and total size, in a
  tree that passes the checks of the reading functions. Nothing outside of the tree's memory changes.
\<close>

theorem fdt_del_node_removes:
  assumes "holds m fdt room start (flatten root @ [End]) strs" "(off, x) \<in> set (tree_nodes 0 root)"
  shows "\<exists>m'. fdt_del_node fdt (word_of_nat off) m = Some (0, m') \<and>
     holds m' fdt room start (concat (map flatten (tree_subst off [] 0 root)) @ [End]) strs \<and> same_outside m m' fdt room"
  using assms by (rule fdt_del_node_tree)

theorem fdt_del_node_removes_witness:
  "\<exists>m'. fdt_del_node 0 24 edit_mem = Some (0, m') \<and> holds m' 0 200 56
     (flatten (Node [] [(0, [1, 2, 3])] [Node (map of_char ''mem'') [(0, [4])] []]) @ [End]) (map of_char ''reg'' @ [0])"
proof -
  have "(24, Node (map of_char ''cpu@0'') [] []) \<in> set (tree_nodes 0 sample_tree)" by (simp add: sample_tree_nodes)
  moreover have "tree_subst 24 [] 0 sample_tree = [Node [] [(0, [1, 2, 3])] [Node (map of_char ''mem'') [(0, [4])] []]]"
    by (simp add: sample_tree_def subs_start_def token_size_def)
  ultimately show ?thesis using fdt_del_node_removes [OF edit_mem_holds, of 24] by auto
qed

text \<open>C26. \<^verbatim>\<open>fdt_add_subnode_namelen\<close>, in a tree with its blocks in order and for a name that lies outside of it: if a subnode
  of the parent already has the name, with or without a unit address, it returns \<^verbatim>\<open>FDT_ERR_EXISTS\<close>; if the free space is too
  small for the node, \<^verbatim>\<open>FDT_ERR_NOSPACE\<close>, and in both cases nothing has changed; otherwise it returns the offset of the new
  node, and the memory holds the tree with an empty node of that name before the other subnodes, with nothing outside changed.
\<close>

theorem fdt_add_subnode_adds:
  assumes "holds m fdt room start (flatten root @ [End]) strs" "(off, Node nm properties subs) \<in> set (tree_nodes 0 root)"
    and "stored m p name" "0 \<notin> set name" "outside p (length name) fdt room" "length name < 2 ^ 30" "unat fdt + 2 ^ 32 \<le> 2 ^ 64"
  shows "let result = fdt_add_subnode_namelen fdt (word_of_nat off) p (word_of_nat (length name)) m;
         place = subs_start off (Node nm properties subs);
         needed = start + tokens_size (flatten root @ [End]) + tokens_size (flatten (Node name [] [])) + length strs
     in if matching name place subs \<noteq> [] then result = Some (- FDT_ERR_EXISTS, m)
        else if room < needed then result = Some (- FDT_ERR_NOSPACE, m)
        else \<exists>m'. result = Some (word_of_nat place, m') \<and> same_outside m m' fdt room \<and> holds m' fdt room start
          (concat (map flatten (tree_subst off [Node nm properties (Node name [] [] # subs)] 0 root)) @ [End]) strs"
  using fdt_add_subnode_tree [OF assms] unfolding Let_def by auto

theorem fdt_add_subnode_adds_witness:
  "\<exists>m'. fdt_add_subnode_namelen 0 24 300 1 (edit_mem(300 := 105)) = Some (36, m') \<and> holds m' 0 200 56
     (flatten (Node [] [(0, [1, 2, 3])] [Node (map of_char ''cpu@0'') [] [Node [105] [] []], Node (map of_char ''mem'') [(0, [4])] []]) @ [End])
     (map of_char ''reg'' @ [0])"
proof -
  let ?m = "edit_mem(300 := 105)" and ?x = "Node (map of_char ''cpu@0'') [] []"
  have "holds ?m 0 200 56 (flatten sample_tree @ [End]) (map of_char ''reg'' @ [0])"
    using edit_mem_holds
  proof (rule holds_same, intro allI impI)
    fix i :: nat
    assume "i < 200"
    then have "unat (word_of_nat i :: addr) \<noteq> unat (300 :: addr)" by (subst unat_of_nat_no_wrap) simp_all
    then show "?m (0 + word_of_nat i) = edit_mem (0 + word_of_nat i)" by auto
  qed
  moreover have "(24, ?x) \<in> set (tree_nodes 0 sample_tree)" by (simp add: sample_tree_nodes)
  moreover have "stored ?m 300 [105]" "0 \<notin> set [105 :: u8]" "outside 300 (length [105]) 0 200" "length [105] < 2 ^ 30"
    "unat (0 :: addr) + 2 ^ 32 \<le> 2 ^ 64" by (simp_all add: outside_def)
  moreover have "tree_subst 24 [Node (map of_char ''cpu@0'') [] [Node [105] [] []]] 0 sample_tree =
      [Node [] [(0, [1, 2, 3])] [Node (map of_char ''cpu@0'') [] [Node [105] [] []], Node (map of_char ''mem'') [(0, [4])] []]]"
    "subs_start 24 ?x = 36" "tokens_size (flatten sample_tree @ [End]) = 76" "tokens_size (flatten (Node [105] [] [])) = 12"
    by (simp_all add: sample_tree_def subs_start_def token_size_def)
  ultimately show ?thesis
    using fdt_add_subnode_adds [of ?m 0 200 56 sample_tree "map of_char ''reg'' @ [0]" 24 "map of_char ''cpu@0''" "[]" "[]" 300 "[105]"]
    by (auto simp: Let_def matching_def)
qed

end
