(* ===== verification/Fdt_Setprop.thy ===== *)
theory Fdt_Setprop
  imports Fdt_Edit
begin

section \<open>Setting properties\<close>

text \<open>
  \<^verbatim>\<open>fdt_setprop\<close> on an encoded tree: a property that exists is resized in its place, one that does not is put before the others, with
  its name in the strings block, where it is added unless it is there already. The reference is an operation on the list of
  properties and the strings.
\<close>

subsection \<open>The strings block\<close>

definition str_at :: "u8 list \<Rightarrow> u32 \<Rightarrow> u8 list" where
  "str_at strs off = takeWhile (\<lambda>c. c \<noteq> 0) (drop (unat off) strs)"

definition str_ok :: "u8 list \<Rightarrow> u32 \<Rightarrow> bool" where
  "str_ok strs off \<longleftrightarrow> 0 \<in> set (drop (unat off) strs)"

lemma str_at_split:
  assumes "str_ok strs off"
  obtains rest where "strs = take (unat off) strs @ str_at strs off @ 0 # rest" "0 \<notin> set (str_at strs off)"
    "unat off + length (str_at strs off) < length strs"
proof -
  let ?d = "drop (unat off) strs"
  have "dropWhile (\<lambda>c. c \<noteq> 0) ?d \<noteq> []" using assms by (auto simp: str_ok_def dropWhile_eq_Nil_conv)
  then obtain rest where r: "dropWhile (\<lambda>c. c \<noteq> 0) ?d = 0 # rest"
    using hd_dropWhile [of "\<lambda>c. c \<noteq> 0" ?d] by (cases "dropWhile (\<lambda>c. c \<noteq> 0) ?d") auto
  then have d: "?d = str_at strs off @ 0 # rest" unfolding str_at_def by (metis takeWhile_dropWhile_id)
  show thesis
  proof (rule that)
    show "strs = take (unat off) strs @ str_at strs off @ 0 # rest" by (metis d append_take_drop_id)
    show "0 \<notin> set (str_at strs off)" by (auto simp: str_at_def dest: set_takeWhileD)
    show "unat off + length (str_at strs off) < length strs" using arg_cong [OF d, of length] by simp
  qed
qed

lemma str_at_append:
  assumes "str_ok strs off"
  shows "str_ok (strs @ ext) off" "str_at (strs @ ext) off = str_at strs off"
proof -
  obtain rest where r: "strs = take (unat off) strs @ str_at strs off @ 0 # rest" "0 \<notin> set (str_at strs off)"
    "unat off + length (str_at strs off) < length strs" by (rule str_at_split [OF assms])
  have len: "length (take (unat off) strs) = unat off" using r(3) by simp
  have d: "drop (unat off) (strs @ ext) = str_at strs off @ 0 # rest @ ext"
    by (subst r(1)) (simp only: append_assoc append_Cons drop_append len, simp)
  then show "str_ok (strs @ ext) off" by (simp add: str_ok_def)
  show "str_at (strs @ ext) off = str_at strs off"
    unfolding str_at_def [of "strs @ ext"] d using r(2) by (subst takeWhile_append2) auto
qed

lemma string_in_layout:
  assumes "layout m fdt room start st strs" "str_ok strs off"
  shows "string_in m fdt off (str_at strs off)"
proof -
  obtain rest where r: "strs = take (unat off) strs @ str_at strs off @ 0 # rest" "0 \<notin> set (str_at strs off)"
    "unat off + length (str_at strs off) < length strs" by (rule str_at_split [OF assms(2)])
  have len: "length (take (unat off) strs) = unat off" using r(3) by simp
  have "strs = take (unat off) strs @ (str_at strs off @ [0]) @ rest" using r(1) by simp
  with layout_strings(1) [OF assms(1)] have "stored m (fdt + word_of_nat (start + length st)) (take (unat off) strs @ (str_at strs off @ [0]) @ rest)"
    by (simp only:)
  then have "stored m (fdt + word_of_nat (start + length st + unat off)) (str_at strs off @ [0])"
    unfolding stored_append [of _ _ "take (unat off) strs"] len by (simp add: add.assoc)
  with r(2,3) show ?thesis by (simp add: string_in_def layout_numbers [OF assms(1)])
qed

subsection \<open>Looking a property up\<close>

lemma cstring_bytes: "cstring m p s \<longleftrightarrow> stored m p (s @ [0]) \<and> 0 \<notin> set s"
  by (induction s arbitrary: p) auto

lemma name_at_cstring:
  assumes "cstring m p s" "length s < 2 ^ 64"
  shows "name_at m p = Some s"
  using assms strlen_cstring [OF assms(1)] by (simp add: name_at_def unat_of_nat_no_wrap cstring_bytes stored_def bytes_at_def)

lemma find_property_cong:
  "\<forall>(nameoff, v) \<in> set ps. P nameoff = Q nameoff \<Longrightarrow> find_property P n ps = find_property Q n ps"
  by (induction P n ps rule: find_property.induct) auto

lemma get_property_w_tree:
  assumes hold: "holds m fdt room start (ts @ flatten x @ us) strs" and names: "\<forall>(nameoff, v) \<in> set (node_props x). str_ok strs nameoff"
    and s: "cstring m p s" "length s < 2 ^ 64"
  shows "fdt_get_property_w m fdt (word_of_nat (tokens_size ts)) p =
     Some (case find_property (\<lambda>nameoff. str_at strs nameoff = s) (props_start (tokens_size ts) x) (node_props x) of
             None \<Rightarrow> Inl (- FDT_ERR_NOTFOUND)
           | Some (off, v) \<Rightarrow> Inr (struct_at m fdt off, word_of_nat (length v)))"
proof -
  note h = holds_tree [OF hold]
  have at: "tokens_at m fdt (tokens_size ts) (flatten x)" using h(3) by simp
  obtain st where lay: "layout m fdt room start st strs" using hold by (auto simp: holds_def)
  have "fdt_string_eq m fdt nameoff s \<longleftrightarrow> str_at strs nameoff = s" if "str_ok strs nameoff" for nameoff
    by (rule string_eq_tree [OF h(1) _ string_in_layout [OF lay that]]) (simp add: h(2))
  then have "find_property (\<lambda>nameoff. fdt_string_eq m fdt nameoff s) (props_start (tokens_size ts) x) (node_props x) =
      find_property (\<lambda>nameoff. str_at strs nameoff = s) (props_start (tokens_size ts) x) (node_props x)"
    using names by (intro find_property_cong) auto
  then show ?thesis
    using get_property_search_tree [OF h(1) at, of s] h(2)
    by (auto simp: fdt_get_property_w_def name_at_cstring [OF s] fdt_get_property_namelen_def property_result_def word_less_nat_alt split: option.splits)
qed

subsection \<open>The bytes of a property\<close>

definition aligned :: "nat \<Rightarrow> nat" where
  "aligned n = (n + 3) div 4 * 4"

lemma aligned_bounds: "n \<le> aligned n" "aligned n < n + 4" "4 dvd aligned n" unfolding aligned_def by presburger+

lemma property_size: "token_size (Property nameoff v) = 12 + aligned (length v)"
proof -
  have "(15 + n) div 4 * 4 = 12 + (n + 3) div 4 * 4" for n :: nat by presburger
  then show ?thesis by (simp add: token_size_def aligned_def)
qed

lemma encodes_property:
  "encodes [Property nameoff v] bs \<longleftrightarrow>
     (\<exists>pad. bs = be32 FDT_PROP @ be32 (word_of_nat (length v)) @ be32 nameoff @ v @ pad \<and> length v + length pad = aligned (length v))"
  using property_size [of nameoff v] by auto

lemma tagalign_word: "n < 2 ^ 30 \<Longrightarrow> FDT_TAGALIGN (word_of_nat n) = word_of_nat (aligned n)"
  using TAGALIGN_nat [of n] by (simp add: aligned_def)

text \<open>Writing the value, after the header of the property is there.\<close>

definition put_value :: "addr \<Rightarrow> addr \<Rightarrow> nat \<Rightarrow> mem \<Rightarrow> mem" where
  "put_value pp q n m = (if n \<noteq> 0 then memcpy (pp + 12) q (word_of_nat n) m else m)"

lemma put_value_layout:
  assumes lay: "layout m fdt room start (a @ (be32 FDT_PROP @ be32 (word_of_nat (length val)) @ be32 nameoff @ mid) @ b) strs"
    and mid: "length mid = aligned (length val)" and src: "stored m q val" "outside q (length val) fdt room"
    and enc: "encodes ts a" "encodes us b" and pp: "pp = fdt + word_of_nat (start + length a)"
  shows "\<exists>st. layout (put_value pp q (length val) m) fdt room start st strs \<and> encodes (ts @ Property nameoff val # us) st \<and>
     same_outside m (put_value pp q (length val) m) fdt room"
proof -
  let ?hd = "be32 FDT_PROP @ be32 (word_of_nat (length val)) @ be32 nameoff" and ?m = "put_value pp q (length val) m"
  define old pad where "old = take (length val) mid" and "pad = drop (length val) mid"
  have len: "length old = length val" "length val + length pad = aligned (length val)"
    using mid aligned_bounds(1) [of "length val"] by (simp_all add: old_def pad_def)
  have "mid @ b = old @ pad @ b" by (simp only: old_def pad_def append_assoc [symmetric] append_take_drop_id)
  then have lay': "layout m fdt room start (a @ ?hd @ old @ pad @ b) strs" using lay by (simp only: append_assoc)
  have "layout ?m fdt room start (a @ ?hd @ val @ pad @ b) strs \<and> same_outside m ?m fdt room"
  proof (cases "val = []")
    case True
    then show ?thesis using lay' len(1) by (simp add: put_value_def same_outside_def)
  next
    case False
    have ptr: "pp + 12 = fdt + word_of_nat (start + length (a @ ?hd))" by (simp add: pp add.assoc)
    show ?thesis
      using layout_memcpy [OF lay', of "a @ ?hd" old "pad @ b @ strs" "a @ ?hd @ val @ pad @ b" strs val q] len(1) src False
      by (simp only: put_value_def ptr length_0_conv) simp
  qed
  moreover have "encodes [Property nameoff val] (?hd @ val @ pad)" unfolding encodes_property using len(2) by auto
  then have "encodes (ts @ [Property nameoff val] @ us) (a @ (?hd @ val @ pad) @ b)" using enc unfolding encodes_append by blast
  ultimately show ?thesis by (intro exI [of _ "a @ ?hd @ val @ pad @ b"]) (simp del: encodes.simps)
qed

subsection \<open>An existing property\<close>

lemma resized_property:
  assumes hold: "holds m fdt room start (ts @ Property nameoff v # us) strs" and val: "length val < 2 ^ 30"
    and w: "fdt_get_property_w m fdt off p = Some (Inr (struct_at m fdt (tokens_size ts), word_of_nat (length v)))"
    and low: "unat fdt + 2 ^ 32 \<le> 2 ^ 64" and src: "stored m q val" "outside q (length val) fdt room"
  defines "resized \<equiv> fdt_resize_property fdt off p (word_of_nat (length val)) m"
    and "needed \<equiv> start + tokens_size (ts @ Property nameoff val # us) + length strs"
  shows "room < needed \<Longrightarrow> \<exists>pp. resized = Some (- FDT_ERR_NOSPACE, pp, m)"
    and "needed \<le> room \<Longrightarrow> \<exists>pp m1. resized = Some (0, pp, m1) \<and>
       holds (put_value pp q (length val) m1) fdt room start (ts @ Property nameoff val # us) strs \<and>
       same_outside m (put_value pp q (length val) m1) fdt room"
proof -
  obtain st where st: "layout m fdt room start st strs" "encodes (ts @ [Property nameoff v] @ us) st"
    using hold by (auto simp: holds_def simp del: encodes.simps)
  from st(2) obtain a b pad where enc: "encodes ts a" "encodes us b"
    "st = a @ (be32 FDT_PROP @ be32 (word_of_nat (length v)) @ be32 nameoff @ v @ pad) @ b" "length v + length pad = aligned (length v)"
    unfolding encodes_append encodes_property by blast
  note len = encodes_length [OF enc(1)] encodes_length [OF enc(2)]
  let ?hd = "\<lambda>n. be32 FDT_PROP @ be32 (word_of_nat n) @ be32 nameoff" and ?pp = "struct_at m fdt (tokens_size ts)"
  have lay: "layout m fdt room start ((a @ ?hd (length v)) @ (v @ pad) @ b) strs" using st(1) enc(3) by simp
  have pp: "?pp = fdt + word_of_nat (start + length a)" by (simp only: len holds_tree(5) [OF hold])
  have ptr: "?pp + 12 = fdt + word_of_nat (start + length (a @ ?hd (length v)))" "?pp + 4 = fdt + word_of_nat (start + length (a @ be32 FDT_PROP))"
    by (simp_all add: pp add.assoc)
  have "length v < 2 ^ 31" using layout_header(11,12) [OF lay] by simp
  then have old: "FDT_TAGALIGN (word_of_nat (length v)) = word_of_nat (length (v @ pad))"
    using TAGALIGN_nat [of "length v"] enc(4) by (simp add: aligned_def del: of_nat_add)
  have new: "aligned (length val) < 2 ^ 31" "FDT_TAGALIGN (word_of_nat (length val)) = word_of_nat (aligned (length val))"
    using val aligned_bounds(2) [of "length val"] tagalign_word [of "length val"] by auto
  have needed: "needed = start + length (a @ ?hd (length v)) + aligned (length val) + length b + length strs"
    by (simp add: needed_def property_size len)
  show "\<exists>pp. resized = Some (- FDT_ERR_NOSPACE, pp, m)" if "room < needed"
    using splice_struct_no_space [OF lay _ new(1) low] that unfolding needed resized_def
    by (simp add: fdt_resize_property_def w old new(2) ptr(1) del: of_nat_add length_append)
  assume "needed \<le> room"
  from splice_struct_layout [OF lay this [unfolded needed]] obtain m1 mid where
    m1: "fdt_splice_struct fdt (?pp + 12) (FDT_TAGALIGN (word_of_nat (length v))) (FDT_TAGALIGN (word_of_nat (length val))) m = (0, m1)"
    "length mid = aligned (length val)" "layout m1 fdt room start ((a @ ?hd (length v)) @ mid @ b) strs" "same_outside m m1 fdt room"
    unfolding ptr(1) old new(2) by blast
  let ?m2 = "fdt32_st (?pp + 4) (word_of_nat (length val)) m1"
  have m2: "layout ?m2 fdt room start (a @ (?hd (length val) @ mid) @ b) strs \<and> same_outside m1 ?m2 fdt room"
    using layout_fdt32 [of m1 fdt room start "a @ be32 FDT_PROP" "be32 (word_of_nat (length v))" "be32 nameoff @ mid @ b" strs "word_of_nat (length val)"]
      m1(3) by (simp only: ptr(2) append_assoc length_be32 simp_thms)
  have same: "same_outside m ?m2 fdt room" using m1(4) m2 by (blast intro: same_outside_trans)
  from put_value_layout [OF _ m1(2) outside_stored [OF src same] src(2) enc(1,2) pp, of nameoff strs] m2 obtain st where
    "layout (put_value ?pp q (length val) ?m2) fdt room start st strs" "encodes (ts @ Property nameoff val # us) st"
    "same_outside ?m2 (put_value ?pp q (length val) ?m2) fdt room" by auto
  moreover have "\<forall>t \<in> set (ts @ Property nameoff val # us). token_ok t" using hold by (auto simp: holds_def token_ok_def)
  moreover have "resized = Some (0, ?pp, ?m2)" by (simp add: resized_def fdt_resize_property_def w m1(1))
  ultimately show "\<exists>pp m1. resized = Some (0, pp, m1) \<and>
       holds (put_value pp q (length val) m1) fdt room start (ts @ Property nameoff val # us) strs \<and>
       same_outside m (put_value pp q (length val) m1) fdt room"
    using same unfolding holds_def by (blast intro: same_outside_trans)
qed

subsection \<open>Finding and adding a name\<close>

lemma memcmp_stored: "stored m q bs \<Longrightarrow> memcmp p q (length bs) m = 0 \<longleftrightarrow> stored m p bs"
proof (induction bs arbitrary: p q)
  case (Cons c bs)
  then show ?case by (auto simp: Let_def word_uint_eq_iff)
qed simp

lemma find_string_loop_find:
  assumes "stored m q bs"
  shows "find_string_loop m (p + word_of_nat i) q (length bs) k =
     map_option (\<lambda>j. p + word_of_nat j) (List.find (\<lambda>j. stored m (p + word_of_nat j) bs) [i ..< i + k])"
proof (induction k arbitrary: i)
  case (Suc k)
  have "[i ..< i + Suc k] = i # [Suc i ..< Suc i + k]" by (simp add: upt_conv_Cons)
  moreover have "p + word_of_nat i + 1 = p + word_of_nat (Suc i)" by simp
  ultimately show ?case using Suc.IH [of "Suc i"] memcmp_stored [OF assms, of "p + word_of_nat i"]
    by (simp add: add.assoc del: of_nat_Suc upt_Suc)
qed simp

definition find_name :: "u8 list \<Rightarrow> u8 list \<Rightarrow> nat option" where
  "find_name strs s = List.find (\<lambda>i. take (length s + 1) (drop i strs) = s @ [0]) [0 ..< length strs - length s]"

lemma stored_part:
  assumes "stored m p strs" "i + length bs \<le> length strs"
  shows "stored m (p + word_of_nat i) bs \<longleftrightarrow> take (length bs) (drop i strs) = bs"
proof -
  have "strs = take i strs @ take (length bs) (drop i strs) @ drop (length bs) (drop i strs)" by (simp only: append_take_drop_id)
  moreover have "length (take i strs) = i" using assms(2) by simp
  ultimately have "stored m (p + word_of_nat i) (take (length bs) (drop i strs))"
    using assms(1) by (metis stored_append)
  moreover have "length (take (length bs) (drop i strs)) = length bs" using assms(2) by simp
  ultimately show ?thesis by (metis stored_def)
qed

lemma find_cong: "\<forall>x \<in> set xs. P x = Q x \<Longrightarrow> List.find P xs = List.find Q xs"
  by (induction xs) auto

lemma fdt_find_string_layout:
  assumes lay: "layout m fdt room start st strs" and s: "cstring m p s" "length s < 2 ^ 30" "length s < unat fdt + start"
  defines "strtab \<equiv> fdt + word_of_nat (start + length st)"
  shows "fdt_find_string m strtab (fdt_size_dt_strings m fdt) p = Some (map_option (\<lambda>i. strtab + word_of_nat i) (find_name strs s))"
proof -
  note b = layout_header(11-13) [OF lay]
  have tab: "unat strtab = unat fdt + (start + length st)" unfolding strtab_def using b by (intro unat_offset) simp
  have len: "(ucast (word_of_nat (length s) + 1 :: u64) :: i32) = word_of_nat (length s + 1)"
    by (simp add: unsigned_of_nat take_bit_word_eq_self add.commute flip: of_nat_Suc del: of_nat_add)
  have cast: "scast (word_of_nat (length s + 1) :: i32) = (word_of_nat (length s + 1) :: u64)"
    "scast (fdt_size_dt_strings m fdt) = (word_of_nat (length strs) :: u64)"
    using s(2) b scast_nat [of "length s + 1"] scast_nat [of "length strs"] by (simp_all only: layout_header(6) [OF lay]) simp_all
  define l where "l = strtab + word_of_nat (length strs) - word_of_nat (length s + 1)"
  have e: "unat (strtab + word_of_nat (length strs)) = unat strtab + length strs" using b tab by (intro unat_offset) simp
  have n: "unat (word_of_nat (length s + 1) :: u64) = length s + 1" using s(2) by (intro unat_of_nat_no_wrap) simp
  have "unat l = unat strtab + length strs - (length s + 1)"
    unfolding l_def using e n s(3) tab by (subst unat_sub) (simp_all only: word_le_nat_alt)
  then have k: "(if strtab \<le> l then Suc (unat (l - strtab)) else 0) = length strs - length s"
    using tab s(3) by (auto simp: word_le_nat_alt unat_sub)
  have st: "stored m p (s @ [0])" using s(1) by (simp only: cstring_bytes)
  have "List.find (\<lambda>j. stored m (strtab + word_of_nat j) (s @ [0])) [0 ..< length strs - length s] = find_name strs s"
    unfolding find_name_def
    using stored_part [OF layout_strings(1) [OF lay], folded strtab_def, of _ "s @ [0]"] by (intro find_cong) auto
  then have "find_string_loop m strtab p (length s + 1) (length strs - length s) = map_option (\<lambda>i. strtab + word_of_nat i) (find_name strs s)"
    using find_string_loop_find [OF st, of strtab 0 "length strs - length s"] by simp
  then show ?thesis
    unfolding fdt_find_string_def strlen_cstring [OF s(1)] option.case Let_def len cast n l_def [symmetric] k by (simp only:)
qed

subsection \<open>Room for a name\<close>

lemma splice_string_layout:
  assumes lay: "layout m fdt room start st strs" and k: "k < 2 ^ 31"
  shows "start + length st + length strs + k \<le> room \<Longrightarrow> \<exists>m' mid. fdt_splice_string fdt (word_of_nat k) m = (0, m') \<and> length mid = k \<and>
      layout m' fdt room start st (strs @ mid) \<and> same_outside m m' fdt room"
    and "room < start + length st + length strs + k \<Longrightarrow> unat fdt + 2 ^ 32 \<le> 2 ^ 64 \<Longrightarrow>
      fdt_splice_string fdt (word_of_nat k) m = (- FDT_ERR_NOSPACE, m)"
proof -
  from lay obtain lcv cpu gap rsv slack where L: "lcv \<le> 17" "16 \<le> length rsv" "40 + length (gap @ rsv) = start"
    "40 + length (gap @ rsv @ st @ strs @ slack) = room" "room < 2 ^ 31 - 1"
    "blob m fdt (words room lcv cpu (length gap) (length rsv) (length st) (length strs)) (gap @ rsv @ st @ strs @ slack)"
    by (rule layoutE)
  let ?w = "words room lcv cpu (length gap) (length rsv) (length st)" and ?A = "gap @ rsv @ st @ strs"
  have bl: "blob m fdt (?w (length strs)) (?A @ [] @ [] @ slack)" using L(6) by simp
  have w: "?w (length strs) ! 1 = word_of_nat (40 + length (?A @ [] @ [] @ slack))"
    "?w (length strs) ! 3 + ?w (length strs) ! 8 = word_of_nat (40 + length (?A @ [] @ []))"
    using L(4) by (simp_all add: words_def add.assoc)
  let ?p = "fdt + ucast (fdt_off_dt_strings m fdt) + ucast (fdt_size_dt_strings m fdt)"
  have p: "?p = fdt + word_of_nat (40 + length ?A)"
    using ucast_nat [of "start + length st"] ucast_nat [of "length strs"] layout_header(11,12) [OF lay]
    unfolding layout_header(4,6) [OF lay] by (simp add: add.assoc flip: L(3))
  note splice = splice_blob [OF bl w k, folded p]
  show "fdt_splice_string fdt (word_of_nat k) m = (- FDT_ERR_NOSPACE, m)"
    if "room < start + length st + length strs + k" "unat fdt + 2 ^ 32 \<le> 2 ^ 64"
    using splice(2) that L(3,4) unfolding fdt_splice_string_def by (simp add: Let_def)
  assume "start + length st + length strs + k \<le> room"
  then have "k \<le> length [] + length slack" using L(3,4) by simp
  from splice(1) [OF this] obtain m1 mid slack' where sp: "fdt_splice fdt ?p 0 (word_of_nat k) m = (0, m1)"
    "length mid = k" "length mid + length slack' = length slack" "blob m1 fdt (?w (length strs)) (?A @ mid @ slack')"
    "same_outside m m1 fdt (40 + length (?A @ slack))" by auto
  let ?m2 = "fdt_set_size_dt_strings fdt (word_of_nat (length (strs @ mid))) m1"
  have "blob ?m2 fdt (?w (length (strs @ mid))) (gap @ rsv @ st @ (strs @ mid) @ slack')"
    using blob_set(8) [OF sp(4)] by (simp add: words_def)
  then have "layout ?m2 fdt room start st (strs @ mid)" using L(1-5) sp(2,3) by (intro layoutI) simp_all
  moreover have "fdt_splice_string fdt (word_of_nat k) m = (0, ?m2)"
    using sp(1,2) by (simp add: fdt_splice_string_def Let_def blob_header [OF sp(4)] words_def)
  moreover have "same_outside m1 ?m2 fdt room" using L(4) by (intro same_outside_mono [OF set_outside(3) [OF sp(4)]]) simp
  then have "same_outside m ?m2 fdt room" using sp(5) L(4) by (auto intro: same_outside_trans simp: add.assoc)
  ultimately show "\<exists>m' mid. fdt_splice_string fdt (word_of_nat k) m = (0, m') \<and> length mid = k \<and>
      layout m' fdt room start st (strs @ mid) \<and> same_outside m m' fdt room" using sp(2) by blast
qed

lemma find_name_bound: "find_name strs s = Some i \<Longrightarrow> i + length s < length strs \<and> take (length s + 1) (drop i strs) = s @ [0]"
  by (auto simp: find_name_def find_Some_iff)

lemma find_add_string_layout:
  assumes lay: "layout m fdt room start st strs" and s: "cstring m p s" "length s < 2 ^ 30" "length s < unat fdt + start"
    and out: "outside p (length s + 1) fdt room" and low: "unat fdt + 2 ^ 32 \<le> 2 ^ 64"
  shows "find_name strs s = Some i \<Longrightarrow> fdt_find_add_string fdt p m = Some (word_of_nat i, False, m)"
    and "find_name strs s = None \<Longrightarrow> room < start + length st + length (strs @ s @ [0]) \<Longrightarrow>
      fdt_find_add_string fdt p m = Some (- FDT_ERR_NOSPACE, False, m)"
    and "find_name strs s = None \<Longrightarrow> start + length st + length (strs @ s @ [0]) \<le> room \<Longrightarrow>
      \<exists>m'. fdt_find_add_string fdt p m = Some (word_of_nat (length strs), True, m') \<and>
        layout m' fdt room start st (strs @ s @ [0]) \<and> same_outside m m' fdt room"
proof -
  let ?tab = "fdt + word_of_nat (start + length st)"
  note b = layout_header(11-13) [OF lay]
  have tab: "fdt + ucast (fdt_off_dt_strings m fdt) = ?tab"
    using b ucast_nat [of "start + length st"] unfolding layout_header(4) [OF lay] by simp
  have size: "ucast (fdt_size_dt_strings m fdt) = (word_of_nat (length strs) :: u64)"
    using b ucast_nat [of "length strs"] unfolding layout_header(6) [OF lay] by simp
  have len: "(ucast (word_of_nat (length s) + 1 :: u64) :: i32) = word_of_nat (length s + 1)"
    by (simp add: unsigned_of_nat take_bit_word_eq_self add.commute flip: of_nat_Suc del: of_nat_add)
  have cast: "(ucast (word_of_nat j :: u64) :: i32) = word_of_nat j" for j by (simp add: unsigned_of_nat take_bit_word_eq_self)
  have k: "length s + 1 < 2 ^ 31" using s(2) by simp
  note found = fdt_find_string_layout [OF lay s]
  note call = fdt_find_add_string_def Let_def strlen_cstring [OF s(1)] tab option.case found
  show "fdt_find_add_string fdt p m = Some (word_of_nat i, False, m)" if "find_name strs s = Some i"
    unfolding call that by (simp add: cast)
  have full: "start + length st + length (strs @ s @ [0]) = start + length st + length strs + (length s + 1)" by simp
  note splice = splice_string_layout [OF lay k]
  show "fdt_find_add_string fdt p m = Some (- FDT_ERR_NOSPACE, False, m)"
    if "find_name strs s = None" "room < start + length st + length (strs @ s @ [0])"
    using splice(2) [OF _ low] that(2) unfolding call that(1) full len by (simp del: of_nat_add of_nat_Suc)
  assume none: "find_name strs s = None" and "start + length st + length (strs @ s @ [0]) \<le> room"
  from splice(1) [OF this(2) [unfolded full]] obtain m1 mid where m1: "fdt_splice_string fdt (word_of_nat (length s + 1)) m = (0, m1)"
    "length mid = length s + 1" "layout m1 fdt room start st (strs @ mid)" "same_outside m m1 fdt room" by blast
  let ?m2 = "memcpy (?tab + word_of_nat (length strs)) p (word_of_nat (length (s @ [0]))) m1"
  have src: "stored m1 p (s @ [0])" by (rule outside_stored [OF _ _ m1(4)]) (use s(1) out in \<open>simp_all only: cstring_bytes, simp_all\<close>)
  have ptr: "?tab + word_of_nat (length strs) = fdt + word_of_nat (start + length (st @ strs))" by (simp add: add.assoc)
  have "layout ?m2 fdt room start st (strs @ s @ [0]) \<and> same_outside m1 ?m2 fdt room"
    unfolding ptr by (rule layout_memcpy [OF m1(3), of _ mid "[]" _ _ "s @ [0]"]) (use m1(2) src out in simp_all)
  moreover have "fdt_find_add_string fdt p m = Some (word_of_nat (length strs), True, ?m2)"
    unfolding call none len using m1(1) scast_nat [OF k] by (simp add: size cast del: of_nat_add of_nat_Suc)
  ultimately show "\<exists>m'. fdt_find_add_string fdt p m = Some (word_of_nat (length strs), True, m') \<and>
        layout m' fdt room start st (strs @ s @ [0]) \<and> same_outside m m' fdt room"
    using m1(4) by (blast intro: same_outside_trans)
qed

lemma del_last_string_layout:
  assumes lay: "layout m fdt room start st (strs @ s @ [0])" and s: "cstring m p s"
  shows "\<exists>m'. fdt_del_last_string fdt p m = Some m' \<and> layout m' fdt room start st strs \<and> same_outside m m' fdt room"
proof -
  from lay obtain lcv cpu gap rsv slack where L: "lcv \<le> 17" "16 \<le> length rsv" "40 + length (gap @ rsv) = start"
    "40 + length (gap @ rsv @ st @ (strs @ s @ [0]) @ slack) = room" "room < 2 ^ 31 - 1"
    "blob m fdt (words room lcv cpu (length gap) (length rsv) (length st) (length (strs @ s @ [0]))) (gap @ rsv @ st @ (strs @ s @ [0]) @ slack)"
    by (rule layoutE)
  let ?m = "fdt_set_size_dt_strings fdt (word_of_nat (length strs)) m"
  have "blob ?m fdt (words room lcv cpu (length gap) (length rsv) (length st) (length strs)) (gap @ rsv @ st @ strs @ (s @ [0]) @ slack)"
    using blob_set(8) [OF L(6), of "word_of_nat (length strs)"] by (simp add: words_def)
  then have "layout ?m fdt room start st strs" using L(1-5) by (intro layoutI) simp_all
  moreover have "same_outside m ?m fdt room" using L(4) by (intro same_outside_mono [OF set_outside(3) [OF L(6)]]) simp
  moreover have "(ucast (word_of_nat (length s) + 1 :: u64) :: u32) = word_of_nat (length s + 1)"
    by (simp add: unsigned_of_nat take_bit_word_eq_self add.commute flip: of_nat_Suc del: of_nat_add)
  then have "fdt_del_last_string fdt p m = Some ?m"
    unfolding fdt_del_last_string_def strlen_cstring [OF s] layout_header(6) [OF lay] by simp
  ultimately show ?thesis by blast
qed

lemma written_header:
  fixes z nameoff :: u32
  assumes "layout m fdt room start (a @ mid @ b) strs" "length mid = 12 + k" and pp: "pp = fdt + word_of_nat (start + length a)"
  defines "m' \<equiv> fdt32_st (pp + 4) z (fdt32_st (pp + 8) nameoff (fdt32_st pp FDT_PROP m))"
  shows "\<exists>rest. length rest = k \<and> layout m' fdt room start (a @ (be32 FDT_PROP @ be32 z @ be32 nameoff @ rest) @ b) strs \<and>
     same_outside m m' fdt room"
proof -
  define w0 w1 w2 rest where w: "w0 = take 4 mid" "w1 = take 4 (drop 4 mid)" "w2 = take 4 (drop 8 mid)" "rest = drop 12 mid"
  have len: "length w0 = 4" "length w1 = 4" "length w2 = 4" "length rest = k" using assms(2) by (simp_all add: w)
  have "mid = w0 @ w1 @ w2 @ rest"
    using append_take_drop_id [of 4 mid] append_take_drop_id [of 4 "drop 4 mid"] append_take_drop_id [of 4 "drop 8 mid"] by (simp add: w)
  with assms(1) have lay: "layout m fdt room start (a @ w0 @ w1 @ w2 @ rest @ b) strs" by simp
  let ?m1 = "fdt32_st pp FDT_PROP m"
  let ?m2 = "fdt32_st (pp + 8) nameoff ?m1"
  have ptr: "pp + 8 = fdt + word_of_nat (start + length (a @ be32 FDT_PROP @ w1))"
    "pp + 4 = fdt + word_of_nat (start + length (a @ be32 FDT_PROP))" using len by (simp_all add: pp add.assoc)
  have s1: "layout ?m1 fdt room start (a @ be32 FDT_PROP @ w1 @ w2 @ rest @ b) strs \<and> same_outside m ?m1 fdt room"
    unfolding pp by (rule layout_fdt32 [OF lay len(1)])
  have s2: "layout ?m2 fdt room start (a @ be32 FDT_PROP @ w1 @ be32 nameoff @ rest @ b) strs \<and> same_outside ?m1 ?m2 fdt room"
    using layout_fdt32 [of ?m1 fdt room start "a @ be32 FDT_PROP @ w1" w2 "rest @ b" strs nameoff] s1 len(3)
    by (simp only: ptr append_assoc simp_thms)
  have s3: "layout m' fdt room start (a @ be32 FDT_PROP @ be32 z @ be32 nameoff @ rest @ b) strs \<and> same_outside ?m2 m' fdt room"
    using layout_fdt32 [of ?m2 fdt room start "a @ be32 FDT_PROP" w1 "be32 nameoff @ rest @ b" strs z] s2 len(2)
    by (simp only: ptr m'_def append_assoc simp_thms)
  from s1 s2 s3 have "same_outside m m' fdt room" by (blast intro: same_outside_trans)
  with s3 len(4) show ?thesis by (auto simp only: append_assoc)
qed

subsection \<open>A new property\<close>

lemma inserted_property:
  fixes nameoff :: u32
  assumes lay: "layout m fdt room start (a @ b) strs" and enc: "encodes ts a" "encodes us b"
    and val: "length val < 2 ^ 30" "stored m q val" "outside q (length val) fdt room" and low: "unat fdt + 2 ^ 32 \<le> 2 ^ 64"
    and pp: "pp = fdt + word_of_nat (start + length a)"
  defines "spl \<equiv> fdt_splice_struct fdt pp 0 (12 + FDT_TAGALIGN (word_of_nat (length val))) m"
    and "header \<equiv> \<lambda>m1. fdt32_st (pp + 4) (word_of_nat (length val)) (fdt32_st (pp + 8) nameoff (fdt32_st pp FDT_PROP m1))"
    and "needed \<equiv> start + tokens_size (ts @ Property nameoff val # us) + length strs"
  shows "room < needed \<Longrightarrow> spl = (- FDT_ERR_NOSPACE, m)"
    and "needed \<le> room \<Longrightarrow> \<exists>m1 st. spl = (0, m1) \<and> layout (put_value pp q (length val) (header m1)) fdt room start st strs \<and>
       encodes (ts @ Property nameoff val # us) st \<and> same_outside m (put_value pp q (length val) (header m1)) fdt room"
proof -
  let ?k = "12 + aligned (length val)"
  have lay': "layout m fdt room start (a @ [] @ b) strs" using lay by simp
  have k: "?k < 2 ^ 31" using val(1) aligned_bounds(2) [of "length val"] by simp
  have call: "spl = fdt_splice_struct fdt (fdt + word_of_nat (start + length a)) (word_of_nat (length ([] :: u8 list))) (word_of_nat ?k) m"
    unfolding spl_def pp by (simp add: tagalign_word [OF val(1)])
  have needed: "needed = start + length a + ?k + length b + length strs"
    by (simp add: needed_def property_size encodes_length [OF enc(1)] encodes_length [OF enc(2)])
  show "spl = (- FDT_ERR_NOSPACE, m)" if "room < needed"
    using splice_struct_no_space [OF lay' _ k low] that unfolding call needed by blast
  assume "needed \<le> room"
  from splice_struct_layout [OF lay' this [unfolded needed]] obtain m1 mid where
    m1: "spl = (0, m1)" "length mid = ?k" "layout m1 fdt room start (a @ mid @ b) strs" "same_outside m m1 fdt room"
    unfolding call by blast
  obtain rest where rest: "length rest = aligned (length val)" "same_outside m1 (header m1) fdt room"
    "layout (header m1) fdt room start (a @ (be32 FDT_PROP @ be32 (word_of_nat (length val)) @ be32 nameoff @ rest) @ b) strs"
    using written_header [OF m1(3,2) pp] unfolding header_def by blast
  have same: "same_outside m (header m1) fdt room" using m1(4) rest(2) by (rule same_outside_trans)
  from put_value_layout [OF rest(3,1) outside_stored [OF val(2,3) same] val(3) enc pp] m1(1) same
  show "\<exists>m1 st. spl = (0, m1) \<and> layout (put_value pp q (length val) (header m1)) fdt room start st strs \<and>
       encodes (ts @ Property nameoff val # us) st \<and> same_outside m (put_value pp q (length val) (header m1)) fdt room"
    by (blast intro: same_outside_trans)
qed

definition add_name :: "u8 list \<Rightarrow> u8 list \<Rightarrow> nat \<times> u8 list" where
  "add_name strs s = (case find_name strs s of Some i \<Rightarrow> (i, strs) | None \<Rightarrow> (length strs, strs @ s @ [0]))"

lemma added_property:
  assumes hold: "holds m fdt room start (ts @ flatten (Node nm properties subs) @ us) strs"
    and s: "cstring m p s" "length s < 2 ^ 30" "length s < unat fdt + start" "outside p (length s + 1) fdt room"
    and val: "length val < 2 ^ 30" "stored m q val" "outside q (length val) fdt room" and low: "unat fdt + 2 ^ 32 \<le> 2 ^ 64"
    and add: "add_name strs s = (i, strs')"
  defines "added \<equiv> fdt_add_property fdt (word_of_nat (tokens_size ts)) p (word_of_nat (length val)) m"
    and "toks \<equiv> ts @ flatten (Node nm ((word_of_nat i, val) # properties) subs) @ us"
  shows "room < start + tokens_size toks + length strs' \<Longrightarrow> \<exists>pp m'. added = Some (- FDT_ERR_NOSPACE, pp, m') \<and>
       holds m' fdt room start (ts @ flatten (Node nm properties subs) @ us) strs \<and> same_outside m m' fdt room"
    and "start + tokens_size toks + length strs' \<le> room \<Longrightarrow> \<exists>pp m1. added = Some (0, pp, m1) \<and>
       holds (put_value pp q (length val) m1) fdt room start toks strs' \<and> same_outside m (put_value pp q (length val) m1) fdt room"
proof -
  let ?x = "Node nm properties subs" and ?pre = "ts @ [Begin_node nm]" and ?n = "tokens_size ts"
  let ?post = "property_tokens properties @ concat (map flatten subs) @ End_node # us"
  note h = holds_tree [OF hold]
  have old: "ts @ flatten ?x @ us = ?pre @ ?post" and new: "toks = ?pre @ Property (word_of_nat i) val # ?post" by (simp_all add: toks_def)
  have ok: "\<forall>t \<in> set (?pre @ ?post). token_ok t" "\<forall>t \<in> set toks. token_ok t" using hold by (auto simp: holds_def new token_ok_def)
  obtain a b where lay: "layout m fdt room start (a @ b) strs" and enc: "encodes ?pre a" "encodes ?post b"
    using hold unfolding holds_def old encodes_append by blast
  have at: "token_at m fdt ?n (Begin_node nm)" using h(3) by simp
  define z where "z = ?n + token_size (Begin_node nm)"
  have la: "length a = z" using encodes_length [OF enc(1)] by (simp add: z_def)
  note node = node_offset_token [OF h(1) at, folded z_def]
  have sz: "\<not> sint (word_of_nat z :: i32) < 0" using sint_word_nat [OF node(2)] by simp
  have pp: "fdt_struct_ptr m0 fdt (word_of_nat z) = fdt + word_of_nat (start + length a)" if "layout m0 fdt room start (a @ b) ss" for m0 ss
    unfolding struct_ptr_nat [OF node(2)] struct_at_def layout_numbers(2) [OF that] la ..
  have bound: "i < 2 ^ 31" using layout_header(11,12) [OF lay] add find_name_bound [of strs s] by (auto simp: add_name_def split: option.splits)
  then have si: "\<not> sint (word_of_nat i :: i32) < 0" using sint_word_nat [of i] by simp
  note find = find_add_string_layout [OF lay s(1-4) low]
  have found: "\<exists>m0 alloc. fdt_find_add_string fdt p m = Some (word_of_nat i, alloc, m0) \<and> layout m0 fdt room start (a @ b) strs' \<and>
      same_outside m m0 fdt room \<and> (if alloc then strs' = strs @ s @ [0] else m0 = m \<and> strs' = strs)"
    if "start + length (a @ b) + length strs' \<le> room"
  proof (cases "find_name strs s")
    case None
    with add find(3) that show ?thesis by (fastforce simp: add_name_def)
  next
    case (Some j)
    with add find(1) lay show ?thesis by (auto simp: add_name_def same_outside_def)
  qed
  have size: "start + length (a @ b) + length strs' \<le> start + tokens_size toks + length strs'"
    using encodes_length [OF enc(1)] encodes_length [OF enc(2)] by (simp add: new)
  let ?pp = "fdt + word_of_nat (start + length a)"
  have call: "added = (case fdt_splice_struct fdt ?pp 0 (12 + FDT_TAGALIGN (word_of_nat (length val))) m0 of (err, m1) \<Rightarrow>
      if err \<noteq> 0 then (if alloc then (case fdt_del_last_string fdt p m1 of None \<Rightarrow> None | Some m \<Rightarrow> Some (err, ?pp, m)) else Some (err, ?pp, m1))
      else Some (0, ?pp, fdt32_st (?pp + 4) (word_of_nat (length val)) (fdt32_st (?pp + 8) (word_of_nat i) (fdt32_st ?pp FDT_PROP m1))))"
    if "fdt_find_add_string fdt p m = Some (word_of_nat i, alloc, m0)" "layout m0 fdt room start (a @ b) strs'" for alloc m0
    unfolding added_def fdt_add_property_def node(1) that(1) Let_def using sz si by (simp add: pp [OF that(2)] del: of_nat_add split: prod.split option.split)
  show "\<exists>pp m1. added = Some (0, pp, m1) \<and> holds (put_value pp q (length val) m1) fdt room start toks strs' \<and>
      same_outside m (put_value pp q (length val) m1) fdt room" if fits: "start + tokens_size toks + length strs' \<le> room"
  proof -
    from found size fits obtain m0 alloc where m0: "fdt_find_add_string fdt p m = Some (word_of_nat i, alloc, m0)"
      "layout m0 fdt room start (a @ b) strs'" "same_outside m m0 fdt room" by (meson order_trans)
    from inserted_property(2) [OF m0(2) enc val(1) outside_stored [OF val(2,3) m0(3)] val(3) low refl fits [unfolded new]]
    show ?thesis unfolding call [OF m0(1,2)] using m0(3) ok(2) unfolding holds_def new
      by (fastforce intro: same_outside_trans)
  qed
  assume full: "room < start + tokens_size toks + length strs'"
  show "\<exists>pp m'. added = Some (- FDT_ERR_NOSPACE, pp, m') \<and>
       holds m' fdt room start (ts @ flatten ?x @ us) strs \<and> same_outside m m' fdt room"
  proof (cases "start + length (a @ b) + length strs' \<le> room")
    case False
    with lay have "find_name strs s = None" "room < start + length (a @ b) + length (strs @ s @ [0])"
      using add layout_header(11) [OF lay] by (auto simp: add_name_def split: option.splits)
    from find(2) [OF this] have "added = Some (- FDT_ERR_NOSPACE, 0, m)"
      unfolding added_def fdt_add_property_def node(1) Let_def using sz by simp
    with hold show ?thesis by (auto simp: same_outside_def)
  next
    case True
    from found [OF this] obtain m0 alloc where m0: "fdt_find_add_string fdt p m = Some (word_of_nat i, alloc, m0)"
      "layout m0 fdt room start (a @ b) strs'" "same_outside m m0 fdt room"
      "if alloc then strs' = strs @ s @ [0] else m0 = m \<and> strs' = strs" by blast
    note nospace = inserted_property(1) [OF m0(2) enc val(1) outside_stored [OF val(2,3) m0(3)] val(3) low refl full [unfolded new]]
    show ?thesis
    proof (cases alloc)
      case True
      have "stored m0 p (s @ [0])" by (rule outside_stored [OF _ _ m0(3)]) (use s(1,4) in \<open>simp_all only: cstring_bytes, simp_all\<close>)
      then have "cstring m0 p s" using s(1) by (simp only: cstring_bytes simp_thms)
      from del_last_string_layout [OF _ this] True m0(2,4) obtain m2 where
        m2: "fdt_del_last_string fdt p m0 = Some m2" "layout m2 fdt room start (a @ b) strs" "same_outside m0 m2 fdt room" by force
      have "added = Some (- FDT_ERR_NOSPACE, ?pp, m2)" unfolding call [OF m0(1,2)] nospace by (simp add: True m2(1))
      moreover have "encodes (?pre @ ?post) (a @ b)" using enc unfolding encodes_append by blast
      then have "holds m2 fdt room start (ts @ flatten ?x @ us) strs" using m2(2) ok(1) unfolding old holds_def by blast
      moreover have "same_outside m m2 fdt room" using m0(3) m2(3) by (rule same_outside_trans)
      ultimately show ?thesis by blast
    next
      case False
      then show ?thesis using m0 hold unfolding call [OF m0(1,2)] nospace by simp
    qed
  qed
qed

subsection \<open>The reference\<close>

fun replace_value :: "u8 list \<Rightarrow> u8 list \<Rightarrow> u8 list \<Rightarrow> (u32 \<times> u8 list) list \<Rightarrow> (u32 \<times> u8 list) list" where
  "replace_value strs s val [] = []"
| "replace_value strs s val ((nameoff, v) # ps) =
     (if str_at strs nameoff = s then (nameoff, val) # ps else (nameoff, v) # replace_value strs s val ps)"

definition set_property :: "u8 list \<Rightarrow> u8 list \<Rightarrow> u8 list \<Rightarrow> (u32 \<times> u8 list) list \<Rightarrow> (u32 \<times> u8 list) list \<times> u8 list" where
  "set_property strs s val ps =
     (if \<exists>(nameoff, v) \<in> set ps. str_at strs nameoff = s then (replace_value strs s val ps, strs)
      else case add_name strs s of (i, strs') \<Rightarrow> ((word_of_nat i, val) # ps, strs'))"

lemma find_property_replace:
  "find_property (\<lambda>nameoff. str_at strs nameoff = s) k ps = Some (off, v) \<Longrightarrow>
   \<exists>ps1 nameoff ps2. ps = ps1 @ (nameoff, v) # ps2 \<and> off = k + tokens_size (property_tokens ps1) \<and>
     replace_value strs s val ps = ps1 @ (nameoff, val) # ps2"
proof (induction ps arbitrary: k)
  case (Cons p ps)
  obtain no w where p: "p = (no, w)" by (rule prod.exhaust)
  show ?case
  proof (cases "str_at strs no = s")
    case True
    with Cons.prems p show ?thesis by (intro exI [of _ "[]"]) simp
  next
    case False
    with Cons.prems p Cons.IH [of "k + token_size (Property no w)"] obtain ps1 nameoff ps2 where
      "ps = ps1 @ (nameoff, v) # ps2" "off = k + token_size (Property no w) + tokens_size (property_tokens ps1)"
      "replace_value strs s val ps = ps1 @ (nameoff, val) # ps2" by auto
    with False show ?thesis by (intro exI [of _ "p # ps1"] exI [of _ nameoff] exI [of _ ps2]) (simp add: p add.assoc)
  qed
qed simp

lemma find_property_none:
  "find_property P k ps = None \<longleftrightarrow> \<not> (\<exists>(nameoff, v) \<in> set ps. P nameoff)"
  by (induction P k ps rule: find_property.induct) auto

lemma add_name_at:
  assumes "add_name strs s = (i, strs')" "0 \<notin> set s" "length strs < 2 ^ 32"
  shows "str_ok strs' (word_of_nat i)" "str_at strs' (word_of_nat i) = s" "strs' = strs \<or> strs' = strs @ s @ [0]"
proof -
  have i: "\<exists>rest. drop i strs' = s @ 0 # rest" "i < 2 ^ 32"
  proof (atomize (full), cases "find_name strs s")
    case None
    with assms(1,3) show "(\<exists>rest. drop i strs' = s @ 0 # rest) \<and> i < 2 ^ 32" by (auto simp: add_name_def)
  next
    case (Some j)
    from find_name_bound [OF this] have "drop j strs = (s @ [0]) @ drop (length s + 1) (drop j strs)" "j < 2 ^ 32"
      using assms(3) by (metis append_take_drop_id, linarith)
    with Some assms(1) show "(\<exists>rest. drop i strs' = s @ 0 # rest) \<and> i < 2 ^ 32" by (auto simp: add_name_def)
  qed
  then obtain rest where d: "drop (unat (word_of_nat i :: u32)) strs' = s @ 0 # rest" by (auto simp: unat_offset_nat)
  show "str_ok strs' (word_of_nat i)" by (simp add: str_ok_def d)
  show "str_at strs' (word_of_nat i) = s" unfolding str_at_def d using assms(2) by (subst takeWhile_append2) auto
  show "strs' = strs \<or> strs' = strs @ s @ [0]" using assms(1) by (auto simp: add_name_def split: option.splits)
qed

lemma set_property_names:
  assumes "set_property strs s val ps = (ps', strs')" "\<forall>(nameoff, v) \<in> set ps. str_ok strs nameoff" "0 \<notin> set s" "length strs < 2 ^ 32"
  shows "\<forall>(nameoff, v) \<in> set ps'. str_ok strs' nameoff" "map_of (map (\<lambda>(nameoff, v). (str_at strs' nameoff, v)) ps') s = Some val"
proof -
  obtain i new where new: "add_name strs s = (i, new)" by fastforce
  consider "\<exists>(nameoff, v) \<in> set ps. str_at strs nameoff = s" "ps' = replace_value strs s val ps" "strs' = strs"
    | "add_name strs s = (i, strs')" "ps' = (word_of_nat i, val) # ps"
    using assms(1) unfolding set_property_def new prod.case by (metis new prod.inject)
  then have "(\<forall>(nameoff, v) \<in> set ps'. str_ok strs' nameoff) \<and> map_of (map (\<lambda>(nameoff, v). (str_at strs' nameoff, v)) ps') s = Some val"
  proof cases
    case 1
    have "(\<forall>(nameoff, v) \<in> set ps. str_ok strs nameoff) \<Longrightarrow> (\<forall>(nameoff, v) \<in> set (replace_value strs s val ps). str_ok strs nameoff)"
      "(\<exists>(nameoff, v) \<in> set ps. str_at strs nameoff = s) \<Longrightarrow> map_of (map (\<lambda>(nameoff, v). (str_at strs nameoff, v)) (replace_value strs s val ps)) s = Some val"
      by (induction strs s val ps rule: replace_value.induct) auto
    with 1 assms(2) show ?thesis by simp
  next
    case 2
    note a = add_name_at [OF 2(1) assms(3,4)]
    from a(3) assms(2) have "\<forall>(nameoff, v) \<in> set ps. str_ok strs' nameoff" by (auto intro: str_at_append(1))
    with a(1,2) 2(2) show ?thesis by simp
  qed
  then show "\<forall>(nameoff, v) \<in> set ps'. str_ok strs' nameoff" "map_of (map (\<lambda>(nameoff, v). (str_at strs' nameoff, v)) ps') s = Some val" by blast+
qed

subsection \<open>Setting a property of the tree\<close>

lemma setprop_call:
  assumes "fdt_rw_probe fdt m = (0, m)" "n < 2 ^ 30"
    and "(case fdt_resize_property fdt off p (word_of_nat n) m of
            None \<Rightarrow> None
          | Some (err, pp, m) \<Rightarrow> if err = - FDT_ERR_NOTFOUND then fdt_add_property fdt off p (word_of_nat n) m else Some (err, pp, m)) =
       Some (err, pp, m1)"
  shows "fdt_setprop fdt off p q (word_of_nat n) m = Some (err, if err = 0 then put_value pp q n m1 else m1)"
proof -
  have "unat (word_of_nat n :: i32) = n" using assms(2) by (intro unat_offset_nat) simp
  then have "(word_of_nat n :: i32) = 0 \<longleftrightarrow> n = 0" using unat_eq_zero [of "word_of_nat n :: i32"] by simp
  moreover have "scast (word_of_nat n :: i32) = (word_of_nat n :: u64)" using assms(2) by (intro scast_nat) simp
  ultimately show ?thesis
    unfolding fdt_setprop_def fdt_setprop_placeholder_def assms(1) prod.case assms(3) by (simp add: put_value_def)
qed

lemma fdt_setprop_tokens:
  assumes hold: "holds m fdt room start (ts @ flatten (Node nm properties subs) @ us) strs"
    and names: "\<forall>(nameoff, v) \<in> set properties. str_ok strs nameoff"
    and s: "cstring m p s" "length s < 2 ^ 30" "length s < unat fdt + start" "outside p (length s + 1) fdt room"
    and val: "length val < 2 ^ 30" "stored m q val" "outside q (length val) fdt room" and low: "unat fdt + 2 ^ 32 \<le> 2 ^ 64"
    and new: "set_property strs s val properties = (properties', strs')"
  defines "result \<equiv> fdt_setprop fdt (word_of_nat (tokens_size ts)) p q (word_of_nat (length val)) m"
    and "toks \<equiv> ts @ flatten (Node nm properties' subs) @ us"
  shows "room < start + tokens_size toks + length strs' \<Longrightarrow> \<exists>m'. result = Some (- FDT_ERR_NOSPACE, m') \<and>
       holds m' fdt room start (ts @ flatten (Node nm properties subs) @ us) strs \<and> same_outside m m' fdt room"
    and "start + tokens_size toks + length strs' \<le> room \<Longrightarrow> \<exists>m'. result = Some (0, m') \<and>
       holds m' fdt room start toks strs' \<and> same_outside m m' fdt room"
proof -
  let ?x = "Node nm properties subs" and ?n = "word_of_nat (tokens_size ts) :: i32" and ?k = "word_of_nat (length val) :: i32"
  have "length s < 2 ^ 64" using s(2) by simp
  note w = get_property_w_tree [OF hold _ s(1) this, simplified, OF names]
  note call = setprop_call [OF holds_tree(4) [OF hold] val(1), where off = ?n and p = p and q = q, folded result_def]
  let ?fail = "\<exists>m'. result = Some (- FDT_ERR_NOSPACE, m') \<and>
       holds m' fdt room start (ts @ flatten ?x @ us) strs \<and> same_outside m m' fdt room"
  let ?ok = "\<exists>m'. result = Some (0, m') \<and> holds m' fdt room start toks strs' \<and> same_outside m m' fdt room"
  have "(room < start + tokens_size toks + length strs' \<longrightarrow> ?fail) \<and> (start + tokens_size toks + length strs' \<le> room \<longrightarrow> ?ok)"
  proof (cases "find_property (\<lambda>nameoff. str_at strs nameoff = s) (props_start (tokens_size ts) ?x) properties")
    case None
    obtain i strs'' where add: "add_name strs s = (i, strs'')" by fastforce
    have new': "properties' = (word_of_nat i, val) # properties" "strs' = strs''"
      using new None unfolding find_property_none set_property_def by (auto simp: add)
    have "fdt_resize_property fdt ?n p ?k m = Some (- FDT_ERR_NOTFOUND, 0, m)" using None w by (simp add: fdt_resize_property_def)
    then have res: "result = Some (err, if err = 0 then put_value pp q (length val) m1 else m1)"
      if "fdt_add_property fdt ?n p ?k m = Some (err, pp, m1)" for err pp m1 using that by (intro call) simp
    note added = added_property [OF hold s val low add, folded new', folded toks_def]
    show ?thesis using added res by fastforce
  next
    case (Some r)
    obtain o1 v where r: "r = (o1, v)" by (cases r)
    from find_property_replace [OF Some [unfolded r], of val] obtain ps1 nameoff ps2 where
      ps: "properties = ps1 @ (nameoff, v) # ps2" "o1 = props_start (tokens_size ts) ?x + tokens_size (property_tokens ps1)"
        "replace_value strs s val properties = ps1 @ (nameoff, val) # ps2" by blast
    have new': "properties' = ps1 @ (nameoff, val) # ps2" "strs' = strs"
      using new Some find_property_none [of "\<lambda>nameoff. str_at strs nameoff = s" "props_start (tokens_size ts) ?x" properties]
      unfolding set_property_def ps(3) by (auto split: if_splits prod.splits)
    let ?ts = "ts @ Begin_node nm # property_tokens ps1" and ?us = "property_tokens ps2 @ concat (map flatten subs) @ End_node # us"
    have toks: "ts @ flatten ?x @ us = ?ts @ Property nameoff v # ?us" "toks = ?ts @ Property nameoff val # ?us"
      by (simp_all add: ps(1) toks_def new'(1))
    have hold': "holds m fdt room start (?ts @ Property nameoff v # ?us) strs" using hold by (simp only: toks)
    have at: "fdt_get_property_w m fdt ?n p = Some (Inr (struct_at m fdt (tokens_size ?ts), word_of_nat (length v)))"
      using w Some by (simp add: r ps(2) props_start_def add.assoc)
    note resized = resized_property [OF hold' val(1) at low val(2,3), folded toks]
    show ?thesis
    proof (intro conjI impI)
      assume "room < start + tokens_size toks + length strs'"
      with resized(1) obtain pp where "fdt_resize_property fdt ?n p ?k m = Some (- FDT_ERR_NOSPACE, pp, m)" by (auto simp: new')
      then have "result = Some (- FDT_ERR_NOSPACE, m)" by (subst call) auto
      with hold show ?fail by (auto simp: same_outside_def)
    next
      assume "start + tokens_size toks + length strs' \<le> room"
      with resized(2) obtain pp m1 where m1: "fdt_resize_property fdt ?n p ?k m = Some (0, pp, m1)"
        "holds (put_value pp q (length val) m1) fdt room start toks strs" "same_outside m (put_value pp q (length val) m1) fdt room"
        by (auto simp: new')
      then have "result = Some (0, put_value pp q (length val) m1)" by (subst call) auto
      with m1(2,3) show ?ok by (simp add: new')
    qed
  qed
  then show "room < start + tokens_size toks + length strs' \<Longrightarrow> ?fail" "start + tokens_size toks + length strs' \<le> room \<Longrightarrow> ?ok"
    by blast+
qed

lemma getprop_holds:
  assumes hold: "holds m fdt room start (ts @ flatten (Node nm properties subs) @ us) strs"
    and names: "\<forall>(nameoff, v) \<in> set properties. str_ok strs nameoff"
    and val: "map_of (map (\<lambda>(nameoff, v). (str_at strs nameoff, v)) properties) s = Some val"
  shows "\<exists>r. fdt_getprop m fdt (word_of_nat (tokens_size ts)) s = Some (Inr (r, word_of_nat (length val))) \<and> stored m r val"
proof -
  note h = holds_tree [OF hold]
  let ?x = "Node nm properties subs"
  obtain st where lay: "layout m fdt room start st strs" using hold by (auto simp: holds_def)
  have at: "tokens_at m fdt (tokens_size ts) (flatten ?x)" using h(3) by simp
  have v: "17 \<le> fdt_version m fdt" by (simp add: h(2))
  have "\<forall>(nameoff, v) \<in> set (node_props ?x). string_in m fdt nameoff (str_at strs nameoff)"
    using names string_in_layout [OF lay] by auto
  from getprop_named_tree [OF h(1) v at this, of s] val show ?thesis by (auto simp: stored_def)
qed

lemma fdt_setprop_tree:
  assumes hold: "holds m fdt room start (flatten root @ [End]) strs" and x: "(off, Node nm properties subs) \<in> set (tree_nodes 0 root)"
    and names: "\<forall>(nameoff, v) \<in> set properties. str_ok strs nameoff"
    and s: "cstring m p s" "length s < 2 ^ 30" "length s < unat fdt + start" "outside p (length s + 1) fdt room"
    and val: "length val < 2 ^ 30" "stored m q val" "outside q (length val) fdt room" and low: "unat fdt + 2 ^ 32 \<le> 2 ^ 64"
    and new: "set_property strs s val properties = (properties', strs')"
  defines "result \<equiv> fdt_setprop fdt (word_of_nat off) p q (word_of_nat (length val)) m"
    and "toks \<equiv> concat (map flatten (tree_subst off [Node nm properties' subs] 0 root)) @ [End]"
  shows "room < start + tokens_size toks + length strs' \<Longrightarrow> \<exists>m'. result = Some (- FDT_ERR_NOSPACE, m') \<and>
       holds m' fdt room start (flatten root @ [End]) strs \<and> same_outside m m' fdt room"
    and "start + tokens_size toks + length strs' \<le> room \<Longrightarrow> \<exists>m' r. result = Some (0, m') \<and>
       holds m' fdt room start toks strs' \<and> same_outside m m' fdt room \<and>
       fdt_getprop m' fdt (word_of_nat off) s = Some (Inr (r, word_of_nat (length val))) \<and> stored m' r val"
proof -
  let ?x = "Node nm properties subs" and ?y = "Node nm properties' subs"
  from tree_subst_flatten(1) [OF x, of "[?y]"] obtain ts us where t: "flatten root = ts @ flatten ?x @ us" "tokens_size ts = off"
    "concat (map flatten (tree_subst off [?y] 0 root)) = ts @ flatten ?y @ us" by auto
  have toks: "flatten root @ [End] = ts @ flatten ?x @ us @ [End]" "toks = ts @ flatten ?y @ us @ [End]"
    unfolding toks_def t(1,3) by (simp_all only: append_assoc)
  note sets = fdt_setprop_tokens [OF hold [unfolded toks(1)] names s val low new, folded toks, unfolded t(2), folded result_def]
  show "\<exists>m'. result = Some (- FDT_ERR_NOSPACE, m') \<and> holds m' fdt room start (flatten root @ [End]) strs \<and> same_outside m m' fdt room"
    if "room < start + tokens_size toks + length strs'" using sets(1) [OF that] .
  assume "start + tokens_size toks + length strs' \<le> room"
  from sets(2) [OF this] obtain m' where m': "result = Some (0, m')" "holds m' fdt room start toks strs'" "same_outside m m' fdt room" by blast
  have "length strs < 2 ^ 32" using holds_tree(6,7) [OF hold] by simp
  moreover have "0 \<notin> set s" using s(1) by (simp only: cstring_bytes simp_thms)
  ultimately show "\<exists>m' r. result = Some (0, m') \<and> holds m' fdt room start toks strs' \<and> same_outside m m' fdt room \<and>
       fdt_getprop m' fdt (word_of_nat off) s = Some (Inr (r, word_of_nat (length val))) \<and> stored m' r val"
    using getprop_holds [OF m'(2) [unfolded toks(2)], of s val] set_property_names [OF new names] m' unfolding t(2) by blast
qed

text \<open>C15. \<^verbatim>\<open>fdt_setprop\<close>, in a tree with its blocks in order, whose property names end inside the strings, for a name and a
  value that lie outside of it. The new list of properties and the new strings are those of the reference: the value of the property of
  that name is exchanged, or a property is put before the others, whose name is the first occurrence in the strings or is added at
  their end. If they fit, the call returns 0, the memory holds the tree with them in the place of the node's properties, and
  \<^verbatim>\<open>fdt_getprop\<close> returns the value; if not, it returns \<^verbatim>\<open>FDT_ERR_NOSPACE\<close> and the memory holds the tree it held
  before, a name added on the way being removed. Nothing outside of the tree's memory changes.
\<close>

theorem fdt_setprop_sets:
  assumes "holds m fdt room start (flatten root @ [End]) strs" "(off, Node nm properties subs) \<in> set (tree_nodes 0 root)"
    and "\<forall>(nameoff, v) \<in> set properties. str_ok strs nameoff"
    and "cstring m p s" "length s < 2 ^ 30" "length s < unat fdt + start" "outside p (length s + 1) fdt room"
    and "length val < 2 ^ 30" "stored m q val" "outside q (length val) fdt room" "unat fdt + 2 ^ 32 \<le> 2 ^ 64"
    and "set_property strs s val properties = (properties', strs')"
  shows "let result = fdt_setprop fdt (word_of_nat off) p q (word_of_nat (length val)) m;
         toks = concat (map flatten (tree_subst off [Node nm properties' subs] 0 root)) @ [End]
     in if room < start + tokens_size toks + length strs'
        then \<exists>m'. result = Some (- FDT_ERR_NOSPACE, m') \<and> holds m' fdt room start (flatten root @ [End]) strs \<and> same_outside m m' fdt room
        else \<exists>m' r. result = Some (0, m') \<and> holds m' fdt room start toks strs' \<and> same_outside m m' fdt room \<and>
          fdt_getprop m' fdt (word_of_nat off) s = Some (Inr (r, word_of_nat (length val))) \<and> stored m' r val"
  using fdt_setprop_tree [OF assms] unfolding Let_def by (meson not_less)

definition setprop_mem :: mem where
  "setprop_mem = edit_mem(300 := 120, 301 := 0, 400 := 7, 401 := 8)"

lemma setprop_mem_holds: "holds setprop_mem 0 200 56 (flatten sample_tree @ [End]) (map of_char ''reg'' @ [0])"
  using edit_mem_holds
proof (rule holds_same, intro allI impI)
  fix i :: nat
  assume "i < 200"
  then have "unat (word_of_nat i :: addr) < 200" by (subst unat_of_nat_no_wrap) simp_all
  then have "word_of_nat i \<noteq> (300 :: addr)" "word_of_nat i \<noteq> (301 :: addr)" "word_of_nat i \<noteq> (400 :: addr)" "word_of_nat i \<noteq> (401 :: addr)" by auto
  then show "setprop_mem (0 + word_of_nat i) = edit_mem (0 + word_of_nat i)" by (simp add: setprop_mem_def)
qed

theorem fdt_setprop_sets_witness:
  "\<exists>m' r. fdt_setprop 0 24 300 400 2 setprop_mem = Some (0, m') \<and> holds m' 0 200 56
     (flatten (Node [] [(0, [1, 2, 3])] [Node (map of_char ''cpu@0'') [(4, [7, 8])] [], Node (map of_char ''mem'') [(0, [4])] []]) @ [End])
     (map of_char ''reg'' @ [0, 120, 0]) \<and> fdt_getprop m' 0 24 [120] = Some (Inr (r, 2)) \<and> stored m' r [7, 8]"
proof -
  let ?strs = "map of_char ''reg'' @ [0 :: u8]" and ?name = "map of_char ''cpu@0'' :: u8 list"
  have "(24, Node ?name [] []) \<in> set (tree_nodes 0 sample_tree)" by (simp add: sample_tree_nodes)
  moreover have "\<forall>(nameoff, v) \<in> set ([] :: (u32 \<times> u8 list) list). str_ok ?strs nameoff" by simp
  moreover have "cstring setprop_mem 300 [120]" "length [120 :: u8] < 2 ^ 30" "length [120 :: u8] < unat (0 :: addr) + 56"
    "outside 300 (length [120 :: u8] + 1) 0 200" by (simp_all add: setprop_mem_def outside_def All_less_Suc)
  moreover have "length [7, 8 :: u8] < 2 ^ 30" "stored setprop_mem 400 [7, 8]" "outside 400 (length [7, 8 :: u8]) 0 200"
    "unat (0 :: addr) + 2 ^ 32 \<le> 2 ^ 64" by (simp_all add: setprop_mem_def outside_def All_less_Suc)
  moreover have "set_property ?strs [120] [7, 8] [] = ([(4, [7, 8])], ?strs @ [120, 0])"
    by (simp add: set_property_def add_name_def find_name_def upt_conv_Cons)
  note sets = fdt_setprop_sets [OF setprop_mem_holds calculation this]
  moreover have "tree_subst 24 [Node ?name [(4, [7, 8])] []] 0 sample_tree =
      [Node [] [(0, [1, 2, 3])] [Node ?name [(4, [7, 8])] [], Node (map of_char ''mem'') [(0, [4])] []]]"
    by (simp add: sample_tree_def subs_start_def token_size_def)
  moreover have "tokens_size (flatten (Node [] [(0, [1, 2, 3])] [Node ?name [(4, [7, 8])] [], Node (map of_char ''mem'') [(0, [4])] []]) @ [End]) = 92"
    by (simp add: token_size_def)
  ultimately show ?thesis by (auto simp: Let_def)
qed

end
