(* ===== verification/Spec2Isabelle.thy ===== *)
theory Spec2Isabelle
  imports Boot Strtoul Vm_Run Thread_Create Fdt_Query Fdt_Setprop
begin

text \<open>
  \<^bold>\<open>A verification of the Monix kernel.\<close>

  Monix is a small kernel for 64-bit Arm machines, written in C. The boot loader enters it with a
  structure of boot arguments and a flattened device tree; \<^verbatim>\<open>kernel_init\<close> builds the page tables, reads the
  machine's memory and cpus from the tree, sets up the page allocator, the kernel's address map and the
  zone allocator, initialises console, interrupts and timer, creates the kernel task and its first thread and
  switches to it; from then on the timer interrupt drives a round-robin scheduler. This library
  models these parts as functions on an explicit state and proves what they promise to each other.

  \<^bold>\<open>How the code is represented.\<close> A fallible routine returns an \<open>outcome\<close>: \<open>Inr\<close> with its result and the
  new state, or \<open>Inl\<close> with the reason why it does not return: a panic, a failed assertion, a loop
  that never ends (\<open>Diverges\<close>) or undefined behaviour of C (\<open>Undefined\<close>). Machine integers are
  words of their width and wrap as the compiled code does; \<^verbatim>\<open>int\<close> values are 32-bit words read with \<open>sint\<close>. A
  loop that may run forever is a \<open>partial_function\<close> into an option, so that \<open>None\<close> is divergence; no
  fuel is used anywhere. The kernel's structures are records in one store per type, keyed by address; list nodes live in a
  heap of their own at the object's address plus the member's offset; page-table entries are 64-bit
  cells. Byte-level code (strings, console, device tree) works on a memory of bytes. What the C code is
  linked against is a parameter: the address translation instruction, the addresses of symbols,
  the identification register (\<open>arch_env\<close>), devices as functions of the history of accesses (\<open>device\<close>), and the
  contents of uninitialised variables.

  \<^bold>\<open>The theories.\<close>

  \<^item> \<open>Monix_Prelude\<close>: types, outcomes, rule collections, lemmas on lists and words.
  \<^item> \<open>List_Interface\<close>, \<open>List_Head\<close>: \<^verbatim>\<open>libkern/list.h\<close>. The locale \<open>intrusive_list\<close> is the contract the other
    parts rely on; \<open>List_Head\<close> models each operation as the pointer writes of the C function, shows that
    each implements the list operation its comment promises, and interprets the locale.
  \<^item> \<open>Kernel_State\<close>: the structures of the headers, the heap, the global variables and the environment.
  \<^item> \<open>Page_Interface\<close>, \<open>Vm_Page\<close>: \<^verbatim>\<open>kern/vm/vm_page.c\<close>. Bootstrapping gives one descriptor per frame and marks the frames in
    use; allocation returns the lowest free frame; freeing clears the wrong descriptor unless the kernel
    starts where memory does. The locale of the interface is what the map layer uses.
  \<^item> \<open>Pmap\<close>: \<^verbatim>\<open>kern/vm/pmap.c\<close>. The table walk of the hardware is the specification: a region inside one
    level-1 slot is translated as asked for; one that crosses a slot is not mapped beyond it.
  \<^item> \<open>Vm_Map\<close>: \<^verbatim>\<open>kern/vm/vm_map.c\<close>. The invariant of a map and its preservation, the exact effect of
    \<^verbatim>\<open>vm_map_alloc\<close>, and that recorded ranges never overlap.
  \<^item> \<open>Vm\<close>: \<^verbatim>\<open>kern/vm/vm.c\<close>. The boot tables translate the kernel image and the console; \<^verbatim>\<open>vm_configure\<close>
    establishes the invariants of pages and map.
  \<^item> \<open>Vm_Run\<close>: the memory layer as a state machine whose steps are frame and range allocations; its invariant over
    all runs from \<^verbatim>\<open>vm_configure\<close>.
  \<^item> \<open>Zalloc\<close>: \<^verbatim>\<open>kern/mm/zalloc.c\<close>. A new zone holds the capacity asked for, freeing undoes allocating, and an
    exhausted zone hands out its own list head.
  \<^item> \<open>Cpu\<close>: \<^verbatim>\<open>kern/cpu.c\<close>, \<^verbatim>\<open>kern/processor.c\<close> and the cpu number of \<^verbatim>\<open>kern/machine.c\<close>.
  \<^item> \<open>Task_Thread\<close>: \<^verbatim>\<open>kern/task.c\<close>, \<^verbatim>\<open>kern/thread.c\<close>, \<^verbatim>\<open>kern/mm/stack.c\<close>. Creation, destruction and the saved context.
  \<^item> \<open>Sched\<close>: \<^verbatim>\<open>kern/sched.c\<close>. The switch, round robin, and divergence when the next thread is not active.
  \<^item> \<open>Tiny_String\<close>, \<open>Strtoul\<close>: \<^verbatim>\<open>libkern/tinylibc/string\<close> on bytes, word-wise copies included, and the
    character classes; \<^verbatim>\<open>strtoul\<close> agrees with a reference on the characters of the string.
  \<^item> \<open>Mmio\<close>, \<open>Pl011\<close>, \<open>Printk\<close>: register frames, the serial port and the console. \<^verbatim>\<open>printk\<close> sends exactly the
    rendering of its format, when the port drains.
  \<^item> \<open>Gic\<close>: \<^verbatim>\<open>drivers/irq/irq-gicv3.c\<close>, \<^verbatim>\<open>kern/machine/machine-irq.c\<close> and the timer: the layout of the frames and
    the register writes of each operation.
  \<^item> \<open>Exception\<close>, \<open>Panic\<close>: \<^verbatim>\<open>kern/exception.c\<close>, \<^verbatim>\<open>kern/panic.c\<close>. Which panic each synchronous exception ends in, the
    path of the timer interrupt into the scheduler, and what a panic prints before it halts.
  \<^item> \<open>Sched_Run\<close>: the timer's interrupts as a state machine, from the interrupt through the scheduler to
    \<^verbatim>\<open>sched_tail\<close>: the order of the threads over any number of slices and the context each resumes with.
  \<^item> \<open>Thread_Create\<close>: \<^verbatim>\<open>thread_create\<close> through both zones, the kernel map and three lists, and the first turn of the new
    thread among those that run.
  \<^item> \<open>Fdt\<close>, \<open>Fdt_Ro\<close>: \<^verbatim>\<open>libkern/libfdt/fdt.c\<close> and the part of \<^verbatim>\<open>fdt_ro.c\<close> the kernel uses: bounds of the
    tags, termination of the traversal and the tree on which it does not end.
  \<^item> \<open>Fdt_Tree\<close>, \<open>Fdt_Phandle\<close>: trees and their encoding, the reference for the reading functions: paths,
    properties, subnodes and phandles are found in the bytes where the tree has them. The locale \<open>tree_walk\<close> is the
    law of a traversal that passes over subtrees; it is interpreted on the two loops of the library.
  \<^item> \<open>Fdt_Query\<close>: the rest of \<^verbatim>\<open>fdt_ro.c\<close>: searches by property and by \<^verbatim>\<open>compatible\<close>, depths, parents, paths, string
    lists, phandles and the full check. The locale \<open>node_search\<close> of \<open>Fdt_Phandle\<close> is the contract of the searches over all
    nodes; it is interpreted on the three loops of the library.
  \<^item> \<open>Devicetree\<close>: \<^verbatim>\<open>platform/devicetree.c\<close>, \<^verbatim>\<open>platform/platform.c\<close>. Lookups and iteration in encoded trees, and the
    \<^verbatim>\<open>reg\<close> lookup that swaps its cells inside the tree.
  \<^item> \<open>Machine\<close>: the topology of \<^verbatim>\<open>kern/machine.c\<close>: clusters and cpus as the tree lists them.
  \<^item> \<open>Fdt_Update\<close>: a tree whose \<^verbatim>\<open>reg\<close> was swapped is still a readable tree.
  \<^item> \<open>Fdt_Write\<close>, \<open>Fdt_Sw\<close>: \<^verbatim>\<open>fdt_rw.c\<close>, \<^verbatim>\<open>fdt_wip.c\<close>, \<^verbatim>\<open>fdt_addresses.c\<close>, \<^verbatim>\<open>fdt_strerror.c\<close>,
    \<^verbatim>\<open>fdt_sw.c\<close> and \<^verbatim>\<open>fdt_empty_tree.c\<close> of libfdt: editing a tree where it lies and building one from its start.
  \<^item> \<open>Fdt_Edit\<close>: what the editing functions do to an encoded tree: splices as operations on the list of its bytes, and the tree
    that results from deleting and adding nodes, errors included.
  \<^item> \<open>Fdt_Setprop\<close>: \<^verbatim>\<open>fdt_setprop\<close> on an encoded tree: the resized or added property, its name in the strings, and the
    tree that is left when there is no room.
  \<^item> \<open>Boot\<close>: \<^verbatim>\<open>kern/main.c\<close>: the composition of the parts, from the boot arguments to the point where zones and
    threads are set up.

  \<^bold>\<open>Interaction.\<close> The allocators are used from the bottom up: \<open>vm_map_alloc\<close> takes frames through the page
  interface and maps them with \<open>pmap_tt_create_tte\<close>; zones take their pages from the map; tasks, threads, stacks
  and processors are elements of zones and are linked through \<open>list_head\<close> nodes; the scheduler walks the ring of
  threads; the timer interrupt calls the scheduler. Every invariant is established by the
  initialisation that the boot sequence runs first and is a hypothesis of the operations that come later.

  \<^bold>\<open>Bounds.\<close> Where a property has a numeric hypothesis (no wrap-around of an array of descriptors, fewer than
  \<open>2 ^ 32\<close> entries of a map, a tree smaller than \<open>2 ^ 31\<close> bytes, the sizes of the static arrays) it is
  the bound inside which the C arithmetic is exact; the witness of each property evaluates it on a small concrete
  machine.

  \<^bold>\<open>Not modelled.\<close> The assembly of \<^verbatim>\<open>arch\<close> (reset, vectors, context restore, linker script), apart from
  the two timer routines; console messages outside console and panic; the dump and self-test routines, which only print; \<^verbatim>\<open>fdt_overlay.c\<close>
  of libfdt, which the kernel never calls; the level-3 branch of \<^verbatim>\<open>pmap_tt_create_tte\<close>, which the default configuration leaves
  out. Barriers have no effect in the model. \<^verbatim>\<open>sysreg_write\<close> is modelled as writing its
  argument, although its operand is declared as an output. Objects of different types do not overlap; in
  particular the page-table cells that \<^verbatim>\<open>vm_map_alloc\<close> writes through the map's own address are not seen as part of the map
  structure. The stages of the boot sequence after \<^verbatim>\<open>vm_configure\<close> are modelled and composed; that they
  succeed on a whole machine is proved for the single operations only.
\<close>

end
